(* ===== verification/Prelude.thy ===== *)
theory Prelude
  imports Main "HOL-Library.Word"
begin

section \<open>Shared vocabulary: runs of C code, heaps, linked lists\<close>

text \<open>
  What every component of the development uses: the result type of a piece of C code
  (a value, a crash, or no return at all), addresses and heaps, and singly linked lists in
  a heap with the lemmas that reason about them.
\<close>

subsection \<open>Runs\<close>

text \<open>
  A run of a C function is \<open>None\<close> when it never returns, \<open>Some (Inl e)\<close> when it
  crashes or reaches undefined behaviour, and \<open>Some (Inr x)\<close> when it returns \<open>x\<close>.
\<close>

datatype crash = NullDeref | UseAfterFree | OutOfBounds | AssertFail | AbortCall | SignedOverflow

type_synonym 'a run = "(crash + 'a) option"

definition ret :: "'a \<Rightarrow> 'a run" where
  "ret x = Some (Inr x)"

definition crashed :: "crash \<Rightarrow> 'a run" where
  "crashed e = Some (Inl e)"

definition bindR :: "'a run \<Rightarrow> ('a \<Rightarrow> 'b run) \<Rightarrow> 'b run" where
  "bindR m f = Option.bind m (\<lambda>r. case r of Inl e \<Rightarrow> Some (Inl e) | Inr x \<Rightarrow> f x)"

lemma bindR_simps [simp]:
  "bindR (ret x) f = f x"
  "bindR (crashed e) f = crashed e"
  "bindR None f = None"
  by (simp_all add: bindR_def ret_def crashed_def)

lemma ret_eq_iff [simp]: "ret x = ret y \<longleftrightarrow> x = y"
  by (simp add: ret_def)

lemma ret_neq [simp]:
  "ret x \<noteq> crashed e" "crashed e \<noteq> ret x" "ret x \<noteq> None" "None \<noteq> ret x"
  "crashed e \<noteq> None" "None \<noteq> crashed e"
  by (simp_all add: ret_def crashed_def)

lemma bindR_eq_ret: "bindR m f = ret y \<longleftrightarrow> (\<exists>x. m = ret x \<and> f x = ret y)"
  by (auto simp: bindR_def ret_def split: option.splits sum.splits bind_splits)

lemma bindR_assoc: "bindR (bindR m f) g = bindR m (\<lambda>x. bindR (f x) g)"
  by (cases m) (auto simp: bindR_def split: sum.splits)

lemma bindR_mono [partial_function_mono]:
  assumes "mono_option B" and "\<And>y. mono_option (\<lambda>f. C y f)"
  shows "mono_option (\<lambda>f. bindR (B f) (\<lambda>y. C y f))"
proof -
  have "mono_option (\<lambda>f. case r of Inl e \<Rightarrow> Some (Inl e) | Inr x \<Rightarrow> C x f)" for r
    by (cases r) (simp_all add: assms(2) option.const_mono)
  then show ?thesis
    unfolding bindR_def by (intro bind_mono assms(1))
qed

text \<open>
  \<open>outcome m P\<close>: the run \<open>m\<close> does not crash, and what it returns, if it returns, satisfies
  \<open>P\<close>. The rules follow the structure of a run.
\<close>

definition outcome :: "'a run \<Rightarrow> ('a \<Rightarrow> bool) \<Rightarrow> bool" where
  "outcome m P \<longleftrightarrow> m = None \<or> (\<exists>x. m = ret x \<and> P x)"

lemma outcome_simps [simp]:
  "outcome None P" "outcome (ret x) P \<longleftrightarrow> P x" "\<not> outcome (crashed e) P"
  by (auto simp: outcome_def)

lemma outcome_bind:
  assumes "outcome m P" and "\<And>x. P x \<Longrightarrow> outcome (f x) Q"
  shows "outcome (bindR m f) Q"
proof (cases "m = None")
  case False
  with assms(1) obtain x where "m = ret x" "P x" by (auto simp: outcome_def)
  then show ?thesis using assms(2)[of x] by simp
qed simp

lemma outcome_mono: "outcome m P \<Longrightarrow> (\<And>x. P x \<Longrightarrow> Q x) \<Longrightarrow> outcome m Q"
  by (auto simp: outcome_def)

lemma outcome_eq: "outcome m P \<Longrightarrow> outcome m (\<lambda>x. m = ret x \<and> P x)"
  by (auto simp: outcome_def)

lemma outcome_retD: "outcome m P \<Longrightarrow> m = ret x \<Longrightarrow> P x"
  by (auto simp: outcome_def)

lemma outcome_not_crashed: "outcome m P \<Longrightarrow> m \<noteq> crashed e"
  by (auto simp: outcome_def)

text \<open>A \<open>for\<close> loop over the indices of a list.\<close>

fun forR :: "('i \<Rightarrow> 's \<Rightarrow> 's run) \<Rightarrow> 'i list \<Rightarrow> 's \<Rightarrow> 's run" where
  "forR body [] s = ret s"
| "forR body (i # is) s = bindR (body i s) (forR body is)"

text \<open>
  The loop rule: an invariant indexed by the iterations done, kept by each iteration of the
  body, holds at the end, and the loop ends.
\<close>

lemma forR_invariant:
  assumes "I 0 s"
    and "\<And>n s. n < length is \<Longrightarrow> I n s \<Longrightarrow> \<exists>s'. body (is ! n) s = ret s' \<and> I (Suc n) s'"
  shows "\<exists>s'. forR body is s = ret s' \<and> I (length is) s'"
  using assms
proof (induction "is" arbitrary: s I)
  case Nil
  then show ?case by simp
next
  case (Cons i js)
  from Cons.prems(2)[of 0 s] Cons.prems(1) obtain s1 where s1: "body i s = ret s1" "I 1 s1"
    by auto
  have "\<exists>s'. forR body js s1 = ret s' \<and> I (Suc (length js)) s'"
  proof (rule Cons.IH[of "\<lambda>n. I (Suc n)"])
    show "I (Suc 0) s1" using s1(2) by simp
    fix n s assume "n < length js" "I (Suc n) s"
    then show "\<exists>s'. body (js ! n) s = ret s' \<and> I (Suc (Suc n)) s'"
      using Cons.prems(2)[of "Suc n" s] by simp
  qed
  then show ?case using s1(1) by simp
qed

text \<open>The same for a schedule, whose steps each keep an invariant, and may crash or not.\<close>

lemma forR_outcome:
  assumes "\<And>i s. P s \<Longrightarrow> outcome (body i s) P" and "P s"
  shows "outcome (forR body is s) P"
  using assms(2) by (induction "is" arbitrary: s) (auto intro!: outcome_bind assms(1))

lemma forR_keeps:
  assumes "\<And>i s. P s \<Longrightarrow> \<exists>s'. body i s = ret s' \<and> P s'" and "P s"
  shows "\<exists>s'. forR body is s = ret s' \<and> P s'"
  by (rule forR_invariant[where I = "\<lambda>_. P"]) (use assms in auto)

lemma forR_append: "forR body (is @ js) s = bindR (forR body is s) (forR body js)"
  by (induction "is" arbitrary: s) (auto simp: bindR_assoc intro!: arg_cong2[where f = bindR])

subsection \<open>Heaps\<close>

type_synonym addr = nat
type_synonym ptr = "addr option"  \<comment> \<open>\<open>None\<close> is \<open>NULL\<close>\<close>

definition deref :: "(addr \<rightharpoonup> 'r) \<Rightarrow> ptr \<Rightarrow> 'r run" where
  "deref h p = (case p of None \<Rightarrow> crashed NullDeref
     | Some a \<Rightarrow> (case h a of None \<Rightarrow> crashed UseAfterFree | Some r \<Rightarrow> ret r))"

lemma deref_simps [simp]:
  "deref h None = crashed NullDeref"
  "h a = Some r \<Longrightarrow> deref h (Some a) = ret r"
  "h a = None \<Longrightarrow> deref h (Some a) = crashed UseAfterFree"
  by (simp_all add: deref_def)

text \<open>\<open>links f h\<close> is the field \<open>f\<close> of every allocated cell.\<close>

definition links :: "('r \<Rightarrow> 'f) \<Rightarrow> (addr \<rightharpoonup> 'r) \<Rightarrow> (addr \<rightharpoonup> 'f)" where
  "links f h = (\<lambda>a. map_option f (h a))"

lemma links_apply: "links f h a = map_option f (h a)"
  by (simp add: links_def)

lemma links_Some [simp]: "h a = Some r \<Longrightarrow> links f h a = Some (f r)"
  by (simp add: links_def)

lemma links_upd [simp]: "links f (h(a \<mapsto> r)) = (links f h)(a \<mapsto> f r)"
  by (auto simp: links_def)

lemma links_del [simp]: "links f (h(a := None)) = (links f h)(a := None)"
  by (auto simp: links_def)

lemma links_empty [simp]: "links f Map.empty = Map.empty"
  by (auto simp: links_def)

lemma dom_links [simp]: "dom (links f h) = dom h"
  by (auto simp: links_def dom_def)

lemma links_eq_Some_iff: "links f h a = Some x \<longleftrightarrow> (\<exists>r. h a = Some r \<and> x = f r)"
  by (auto simp: links_def)

text \<open>A field that is computed from what two heaps agree on is the same in both.\<close>

lemma links_factor:
  assumes "links g h' = links g h" and "\<And>r. f r = k (g r)"
  shows "links f h' = links f h"
proof -
  have "f = (\<lambda>r. k (g r))" using assms(2) by blast
  then have "links f h = (\<lambda>a. map_option k (links g h a))" for h
    by (simp add: links_def option.map_comp comp_def)
  then show ?thesis using assms(1) by simp
qed

lemma links_id_upd: "l a = Some x \<Longrightarrow> l(a \<mapsto> x) = l"
  by auto

subsection \<open>Linked lists in a heap\<close>

text \<open>
  \<open>lseg l p as q\<close>: following the links \<open>l\<close> from pointer \<open>p\<close> visits the cells
  \<open>as\<close> and stops at pointer \<open>q\<close>.
\<close>

fun lseg :: "(addr \<rightharpoonup> ptr) \<Rightarrow> ptr \<Rightarrow> addr list \<Rightarrow> ptr \<Rightarrow> bool" where
  "lseg l p [] q = (p = q)"
| "lseg l p (a # as) q = (p = Some a \<and> (\<exists>b. l a = Some b \<and> lseg l b as q))"

abbreviation llist :: "(addr \<rightharpoonup> ptr) \<Rightarrow> ptr \<Rightarrow> addr list \<Rightarrow> bool" where
  "llist l p as \<equiv> lseg l p as None"

lemma lseg_append: "lseg l p (as @ bs) q \<longleftrightarrow> (\<exists>m. lseg l p as m \<and> lseg l m bs q)"
  by (induction as arbitrary: p) auto

lemma lseg_cong: "(\<And>a. a \<in> set as \<Longrightarrow> l a = l' a) \<Longrightarrow> lseg l p as q = lseg l' p as q"
  by (induction as arbitrary: p) auto

lemma lseg_frame [simp]: "a \<notin> set as \<Longrightarrow> lseg (l(a := x)) p as q = lseg l p as q"
  by (rule lseg_cong) auto

lemma lseg_dom: "lseg l p as q \<Longrightarrow> set as \<subseteq> dom l"
  by (induction as arbitrary: p) auto

lemma llist_None [simp]: "llist l None as \<longleftrightarrow> as = []"
  by (cases as) auto

lemma llist_Some: "llist l (Some a) as \<longleftrightarrow> (\<exists>b bs. as = a # bs \<and> l a = Some b \<and> llist l b bs)"
  by (cases as) auto

lemma llist_unique: "llist l p as \<Longrightarrow> llist l p bs \<Longrightarrow> as = bs"
proof (induction as arbitrary: p bs)
  case Nil
  then show ?case by simp
next
  case (Cons a as)
  then show ?case by (cases bs) auto
qed

lemma llist_split_unique:
  assumes "llist l p (xs @ a # ys)" and "llist l p (us @ a # vs)"
  shows "a # ys = a # vs"
  using assms by (auto simp: lseg_append intro: llist_unique)

lemma llist_distinct: "llist l p as \<Longrightarrow> distinct as"
proof (induction as arbitrary: p)
  case Nil
  then show ?case by simp
next
  case (Cons a as)
  then obtain b where b: "l a = Some b" "llist l b as" by auto
  have "a \<notin> set as"
  proof
    assume "a \<in> set as"
    then obtain xs ys where as: "as = xs @ a # ys" by (auto simp: in_set_conv_decomp)
    with b have "llist l (Some a) (a # ys)" by (auto simp: lseg_append)
    moreover have "llist l (Some a) (a # xs @ a # ys)" using b as by simp
    ultimately have "a # ys = a # xs @ a # ys" by (rule llist_unique)
    then have "length (a # ys) = length (a # xs @ a # ys)" by (rule arg_cong)
    then show False by simp
  qed
  with Cons.IH b(2) show ?case by simp
qed

text \<open>The pointers to the first and the last cell of a list, with a default for the empty one.\<close>

definition first_ptr :: "addr list \<Rightarrow> ptr \<Rightarrow> ptr" where
  "first_ptr as q = (case as of [] \<Rightarrow> q | a # _ \<Rightarrow> Some a)"

definition last_ptr :: "ptr \<Rightarrow> addr list \<Rightarrow> ptr" where
  "last_ptr p as = (if as = [] then p else Some (last as))"

lemma first_ptr_simps [simp]:
  "first_ptr [] q = q" "first_ptr (a # as) q = Some a"
  by (simp_all add: first_ptr_def)

lemma last_ptr_simps [simp]:
  "last_ptr p [] = p" "last_ptr p (as @ [a]) = Some a"
  by (simp_all add: last_ptr_def)

lemma first_ptr_append: "first_ptr (as @ bs) q = first_ptr as (first_ptr bs q)"
  by (cases as) auto

lemma last_ptr_Cons: "last_ptr p (a # as) = last_ptr (Some a) as"
  by (simp add: last_ptr_def)

lemma last_ptr_append: "last_ptr p (as @ bs) = last_ptr (last_ptr p as) bs"
  by (simp add: last_ptr_def)

lemma lseg_first: "lseg l p as q \<Longrightarrow> p = first_ptr as q"
  by (cases as) auto

lemma first_ptr_None [simp]: "first_ptr as None = None \<longleftrightarrow> as = []"
  by (cases as) auto

lemma last_ptr_None [simp]: "last_ptr None as = None \<longleftrightarrow> as = []"
  by (simp add: last_ptr_def)

text \<open>Appending a fresh cell after the last one, as the code does through its tail pointer.\<close>

lemma llist_snoc:
  assumes "llist l p (as @ [a])" and "b \<notin> set (as @ [a])"
  shows "llist (l(b \<mapsto> None, a \<mapsto> Some b)) p (as @ [a, b])"
proof -
  from assms(1) have d: "distinct (as @ [a])" by (rule llist_distinct)
  from assms(1) have "lseg l p as (Some a)" by (auto simp: lseg_append)
  with d assms(2) show ?thesis by (simp add: lseg_append)
qed

text \<open>Unlinking the cell after \<open>a\<close>.\<close>

lemma llist_unlink:
  assumes "llist l p (as @ a # b # bs)" and "l b = Some q"
  shows "llist (l(a \<mapsto> q)) p (as @ a # bs)"
proof -
  from assms(1) have d: "distinct (as @ a # b # bs)" by (rule llist_distinct)
  from assms(1) have "lseg l p as (Some a)" and "llist l (Some b) (b # bs)"
    by (auto simp: lseg_append)
  moreover from this assms(2) have "llist l q bs" by auto
  ultimately show ?thesis using d by (simp add: lseg_append)
qed

end
