(* ===== verification/LockOrder.thy ===== *)
theory LockOrder
  imports Prelude
begin

section \<open>Mutexes of the proxy: traces and the global lock order\<close>

text \<open>
  The HTTP cache and the proxy use six kinds of mutex. The operations of the model record
  every acquisition, release, destruction and broadcast they make, in order; this theory
  holds the replay of such a trace and the order in which the code nests the mutexes.
\<close>

datatype cache_lock =
    SearchCreateMutex
  | BucketLock nat
  | EntryLock addr
  | LruLock
  | SizeLock
  | CollectorLock

datatype sync_event =
    Acquire cache_lock
  | Release cache_lock
  | Destroy cache_lock
  | Broadcast addr

subsection \<open>The order\<close>

fun lock_rank :: "cache_lock \<Rightarrow> nat \<times> nat" where
  "lock_rank SearchCreateMutex = (0, 0)"
| "lock_rank (BucketLock i) = (1, i)"
| "lock_rank (EntryLock a) = (2, a)"
| "lock_rank LruLock = (3, 0)"
| "lock_rank SizeLock = (4, 0)"
| "lock_rank CollectorLock = (5, 0)"

lemma lock_rank_inj: "lock_rank l = lock_rank m \<Longrightarrow> l = m"
  by (cases l; cases m) auto

instantiation cache_lock :: linorder
begin

definition less_cache_lock :: "cache_lock \<Rightarrow> cache_lock \<Rightarrow> bool" where
  "less_cache_lock l m \<longleftrightarrow>
     fst (lock_rank l) < fst (lock_rank m) \<or>
     fst (lock_rank l) = fst (lock_rank m) \<and> snd (lock_rank l) < snd (lock_rank m)"

definition less_eq_cache_lock :: "cache_lock \<Rightarrow> cache_lock \<Rightarrow> bool" where
  "less_eq_cache_lock l m \<longleftrightarrow> l < m \<or> l = m"

instance
proof
  fix x y z :: cache_lock
  show "(x < y) = (x \<le> y \<and> \<not> y \<le> x)"
    by (auto simp: less_cache_lock_def less_eq_cache_lock_def)
  show "x \<le> x" by (simp add: less_eq_cache_lock_def)
  show "x \<le> z" if "x \<le> y" "y \<le> z"
    using that by (auto simp: less_cache_lock_def less_eq_cache_lock_def)
  show "x = y" if "x \<le> y" "y \<le> x"
    using that by (auto simp: less_cache_lock_def less_eq_cache_lock_def)
  show "x \<le> y \<or> y \<le> x"
    using lock_rank_inj[of x y] prod_eqI[of "lock_rank x" "lock_rank y"]
    by (fastforce simp: less_cache_lock_def less_eq_cache_lock_def)
qed

end

lemma lock_less_simps [simp]:
  "SearchCreateMutex < BucketLock i" "SearchCreateMutex < EntryLock a"
  "SearchCreateMutex < LruLock" "SearchCreateMutex < SizeLock"
  "BucketLock i < EntryLock a" "BucketLock i < LruLock" "BucketLock i < SizeLock"
  "EntryLock a < LruLock" "EntryLock a < SizeLock" "LruLock < SizeLock"
  by (simp_all add: less_cache_lock_def)

subsection \<open>Replaying a trace\<close>

text \<open>
  \<open>replay hs evs\<close> is the list of mutexes held after \<open>evs\<close> by a thread that holds
  \<open>hs\<close>, or \<open>None\<close> when the trace acquires a mutex that is not above all those held,
  releases one it does not hold or destroys one it holds.
\<close>

fun replay :: "cache_lock list \<Rightarrow> sync_event list \<Rightarrow> cache_lock list option" where
  "replay hs [] = Some hs"
| "replay hs (Acquire l # evs) =
     (if \<forall>h \<in> set hs. h < l then replay (l # hs) evs else None)"
| "replay hs (Release l # evs) =
     (if l \<in> set hs then replay (remove1 l hs) evs else None)"
| "replay hs (Destroy l # evs) = (if l \<in> set hs then None else replay hs evs)"
| "replay hs (Broadcast a # evs) = replay hs evs"

lemma replay_append: "replay hs (xs @ ys) = Option.bind (replay hs xs) (\<lambda>hs'. replay hs' ys)"
  by (induction hs xs rule: replay.induct) auto

definition disciplined :: "cache_lock list \<Rightarrow> sync_event list \<Rightarrow> bool" where
  "disciplined hs evs \<longleftrightarrow> replay hs evs = Some hs"

lemma disciplined_Nil [simp]: "disciplined hs []"
  by (simp add: disciplined_def)

lemma disciplined_append: "disciplined hs xs \<Longrightarrow> disciplined hs ys \<Longrightarrow> disciplined hs (xs @ ys)"
  by (simp add: disciplined_def replay_append)

lemma disciplined_section:
  assumes "\<forall>h \<in> set hs. h < l" and "disciplined (l # hs) evs"
  shows "disciplined hs (Acquire l # evs @ [Release l])"
  using assms by (simp add: disciplined_def replay_append)

lemma disciplined_Broadcast [simp]: "disciplined hs [Broadcast a]"
  by (simp add: disciplined_def)

subsection \<open>Threads under the discipline do not deadlock\<close>

text \<open>A thread stands before the acquisition of \<open>l\<close>, which its discipline allows.\<close>

definition stands_before :: "sync_event list \<Rightarrow> cache_lock \<Rightarrow> bool" where
  "stands_before pre l \<longleftrightarrow> replay [] (pre @ [Acquire l]) \<noteq> None"

definition held_after :: "sync_event list \<Rightarrow> cache_lock set" where
  "held_after pre = (case replay [] pre of None \<Rightarrow> {} | Some hs \<Rightarrow> set hs)"

lemma disciplined_prefix:
  assumes "disciplined [] (pre @ Acquire l # rest)"
  shows "stands_before pre l"
  using assms by (cases "replay [] pre") (auto simp: disciplined_def stands_before_def replay_append
      split: if_splits)

lemma stands_before_above:
  assumes "stands_before pre l" and "h \<in> held_after pre"
  shows "h < l"
  using assms by (cases "replay [] pre") (auto simp: stands_before_def held_after_def replay_append
      split: if_splits)

text \<open>Of any finite set of blocked threads, the one that wants the highest mutex waits for none of them.\<close>

lemma some_thread_unblocked:
  assumes "finite T" "T \<noteq> {}" and "\<And>t. t \<in> T \<Longrightarrow> stands_before (pre t) (want t)"
  shows "\<exists>t \<in> T. \<forall>u \<in> T. want t \<notin> held_after (pre u)"
proof -
  let ?m = "Max (want ` T)"
  have "?m \<in> want ` T" using assms(1,2) by (intro Max_in) auto
  then obtain t where t: "t \<in> T" "want t = ?m" by auto
  have "want t \<notin> held_after (pre u)" if u: "u \<in> T" for u
  proof
    assume "want t \<in> held_after (pre u)"
    then have "want t < want u" using stands_before_above[OF assms(3)[OF u]] by simp
    moreover have "want u \<le> ?m" using assms(1) u by (intro Max_ge) auto
    ultimately show False using t(2) by simp
  qed
  then show ?thesis using t(1) by blast
qed

text \<open>What a thread does below a mutex it already holds: the trace above it is the same.\<close>

lemma replay_below:
  assumes "\<forall>h \<in> set hs. g < h" and "replay hs evs = Some hs'"
    and "\<And>l. Acquire l \<in> set evs \<Longrightarrow> g < l" and "Destroy g \<notin> set evs"
  shows "replay (hs @ [g]) evs = Some (hs' @ [g]) \<and> (\<forall>h \<in> set hs'. g < h)"
  using assms
proof (induction hs evs rule: replay.induct)
  case (3 hs l evs)
  then have l: "l \<in> set hs" by (auto split: if_splits)
  then have "remove1 l (hs @ [g]) = remove1 l hs @ [g]" by (simp add: remove1_append)
  moreover have "\<forall>h \<in> set (remove1 l hs). g < h" using 3(2) by (meson notin_set_remove1)
  ultimately show ?case using 3 l by (auto split: if_splits)
qed (auto split: if_splits)

lemma disciplined_below:
  assumes "disciplined [] evs" and "\<And>l. Acquire l \<in> set evs \<Longrightarrow> g < l" and "Destroy g \<notin> set evs"
  shows "disciplined [g] evs"
  using replay_below[of "[]" g evs "[]"] assms by (simp add: disciplined_def)

end
