(* ===== verification/CacheTypes.thy ===== *)
theory CacheTypes
  imports Prelude LockOrder
begin

unbundle bit_operations_syntax

section \<open>The data of the HTTP cache\<close>

text \<open>
  The structs of \<^verbatim>\<open>caching/httpcache.h\<close> as records, the heaps they live in and the
  hash function of \<^verbatim>\<open>caching/httpcache.c\<close>. Pointers are \<open>ptr\<close>; the two kinds of
  heap cell (entries and data chunks) have a heap each. A chunk's \<open>data\<close> array has no other
  reference than the chunk and is kept inside it. \<open>size_t\<close> and \<open>uint32_t\<close> are
  words; \<open>ssize_t\<close> and \<open>time_t\<close> are integers, as their overflow is undefined
  in C.
\<close>

datatype entry_state_t = ENTRY_INCOMPLETE | ENTRY_COMPLETE | ENTRY_CANCELLED

record data_chunk =
  ck_data :: string
  ck_size :: int
  ck_next :: ptr

record cache_entry =
  e_url :: string
  data_head :: ptr
  data_tail :: ptr
  total_size :: "64 word"
  last_access :: int
  e_state :: entry_state_t
  refcount :: "32 word"
  e_next :: ptr
  lru_prev :: ptr
  lru_next :: ptr

text \<open>
  The cache: bucket heads, sizes, the two ends of the LRU list, the collector's flag, then the
  heaps and the trace of mutex operations. \<open>num_buckets\<close> is the length of the bucket
  array; it is a natural number, as it is a small constant of the program.
\<close>

record http_cache =
  buckets :: "ptr list"
  num_buckets :: nat
  current_size :: "64 word"
  max_size :: "64 word"
  lru_head :: ptr
  lru_tail :: ptr
  collector_running :: bool
  ents :: "addr \<rightharpoonup> cache_entry"
  chunks :: "addr \<rightharpoonup> data_chunk"
  c_trace :: "sync_event list"

definition MAX_URL_LENGTH :: nat where
  "MAX_URL_LENGTH = 2048"

definition DEFAULT_CACHE_SIZE :: "64 word" where
  "DEFAULT_CACHE_SIZE = 100 * 1024 * 1024"

definition MAX_BUCKETS :: nat where
  "MAX_BUCKETS = 1024"

subsection \<open>The hash of a URL\<close>

text \<open>The loop of \<open>hash_url\<close>: xor the byte in, then multiply by the FNV prime.\<close>

fun hash_loop :: "32 word \<Rightarrow> string \<Rightarrow> 32 word" where
  "hash_loop h [] = h"
| "hash_loop h (ch # s) = hash_loop ((h XOR of_char ch) * 16777619) s"

definition hash_url :: "string \<Rightarrow> 32 word" where
  "hash_url s = hash_loop 2166136261 s"

definition bucket_idx :: "http_cache \<Rightarrow> string \<Rightarrow> nat" where
  "bucket_idx c s = unat (hash_url s) mod num_buckets c"

lemma hash_loop_append: "hash_loop h (xs @ ys) = hash_loop (hash_loop h xs) ys"
  by (induction h xs rule: hash_loop.induct) auto

lemma bucket_idx_less: "0 < num_buckets c \<Longrightarrow> bucket_idx c s < num_buckets c"
  by (simp add: bucket_idx_def)

subsection \<open>Access to the cells\<close>

definition get_entry :: "http_cache \<Rightarrow> ptr \<Rightarrow> cache_entry run" where
  "get_entry c p = deref (ents c) p"

definition set_entry :: "http_cache \<Rightarrow> ptr \<Rightarrow> (cache_entry \<Rightarrow> cache_entry) \<Rightarrow> http_cache run" where
  "set_entry c p f = bindR (deref (ents c) p)
     (\<lambda>e. ret (c\<lparr>ents := (ents c)(the p \<mapsto> f e)\<rparr>))"

definition set_chunk :: "http_cache \<Rightarrow> ptr \<Rightarrow> (data_chunk \<Rightarrow> data_chunk) \<Rightarrow> http_cache run" where
  "set_chunk c p f = bindR (deref (chunks c) p)
     (\<lambda>k. ret (c\<lparr>chunks := (chunks c)(the p \<mapsto> f k)\<rparr>))"

definition emit :: "sync_event \<Rightarrow> http_cache \<Rightarrow> http_cache" where
  "emit ev c = c\<lparr>c_trace := c_trace c @ [ev]\<rparr>"

lemma get_entry_simps [simp]:
  "get_entry c None = crashed NullDeref"
  "ents c a = Some e \<Longrightarrow> get_entry c (Some a) = ret e"
  by (simp_all add: get_entry_def)

lemma set_entry_simps [simp]:
  "set_entry c None f = crashed NullDeref"
  "ents c a = Some e \<Longrightarrow> set_entry c (Some a) f = ret (c\<lparr>ents := (ents c)(a \<mapsto> f e)\<rparr>)"
  by (simp_all add: set_entry_def)

lemma set_chunk_simps [simp]:
  "set_chunk c None f = crashed NullDeref"
  "chunks c a = Some k \<Longrightarrow> set_chunk c (Some a) f = ret (c\<lparr>chunks := (chunks c)(a \<mapsto> f k)\<rparr>)"
  by (simp_all add: set_chunk_def)

lemma emit_simps [simp]:
  "buckets (emit ev c) = buckets c" "num_buckets (emit ev c) = num_buckets c"
  "current_size (emit ev c) = current_size c" "max_size (emit ev c) = max_size c"
  "lru_head (emit ev c) = lru_head c" "lru_tail (emit ev c) = lru_tail c"
  "collector_running (emit ev c) = collector_running c"
  "ents (emit ev c) = ents c" "chunks (emit ev c) = chunks c"
  "c_trace (emit ev c) = c_trace c @ [ev]"
  by (simp_all add: emit_def)

definition logged :: "sync_event list \<Rightarrow> http_cache \<Rightarrow> http_cache" where
  "logged evs c = c\<lparr>c_trace := c_trace c @ evs\<rparr>"

lemma logged_simps [simp]:
  "buckets (logged evs c) = buckets c" "num_buckets (logged evs c) = num_buckets c"
  "current_size (logged evs c) = current_size c" "max_size (logged evs c) = max_size c"
  "lru_head (logged evs c) = lru_head c" "lru_tail (logged evs c) = lru_tail c"
  "collector_running (logged evs c) = collector_running c"
  "ents (logged evs c) = ents c" "chunks (logged evs c) = chunks c"
  "c_trace (logged evs c) = c_trace c @ evs"
  "logged [] c = c" "logged xs (logged evs c) = logged (evs @ xs) c"
  "bucket_idx (logged evs c) = bucket_idx c"
  by (auto simp: logged_def bucket_idx_def)

lemma emit_logged: "emit ev c = logged [ev] c"
  by (simp add: emit_def logged_def)

lemma bucket_idx_cong: "num_buckets c' = num_buckets c \<Longrightarrow> bucket_idx c' = bucket_idx c"
  by (auto simp: bucket_idx_def)

text \<open>What a run adds to the trace, and that it leaves the mutexes as it found them.\<close>

definition lock_clean :: "cache_lock list \<Rightarrow> http_cache \<Rightarrow> http_cache \<Rightarrow> bool" where
  "lock_clean hs c c' \<longleftrightarrow> (\<exists>evs. c_trace c' = c_trace c @ evs \<and> disciplined hs evs)"

lemma lock_clean_refl [simp]: "lock_clean hs c c"
  by (auto simp: lock_clean_def intro: exI[of _ "[]"])

lemma lock_clean_trans: "lock_clean hs c d \<Longrightarrow> lock_clean hs d e \<Longrightarrow> lock_clean hs c e"
  by (auto simp: lock_clean_def intro: disciplined_append)

lemma lock_clean_same: "c_trace c' = c_trace c \<Longrightarrow> lock_clean hs c c'"
  by (auto simp: lock_clean_def intro: exI[of _ "[]"])

end
