(* ===== verification/CacheLru.thy ===== *)
theory CacheLru
  imports CacheTypes
begin

section \<open>The LRU list\<close>

text \<open>
  \<open>lru_remove\<close> and \<open>lru_add_head\<close> of \<^verbatim>\<open>caching/httpcache.c\<close>, the predicate that the
  LRU pointers form a doubly linked list, and what the two operations do to that list.
\<close>

subsection \<open>The operations\<close>

definition lru_remove :: "http_cache \<Rightarrow> addr \<Rightarrow> http_cache run" where
  "lru_remove c a =
     bindR (get_entry c (Some a)) (\<lambda>e.
     bindR (if lru_prev e \<noteq> None
            then set_entry c (lru_prev e) (\<lambda>p. p\<lparr>lru_next := lru_next e\<rparr>)
            else ret (c\<lparr>lru_head := lru_next e\<rparr>)) (\<lambda>c.
     bindR (get_entry c (Some a)) (\<lambda>e.
     bindR (if lru_next e \<noteq> None
            then set_entry c (lru_next e) (\<lambda>n. n\<lparr>lru_prev := lru_prev e\<rparr>)
            else ret (c\<lparr>lru_tail := lru_prev e\<rparr>)) (\<lambda>c.
     set_entry c (Some a) (\<lambda>e. e\<lparr>lru_prev := None, lru_next := None\<rparr>)))))"

definition lru_add_head :: "http_cache \<Rightarrow> addr \<Rightarrow> http_cache run" where
  "lru_add_head c a =
     bindR (set_entry c (Some a) (\<lambda>e. e\<lparr>lru_next := lru_head c, lru_prev := None\<rparr>)) (\<lambda>c.
     bindR (if lru_head c \<noteq> None
            then set_entry c (lru_head c) (\<lambda>e. e\<lparr>lru_prev := Some a\<rparr>)
            else ret c) (\<lambda>c.
     let c = c\<lparr>lru_head := Some a\<rparr> in
     ret (if lru_tail c = None then c\<lparr>lru_tail := Some a\<rparr> else c)))"

subsection \<open>Doubly linked lists\<close>

text \<open>
  \<open>dlinks lp ln pv as nx\<close>: the cells \<open>as\<close> are linked both ways, \<open>pv\<close> is the back
  pointer of the first and \<open>nx\<close> the forward pointer of the last.
\<close>

fun dlinks :: "(addr \<rightharpoonup> ptr) \<Rightarrow> (addr \<rightharpoonup> ptr) \<Rightarrow> ptr \<Rightarrow> addr list \<Rightarrow> ptr \<Rightarrow> bool" where
  "dlinks lp ln pv [] nx = True"
| "dlinks lp ln pv (a # as) nx =
     (lp a = Some pv \<and> ln a = Some (first_ptr as nx) \<and> dlinks lp ln (Some a) as nx)"

lemma dlinks_append:
  "dlinks lp ln pv (as @ bs) nx \<longleftrightarrow>
     dlinks lp ln pv as (first_ptr bs nx) \<and> dlinks lp ln (last_ptr pv as) bs nx"
  by (induction as arbitrary: pv) (auto simp: first_ptr_append last_ptr_Cons)

lemma dlinks_cong:
  "(\<And>a. a \<in> set as \<Longrightarrow> lp a = lp' a \<and> ln a = ln' a) \<Longrightarrow>
     dlinks lp ln pv as nx = dlinks lp' ln' pv as nx"
  by (induction as arbitrary: pv) auto

lemma dlinks_frame [simp]:
  "a \<notin> set as \<Longrightarrow> dlinks (lp(a := x)) ln pv as nx = dlinks lp ln pv as nx"
  "a \<notin> set as \<Longrightarrow> dlinks lp (ln(a := x)) pv as nx = dlinks lp ln pv as nx"
  by (auto intro!: dlinks_cong)

lemma dlinks_transfer:
  assumes "dlinks lp ln pv as nx"
    and "\<And>a. a \<in> set as \<Longrightarrow> lp' a = lp a" "\<And>a. a \<in> set as \<Longrightarrow> ln' a = ln a"
  shows "dlinks lp' ln' pv as nx"
  using assms by (simp cong: dlinks_cong)

lemma dlinks_dom: "dlinks lp ln pv as nx \<Longrightarrow> set as \<subseteq> dom lp \<inter> dom ln"
  by (induction as arbitrary: pv) auto

lemma dlinks_set_next:
  assumes "dlinks lp ln pv (as @ [z]) nx" and "z \<notin> set as"
  shows "dlinks lp (ln(z \<mapsto> q)) pv (as @ [z]) q"
  using assms by (simp add: dlinks_append)

lemma dlinks_set_prev:
  assumes "dlinks lp ln pv (b # bs) nx" and "b \<notin> set bs"
  shows "dlinks (lp(b \<mapsto> q)) ln q (b # bs) nx"
  using assms by simp

subsection \<open>The invariant of the LRU list\<close>

abbreviation prevs :: "http_cache \<Rightarrow> addr \<rightharpoonup> ptr" where
  "prevs c \<equiv> links lru_prev (ents c)"

abbreviation nexts :: "http_cache \<Rightarrow> addr \<rightharpoonup> ptr" where
  "nexts c \<equiv> links lru_next (ents c)"

definition lru_ok :: "http_cache \<Rightarrow> addr list \<Rightarrow> bool" where
  "lru_ok c es \<longleftrightarrow> distinct es \<and> lru_head c = first_ptr es None \<and>
     lru_tail c = last_ptr None es \<and> dlinks (prevs c) (nexts c) None es None"

text \<open>Everything but the LRU pointers: what the two operations must not change.\<close>

definition entry_core :: "cache_entry \<Rightarrow> cache_entry" where
  "entry_core e = e\<lparr>lru_prev := None, lru_next := None\<rparr>"

definition lru_frame :: "http_cache \<Rightarrow> http_cache \<Rightarrow> bool" where
  "lru_frame c c' \<longleftrightarrow>
     buckets c' = buckets c \<and> num_buckets c' = num_buckets c \<and>
     current_size c' = current_size c \<and> max_size c' = max_size c \<and>
     collector_running c' = collector_running c \<and> chunks c' = chunks c \<and>
     c_trace c' = c_trace c \<and> links entry_core (ents c') = links entry_core (ents c)"

lemma entry_core_simps [simp]:
  "entry_core (e\<lparr>lru_prev := p\<rparr>) = entry_core e"
  "entry_core (e\<lparr>lru_next := q\<rparr>) = entry_core e"
  "e_url (entry_core e) = e_url e" "data_head (entry_core e) = data_head e"
  "data_tail (entry_core e) = data_tail e" "total_size (entry_core e) = total_size e"
  "last_access (entry_core e) = last_access e" "e_state (entry_core e) = e_state e"
  "refcount (entry_core e) = refcount e" "e_next (entry_core e) = e_next e"
  by (simp_all add: entry_core_def)

lemma lru_frame_refl [simp]: "lru_frame c c"
  by (simp add: lru_frame_def)

lemma lru_frame_trans: "lru_frame c d \<Longrightarrow> lru_frame d e \<Longrightarrow> lru_frame c e"
  by (simp add: lru_frame_def)

text \<open>A field that is read off the core of an entry is the same before and after.\<close>

lemma lru_frame_links:
  assumes "lru_frame c c'" and "\<And>e. f e = g (entry_core e)"
  shows "links f (ents c') = links f (ents c)"
  using assms by (auto simp: lru_frame_def intro: links_factor)

lemma lru_frame_dom: "lru_frame c c' \<Longrightarrow> dom (ents c') = dom (ents c)"
  by (metis dom_links lru_frame_def)

subsection \<open>Effect of the operations\<close>

lemma set_entry_lru_frame:
  assumes "ents c a = Some e" and "entry_core (f e) = entry_core e"
  shows "lru_frame c (c\<lparr>ents := (ents c)(a \<mapsto> f e)\<rparr>)"
  using assms by (simp add: lru_frame_def links_id_upd)

text \<open>The two halves of the unlinking: the forward pointer into \<open>a\<close>, then the backward one.\<close>

lemma lru_unlink_fwd:
  assumes "distinct (xs @ a # ys)" and "lru_head c = first_ptr (xs @ a # ys) None"
    and "dlinks (prevs c) (nexts c) None xs (Some a)"
  obtains c' where
    "(if last_ptr None xs \<noteq> None
      then set_entry c (last_ptr None xs) (\<lambda>p. p\<lparr>lru_next := first_ptr ys None\<rparr>)
      else ret (c\<lparr>lru_head := first_ptr ys None\<rparr>)) = ret c'"
    "lru_frame c c'" "prevs c' = prevs c" "lru_head c' = first_ptr (xs @ ys) None"
    "lru_tail c' = lru_tail c" "dlinks (prevs c') (nexts c') None xs (first_ptr ys None)"
    "\<forall>b. b \<notin> set xs \<longrightarrow> nexts c' b = nexts c b"
proof (cases xs rule: rev_cases)
  case Nil
  show thesis
    by (rule that[of "c\<lparr>lru_head := first_ptr ys None\<rparr>"]) (auto simp: Nil lru_frame_def)
next
  case (snoc us z)
  with assms(3) obtain r where r: "ents c z = Some r"
    using dlinks_dom[of "prevs c" "nexts c" None xs "Some a"] by (auto simp: links_eq_Some_iff dom_def)
  let ?c = "c\<lparr>ents := (ents c)(z \<mapsto> r\<lparr>lru_next := first_ptr ys None\<rparr>)\<rparr>"
  have pr: "prevs ?c = prevs c" and nx: "nexts ?c = (nexts c)(z \<mapsto> first_ptr ys None)"
    using r by (simp_all add: links_id_upd)
  show thesis
  proof (rule that[of ?c])
    show "dlinks (prevs ?c) (nexts ?c) None xs (first_ptr ys None)"
      unfolding pr nx snoc using assms(1,3) snoc by (intro dlinks_set_next) auto
    show "lru_frame c ?c" using r by (intro set_entry_lru_frame) auto
  qed (use r snoc assms(2) in \<open>simp_all add: links_id_upd first_ptr_append\<close>)
qed

lemma lru_unlink_bwd:
  assumes "distinct (xs @ a # ys)" and "lru_tail c = last_ptr None (xs @ a # ys)"
    and "dlinks (prevs c) (nexts c) (Some a) ys None"
  obtains c' where
    "(if first_ptr ys None \<noteq> None
      then set_entry c (first_ptr ys None) (\<lambda>n. n\<lparr>lru_prev := last_ptr None xs\<rparr>)
      else ret (c\<lparr>lru_tail := last_ptr None xs\<rparr>)) = ret c'"
    "lru_frame c c'" "nexts c' = nexts c" "lru_tail c' = last_ptr None (xs @ ys)"
    "lru_head c' = lru_head c" "dlinks (prevs c') (nexts c') (last_ptr None xs) ys None"
    "\<forall>b. b \<notin> set ys \<longrightarrow> prevs c' b = prevs c b"
proof (cases ys)
  case Nil
  show thesis
    by (rule that[of "c\<lparr>lru_tail := last_ptr None xs\<rparr>"]) (auto simp: Nil lru_frame_def)
next
  case (Cons y us)
  with assms(3) obtain r where r: "ents c y = Some r"
    by (auto simp: links_eq_Some_iff)
  let ?c = "c\<lparr>ents := (ents c)(y \<mapsto> r\<lparr>lru_prev := last_ptr None xs\<rparr>)\<rparr>"
  have nx: "nexts ?c = nexts c" and pr: "prevs ?c = (prevs c)(y \<mapsto> last_ptr None xs)"
    using r by (simp_all add: links_id_upd)
  show thesis
  proof (rule that[of ?c])
    show "dlinks (prevs ?c) (nexts ?c) (last_ptr None xs) ys None"
      unfolding pr nx Cons using assms(1,3) Cons by (intro dlinks_set_prev) auto
    show "lru_frame c ?c" using r by (intro set_entry_lru_frame) auto
  qed (use r Cons assms(2) in \<open>simp_all add: links_id_upd last_ptr_append last_ptr_Cons\<close>)
qed

lemma lru_remove_spec:
  assumes ok: "lru_ok c (xs @ a # ys)"
  obtains c' where "lru_remove c a = ret c'" "lru_frame c c'" "lru_ok c' (xs @ ys)"
    "prevs c' a = Some None" "nexts c' a = Some None"
proof -
  from ok have d: "distinct (xs @ a # ys)"
    and head: "lru_head c = first_ptr (xs @ a # ys) None"
    and tail: "lru_tail c = last_ptr None (xs @ a # ys)"
    and dl: "dlinks (prevs c) (nexts c) None xs (Some a)"
            "prevs c a = Some (last_ptr None xs)" "nexts c a = Some (first_ptr ys None)"
            "dlinks (prevs c) (nexts c) (Some a) ys None"
    by (auto simp: lru_ok_def dlinks_append)
  from dl(2,3) obtain e where e: "ents c a = Some e" "lru_prev e = last_ptr None xs"
      "lru_next e = first_ptr ys None"
    by (auto simp: links_eq_Some_iff)
  from d head dl(1) obtain c1 where c1:
      "(if last_ptr None xs \<noteq> None
        then set_entry c (last_ptr None xs) (\<lambda>p. p\<lparr>lru_next := first_ptr ys None\<rparr>)
        else ret (c\<lparr>lru_head := first_ptr ys None\<rparr>)) = ret c1"
      "lru_frame c c1" "prevs c1 = prevs c" "lru_head c1 = first_ptr (xs @ ys) None"
      "lru_tail c1 = lru_tail c" "dlinks (prevs c1) (nexts c1) None xs (first_ptr ys None)"
      "\<forall>b. b \<notin> set xs \<longrightarrow> nexts c1 b = nexts c b"
    by (rule lru_unlink_fwd)
  have dys: "dlinks (prevs c1) (nexts c1) (Some a) ys None"
    by (rule dlinks_transfer[OF dl(4)]) (use d c1(3,7) in auto)
  have "prevs c1 a = Some (last_ptr None xs)" "nexts c1 a = Some (first_ptr ys None)"
    using d dl(2,3) c1(3,7) by auto
  then obtain e1 where e1: "ents c1 a = Some e1" "lru_prev e1 = last_ptr None xs"
      "lru_next e1 = first_ptr ys None"
    by (auto simp: links_eq_Some_iff)
  have tail1: "lru_tail c1 = last_ptr None (xs @ a # ys)" using tail c1(5) by simp
  from d tail1 dys obtain c2 where c2:
      "(if first_ptr ys None \<noteq> None
        then set_entry c1 (first_ptr ys None) (\<lambda>n. n\<lparr>lru_prev := last_ptr None xs\<rparr>)
        else ret (c1\<lparr>lru_tail := last_ptr None xs\<rparr>)) = ret c2"
      "lru_frame c1 c2" "nexts c2 = nexts c1" "lru_tail c2 = last_ptr None (xs @ ys)"
      "lru_head c2 = lru_head c1" "dlinks (prevs c2) (nexts c2) (last_ptr None xs) ys None"
      "\<forall>b. b \<notin> set ys \<longrightarrow> prevs c2 b = prevs c1 b"
    by (rule lru_unlink_bwd)
  have dxs: "dlinks (prevs c2) (nexts c2) None xs (first_ptr ys None)"
    by (rule dlinks_transfer[OF c1(6)]) (use d c2(3,7) in auto)
  have "a \<in> dom (ents c2)"
    using e1(1) lru_frame_dom[OF c2(2)] by auto
  then obtain e2 where e2: "ents c2 a = Some e2" by auto
  let ?c = "c2\<lparr>ents := (ents c2)(a \<mapsto> e2\<lparr>lru_prev := None, lru_next := None\<rparr>)\<rparr>"
  show thesis
  proof (rule that[of ?c])
    show "lru_remove c a = ret ?c"
      unfolding lru_remove_def
      by (simp only: get_entry_simps(2)[OF e(1)] get_entry_simps(2)[OF e1(1)] bindR_simps
            e(2,3) e1(2,3) c1(1) c2(1) set_entry_simps(2)[OF e2(1)])
    have "lru_frame c2 ?c" using e2 by (intro set_entry_lru_frame) simp_all
    with c1(2) c2(2) show "lru_frame c ?c" by (blast intro: lru_frame_trans)
    show "lru_ok ?c (xs @ ys)"
      using d c1(4) c2(4,5,6) dxs by (auto simp: lru_ok_def dlinks_append)
  qed simp_all
qed

lemma lru_add_head_spec:
  assumes ok: "lru_ok c es" and a: "a \<notin> set es" "a \<in> dom (ents c)"
  obtains c' where "lru_add_head c a = ret c'" "lru_frame c c'" "lru_ok c' (a # es)"
proof -
  from a(2) obtain e where e: "ents c a = Some e" by auto
  let ?c1 = "c\<lparr>ents := (ents c)(a \<mapsto> e\<lparr>lru_next := lru_head c, lru_prev := None\<rparr>)\<rparr>"
  have f1: "lru_frame c ?c1" using e by (intro set_entry_lru_frame) simp_all
  show thesis
  proof (cases es)
    case Nil
    show thesis
    proof (rule that[of "?c1\<lparr>lru_head := Some a, lru_tail := Some a\<rparr>"])
      show "lru_frame c (?c1\<lparr>lru_head := Some a, lru_tail := Some a\<rparr>)"
        using f1 by (simp add: lru_frame_def)
    qed (use e ok Nil in \<open>simp_all add: lru_add_head_def lru_ok_def Let_def last_ptr_def\<close>)
  next
    case (Cons b bs)
    with ok have b: "lru_head c = Some b" "b \<in> dom (ents c)"
      using dlinks_dom[of "prevs c" "nexts c" None es None] by (auto simp: lru_ok_def)
    then obtain r where r: "ents c b = Some r" by auto
    have ab: "a \<noteq> b" "a \<notin> set bs" using a(1) Cons by auto
    let ?c2 = "?c1\<lparr>ents := (ents ?c1)(b \<mapsto> r\<lparr>lru_prev := Some a\<rparr>)\<rparr>"
    have f2: "lru_frame ?c1 ?c2" using r ab by (intro set_entry_lru_frame) simp_all
    show thesis
    proof (rule that[of "?c2\<lparr>lru_head := Some a\<rparr>"])
      show "lru_frame c (?c2\<lparr>lru_head := Some a\<rparr>)"
        using lru_frame_trans[OF f1 f2] by (simp add: lru_frame_def)
      show "lru_add_head c a = ret (?c2\<lparr>lru_head := Some a\<rparr>)"
        using e r b ab ok Cons by (simp add: lru_add_head_def lru_ok_def Let_def)
      have "dlinks (prevs ?c2) (nexts ?c2) (Some a) es None"
        using ok Cons ab r by (simp add: lru_ok_def links_eq_Some_iff)
      then show "lru_ok (?c2\<lparr>lru_head := Some a\<rparr>) (a # es)"
        using ok Cons a b ab by (auto simp: lru_ok_def last_ptr_Cons last_ptr_def)
    qed
  qed
qed

end
