(* ===== verification/CacheChunks.thy ===== *)
theory CacheChunks
  imports CacheTypes
begin

section \<open>The data of an entry: appending, reading and freeing chunks\<close>

text \<open>
  \<open>free_entry_data\<close>, \<open>cache_entry_append_chunk\<close> and \<open>cache_entry_read\<close> of
  \<^verbatim>\<open>caching/httpcache.c\<close>. What the allocator returns and what other threads do while a
  reader waits are arguments of the operations. The lemmas relate the chain of chunks to the
  byte string it holds.
\<close>

subsection \<open>The operations\<close>

partial_function (option) free_chunks ::
  "(addr \<rightharpoonup> data_chunk) \<Rightarrow> ptr \<Rightarrow> (addr \<rightharpoonup> data_chunk) run" where
  "free_chunks h p =
     (if p = None then ret h
      else bindR (deref h p) (\<lambda>k. free_chunks (h(the p := None)) (ck_next k)))"

definition free_entry_data :: "http_cache \<Rightarrow> addr \<Rightarrow> http_cache run" where
  "free_entry_data c a =
     bindR (get_entry c (Some a)) (\<lambda>e.
     bindR (free_chunks (chunks c) (data_head e)) (\<lambda>h. ret (c\<lparr>chunks := h\<rparr>)))"

text \<open>
  \<open>mc\<close> is what \<open>malloc\<close> returns for the chunk and \<open>md\<close> whether the allocation of
  its data succeeds. The result is the C return value with the cache after the call.
\<close>

definition cache_entry_append_chunk ::
  "ptr \<Rightarrow> bool \<Rightarrow> addr \<Rightarrow> string \<Rightarrow> 64 word \<Rightarrow> http_cache \<Rightarrow> (int \<times> http_cache) run" where
  "cache_entry_append_chunk mc md a data sz c =
     (let c = emit (Acquire (EntryLock a)) c in
      bindR (get_entry c (Some a)) (\<lambda>e.
      if e_state e = ENTRY_CANCELLED then ret (-1, emit (Release (EntryLock a)) c)
      else case mc of
        None \<Rightarrow> ret (-1, emit (Release (EntryLock a)) c)
      | Some k \<Rightarrow>
        if \<not> md then
          ret (-1, emit (Release (EntryLock a)) (c\<lparr>chunks := (chunks c)(k := None)\<rparr>))
        else if length data < unat sz then crashed OutOfBounds
        else
          let new_chunk = \<lparr>ck_data = take (unat sz) data, ck_size = sint sz, ck_next = None\<rparr>;
              c = c\<lparr>chunks := (chunks c)(k \<mapsto> new_chunk)\<rparr> in
          bindR (if data_head e = None
                 then set_entry c (Some a) (\<lambda>e. e\<lparr>data_head := Some k, data_tail := Some k\<rparr>)
                 else bindR (set_chunk c (data_tail e) (\<lambda>t. t\<lparr>ck_next := Some k\<rparr>))
                        (\<lambda>c. set_entry c (Some a) (\<lambda>e. e\<lparr>data_tail := Some k\<rparr>))) (\<lambda>c.
          bindR (set_entry c (Some a) (\<lambda>e. e\<lparr>total_size := total_size e + sz\<rparr>)) (\<lambda>c.
          ret (0, emit (Release (EntryLock a)) (emit (Broadcast a) c))))))"

text \<open>
  The waiting loop of \<open>cache_entry_read\<close>. Each element of \<open>wakes\<close> is one return of
  \<open>pthread_cond_timedwait\<close>: whether it timed out, and what the other threads did to the
  cache meanwhile. The result tells whether to go on and read; \<open>None\<close> means that the
  reader is still waiting after the given wake-ups.
\<close>

fun read_wait ::
  "addr \<Rightarrow> int \<Rightarrow> (bool \<times> (http_cache \<Rightarrow> http_cache)) list \<Rightarrow> http_cache \<Rightarrow>
     (bool \<times> http_cache) run" where
  "read_wait a off wakes c =
     bindR (get_entry c (Some a)) (\<lambda>e.
     if total_size e \<le> word_of_int off \<and> e_state e = ENTRY_INCOMPLETE then
       (case wakes of
          [] \<Rightarrow> None
        | (timedout, others) # ws \<Rightarrow>
          let c = emit (Acquire (EntryLock a)) (others (emit (Release (EntryLock a)) c)) in
          bindR (get_entry c (Some a)) (\<lambda>e.
          if e_state e = ENTRY_CANCELLED then ret (False, emit (Release (EntryLock a)) c)
          else if timedout then ret (False, emit (Release (EntryLock a)) c)
          else read_wait a off ws c))
     else ret (True, c))"

declare read_wait.simps [simp del]

text \<open>
  What a wait of \<open>pthread_cond_timedwait\<close> returns when \<open>others\<close> is what the other threads did to the
  cache during it: it succeeds if one of them has broadcast the entry's condition variable, and
  runs into the time limit otherwise. \<open>c\<close> is the cache at the beginning of the wait, which for a
  reader that has to wait is \<open>at_wait\<close>.
\<close>

definition broadcast_between :: "addr \<Rightarrow> http_cache \<Rightarrow> http_cache \<Rightarrow> bool" where
  "broadcast_between a c d \<longleftrightarrow> Broadcast a \<in> set (drop (length (c_trace c)) (c_trace d))"

definition woken_by ::
  "addr \<Rightarrow> (http_cache \<Rightarrow> http_cache) \<Rightarrow> http_cache \<Rightarrow> bool \<times> (http_cache \<Rightarrow> http_cache)" where
  "woken_by a others c = (\<not> broadcast_between a c (others c), others)"

definition at_wait :: "addr \<Rightarrow> http_cache \<Rightarrow> http_cache" where
  "at_wait a c = emit (Release (EntryLock a)) (emit (Acquire (EntryLock a)) c)"

definition must_wait :: "addr \<Rightarrow> int \<Rightarrow> http_cache \<Rightarrow> bool" where
  "must_wait a off c \<longleftrightarrow> (case ents c a of None \<Rightarrow> False
     | Some e \<Rightarrow> total_size e \<le> word_of_int off \<and> e_state e = ENTRY_INCOMPLETE)"

lemma at_wait_logged: "at_wait a c = logged [Acquire (EntryLock a), Release (EntryLock a)] c"
  by (simp add: at_wait_def emit_logged)

lemma must_wait_logged [simp]: "must_wait a off (logged evs c) = must_wait a off c"
  by (simp add: must_wait_def)

text \<open>Finding the chunk an offset falls in, then copying from there.\<close>

partial_function (option) find_chunk ::
  "(addr \<rightharpoonup> data_chunk) \<Rightarrow> ptr \<Rightarrow> int \<Rightarrow> (ptr \<times> int) run" where
  "find_chunk h p chunk_offset =
     (if p = None then ret (p, chunk_offset)
      else bindR (deref h p) (\<lambda>k.
        if ck_size k \<le> chunk_offset
        then find_chunk h (ck_next k) (chunk_offset - ck_size k)
        else ret (p, chunk_offset)))"

text \<open>\<open>out\<close> is what has been written to the destination, so \<open>bytes_read\<close> is its length.\<close>

partial_function (option) copy_chunks ::
  "(addr \<rightharpoonup> data_chunk) \<Rightarrow> ptr \<Rightarrow> int \<Rightarrow> int \<Rightarrow> string \<Rightarrow> string run" where
  "copy_chunks h p chunk_offset sz out =
     (if p \<noteq> None \<and> int (length out) < sz then
        bindR (deref h p) (\<lambda>k.
          let available = ck_size k - chunk_offset;
              to_read = (if sz - int (length out) < available
                         then sz - int (length out) else available) in
          if chunk_offset < 0 \<or> to_read < 0 \<or> int (length (ck_data k)) < chunk_offset + to_read
          then crashed OutOfBounds
          else copy_chunks h (ck_next k) 0 sz
                 (out @ take (nat to_read) (drop (nat chunk_offset) (ck_data k))))
      else ret out)"

text \<open>The result: the return value, the bytes written to \<open>buf\<close>, the cache after the call.\<close>

definition cache_entry_read ::
  "(bool \<times> (http_cache \<Rightarrow> http_cache)) list \<Rightarrow> addr \<Rightarrow> int \<Rightarrow> int \<Rightarrow> http_cache \<Rightarrow>
     (int \<times> string \<times> http_cache) run" where
  "cache_entry_read wakes a offset sz c =
     bindR (read_wait a offset wakes (emit (Acquire (EntryLock a)) c)) (\<lambda>(proceed, c).
     if \<not> proceed then ret (-1, [], c)
     else bindR (get_entry c (Some a)) (\<lambda>e.
       if e_state e = ENTRY_CANCELLED then ret (-1, [], emit (Release (EntryLock a)) c)
       else bindR (find_chunk (chunks c) (data_head e) offset) (\<lambda>(p, chunk_offset).
         bindR (copy_chunks (chunks c) p chunk_offset sz []) (\<lambda>out.
         ret (int (length out), out, emit (Release (EntryLock a)) c)))))"

subsection \<open>The byte string an entry holds\<close>

definition chunk_bytes :: "(addr \<rightharpoonup> data_chunk) \<Rightarrow> addr list \<Rightarrow> string" where
  "chunk_bytes h ks = concat (map (\<lambda>k. ck_data (the (h k))) ks)"

text \<open>The chain \<open>ks\<close> from \<open>p\<close>, with every chunk's size that of its data.\<close>

definition chain :: "(addr \<rightharpoonup> data_chunk) \<Rightarrow> ptr \<Rightarrow> addr list \<Rightarrow> bool" where
  "chain h p ks \<longleftrightarrow> llist (links ck_next h) p ks \<and>
     (\<forall>k \<in> set ks. \<forall>d. h k = Some d \<longrightarrow> ck_size d = int (length (ck_data d)))"

definition entry_holds :: "http_cache \<Rightarrow> addr \<Rightarrow> addr list \<Rightarrow> string \<Rightarrow> bool" where
  "entry_holds c a ks D \<longleftrightarrow> (\<exists>e. ents c a = Some e \<and> chain (chunks c) (data_head e) ks \<and>
     data_tail e = last_ptr None ks \<and> D = chunk_bytes (chunks c) ks \<and>
     total_size e = of_nat (length D))"

lemma chunk_bytes_simps [simp]:
  "chunk_bytes h [] = []"
  "chunk_bytes h (k # ks) = ck_data (the (h k)) @ chunk_bytes h ks"
  by (simp_all add: chunk_bytes_def)

lemma chunk_bytes_append: "chunk_bytes h (ks @ ls) = chunk_bytes h ks @ chunk_bytes h ls"
  by (simp add: chunk_bytes_def)

lemma chunk_bytes_cong:
  assumes "\<And>k. k \<in> set ks \<Longrightarrow> map_option ck_data (h k) = map_option ck_data (h' k)"
  shows "chunk_bytes h ks = chunk_bytes h' ks"
proof -
  have "ck_data (the (h k)) = ck_data (the (h' k))" if "k \<in> set ks" for k
    using assms[OF that] by (cases "h k"; cases "h' k") auto
  then show ?thesis by (simp add: chunk_bytes_def cong: map_cong)
qed

lemma chain_Nil [simp]: "chain h p [] \<longleftrightarrow> p = None"
  by (simp add: chain_def)

lemma chain_None [simp]: "chain h None ks \<longleftrightarrow> ks = []"
  by (auto simp: chain_def)

lemma chain_Cons [simp]:
  "chain h p (k # ks) \<longleftrightarrow> p = Some k \<and>
     (\<exists>d. h k = Some d \<and> ck_size d = int (length (ck_data d)) \<and> chain h (ck_next d) ks)"
  by (auto simp: chain_def links_eq_Some_iff)

lemma chain_distinct: "chain h p ks \<Longrightarrow> distinct ks"
  by (auto simp: chain_def intro: llist_distinct)

lemma chain_dom: "chain h p ks \<Longrightarrow> set ks \<subseteq> dom h"
  using lseg_dom[of "links ck_next h"] by (fastforce simp: chain_def)

subsection \<open>Freeing\<close>

lemma free_chunks_spec:
  "llist (links ck_next h) p ks \<Longrightarrow> free_chunks h p = ret (h |` (- set ks))"
proof (induction ks arbitrary: h p)
  case Nil
  then show ?case by (simp add: free_chunks.simps)
next
  case (Cons k ks)
  then obtain d where p: "p = Some k" and d: "h k = Some d" "llist (links ck_next h) (ck_next d) ks"
    by (auto simp: links_eq_Some_iff)
  have "k \<notin> set ks" using llist_distinct[OF Cons.prems] by simp
  with d(2) have "llist (links ck_next (h(k := None))) (ck_next d) ks" by simp
  then have "free_chunks (h(k := None)) (ck_next d) = ret (h(k := None) |` (- set ks))"
    by (rule Cons.IH)
  moreover have "h(k := None) |` (- set ks) = h |` (- set (k # ks))"
    by (auto simp: restrict_map_def)
  ultimately show ?case using p d by (simp add: free_chunks.simps[of h])
qed

lemma free_entry_data_spec:
  assumes "entry_holds c a ks D"
  shows "free_entry_data c a = ret (c\<lparr>chunks := chunks c |` (- set ks)\<rparr>)"
  using assms by (auto simp: free_entry_data_def entry_holds_def chain_def free_chunks_spec)

subsection \<open>Appending\<close>

text \<open>The chunk heap after \<open>k\<close> has been linked behind the chain \<open>ks\<close>.\<close>

definition link_chunk ::
  "(addr \<rightharpoonup> data_chunk) \<Rightarrow> addr list \<Rightarrow> addr \<Rightarrow> string \<Rightarrow> (addr \<rightharpoonup> data_chunk)" where
  "link_chunk h ks k data =
     (let h = h(k \<mapsto> \<lparr>ck_data = data, ck_size = int (length data), ck_next = None\<rparr>) in
      if ks = [] then h else h(last ks \<mapsto> (the (h (last ks)))\<lparr>ck_next := Some k\<rparr>))"

lemma link_chunk_frame: "x \<notin> set ks \<Longrightarrow> x \<noteq> k \<Longrightarrow> link_chunk h ks k data x = h x"
  by (auto simp: link_chunk_def Let_def)

lemma dom_link_chunk: "set ks \<subseteq> dom h \<Longrightarrow> dom (link_chunk h ks k data) = insert k (dom h)"
proof (cases "ks = []")
  case False
  assume "set ks \<subseteq> dom h"
  moreover from False have "last ks \<in> set ks" by simp
  ultimately have "last ks \<in> dom h" by blast
  then show ?thesis using False by (auto simp: link_chunk_def Let_def)
qed (simp add: link_chunk_def)

lemma chain_snoc:
  assumes "chain h p ks" and "k \<notin> dom h"
  shows "chain (link_chunk h ks k data) (first_ptr (ks @ [k]) None) (ks @ [k])"
    and "chunk_bytes (link_chunk h ks k data) (ks @ [k]) = chunk_bytes h ks @ data"
proof -
  let ?n = "\<lparr>ck_data = data, ck_size = int (length data), ck_next = None\<rparr>"
  have kks: "k \<notin> set ks" using chain_dom[OF assms(1)] assms(2) by auto
  show "chain (link_chunk h ks k data) (first_ptr (ks @ [k]) None) (ks @ [k])"
  proof (cases ks rule: rev_cases)
    case Nil
    then show ?thesis by (simp add: link_chunk_def)
  next
    case (snoc ls z)
    from assms(1) have l: "llist (links ck_next h) p (ls @ [z])" using snoc by (simp add: chain_def)
    from chain_dom[OF assms(1)] obtain d where d: "h z = Some d" using snoc by auto
    have "llist ((links ck_next h)(k \<mapsto> None, z \<mapsto> Some k)) p (ls @ [z, k])"
      using l kks snoc by (intro llist_snoc) auto
    moreover have "links ck_next (link_chunk h ks k data) = (links ck_next h)(k \<mapsto> None, z \<mapsto> Some k)"
      using snoc by (simp add: link_chunk_def)
    moreover have "p = first_ptr (ks @ [k]) None"
      using lseg_first[OF l] snoc by (simp add: first_ptr_append)
    ultimately have "llist (links ck_next (link_chunk h ks k data)) (first_ptr (ks @ [k]) None) (ks @ [k])"
      using snoc by simp
    moreover have "\<forall>x \<in> set (ks @ [k]). \<forall>d'. link_chunk h ks k data x = Some d' \<longrightarrow>
        ck_size d' = int (length (ck_data d'))"
    proof (intro ballI allI impI)
      fix x d'
      assume x: "x \<in> set (ks @ [k])" and d': "link_chunk h ks k data x = Some d'"
      have sizes: "\<And>y e. y \<in> set ks \<Longrightarrow> h y = Some e \<Longrightarrow> ck_size e = int (length (ck_data e))"
        using assms(1) by (simp add: chain_def)
      have "link_chunk h ks k data x =
          (if x = z then Some (d\<lparr>ck_next := Some k\<rparr>) else if x = k then Some ?n else h x)"
        using d snoc kks by (auto simp: link_chunk_def Let_def)
      with d' x sizes[of z d] sizes[of x d'] d snoc show "ck_size d' = int (length (ck_data d'))"
        by (auto split: if_splits)
    qed
    ultimately show ?thesis unfolding chain_def by blast
  qed
  have "chunk_bytes (link_chunk h ks k data) ks = chunk_bytes h ks"
  proof (rule chunk_bytes_cong)
    fix x assume x: "x \<in> set ks"
    with chain_dom[OF assms(1)] obtain r where "h x = Some r" by blast
    moreover have "x \<noteq> k" "ks \<noteq> []" using x kks by auto
    ultimately show "map_option ck_data (link_chunk h ks k data x) = map_option ck_data (h x)"
      by (cases "x = last ks") (simp_all add: link_chunk_def)
  qed
  moreover have "link_chunk h ks k data k = Some ?n"
  proof (cases "ks = []")
    case False
    then have "last ks \<noteq> k" using kks last_in_set by blast
    then show ?thesis using False by (auto simp: link_chunk_def Let_def)
  qed (simp add: link_chunk_def)
  ultimately show "chunk_bytes (link_chunk h ks k data) (ks @ [k]) = chunk_bytes h ks @ data"
    by (simp add: chunk_bytes_append)
qed

lemma sint_of_nat_64: "n < 2 ^ 63 \<Longrightarrow> sint (of_nat n :: 64 word) = int n"
  by (simp add: signed_of_nat signed_take_bit_int_eq_self_iff)

lemma unat_of_nat_64: "n < 2 ^ 63 \<Longrightarrow> unat (of_nat n :: 64 word) = n"
  by (simp add: unat_of_nat take_bit_nat_eq_self_iff)

text \<open>The cache after a successful append to the entry \<open>e\<close> at \<open>a\<close>.\<close>

definition appended ::
  "http_cache \<Rightarrow> addr \<Rightarrow> cache_entry \<Rightarrow> addr list \<Rightarrow> addr \<Rightarrow> string \<Rightarrow> http_cache" where
  "appended c a e ks k data = c\<lparr>
     ents := (ents c)(a \<mapsto> e\<lparr>data_head := first_ptr (ks @ [k]) None, data_tail := Some k,
       total_size := total_size e + of_nat (length data)\<rparr>),
     chunks := link_chunk (chunks c) ks k data,
     c_trace := c_trace c @ [Acquire (EntryLock a), Broadcast a, Release (EntryLock a)]\<rparr>"

lemma append_chunk_runs:
  assumes holds: "entry_holds c a ks D" and e: "ents c a = Some e"
    and st: "e_state e \<noteq> ENTRY_CANCELLED" and k: "k \<notin> dom (chunks c)"
    and len: "length data < 2 ^ 63"
  shows "cache_entry_append_chunk (Some k) True a data (of_nat (length data)) c =
    ret (0, appended c a e ks k data)"
proof -
  from holds e have ch: "chain (chunks c) (data_head e) ks" and tl: "data_tail e = last_ptr None ks"
    by (auto simp: entry_holds_def)
  note w = sint_of_nat_64[OF len] unat_of_nat_64[OF len]
  show ?thesis
  proof (cases ks rule: rev_cases)
    case Nil
    then show ?thesis
      using ch tl e st w
      by (simp add: cache_entry_append_chunk_def appended_def link_chunk_def emit_def Let_def)
  next
    case (snoc ls z)
    from chain_dom[OF ch] snoc obtain d where d: "chunks c z = Some d" by auto
    have zk: "z \<noteq> k" using k d by auto
    have hd: "data_head e = first_ptr (ks @ [k]) None" "data_head e \<noteq> None"
      using lseg_first[of "links ck_next (chunks c)" "data_head e" ks None] ch snoc
      by (cases ls; simp add: chain_def first_ptr_append)+
    show ?thesis
      using hd tl e st w d zk snoc
      by (cases e) (simp add: cache_entry_append_chunk_def appended_def link_chunk_def emit_def Let_def)
  qed
qed

lemma appended_holds:
  assumes "entry_holds c a ks D" and "ents c a = Some e" and "k \<notin> dom (chunks c)"
  shows "entry_holds (appended c a e ks k data) a (ks @ [k]) (D @ data)"
  using assms chain_snoc[of "chunks c" "data_head e" ks k data]
  by (simp add: entry_holds_def appended_def)

subsection \<open>Reading\<close>

lemma find_chunk_spec:
  assumes "chain h p ks" and "0 \<le> off"
  shows "\<exists>q o' ls. find_chunk h p off = ret (q, o') \<and> chain h q ls \<and> 0 \<le> o' \<and>
    drop (nat off) (chunk_bytes h ks) = drop (nat o') (chunk_bytes h ls) \<and>
    (\<forall>k d. q = Some k \<longrightarrow> h k = Some d \<longrightarrow> o' < ck_size d)"
  using assms
proof (induction ks arbitrary: p off)
  case Nil
  then show ?case by (intro exI[of _ None] exI[of _ off] exI[of _ "[]"]) (simp add: find_chunk.simps)
next
  case (Cons k ks)
  then obtain d where p: "p = Some k" and d: "h k = Some d"
      "ck_size d = int (length (ck_data d))" "chain h (ck_next d) ks"
    by auto
  show ?case
  proof (cases "ck_size d \<le> off")
    case True
    have "drop (nat off) (chunk_bytes h (k # ks)) = drop (nat (off - ck_size d)) (chunk_bytes h ks)"
      using True d Cons.prems(2) by (simp add: nat_diff_distrib)
    then show ?thesis
      using Cons.IH[OF d(3), of "off - ck_size d"] True p d(1) by (simp add: find_chunk.simps[of h "Some k"])
  next
    case False
    then have "find_chunk h p off = ret (p, off)" using p d(1) by (simp add: find_chunk.simps)
    then show ?thesis
      using Cons.prems False p d(1)
      by (intro exI[of _ p] exI[of _ off] exI[of _ "k # ks"]) auto
  qed
qed

lemma copy_chunks_spec:
  assumes "chain h p ks" and "0 \<le> off" and "\<And>k d. p = Some k \<Longrightarrow> h k = Some d \<Longrightarrow> off \<le> ck_size d"
  shows "copy_chunks h p off n out =
    ret (out @ take (nat (n - int (length out))) (drop (nat off) (chunk_bytes h ks)))"
  using assms
proof (induction ks arbitrary: p off out)
  case Nil
  then show ?case by (simp add: copy_chunks.simps)
next
  case (Cons k ks)
  then obtain d where p: "p = Some k" and d: "h k = Some d"
      "ck_size d = int (length (ck_data d))" "chain h (ck_next d) ks"
    by auto
  show ?case
  proof (cases "int (length out) < n")
    case False
    then show ?thesis by (simp add: copy_chunks.simps)
  next
    case True
    define r where "r = (if n - int (length out) < ck_size d - off
      then n - int (length out) else ck_size d - off)"
    have off: "off \<le> int (length (ck_data d))" using Cons.prems(3)[OF p d(1)] d(2) by simp
    have r: "0 \<le> r" "off + r \<le> int (length (ck_data d))" using True off d(2) by (auto simp: r_def)
    let ?part = "take (nat r) (drop (nat off) (ck_data d))"
    have "copy_chunks h p off n out = copy_chunks h (ck_next d) 0 n (out @ ?part)"
      using True p d(1) r Cons.prems(2) by (simp add: copy_chunks.simps[of h "Some k"] Let_def r_def[symmetric])
    also have "\<dots> = ret ((out @ ?part) @
        take (nat (n - int (length (out @ ?part)))) (drop (nat 0) (chunk_bytes h ks)))"
    proof (rule Cons.IH[OF d(3)])
      fix k' d' assume "ck_next d = Some k'" "h k' = Some d'"
      then show "0 \<le> ck_size d'" using d(3) by (cases ks) auto
    qed simp
    also have "(out @ ?part) @ take (nat (n - int (length (out @ ?part)))) (drop (nat 0) (chunk_bytes h ks)) =
        out @ take (nat (n - int (length out))) (drop (nat off) (chunk_bytes h (k # ks)))"
    proof (cases "n - int (length out) < ck_size d - off")
      case True
      then have "nat (n - int (length out)) \<le> length (ck_data d) - nat off"
        and "n - int (length (out @ ?part)) \<le> 0"
        using r off d Cons.prems(2) \<open>int (length out) < n\<close> by (auto simp: r_def)
      then show ?thesis using True d(1) by (simp add: r_def)
    next
      case False
      then have "nat r = length (ck_data d) - nat off"
        using d(2) Cons.prems(2) off by (simp add: r_def nat_diff_distrib)
      moreover have "nat (n - int (length out)) - (length (ck_data d) - nat off) =
          nat (n - int (length (out @ ?part)))"
        using False calculation off Cons.prems(2) d(2) by simp
      moreover have "length (ck_data d) - nat off \<le> nat (n - int (length out))"
        using False off Cons.prems(2) d(2) by linarith
      moreover have "nat off - length (ck_data d) = 0"
        and "int (length (ck_data d) - nat off) = int (length (ck_data d)) - off"
        using off Cons.prems(2) by linarith+
      ultimately show ?thesis
        using d(1) off Cons.prems(2) by (simp add: algebra_simps)
    qed
    finally show ?thesis .
  qed
qed

end
