(* ===== verification/CacheTable.thy ===== *)
theory CacheTable
  imports CacheLru CacheChunks
begin

section \<open>The operations of the cache\<close>

text \<open>
  The functions of \<^verbatim>\<open>caching/httpcache.c\<close> on the hash table: looking up and inserting an
  entry, the life cycle of an entry, the collector's sweep, creation and shutdown, and the two
  unused eviction functions. Every mutex operation is recorded in the trace; the allocator's
  answers, the clock and the success of \<open>pthread_create\<close> are arguments.
\<close>

definition bucket_head :: "http_cache \<Rightarrow> nat \<Rightarrow> ptr run" where
  "bucket_head c i = (if i < length (buckets c) then ret (buckets c ! i) else crashed OutOfBounds)"

lemma bucket_head_logged [simp]: "bucket_head (logged evs c) = bucket_head c"
  by (rule ext) (simp add: bucket_head_def)

definition free_entry :: "addr \<Rightarrow> http_cache \<Rightarrow> http_cache run" where
  "free_entry a c = bindR (free_entry_data c a) (\<lambda>c. ret (c\<lparr>ents := (ents c)(a := None)\<rparr>))"

subsection \<open>Lookup\<close>

partial_function (option) lookup_loop ::
  "int \<Rightarrow> string \<Rightarrow> ptr \<Rightarrow> http_cache \<Rightarrow> (ptr \<times> http_cache) run" where
  "lookup_loop now url entry c =
     (if entry = None then ret (None, c)
      else bindR (get_entry c entry) (\<lambda>e.
        if e_url e = url then
          let a = the entry; c = emit (Acquire (EntryLock a)) c in
          if e_state e = ENTRY_CANCELLED
          then lookup_loop now url (e_next e) (emit (Release (EntryLock a)) c)
          else
            bindR (set_entry c entry
                     (\<lambda>e. e\<lparr>refcount := refcount e + 1, last_access := now\<rparr>)) (\<lambda>c.
            bindR (lru_remove (emit (Acquire LruLock) c) a) (\<lambda>c.
            bindR (lru_add_head c a) (\<lambda>c.
            ret (entry, emit (Release (EntryLock a)) (emit (Release LruLock) c)))))
        else lookup_loop now url (e_next e) c))"

definition cache_lookup :: "int \<Rightarrow> string \<Rightarrow> http_cache \<Rightarrow> (ptr \<times> http_cache) run" where
  "cache_lookup now url c =
     (let i = bucket_idx c url; c = emit (Acquire (BucketLock i)) c in
      bindR (bucket_head c i) (\<lambda>p.
      bindR (lookup_loop now url p c) (\<lambda>(entry, c).
      ret (entry, emit (Release (BucketLock i)) c))))"

subsection \<open>Insertion\<close>

text \<open>
  \<open>mc\<close> is what \<open>calloc\<close> returns. The URL is copied by \<open>strncpy\<close> into a zeroed array, so
  at most \<open>MAX_URL_LENGTH - 1\<close> characters of it are kept.
\<close>

definition new_entry :: "int \<Rightarrow> string \<Rightarrow> cache_entry" where
  "new_entry now url = \<lparr>e_url = take (MAX_URL_LENGTH - 1) url, data_head = None, data_tail = None,
     total_size = 0, last_access = now, e_state = ENTRY_INCOMPLETE, refcount = 1,
     e_next = None, lru_prev = None, lru_next = None\<rparr>"

definition cache_insert :: "ptr \<Rightarrow> int \<Rightarrow> string \<Rightarrow> http_cache \<Rightarrow> (ptr \<times> http_cache) run" where
  "cache_insert mc now url c =
     (case mc of
        None \<Rightarrow> ret (None, c)
      | Some a \<Rightarrow>
        let c = c\<lparr>ents := (ents c)(a \<mapsto> new_entry now url)\<rparr>;
            i = bucket_idx c url;
            c = emit (Acquire (BucketLock i)) c in
        bindR (bucket_head c i) (\<lambda>p.
        bindR (set_entry c (Some a) (\<lambda>e. e\<lparr>e_next := p\<rparr>)) (\<lambda>c.
        let c = emit (Release (BucketLock i)) (c\<lparr>buckets := (buckets c)[i := Some a]\<rparr>) in
        bindR (lru_add_head (emit (Acquire LruLock) c) a) (\<lambda>c.
        ret (Some a, emit (Release LruLock) c)))))"

subsection \<open>The life cycle of an entry\<close>

definition locked_update :: "bool \<Rightarrow> (cache_entry \<Rightarrow> cache_entry) \<Rightarrow> ptr \<Rightarrow> http_cache \<Rightarrow> http_cache run" where
  "locked_update broadcast f entry c =
     (case entry of
        None \<Rightarrow> ret c
      | Some a \<Rightarrow>
        bindR (set_entry (emit (Acquire (EntryLock a)) c) entry f) (\<lambda>c.
        ret (emit (Release (EntryLock a)) (if broadcast then emit (Broadcast a) c else c))))"

definition cache_entry_complete :: "ptr \<Rightarrow> http_cache \<Rightarrow> http_cache run" where
  "cache_entry_complete = locked_update True (\<lambda>e. e\<lparr>e_state := ENTRY_COMPLETE\<rparr>)"

definition cache_entry_release :: "ptr \<Rightarrow> http_cache \<Rightarrow> http_cache run" where
  "cache_entry_release = locked_update False (\<lambda>e. e\<lparr>refcount := refcount e - 1\<rparr>)"

definition cache_entry_cancel :: "ptr \<Rightarrow> http_cache \<Rightarrow> http_cache run" where
  "cache_entry_cancel = locked_update True (\<lambda>e. e\<lparr>e_state := ENTRY_CANCELLED\<rparr>)"

subsection \<open>The collector's sweep\<close>

definition subtract_size :: "64 word \<Rightarrow> http_cache \<Rightarrow> http_cache" where
  "subtract_size n c = emit (Release SizeLock)
     ((emit (Acquire SizeLock) c)\<lparr>current_size := current_size c - n\<rparr>)"

lemma subtract_size_logged:
  "subtract_size n c = logged [Acquire SizeLock, Release SizeLock]
     (c\<lparr>current_size := current_size c - n\<rparr>)"
  by (simp add: subtract_size_def emit_logged logged_def)

text \<open>The branch of the sweep that removes the entry at \<open>a\<close>, whose mutex is held.\<close>

definition reap_entry :: "nat \<Rightarrow> ptr \<Rightarrow> addr \<Rightarrow> http_cache \<Rightarrow> http_cache run" where
  "reap_entry i prev a c =
     bindR (get_entry c (Some a)) (\<lambda>e.
     bindR (if prev = None then ret (c\<lparr>buckets := (buckets c)[i := e_next e]\<rparr>)
            else set_entry c prev (\<lambda>p. p\<lparr>e_next := e_next e\<rparr>)) (\<lambda>c.
     bindR (lru_remove (emit (Acquire LruLock) c) a) (\<lambda>c.
     bindR (get_entry c (Some a)) (\<lambda>r.
     let c = subtract_size (total_size r) (emit (Release LruLock) c);
         c = emit (Destroy (EntryLock a)) (emit (Release (EntryLock a)) c) in
     free_entry a c))))"

partial_function (option) cleanup_bucket ::
  "nat \<Rightarrow> ptr \<Rightarrow> ptr \<Rightarrow> http_cache \<Rightarrow> http_cache run" where
  "cleanup_bucket i prev entry c =
     (if entry = None then ret c
      else bindR (get_entry c entry) (\<lambda>e.
        let a = the entry; c = emit (Acquire (EntryLock a)) c in
        if e_state e = ENTRY_CANCELLED \<and> refcount e = 0
        then bindR (reap_entry i prev a c) (cleanup_bucket i prev (e_next e))
        else cleanup_bucket i entry (e_next e) (emit (Release (EntryLock a)) c)))"

definition cleanup_cancelled_entries :: "http_cache \<Rightarrow> http_cache run" where
  "cleanup_cancelled_entries c =
     forR (\<lambda>i c.
       let c = emit (Acquire (BucketLock i)) c in
       bindR (bucket_head c i) (\<lambda>p.
       bindR (cleanup_bucket i None p c) (\<lambda>c.
       ret (emit (Release (BucketLock i)) c)))) [0..<num_buckets c] c"

text \<open>
  The collector thread: each element of \<open>signals\<close> is one return of its timed wait, with what
  the other threads did to the cache in the meantime (the shutdown clears
  \<open>collector_running\<close>). \<open>None\<close> means that it is still waiting.
\<close>

fun collector_thread_func :: "(http_cache \<Rightarrow> http_cache) list \<Rightarrow> http_cache \<Rightarrow> http_cache run" where
  "collector_thread_func [] c = None"
| "collector_thread_func (others # signals) c =
     (let c = emit (Acquire CollectorLock)
                (others (emit (Release CollectorLock) (emit (Acquire CollectorLock) c))) in
      let c' = emit (Release CollectorLock) c in
      if \<not> collector_running c then ret c'
      else bindR (cleanup_cancelled_entries c') (collector_thread_func signals))"

subsection \<open>Shutdown and creation\<close>

partial_function (option) free_bucket :: "ptr \<Rightarrow> http_cache \<Rightarrow> http_cache run" where
  "free_bucket entry c =
     (if entry = None then ret c
      else bindR (get_entry c entry) (\<lambda>e.
        bindR (free_entry (the entry) (emit (Destroy (EntryLock (the entry))) c))
          (free_bucket (e_next e))))"

definition free_all_buckets :: "http_cache \<Rightarrow> http_cache run" where
  "free_all_buckets c =
     forR (\<lambda>i c.
       let c = emit (Acquire (BucketLock i)) c in
       bindR (bucket_head c i) (\<lambda>p.
       bindR (free_bucket p c) (\<lambda>c.
       ret (emit (Destroy (BucketLock i)) (emit (Release (BucketLock i)) c))))) [0..<num_buckets c] c"

text \<open>
  Both shutdown functions take the address of the cache pointer and set the pointer to
  \<open>NULL\<close>. The result is the new pointer and what is left of the memory: the state whose
  heaps hold the cells that have not been freed, when there was a cache.
\<close>

definition http_cache_shutdown_no_collector ::
  "http_cache option \<Rightarrow> (http_cache option \<times> http_cache option) run" where
  "http_cache_shutdown_no_collector cache =
     (case cache of
        None \<Rightarrow> ret (None, None)
      | Some c \<Rightarrow>
        bindR (free_all_buckets c) (\<lambda>c.
        ret (None, Some ((emit (Destroy SizeLock) (emit (Destroy LruLock) c))\<lparr>buckets := []\<rparr>))))"

definition http_cache_shutdown ::
  "http_cache option \<Rightarrow> (http_cache option \<times> http_cache option) run" where
  "http_cache_shutdown cache =
     (case cache of
        None \<Rightarrow> ret (None, None)
      | Some c \<Rightarrow>
        let c = emit (Destroy CollectorLock) (emit (Release CollectorLock)
                  ((emit (Acquire CollectorLock) c)\<lparr>collector_running := False\<rparr>)) in
        bindR (free_all_buckets c) (\<lambda>c.
        ret (None, Some ((emit (Destroy SizeLock) (emit (Destroy LruLock) c))\<lparr>buckets := []\<rparr>))))"

definition empty_cache :: "64 word \<Rightarrow> http_cache" where
  "empty_cache mx = \<lparr>buckets = replicate MAX_BUCKETS None, num_buckets = MAX_BUCKETS,
     current_size = 0, max_size = (if mx \<noteq> 0 then mx else DEFAULT_CACHE_SIZE),
     lru_head = None, lru_tail = None, collector_running = True,
     ents = Map.empty, chunks = Map.empty, c_trace = []\<rparr>"

text \<open>
  When \<open>pthread_create\<close> fails, the cache is shut down through its own address, which makes
  the pointer \<open>NULL\<close>, and then the collector's mutex is destroyed through that pointer.
\<close>

definition http_cache_init :: "bool \<Rightarrow> bool \<Rightarrow> bool \<Rightarrow> 64 word \<Rightarrow> http_cache option run" where
  "http_cache_init cache_mem buckets_mem thread_created mx =
     (if \<not> cache_mem then ret None
      else if \<not> buckets_mem then ret None
      else if \<not> thread_created then
        bindR (http_cache_shutdown_no_collector (Some (empty_cache mx))) (\<lambda>(cache, _).
        if cache = None then crashed NullDeref else ret None)
      else ret (Some (empty_cache mx)))"

subsection \<open>Eviction (not called by the program)\<close>

partial_function (option) unlink_loop :: "nat \<Rightarrow> addr \<Rightarrow> ptr \<Rightarrow> ptr \<Rightarrow> http_cache \<Rightarrow> http_cache run" where
  "unlink_loop i a prev p c =
     (if p = None then ret c
      else if p = Some a then
        bindR (get_entry c (Some a)) (\<lambda>e.
        if prev = None then ret (c\<lparr>buckets := (buckets c)[i := e_next e]\<rparr>)
        else set_entry c prev (\<lambda>r. r\<lparr>e_next := e_next e\<rparr>))
      else bindR (get_entry c p) (\<lambda>e. unlink_loop i a p (e_next e) c))"

text \<open>The common part of the two eviction functions, after the LRU list: bucket, size, free.\<close>

definition drop_entry :: "addr \<Rightarrow> http_cache \<Rightarrow> http_cache run" where
  "drop_entry a c =
     bindR (get_entry c (Some a)) (\<lambda>e.
     let i = bucket_idx c (e_url e); c = emit (Acquire (BucketLock i)) c in
     bindR (bucket_head c i) (\<lambda>p.
     bindR (unlink_loop i a None p c) (\<lambda>c.
     bindR (get_entry c (Some a)) (\<lambda>e.
     let c = emit (Release (BucketLock i)) (subtract_size (total_size e) c) in
     free_entry a (emit (Destroy (EntryLock a)) c)))))"

definition remove_entry :: "addr \<Rightarrow> http_cache \<Rightarrow> http_cache run" where
  "remove_entry a c =
     bindR (get_entry c (Some a)) (\<lambda>e.
     let c = emit (Acquire (EntryLock a)) c in
     if refcount e > 0 then ret (emit (Release (EntryLock a)) c)
     else bindR (lru_remove (emit (Acquire LruLock) c) a) (\<lambda>c.
       drop_entry a (emit (Release LruLock) c)))"

partial_function (option) evict_lru_entries :: "64 word \<Rightarrow> http_cache \<Rightarrow> http_cache run" where
  "evict_lru_entries required_size c =
     (let c = emit (Release SizeLock) (emit (Acquire SizeLock) c) in
      if current_size c + required_size \<le> max_size c then ret c
      else
        let c = emit (Acquire LruLock) c in
        if lru_tail c = None then ret (emit (Release LruLock) c)
        else bindR (get_entry c (lru_tail c)) (\<lambda>e.
          if refcount e > 0 then
            if lru_prev e = None then ret (emit (Release LruLock) c)
            else bindR (set_entry (c\<lparr>lru_tail := lru_prev e\<rparr>) (lru_prev e)
                          (\<lambda>p. p\<lparr>lru_next := None\<rparr>)) (\<lambda>c.
                 evict_lru_entries required_size (emit (Release LruLock) c))
          else bindR (lru_remove c (the (lru_tail c))) (\<lambda>d.
               bindR (drop_entry (the (lru_tail c)) (emit (Release LruLock) d))
                 (evict_lru_entries required_size))))"

end
