(* ===== verification/CacheInv.thy ===== *)
theory CacheInv
  imports CacheTable
begin

section \<open>The invariant of the cache\<close>

text \<open>
  The well-formedness of the whole structure: every bucket is a proper list of entries whose
  URLs hash to it, the LRU list holds exactly the allocated entries, the entries of the buckets
  are exactly the allocated ones, and the data chunks are partitioned among the entries. The
  lemmas say how each kind of change to the heap acts on the invariant.
\<close>

abbreviation enexts :: "http_cache \<Rightarrow> addr \<rightharpoonup> ptr" where
  "enexts c \<equiv> links e_next (ents c)"

definition table_ok :: "http_cache \<Rightarrow> (nat \<Rightarrow> addr list) \<Rightarrow> bool" where
  "table_ok c bk \<longleftrightarrow> 0 < num_buckets c \<and> length (buckets c) = num_buckets c \<and>
     (\<forall>i < num_buckets c. llist (enexts c) (buckets c ! i) (bk i)) \<and>
     (\<forall>i < num_buckets c. \<forall>a \<in> set (bk i). \<forall>u.
        links e_url (ents c) a = Some u \<longrightarrow> bucket_idx c u = i) \<and>
     dom (ents c) = (\<Union>i < num_buckets c. set (bk i))"

definition data_ok :: "http_cache \<Rightarrow> (addr \<Rightarrow> addr list) \<Rightarrow> bool" where
  "data_ok c ck \<longleftrightarrow> (\<forall>a \<in> dom (ents c). \<exists>D. entry_holds c a (ck a) D) \<and>
     (\<forall>a \<in> dom (ents c). \<forall>b \<in> dom (ents c). a \<noteq> b \<longrightarrow> set (ck a) \<inter> set (ck b) = {}) \<and>
     dom (chunks c) = (\<Union>a \<in> dom (ents c). set (ck a))"

lemma data_okD:
  assumes "data_ok c ck"
  shows "a \<in> dom (ents c) \<Longrightarrow> \<exists>D. entry_holds c a (ck a) D"
    and "a \<in> dom (ents c) \<Longrightarrow> b \<in> dom (ents c) \<Longrightarrow> a \<noteq> b \<Longrightarrow> set (ck a) \<inter> set (ck b) = {}"
    and "dom (chunks c) = (\<Union>a \<in> dom (ents c). set (ck a))"
  using assms unfolding data_ok_def by blast+

lemma data_okI:
  assumes "\<And>a. a \<in> dom (ents c) \<Longrightarrow> \<exists>D. entry_holds c a (ck a) D"
    and "\<And>a b. a \<in> dom (ents c) \<Longrightarrow> b \<in> dom (ents c) \<Longrightarrow> a \<noteq> b \<Longrightarrow> set (ck a) \<inter> set (ck b) = {}"
    and "dom (chunks c) = (\<Union>a \<in> dom (ents c). set (ck a))"
  shows "data_ok c ck"
  using assms unfolding data_ok_def by blast

lemma table_okD:
  assumes "table_ok c bk"
  shows "0 < num_buckets c" "length (buckets c) = num_buckets c"
    and "i < num_buckets c \<Longrightarrow> llist (enexts c) (buckets c ! i) (bk i)"
    and "i < num_buckets c \<Longrightarrow> a \<in> set (bk i) \<Longrightarrow> links e_url (ents c) a = Some u \<Longrightarrow> bucket_idx c u = i"
    and "dom (ents c) = (\<Union>i < num_buckets c. set (bk i))"
  using assms unfolding table_ok_def by blast+

lemma table_okI:
  assumes "0 < num_buckets c" "length (buckets c) = num_buckets c"
    and "\<And>i. i < num_buckets c \<Longrightarrow> llist (enexts c) (buckets c ! i) (bk i)"
    and "\<And>i a u. i < num_buckets c \<Longrightarrow> a \<in> set (bk i) \<Longrightarrow> links e_url (ents c) a = Some u \<Longrightarrow>
       bucket_idx c u = i"
    and "dom (ents c) = (\<Union>i < num_buckets c. set (bk i))"
  shows "table_ok c bk"
  using assms unfolding table_ok_def by blast

definition cache_inv ::
  "http_cache \<Rightarrow> (nat \<Rightarrow> addr list) \<Rightarrow> addr list \<Rightarrow> (addr \<Rightarrow> addr list) \<Rightarrow> bool" where
  "cache_inv c bk es ck \<longleftrightarrow> table_ok c bk \<and> lru_ok c es \<and> set es = dom (ents c) \<and> data_ok c ck"

definition cache_ok :: "http_cache \<Rightarrow> bool" where
  "cache_ok c \<longleftrightarrow> (\<exists>bk es ck. cache_inv c bk es ck)"

subsection \<open>What the invariant depends on\<close>

text \<open>The fields of an entry that the invariant reads, apart from the LRU pointers.\<close>

definition shape :: "cache_entry \<Rightarrow> string \<times> ptr \<times> ptr \<times> ptr \<times> 64 word" where
  "shape e = (e_url e, e_next e, data_head e, data_tail e, total_size e)"

lemma shape_projections:
  assumes "links shape h' = links shape h"
  shows "links e_url h' = links e_url h" "links e_next h' = links e_next h"
    "links data_head h' = links data_head h" "links data_tail h' = links data_tail h"
    "links total_size h' = links total_size h" "dom h' = dom h"
proof -
  show "links e_url h' = links e_url h"
    by (rule links_factor[OF assms, of e_url fst]) (simp add: shape_def)
  show "links e_next h' = links e_next h"
    by (rule links_factor[OF assms, of e_next "\<lambda>x. fst (snd x)"]) (simp add: shape_def)
  show "links data_head h' = links data_head h"
    by (rule links_factor[OF assms, of data_head "\<lambda>x. fst (snd (snd x))"]) (simp add: shape_def)
  show "links data_tail h' = links data_tail h"
    by (rule links_factor[OF assms, of data_tail "\<lambda>x. fst (snd (snd (snd x)))"]) (simp add: shape_def)
  show "links total_size h' = links total_size h"
    by (rule links_factor[OF assms, of total_size "\<lambda>x. snd (snd (snd (snd x)))"]) (simp add: shape_def)
  show "dom h' = dom h" by (metis assms dom_links)
qed

lemma lru_frame_shape: "lru_frame c c' \<Longrightarrow> links shape (ents c') = links shape (ents c)"
  by (rule lru_frame_links[of c c' shape shape]) (simp_all add: shape_def)

lemma entry_holds_links:
  "entry_holds c a ks D \<longleftrightarrow> (\<exists>p. links data_head (ents c) a = Some p \<and> chain (chunks c) p ks) \<and>
     links data_tail (ents c) a = Some (last_ptr None ks) \<and> D = chunk_bytes (chunks c) ks \<and>
     links total_size (ents c) a = Some (of_nat (length D))"
  by (auto simp: entry_holds_def links_eq_Some_iff)

lemma table_ok_transfer:
  assumes "table_ok c bk" and "links shape (ents c') = links shape (ents c)"
    and "buckets c' = buckets c" "num_buckets c' = num_buckets c"
  shows "table_ok c' bk"
  using assms shape_projections[OF assms(2)] by (simp add: table_ok_def bucket_idx_def)

lemma data_ok_transfer:
  assumes "data_ok c ck" and "links shape (ents c') = links shape (ents c)"
    and "chunks c' = chunks c"
  shows "data_ok c' ck"
  using assms shape_projections[OF assms(2)] by (simp add: data_ok_def entry_holds_links)

lemma cache_inv_transfer:
  assumes "cache_inv c bk es ck" and "links shape (ents c') = links shape (ents c)"
    and "buckets c' = buckets c" "num_buckets c' = num_buckets c" "chunks c' = chunks c"
    and "lru_ok c' es'" "set es' = set es"
  shows "cache_inv c' bk es' ck"
  using assms shape_projections(6)[OF assms(2)] unfolding cache_inv_def
  by (blast intro: table_ok_transfer data_ok_transfer)

lemma lru_ok_same:
  assumes "lru_ok c es" and "prevs c' = prevs c" "nexts c' = nexts c"
    and "lru_head c' = lru_head c" "lru_tail c' = lru_tail c"
  shows "lru_ok c' es"
  using assms by (simp add: lru_ok_def)

text \<open>An update of one entry that touches neither links nor data.\<close>

lemma set_entry_shape:
  assumes "ents c a = Some e" and "shape (f e) = shape e"
  shows "links shape ((ents c)(a \<mapsto> f e)) = links shape (ents c)"
  using assms by (simp add: links_id_upd)

lemma cache_inv_logged [simp]: "cache_inv (logged evs c) bk es ck \<longleftrightarrow> cache_inv c bk es ck"
  by (simp add: cache_inv_def table_ok_def lru_ok_def data_ok_def entry_holds_links)

lemma cache_inv_set_entry:
  assumes inv: "cache_inv c bk es ck" and e: "ents c a = Some e"
    and "shape (f e) = shape e" "lru_prev (f e) = lru_prev e" "lru_next (f e) = lru_next e"
  shows "cache_inv (c\<lparr>ents := (ents c)(a \<mapsto> f e)\<rparr>) bk es ck"
proof (rule cache_inv_transfer[OF inv])
  from inv have "lru_ok c es" by (simp add: cache_inv_def)
  then show "lru_ok (c\<lparr>ents := (ents c)(a \<mapsto> f e)\<rparr>) es"
    by (rule lru_ok_same) (use assms(2,4,5) in \<open>simp_all add: links_id_upd\<close>)
  show "links shape (ents (c\<lparr>ents := (ents c)(a \<mapsto> f e)\<rparr>)) = links shape (ents c)"
    using set_entry_shape[of c a e f, OF e assms(3)] by simp
qed simp_all

subsection \<open>Consequences used by the operations\<close>

lemma cache_inv_bucket:
  assumes "cache_inv c bk es ck" and "i < num_buckets c"
  shows "bucket_head c i = ret (buckets c ! i)" "llist (enexts c) (buckets c ! i) (bk i)"
    "set (bk i) \<subseteq> dom (ents c)"
  using assms by (auto simp: cache_inv_def table_ok_def bucket_head_def)

lemma cache_inv_url:
  assumes "cache_inv c bk es ck" and "i < num_buckets c" "a \<in> set (bk i)" "ents c a = Some e"
  shows "bucket_idx c (e_url e) = i"
  using assms by (auto simp: cache_inv_def table_ok_def)

lemma cache_inv_entry_bucket:
  assumes inv: "cache_inv c bk es ck" and e: "ents c a = Some e"
  shows "a \<in> set (bk (bucket_idx c (e_url e)))"
proof -
  from e have "a \<in> dom (ents c)" by auto
  moreover from inv have "dom (ents c) = (\<Union>i < num_buckets c. set (bk i))"
    by (simp add: cache_inv_def table_ok_def)
  ultimately obtain i where i: "i < num_buckets c" "a \<in> set (bk i)" by auto
  with cache_inv_url[OF inv i e] show ?thesis by simp
qed

lemma cache_inv_lru_split:
  assumes "cache_inv c bk es ck" and "a \<in> dom (ents c)"
  obtains xs ys where "es = xs @ a # ys" "lru_ok c (xs @ a # ys)" "remove1 a es = xs @ ys"
proof -
  from assms have "a \<in> set es" and lru: "lru_ok c es" by (auto simp: cache_inv_def)
  then obtain xs ys where es: "es = xs @ a # ys" by (meson split_list)
  with lru have "a \<notin> set xs" by (simp add: lru_ok_def)
  then show thesis using that es lru by (simp add: remove1_append)
qed

lemma cache_inv_holds:
  assumes "cache_inv c bk es ck" and "a \<in> dom (ents c)"
  obtains D where "entry_holds c a (ck a) D"
proof -
  from assms have "\<exists>D. entry_holds c a (ck a) D" by (simp add: cache_inv_def data_ok_def)
  then show thesis using that by blast
qed

end
