(* ===== verification/CacheSweep.thy ===== *)
theory CacheSweep
  imports CacheInv
begin

section \<open>Removing entries: the collector's sweep and the shutdown\<close>

text \<open>
  Unlinking an entry from its bucket and from the LRU list, freeing it with its chunks, and
  the loops that do so: \<open>cleanup_cancelled_entries\<close> removes exactly the cancelled entries that
  nobody references, and the shutdown frees everything.
\<close>

subsection \<open>Unlinking from a bucket\<close>

definition nonext :: "cache_entry \<Rightarrow> cache_entry" where
  "nonext e = e\<lparr>e_next := None\<rparr>"

lemma nonext_simps [simp]:
  "nonext (e\<lparr>e_next := q\<rparr>) = nonext e" "e_url (nonext e) = e_url e"
  "data_head (nonext e) = data_head e" "data_tail (nonext e) = data_tail e"
  "total_size (nonext e) = total_size e" "e_state (nonext e) = e_state e"
  "refcount (nonext e) = refcount e" "lru_prev (nonext e) = lru_prev e"
  "lru_next (nonext e) = lru_next e"
  by (simp_all add: nonext_def)

definition unlinked :: "http_cache \<Rightarrow> http_cache \<Rightarrow> bool" where
  "unlinked c c' \<longleftrightarrow> links nonext (ents c') = links nonext (ents c) \<and>
     length (buckets c') = length (buckets c) \<and> num_buckets c' = num_buckets c \<and>
     current_size c' = current_size c \<and> max_size c' = max_size c \<and> chunks c' = chunks c \<and>
     lru_head c' = lru_head c \<and> lru_tail c' = lru_tail c \<and>
     collector_running c' = collector_running c \<and> c_trace c' = c_trace c"

lemma unlinked_links:
  assumes "unlinked c c'"
  shows "links e_url (ents c') = links e_url (ents c)"
    "links data_head (ents c') = links data_head (ents c)"
    "links data_tail (ents c') = links data_tail (ents c)"
    "links total_size (ents c') = links total_size (ents c)"
    "prevs c' = prevs c" "nexts c' = nexts c" "dom (ents c') = dom (ents c)"
proof -
  from assms have l: "links nonext (ents c') = links nonext (ents c)" by (simp add: unlinked_def)
  note f = links_factor[OF l]
  show "links e_url (ents c') = links e_url (ents c)" by (rule f[of e_url e_url]) simp
  show "links data_head (ents c') = links data_head (ents c)" by (rule f[of data_head data_head]) simp
  show "links data_tail (ents c') = links data_tail (ents c)" by (rule f[of data_tail data_tail]) simp
  show "links total_size (ents c') = links total_size (ents c)"
    by (rule f[of total_size total_size]) simp
  show "prevs c' = prevs c" by (rule f[of lru_prev lru_prev]) simp
  show "nexts c' = nexts c" by (rule f[of lru_next lru_next]) simp
  show "dom (ents c') = dom (ents c)" using l by (metis dom_links)
qed

lemma buckets_disjoint:
  assumes ok: "table_ok c bk" and "i < num_buckets c" "j < num_buckets c" "i \<noteq> j"
  shows "set (bk i) \<inter> set (bk j) = {}"
proof (rule ccontr)
  assume "set (bk i) \<inter> set (bk j) \<noteq> {}"
  then obtain a where a: "a \<in> set (bk i)" "a \<in> set (bk j)" by blast
  with ok assms(2) have "a \<in> dom (ents c)" using table_okD(5)[OF ok] by blast
  then obtain u where "links e_url (ents c) a = Some u" by (auto simp: links_def)
  with a assms show False using table_okD(4)[OF ok] by metis
qed

lemma bucket_unlink:
  assumes ok: "table_ok c bk" and i: "i < num_buckets c" and bk: "bk i = xs @ a # ys"
    and e: "ents c a = Some e"
  obtains c' where
    "(if last_ptr None xs = None then ret (c\<lparr>buckets := (buckets c)[i := e_next e]\<rparr>)
      else set_entry c (last_ptr None xs) (\<lambda>p. p\<lparr>e_next := e_next e\<rparr>)) = ret c'"
    "unlinked c c'"
    "\<And>j. j < num_buckets c \<Longrightarrow> llist (enexts c') (buckets c' ! j) ((bk(i := xs @ ys)) j)"
proof (cases xs rule: rev_cases)
  case Nil
  let ?c = "c\<lparr>buckets := (buckets c)[i := e_next e]\<rparr>"
  from table_okD(3)[OF ok i] bk e Nil have "llist (enexts c) (e_next e) ys" by simp
  then have "llist (enexts ?c) (buckets ?c ! j) ((bk(i := xs @ ys)) j)" if "j < num_buckets c" for j
    using that i table_okD(2)[OF ok] table_okD(3)[OF ok that] Nil by (cases "j = i") auto
  then show thesis by (rule that[rotated 2]) (simp_all add: Nil unlinked_def)
next
  case (snoc us z)
  from table_okD(3)[OF ok i] bk snoc have l: "llist (enexts c) (buckets c ! i) (us @ z # a # ys)"
    by simp
  from lseg_dom[OF l] obtain r where r: "ents c z = Some r" by auto
  let ?c = "c\<lparr>ents := (ents c)(z \<mapsto> r\<lparr>e_next := e_next e\<rparr>)\<rparr>"
  have en: "enexts ?c = (enexts c)(z \<mapsto> e_next e)" by simp
  have "llist (enexts ?c) (buckets ?c ! j) ((bk(i := xs @ ys)) j)" if j: "j < num_buckets c" for j
  proof (cases "j = i")
    case True
    then show ?thesis unfolding en using llist_unlink[OF l] e snoc by simp
  next
    case False
    then have "z \<notin> set (bk j)" using buckets_disjoint[OF ok i j] bk snoc by auto
    then show ?thesis unfolding en using table_okD(3)[OF ok j] False by simp
  qed
  moreover have "unlinked c ?c" using r by (simp add: unlinked_def links_id_upd)
  ultimately show thesis using r snoc by (intro that[of ?c]) simp_all
qed

subsection \<open>Deleting an unlinked entry with its chunks\<close>

definition deleted :: "addr \<Rightarrow> addr list \<Rightarrow> http_cache \<Rightarrow> http_cache" where
  "deleted a ks c = c\<lparr>ents := (ents c)(a := None), chunks := chunks c |` (- set ks)\<rparr>"

lemma chain_cong:
  assumes "\<And>k. k \<in> set ks \<Longrightarrow> h' k = h k"
  shows "chain h' p ks = chain h p ks"
proof -
  have "llist (links ck_next h') p ks = llist (links ck_next h) p ks"
    by (rule lseg_cong) (simp add: links_def assms)
  then show ?thesis using assms by (simp add: chain_def)
qed

lemma entry_holds_transfer:
  assumes "entry_holds c a ks D"
    and "links data_head (ents c') a = links data_head (ents c) a"
    and "links data_tail (ents c') a = links data_tail (ents c) a"
    and "links total_size (ents c') a = links total_size (ents c) a"
    and "\<And>k. k \<in> set ks \<Longrightarrow> chunks c' k = chunks c k"
  shows "entry_holds c' a ks D"
proof -
  have "chain (chunks c') p ks = chain (chunks c) p ks" for p by (rule chain_cong) (rule assms(5))
  moreover have "chunk_bytes (chunks c') ks = chunk_bytes (chunks c) ks"
    by (rule chunk_bytes_cong) (simp add: assms(5))
  ultimately show ?thesis using assms by (simp add: entry_holds_links)
qed

lemma free_entry_deletes:
  assumes "entry_holds c a ks D"
  shows "free_entry a c = ret (deleted a ks c)"
  using free_entry_data_spec[OF assms] by (simp add: free_entry_def deleted_def)

lemma deleted_data_ok:
  assumes ok: "data_ok c ck" and a: "a \<in> dom (ents c)"
  shows "data_ok (deleted a (ck a) c) ck"
proof (rule data_okI)
  let ?d = "deleted a (ck a) c"
  have dom: "dom (ents ?d) = dom (ents c) - {a}" by (auto simp: deleted_def)
  show "\<exists>D. entry_holds ?d b (ck b) D" if "b \<in> dom (ents ?d)" for b
  proof -
    from that have b: "b \<in> dom (ents c)" "b \<noteq> a" using dom by auto
    with data_okD(1)[OF ok] obtain D where D: "entry_holds c b (ck b) D" by blast
    have "chunks ?d k = chunks c k" if "k \<in> set (ck b)" for k
      using that data_okD(2)[OF ok a b(1)] b(2) by (auto simp: deleted_def restrict_map_def)
    then have "entry_holds ?d b (ck b) D"
      using b(2) by (intro entry_holds_transfer[OF D]) (simp_all add: deleted_def)
    then show ?thesis ..
  qed
  show "set (ck x) \<inter> set (ck y) = {}" if "x \<in> dom (ents ?d)" "y \<in> dom (ents ?d)" "x \<noteq> y" for x y
    using data_okD(2)[OF ok, of x y] that dom by blast
  have "dom (chunks ?d) = dom (chunks c) - set (ck a)" by (auto simp: deleted_def)
  also have "\<dots> = (\<Union>b \<in> dom (ents c) - {a}. set (ck b))"
    using data_okD(2)[OF ok a] data_okD(3)[OF ok] a by auto
  finally show "dom (chunks ?d) = (\<Union>b \<in> dom (ents ?d). set (ck b))" by (simp add: dom)
qed

lemma deleted_lru_ok:
  assumes "lru_ok c es" and "a \<notin> set es"
  shows "lru_ok (deleted a ks c) es"
  using assms by (simp add: lru_ok_def deleted_def)

text \<open>
  The buckets after the deletion: the lists are those of the unlinked state, which no longer
  mention \<open>a\<close>.
\<close>

lemma deleted_table_ok:
  assumes ok: "table_ok c bk" and i: "i < num_buckets c" and bk: "bk i = xs @ a # ys"
    and un: "links e_url (ents d) = links e_url (ents c)" "num_buckets d = num_buckets c"
      "length (buckets d) = length (buckets c)"
    and lists: "\<And>j. j < num_buckets c \<Longrightarrow> llist (enexts d) (buckets d ! j) ((bk(i := xs @ ys)) j)"
  shows "table_ok (deleted a ks d) (bk(i := xs @ ys))"
proof -
  have dist: "distinct (xs @ a # ys)" using llist_distinct[OF table_okD(3)[OF ok i]] bk by simp
  have sub: "set ((bk(i := xs @ ys)) j) \<subseteq> set (bk j) - {a}" if j: "j < num_buckets c" for j
    using dist bk buckets_disjoint[OF ok i j] by (cases "j = i") auto
  have domd: "dom (ents d) = dom (ents c)" using un(1) by (metis dom_links)
  have sim [simp]: "num_buckets (deleted a ks d) = num_buckets c"
    "buckets (deleted a ks d) = buckets d" using un by (simp_all add: deleted_def)
  have idx: "bucket_idx (deleted a ks d) = bucket_idx c" by (rule bucket_idx_cong) simp
  show ?thesis
  proof (rule table_okI)
    fix j assume "j < num_buckets (deleted a ks d)"
    then have j: "j < num_buckets c" by simp
    have "a \<notin> set ((bk(i := xs @ ys)) j)" using sub[OF j] by blast
    then show "llist (enexts (deleted a ks d)) (buckets (deleted a ks d) ! j) ((bk(i := xs @ ys)) j)"
      using lists[OF j] by (simp add: deleted_def del: fun_upd_apply)
  next
    fix j b u assume "j < num_buckets (deleted a ks d)" and b: "b \<in> set ((bk(i := xs @ ys)) j)"
      and u: "links e_url (ents (deleted a ks d)) b = Some u"
    then have j: "j < num_buckets c" by simp
    from sub[OF j] b have "b \<in> set (bk j)" "b \<noteq> a" by auto
    moreover from u \<open>b \<noteq> a\<close> un(1) have "links e_url (ents c) b = Some u" by (simp add: deleted_def)
    ultimately show "bucket_idx (deleted a ks d) u = j" using table_okD(4)[OF ok j] by (simp add: idx)
  next
    have "(\<Union>j < num_buckets c. set ((bk(i := xs @ ys)) j)) = (\<Union>j < num_buckets c. set (bk j)) - {a}"
    proof (rule equalityI)
      show "(\<Union>j < num_buckets c. set ((bk(i := xs @ ys)) j)) \<subseteq> (\<Union>j < num_buckets c. set (bk j)) - {a}"
        using sub by blast
      show "(\<Union>j < num_buckets c. set (bk j)) - {a} \<subseteq> (\<Union>j < num_buckets c. set ((bk(i := xs @ ys)) j))"
      proof
        fix b assume "b \<in> (\<Union>j < num_buckets c. set (bk j)) - {a}"
        then obtain j where j: "j < num_buckets c" "b \<in> set (bk j)" "b \<noteq> a" by auto
        then have "b \<in> set ((bk(i := xs @ ys)) j)" using bk by (cases "j = i") auto
        then show "b \<in> (\<Union>j < num_buckets c. set ((bk(i := xs @ ys)) j))" using j(1) by blast
      qed
    qed
    then show "dom (ents (deleted a ks d)) = (\<Union>j < num_buckets (deleted a ks d). set ((bk(i := xs @ ys)) j))"
      using domd table_okD(5)[OF ok] un(2) by (simp add: deleted_def del: fun_upd_apply)
  qed (use table_okD(1,2)[OF ok] un in simp_all)
qed

subsection \<open>One step of the sweep\<close>

text \<open>What an entry is, apart from the links of the cache.\<close>

definition payload :: "cache_entry \<Rightarrow> cache_entry" where
  "payload e = entry_core (nonext e)"

lemma payload_simps [simp]:
  "payload (nonext e) = payload e" "payload (entry_core e) = payload e"
  "e_url (payload e) = e_url e" "data_head (payload e) = data_head e"
  "data_tail (payload e) = data_tail e" "total_size (payload e) = total_size e"
  "e_state (payload e) = e_state e" "refcount (payload e) = refcount e"
  "last_access (payload e) = last_access e"
  by (simp_all add: payload_def nonext_def entry_core_def)

lemma unlinked_payload:
  assumes "unlinked c c'"
  shows "links payload (ents c') = links payload (ents c)"
  using assms by (auto simp: unlinked_def intro: links_factor[of nonext _ _ payload payload])

lemma lru_frame_payload:
  assumes "lru_frame c c'"
  shows "links payload (ents c') = links payload (ents c)"
  using assms by (auto intro: lru_frame_links[of _ _ payload payload])

lemma reap_entry_spec:
  assumes inv: "cache_inv c bk es ck" and i: "i < num_buckets c" and bk: "bk i = xs @ a # ys"
    and e: "ents c a = Some e"
  obtains d where "reap_entry i (last_ptr None xs) a (emit (Acquire (EntryLock a)) c) = ret d"
    "cache_inv d (bk(i := xs @ ys)) (remove1 a es) ck"
    "links payload (ents d) = (links payload (ents c))(a := None)"
    "current_size d = current_size c - total_size e"
    "num_buckets d = num_buckets c" "max_size d = max_size c" "chunks d \<subseteq>\<^sub>m chunks c"
    "c_trace d = c_trace c @ [Acquire (EntryLock a), Acquire LruLock, Release LruLock,
       Acquire SizeLock, Release SizeLock, Release (EntryLock a), Destroy (EntryLock a)]"
proof -
  let ?c0 = "logged [Acquire (EntryLock a)] c"
  have inv0: "cache_inv ?c0 bk es ck" using inv by simp
  then have ok: "table_ok ?c0 bk" "data_ok ?c0 ck" "lru_ok ?c0 es" "set es = dom (ents ?c0)"
    by (simp_all add: cache_inv_def)
  have i0: "i < num_buckets ?c0" and e0: "ents ?c0 a = Some e" using i e by simp_all
  from bucket_unlink[OF ok(1) i0 bk e0] obtain c1 where c1:
      "(if last_ptr None xs = None then ret (?c0\<lparr>buckets := (buckets ?c0)[i := e_next e]\<rparr>)
        else set_entry ?c0 (last_ptr None xs) (\<lambda>p. p\<lparr>e_next := e_next e\<rparr>)) = ret c1"
      "unlinked ?c0 c1"
      "\<And>j. j < num_buckets ?c0 \<Longrightarrow> llist (enexts c1) (buckets c1 ! j) ((bk(i := xs @ ys)) j)"
    by blast
  note u1 = unlinked_links[OF c1(2)]
  let ?c1 = "logged [Acquire LruLock] c1"
  have lru1: "lru_ok ?c1 es"
    by (rule lru_ok_same[OF ok(3)]) (use u1 c1(2) in \<open>simp_all add: unlinked_def\<close>)
  have a_es: "a \<in> set es" using ok(4) e by auto
  then obtain us vs where es: "es = us @ a # vs" by (meson split_list)
  with ok(3) have rem: "remove1 a es = us @ vs" "a \<notin> set (us @ vs)"
    by (auto simp: lru_ok_def remove1_append)
  from lru_remove_spec[OF lru1[unfolded es]] obtain c2 where
      c2: "lru_remove ?c1 a = ret c2" "lru_frame ?c1 c2" "lru_ok c2 (us @ vs)" by blast
  have sh: "links shape (ents c2) = links shape (ents c1)" using lru_frame_shape[OF c2(2)] by simp
  note s2 = shape_projections[OF sh]
  have "links total_size (ents c2) a = Some (total_size e)" using s2(5) u1(4) e by simp
  then obtain r where r: "ents c2 a = Some r" "total_size r = total_size e"
    by (auto simp: links_eq_Some_iff)
  let ?dz = "logged [Release LruLock, Acquire SizeLock, Release SizeLock,
     Release (EntryLock a), Destroy (EntryLock a)] (c2\<lparr>current_size := current_size c2 - total_size r\<rparr>)"
  have sh0: "links data_head (ents ?dz) = links data_head (ents ?c0)"
    "links data_tail (ents ?dz) = links data_tail (ents ?c0)"
    "links total_size (ents ?dz) = links total_size (ents ?c0)"
    "links e_url (ents ?dz) = links e_url (ents ?c0)"
    and en: "enexts ?dz = enexts c1" and dom: "dom (ents ?dz) = dom (ents ?c0)"
    using s2 u1 by simp_all
  have same: "chunks ?dz = chunks ?c0" "num_buckets ?dz = num_buckets ?c0"
    "length (buckets ?dz) = length (buckets ?c0)" "buckets ?dz = buckets c1"
    using c2(2) c1(2) by (simp_all add: lru_frame_def unlinked_def)
  have data: "data_ok ?dz ck"
    using ok(2) sh0 same(1) dom by (simp add: data_ok_def entry_holds_links)
  have "a \<in> dom (ents ?dz)" using dom e by auto
  from data_okD(1)[OF data this] obtain D where D: "entry_holds ?dz a (ck a) D" by blast
  let ?d = "deleted a (ck a) ?dz"
  show thesis
  proof (rule that[of ?d])
    show "reap_entry i (last_ptr None xs) a (emit (Acquire (EntryLock a)) c) = ret ?d"
    proof -
      have g: "get_entry ?c0 (Some a) = ret e" "get_entry c2 (Some a) = ret r" using e r by simp_all
      have fin: "logged [Destroy (EntryLock a)] (logged [Release (EntryLock a)]
          (subtract_size (total_size r) (logged [Release LruLock] c2))) = ?dz"
        by (simp add: subtract_size_logged logged_def)
      show ?thesis
        unfolding reap_entry_def emit_logged Let_def
        by (simp only: bindR_simps g c1(1) c2(1) fin free_entry_deletes[OF D])
    qed
    have "table_ok ?d (bk(i := xs @ ys))"
      by (rule deleted_table_ok[OF ok(1) i0 bk sh0(4) same(2,3)]) (use c1(3) en same(4) in simp)
    moreover have "data_ok ?d ck"
      using deleted_data_ok[OF data] \<open>a \<in> dom (ents ?dz)\<close> by blast
    moreover have "lru_ok ?d (us @ vs)"
      using c2(3) rem(2) by (intro deleted_lru_ok) (simp_all add: lru_ok_def)
    moreover have "set (us @ vs) = dom (ents ?d)"
      using ok(4) dom es rem(2) by (auto simp: deleted_def)
    ultimately show "cache_inv ?d (bk(i := xs @ ys)) (remove1 a es) ck"
      by (simp add: cache_inv_def rem(1))
    show "links payload (ents ?d) = (links payload (ents c))(a := None)"
      using lru_frame_payload[OF c2(2)] unlinked_payload[OF c1(2)] by (simp add: deleted_def)
    show "c_trace ?d = c_trace c @ [Acquire (EntryLock a), Acquire LruLock, Release LruLock,
       Acquire SizeLock, Release SizeLock, Release (EntryLock a), Destroy (EntryLock a)]"
      using c2(2) c1(2) by (simp add: deleted_def lru_frame_def unlinked_def)
    show "chunks ?d \<subseteq>\<^sub>m chunks c"
      using same(1) by (auto simp: deleted_def map_le_def restrict_map_def split: if_splits)
  qed (use c2(2) c1(2) r(2) in \<open>simp_all add: deleted_def lru_frame_def unlinked_def\<close>)
qed

subsection \<open>The sweep of a bucket\<close>

definition removable :: "http_cache \<Rightarrow> addr \<Rightarrow> bool" where
  "removable c a \<longleftrightarrow> (case ents c a of None \<Rightarrow> False
     | Some e \<Rightarrow> e_state e = ENTRY_CANCELLED \<and> refcount e = 0)"

definition size_of :: "http_cache \<Rightarrow> addr \<Rightarrow> 64 word" where
  "size_of c a = (case ents c a of None \<Rightarrow> 0 | Some e \<Rightarrow> total_size e)"

lemma removable_cong:
  assumes "links payload (ents c') a = links payload (ents c) a"
  shows "removable c' a = removable c a" "size_of c' a = size_of c a"
proof -
  have r: "removable c a = (case links payload (ents c) a of None \<Rightarrow> False
     | Some e \<Rightarrow> e_state e = ENTRY_CANCELLED \<and> refcount e = 0)" for c
    by (simp add: removable_def links_def split: option.split)
  have s: "size_of c a = (case links payload (ents c) a of None \<Rightarrow> 0 | Some e \<Rightarrow> total_size e)" for c
    by (simp add: size_of_def links_def split: option.split)
  show "removable c' a = removable c a" "size_of c' a = size_of c a"
    by (simp_all only: r s assms)
qed

text \<open>What a sweep that removed the entries \<open>gone\<close> did to the cache.\<close>

definition swept :: "http_cache \<Rightarrow> addr list \<Rightarrow> http_cache \<Rightarrow> bool" where
  "swept c gone d \<longleftrightarrow> links payload (ents d) = links payload (ents c) |` (- set gone) \<and>
     current_size d = current_size c - (\<Sum>a\<leftarrow>gone. size_of c a) \<and>
     num_buckets d = num_buckets c \<and> max_size d = max_size c \<and>
     chunks d \<subseteq>\<^sub>m chunks c"

lemma swept_append:
  assumes "swept c g1 d" and "swept d g2 f" and "set g1 \<inter> set g2 = {}"
  shows "swept c (g1 @ g2) f"
proof -
  have "size_of d a = size_of c a" if "a \<in> set g2" for a
  proof -
    have "a \<notin> set g1" using assms(3) that by auto
    then have "links payload (ents d) a = links payload (ents c) a"
      using assms(1) by (simp add: swept_def restrict_map_def)
    then show ?thesis by (rule removable_cong)
  qed
  then have "(\<Sum>a\<leftarrow>g2. size_of d a) = (\<Sum>a\<leftarrow>g2. size_of c a)"
    by (metis (no_types, lifting) map_eq_conv)
  moreover have "m |` (- A) |` (- B) = m |` (- (A \<union> B))" for m :: "addr \<rightharpoonup> cache_entry" and A B
    by (auto simp: restrict_map_def)
  ultimately show ?thesis
    using assms(1,2) map_le_trans[of "chunks f" "chunks d" "chunks c"] by (simp add: swept_def)
qed

text \<open>
  What the sweep of the rest of a bucket does, behind the entries \<open>ks\<close> that stay. A step either removes the entry
  at the front or passes over it.
\<close>

definition sweeps_rest ::
  "nat \<Rightarrow> http_cache \<Rightarrow> (nat \<Rightarrow> addr list) \<Rightarrow> addr list \<Rightarrow> (addr \<Rightarrow> addr list) \<Rightarrow> addr list \<Rightarrow> addr list \<Rightarrow> bool" where
  "sweeps_rest i c bk es ck ks rest \<longleftrightarrow>
    (\<exists>d evs. cleanup_bucket i (last_ptr None ks) (first_ptr rest None) c = ret d \<and>
      cache_inv d (bk(i := ks @ filter (\<lambda>a. \<not> removable c a) rest))
        (filter (\<lambda>a. \<not> (a \<in> set rest \<and> removable c a)) es) ck \<and>
      swept c (filter (removable c) rest) d \<and>
      c_trace d = c_trace c @ evs \<and> disciplined [BucketLock i] evs)"

lemma sweep_removes:
  assumes inv: "cache_inv c bk es ck" and i: "i < num_buckets c" and bk: "bk i = ks @ a # rest"
    and e: "ents c a = Some e" and en: "e_next e = first_ptr rest None" and a_rest: "a \<notin> set rest" and True: "removable c a"
    and IH: "\<And>d bk es. cache_inv d bk es ck \<Longrightarrow> i < num_buckets d \<Longrightarrow> bk i = ks @ rest \<Longrightarrow> sweeps_rest i d bk es ck ks rest"
  shows "sweeps_rest i c bk es ck ks (a # rest)"
proof -
  have st: "e_state e = ENTRY_CANCELLED" "refcount e = 0" using True e by (simp_all add: removable_def)
  from reap_entry_spec[OF inv i bk e] obtain d where
      d: "reap_entry i (last_ptr None ks) a (emit (Acquire (EntryLock a)) c) = ret d"
         "cache_inv d (bk(i := ks @ rest)) (remove1 a es) ck"
         "links payload (ents d) = (links payload (ents c))(a := None)"
         "current_size d = current_size c - total_size e"
         "num_buckets d = num_buckets c" "max_size d = max_size c" "chunks d \<subseteq>\<^sub>m chunks c"
         "c_trace d = c_trace c @ [Acquire (EntryLock a), Acquire LruLock, Release LruLock,
            Acquire SizeLock, Release SizeLock, Release (EntryLock a), Destroy (EntryLock a)]"
    by blast
  have step: "cleanup_bucket i (last_ptr None ks) (first_ptr (a # rest) None) c =
      cleanup_bucket i (last_ptr None ks) (first_ptr rest None) d"
    using d(1) e st en by (simp add: cleanup_bucket.simps[of i _ "Some a"])
  have sw1: "swept c [a] d"
    using d(3-7) e by (auto simp: swept_def size_of_def restrict_map_def fun_eq_iff)
  have rem: "removable d b = removable c b" if "b \<noteq> a" for b
    by (rule removable_cong) (simp add: d(3) that)
  have rr: "removable d b = removable c b" if "b \<in> set rest" for b
    using that a_rest by (intro rem) auto
  have f: "filter (removable d) rest = filter (removable c) rest"
    "filter (\<lambda>b. \<not> removable d b) rest = filter (\<lambda>b. \<not> removable c b) rest"
    using rr by (auto intro!: filter_cong)
  have di: "distinct es" using inv by (simp add: cache_inv_def lru_ok_def)
  have g: "filter (\<lambda>b. \<not> (b \<in> set rest \<and> removable d b)) (remove1 a es) =
      filter (\<lambda>b. \<not> (b \<in> set (a # rest) \<and> removable c b)) es"
    unfolding distinct_remove1_removeAll[OF di] removeAll_filter_not_eq filter_filter
    using rr True a_rest by (intro filter_cong) auto
  have i': "i < num_buckets d" "(bk(i := ks @ rest)) i = ks @ rest" using d(5) i by simp_all
  from IH[OF d(2) i'] obtain f evs where
      f1: "cleanup_bucket i (last_ptr None ks) (first_ptr rest None) d = ret f"
        "cache_inv f (bk(i := ks @ filter (\<lambda>b. \<not> removable d b) rest))
          (filter (\<lambda>b. \<not> (b \<in> set rest \<and> removable d b)) (remove1 a es)) ck"
        "swept d (filter (removable d) rest) f" "c_trace f = c_trace d @ evs"
        "disciplined [BucketLock i] evs"
    unfolding sweeps_rest_def fun_upd_upd by blast
  have k: "filter (\<lambda>b. \<not> removable c b) (a # rest) = filter (\<lambda>b. \<not> removable c b) rest"
    "filter (removable c) (a # rest) = [a] @ filter (removable c) rest"
    using True by simp_all
  let ?evs = "[Acquire (EntryLock a), Acquire LruLock, Release LruLock,
      Acquire SizeLock, Release SizeLock, Release (EntryLock a), Destroy (EntryLock a)] @ evs"
  have "swept c (filter (removable c) (a # rest)) f"
    unfolding k by (rule swept_append[OF sw1 f1(3)[unfolded f]]) (use a_rest in auto)
  moreover have "disciplined [BucketLock i] ?evs"
    using f1(5) by (intro disciplined_append) (simp_all add: disciplined_def)
  moreover have "cache_inv f (bk(i := ks @ filter (\<lambda>b. \<not> removable c b) (a # rest)))
      (filter (\<lambda>b. \<not> (b \<in> set (a # rest) \<and> removable c b)) es) ck"
    using f1(2) unfolding f g k .
  moreover have "c_trace f = c_trace c @ ?evs" using f1(4) d(8) by simp
  ultimately show ?thesis unfolding sweeps_rest_def step using f1(1) by blast
qed

lemma sweep_passes:
  assumes inv: "cache_inv c bk es ck" and i: "i < num_buckets c" and bk: "bk i = ks @ a # rest"
    and e: "ents c a = Some e" and en: "e_next e = first_ptr rest None" and False: "\<not> removable c a"
    and IH: "\<And>d bk es. cache_inv d bk es ck \<Longrightarrow> i < num_buckets d \<Longrightarrow> bk i = (ks @ [a]) @ rest \<Longrightarrow>
      sweeps_rest i d bk es ck (ks @ [a]) rest"
  shows "sweeps_rest i c bk es ck ks (a # rest)"
proof -
  have st: "\<not> (e_state e = ENTRY_CANCELLED \<and> refcount e = 0)" using False e by (simp add: removable_def)
  let ?c = "logged [Acquire (EntryLock a), Release (EntryLock a)] c"
  have step: "cleanup_bucket i (last_ptr None ks) (first_ptr (a # rest) None) c =
      cleanup_bucket i (last_ptr None (ks @ [a])) (first_ptr rest None) ?c"
    using e st en by (auto simp: cleanup_bucket.simps[of i _ "Some a"] emit_logged Let_def)
  have inv': "cache_inv ?c bk es ck" using inv by simp
  have rem: "removable ?c b = removable c b" "size_of ?c b = size_of c b" for b
    by (rule removable_cong, simp)+
  have i': "i < num_buckets ?c" "bk i = (ks @ [a]) @ rest" using i bk by simp_all
  from IH[OF inv' i'] obtain f evs where
      f1: "cleanup_bucket i (last_ptr None (ks @ [a])) (first_ptr rest None) ?c = ret f"
        "cache_inv f (bk(i := (ks @ [a]) @ filter (\<lambda>b. \<not> removable c b) rest))
          (filter (\<lambda>b. \<not> (b \<in> set rest \<and> removable c b)) es) ck"
        "swept ?c (filter (removable c) rest) f" "c_trace f = c_trace ?c @ evs"
        "disciplined [BucketLock i] evs"
    unfolding sweeps_rest_def rem by blast
  have g: "filter (\<lambda>b. \<not> (b \<in> set (a # rest) \<and> removable c b)) es =
      filter (\<lambda>b. \<not> (b \<in> set rest \<and> removable c b)) es"
    using False by (auto intro!: filter_cong)
  have k: "filter (\<lambda>b. \<not> removable c b) (a # rest) = [a] @ filter (\<lambda>b. \<not> removable c b) rest"
    "filter (removable c) (a # rest) = filter (removable c) rest"
    using False by simp_all
  let ?evs = "[Acquire (EntryLock a), Release (EntryLock a)] @ evs"
  have "swept c (filter (removable c) (a # rest)) f"
    unfolding k using f1(3) by (simp add: swept_def rem)
  moreover have "disciplined [BucketLock i] ?evs"
    using f1(5) by (intro disciplined_append) (simp_all add: disciplined_def)
  moreover have "cache_inv f (bk(i := ks @ filter (\<lambda>b. \<not> removable c b) (a # rest)))
      (filter (\<lambda>b. \<not> (b \<in> set (a # rest) \<and> removable c b)) es) ck"
    using f1(2) unfolding g k by simp
  moreover have "c_trace f = c_trace c @ ?evs" using f1(4) by simp
  ultimately show ?thesis unfolding sweeps_rest_def step using f1(1) by blast
qed

lemma cleanup_bucket_spec:
  assumes "cache_inv c bk es ck" and "i < num_buckets c" and "bk i = ks @ rest"
  shows "sweeps_rest i c bk es ck ks rest"
  using assms
proof (induction rest arbitrary: c bk es ks)
  case Nil
  then show ?case unfolding sweeps_rest_def
    by (intro exI[of _ c] exI[of _ "[]"]) (simp add: cleanup_bucket.simps swept_def restrict_map_def
        fun_upd_idem)
next
  case (Cons a rest)
  have ok: "table_ok c bk" using Cons.prems(1) by (simp add: cache_inv_def)
  have l: "llist (enexts c) (buckets c ! i) (ks @ a # rest)"
    using table_okD(3)[OF ok Cons.prems(2)] Cons.prems(3) by simp
  then obtain e where e: "ents c a = Some e" and nx: "llist (enexts c) (e_next e) rest"
    by (auto simp: lseg_append links_eq_Some_iff)
  have en: "e_next e = first_ptr rest None" using nx by (rule lseg_first)
  have a_rest: "a \<notin> set rest" using llist_distinct[OF l] by simp
  show ?case
    using sweep_removes[OF Cons.prems e en a_rest _ Cons.IH] sweep_passes[OF Cons.prems e en _ Cons.IH] by blast
qed

subsection \<open>The sweep of the whole table\<close>

lemma swept_removable:
  assumes "swept c gone s" and "a \<notin> set gone"
  shows "removable s a = removable c a" "size_of s a = size_of c a"
proof -
  have "links payload (ents s) a = links payload (ents c) a"
    using assms by (simp add: swept_def restrict_map_def)
  then show "removable s a = removable c a" "size_of s a = size_of c a"
    by (rule removable_cong)+
qed

text \<open>The state before bucket \<open>n\<close> is swept: its buckets and what has been removed so far.\<close>

definition kept_upto :: "http_cache \<Rightarrow> (nat \<Rightarrow> addr list) \<Rightarrow> nat \<Rightarrow> nat \<Rightarrow> addr list" where
  "kept_upto c bk n = (\<lambda>j. if j < n then filter (\<lambda>a. \<not> removable c a) (bk j) else bk j)"

definition gone_upto :: "http_cache \<Rightarrow> (nat \<Rightarrow> addr list) \<Rightarrow> nat \<Rightarrow> addr list" where
  "gone_upto c bk n = concat (map (\<lambda>j. filter (removable c) (bk j)) [0..<n])"

lemma gone_upto_Suc: "gone_upto c bk (Suc n) = gone_upto c bk n @ filter (removable c) (bk n)"
  by (simp add: gone_upto_def)

lemma gone_upto_disjoint:
  assumes "table_ok c bk" and "n < num_buckets c"
  shows "set (gone_upto c bk n) \<inter> set (bk n) = {}"
proof -
  have "set (bk j) \<inter> set (bk n) = {}" if "j < n" for j
    using buckets_disjoint[OF assms(1)] assms(2) that by simp
  then show ?thesis by (fastforce simp: gone_upto_def)
qed

lemma cleanup_step:
  assumes inv: "cache_inv c bk es ck" and n: "n < num_buckets c"
    and s: "cache_inv s (kept_upto c bk n) (filter (\<lambda>a. a \<notin> set (gone_upto c bk n)) es) ck"
      "swept c (gone_upto c bk n) s" "lock_clean [] c s"
  shows "\<exists>s'. (let c = emit (Acquire (BucketLock n)) s in
       bindR (bucket_head c n) (\<lambda>p. bindR (cleanup_bucket n None p c) (\<lambda>c.
       ret (emit (Release (BucketLock n)) c)))) = ret s' \<and>
     cache_inv s' (kept_upto c bk (Suc n)) (filter (\<lambda>a. a \<notin> set (gone_upto c bk (Suc n))) es) ck \<and>
     swept c (gone_upto c bk (Suc n)) s' \<and> lock_clean [] c s'"
proof -
  have ok: "table_ok c bk" using inv by (simp add: cache_inv_def)
  let ?s = "logged [Acquire (BucketLock n)] s"
  have inv': "cache_inv ?s (kept_upto c bk n) (filter (\<lambda>a. a \<notin> set (gone_upto c bk n)) es) ck"
    using s(1) by simp
  have n': "n < num_buckets ?s" using s(2) n by (simp add: swept_def)
  have bkn: "kept_upto c bk n n = [] @ bk n" by (simp add: kept_upto_def)
  note disj = gone_upto_disjoint[OF ok n]
  have rem: "removable ?s a = removable c a" if "a \<in> set (bk n)" for a
    using swept_removable(1)[OF s(2), of a] disj that removable_cong(1)[of ?s a s] by auto
  have f: "filter (removable ?s) (bk n) = filter (removable c) (bk n)"
    "filter (\<lambda>a. \<not> removable ?s a) (bk n) = filter (\<lambda>a. \<not> removable c a) (bk n)"
    using rem by (auto intro!: filter_cong)
  have es: "filter (\<lambda>a. \<not> (a \<in> set (bk n) \<and> removable ?s a)) (filter (\<lambda>a. a \<notin> set (gone_upto c bk n)) es) =
      filter (\<lambda>a. a \<notin> set (gone_upto c bk (Suc n))) es"
    unfolding filter_filter gone_upto_Suc using rem by (intro filter_cong) auto
  have kept: "(kept_upto c bk n)(n := [] @ filter (\<lambda>a. \<not> removable c a) (bk n)) = kept_upto c bk (Suc n)"
    by (auto simp: kept_upto_def fun_eq_iff less_Suc_eq)
  from cleanup_bucket_spec[OF inv' n' bkn] obtain d evs where
      d: "cleanup_bucket n None (first_ptr (bk n) None) ?s = ret d"
        "cache_inv d (kept_upto c bk (Suc n)) (filter (\<lambda>a. a \<notin> set (gone_upto c bk (Suc n))) es) ck"
        "swept ?s (filter (removable c) (bk n)) d" "c_trace d = c_trace ?s @ evs"
        "disciplined [BucketLock n] evs"
    unfolding sweeps_rest_def f es kept last_ptr_simps by blast
  have p: "bucket_head ?s n = ret (first_ptr (bk n) None)"
    using cache_inv_bucket(1,2)[OF inv' n'] lseg_first[of "enexts ?s" "buckets ?s ! n" "bk n" None]
    by (simp add: kept_upto_def)
  have "swept s (filter (removable c) (bk n)) d"
    using d(3) removable_cong(2)[of ?s _ s] by (simp add: swept_def)
  then have sw: "swept c (gone_upto c bk (Suc n)) d"
    unfolding gone_upto_Suc using disj by (intro swept_append[OF s(2)]) auto
  have "disciplined [] (Acquire (BucketLock n) # evs @ [Release (BucketLock n)])"
    using d(5) by (intro disciplined_section) simp_all
  then have "lock_clean [] s (logged [Release (BucketLock n)] d)"
    using d(4) by (auto simp: lock_clean_def)
  then have "lock_clean [] c (logged [Release (BucketLock n)] d)"
    by (rule lock_clean_trans[OF s(3)])
  then show ?thesis
    using d(1,2) p sw
    by (intro exI[of _ "logged [Release (BucketLock n)] d"]) (simp add: Let_def emit_logged swept_def)
qed

lemma kept_upto_0 [simp]: "kept_upto c bk 0 = bk"
  by (simp add: kept_upto_def)

lemma gone_upto_0 [simp]: "gone_upto c bk 0 = []"
  by (simp add: gone_upto_def)

lemma cleanup_spec:
  assumes inv: "cache_inv c bk es ck"
  obtains d where "cleanup_cancelled_entries c = ret d"
    "cache_inv d (kept_upto c bk (num_buckets c))
       (filter (\<lambda>a. a \<notin> set (gone_upto c bk (num_buckets c))) es) ck"
    "swept c (gone_upto c bk (num_buckets c)) d" "lock_clean [] c d"
proof -
  let ?I = "\<lambda>n s. cache_inv s (kept_upto c bk n) (filter (\<lambda>a. a \<notin> set (gone_upto c bk n)) es) ck \<and>
     swept c (gone_upto c bk n) s \<and> lock_clean [] c s"
  have "\<exists>s'. cleanup_cancelled_entries c = ret s' \<and> ?I (length [0..<num_buckets c]) s'"
    unfolding cleanup_cancelled_entries_def
  proof (rule forR_invariant[of ?I], goal_cases)
    case 1
    show ?case using inv by (simp add: swept_def restrict_map_def)
  next
    case (2 n s)
    then have n: "n < num_buckets c" by simp
    then have nth: "[0..<num_buckets c] ! n = n" by simp
    show ?case unfolding nth using cleanup_step[OF inv n, of s] 2 by blast
  qed
  then show thesis using that by auto
qed

lemma set_gone_upto:
  assumes inv: "cache_inv c bk es ck"
  shows "set (gone_upto c bk (num_buckets c)) = {a. removable c a}"
    and "distinct (gone_upto c bk (num_buckets c))"
proof -
  have ok: "table_ok c bk" using inv by (simp add: cache_inv_def)
  have "set (gone_upto c bk (num_buckets c)) = {a \<in> dom (ents c). removable c a}"
    unfolding table_okD(5)[OF ok] by (auto simp: gone_upto_def)
  then show "set (gone_upto c bk (num_buckets c)) = {a. removable c a}"
    by (auto simp: removable_def split: option.splits)
  have "distinct (gone_upto c bk n)" if "n \<le> num_buckets c" for n
    using that
  proof (induction n)
    case (Suc n)
    then have n: "n < num_buckets c" by simp
    have "distinct (bk n)" using llist_distinct[OF table_okD(3)[OF ok n]] .
    then show ?case using Suc gone_upto_disjoint[OF ok n] by (auto simp: gone_upto_Suc)
  qed simp
  then show "distinct (gone_upto c bk (num_buckets c))" by simp
qed

end
