(* ===== verification/CacheLookup.thy ===== *)
theory CacheLookup
  imports CacheInv
begin

section \<open>Looking up and inserting entries\<close>

text \<open>
  The functional behaviour of \<open>cache_lookup\<close> and \<open>cache_insert\<close>: which entry is found, what
  changes, and that the invariant and the lock discipline hold on every path.
\<close>

definition live_match :: "http_cache \<Rightarrow> string \<Rightarrow> addr \<Rightarrow> bool" where
  "live_match c url a \<longleftrightarrow> (case ents c a of None \<Rightarrow> False
     | Some e \<Rightarrow> e_url e = url \<and> e_state e \<noteq> ENTRY_CANCELLED)"

definition touch :: "int \<Rightarrow> cache_entry \<Rightarrow> cache_entry" where
  "touch now e = e\<lparr>refcount := refcount e + 1, last_access := now\<rparr>"

lemma live_match_logged [simp]: "live_match (logged evs c) = live_match c"
  by (intro ext) (simp add: live_match_def)

lemma touch_simps [simp]:
  "shape (touch now e) = shape e" "lru_prev (touch now e) = lru_prev e"
  "lru_next (touch now e) = lru_next e" "e_state (touch now e) = e_state e"
  "e_url (touch now e) = e_url e"
  by (simp_all add: touch_def shape_def)

subsection \<open>Lookup\<close>

text \<open>The entries before the one that is found are passed over, with or without a look.\<close>

lemma lookup_loop_skip:
  assumes "llist (enexts c) p (xs @ ys)" and "\<forall>a \<in> set xs. \<not> live_match c url a"
  shows "\<exists>evs q. lookup_loop now url p c = lookup_loop now url q (logged evs c) \<and>
    llist (enexts c) q ys \<and> (\<forall>hs. (\<forall>h \<in> set hs. \<forall>a. h < EntryLock a) \<longrightarrow> disciplined hs evs)"
  using assms
proof (induction xs arbitrary: p c)
  case Nil
  then show ?case by (intro exI[of _ "[]"] exI[of _ p]) simp
next
  case (Cons a xs)
  then obtain e where p: "p = Some a" and e: "ents c a = Some e"
      and tl: "llist (enexts c) (e_next e) (xs @ ys)"
    by (auto simp: links_eq_Some_iff)
  from Cons.prems(2) have dead: "e_url e = url \<Longrightarrow> e_state e = ENTRY_CANCELLED"
    using e by (simp add: live_match_def)
  let ?pre = "if e_url e = url then [Acquire (EntryLock a), Release (EntryLock a)] else []"
  have step: "lookup_loop now url p c = lookup_loop now url (e_next e) (logged ?pre c)"
    using dead e p by (simp add: lookup_loop.simps[of now url "Some a"] emit_logged)
  from Cons.IH[of "logged ?pre c" "e_next e"] tl Cons.prems(2) obtain evs q where
      IH: "lookup_loop now url (e_next e) (logged ?pre c) = lookup_loop now url q (logged (?pre @ evs) c)"
        "llist (enexts c) q ys"
        "\<forall>hs. (\<forall>h \<in> set hs. \<forall>a. h < EntryLock a) \<longrightarrow> disciplined hs evs"
    by auto
  moreover have "\<forall>hs. (\<forall>h \<in> set hs. \<forall>a. h < EntryLock a) \<longrightarrow> disciplined hs ?pre"
    by (auto simp: disciplined_def)
  ultimately show ?case using step by (metis disciplined_append)
qed

lemma cache_lookup_miss:
  assumes inv: "cache_inv c bk es ck"
    and miss: "find (live_match c url) (bk (bucket_idx c url)) = None"
  obtains evs where "cache_lookup now url c = ret (None, logged evs c)" "disciplined [] evs"
    "disciplined [SearchCreateMutex] evs"
proof -
  let ?i = "bucket_idx c url"
  let ?c = "logged [Acquire (BucketLock ?i)] c"
  have i: "?i < num_buckets c" using inv by (simp add: cache_inv_def table_ok_def bucket_idx_less)
  note b = cache_inv_bucket[OF inv i]
  from miss have dead: "\<forall>a \<in> set (bk ?i). \<not> live_match c url a" by (simp add: find_None_iff)
  have "llist (enexts ?c) (buckets c ! ?i) (bk ?i @ [])" using b(2) by simp
  from lookup_loop_skip[OF this, of url now] dead obtain evs where
      "lookup_loop now url (buckets c ! ?i) ?c = ret (None, logged evs ?c)" "disciplined [BucketLock ?i] evs"
      "disciplined [BucketLock ?i, SearchCreateMutex] evs"
    by (auto simp: lookup_loop.simps)
  moreover from this(2) have "disciplined [] (Acquire (BucketLock ?i) # evs @ [Release (BucketLock ?i)])"
    by (intro disciplined_section) simp_all
  moreover from calculation(3)
  have "disciplined [SearchCreateMutex] (Acquire (BucketLock ?i) # evs @ [Release (BucketLock ?i)])"
    by (intro disciplined_section) simp_all
  moreover have "bucket_head ?c ?i = ret (buckets c ! ?i)" using b(1) by simp
  ultimately show thesis
    by (intro that[of "Acquire (BucketLock ?i) # evs @ [Release (BucketLock ?i)]"])
      (simp_all add: cache_lookup_def emit_logged Let_def)
qed

text \<open>What a hit at \<open>a\<close> leaves unchanged, and what it does to the entry.\<close>

definition touched :: "http_cache \<Rightarrow> addr \<Rightarrow> int \<Rightarrow> http_cache \<Rightarrow> bool" where
  "touched c a now c' \<longleftrightarrow> buckets c' = buckets c \<and> num_buckets c' = num_buckets c \<and>
     current_size c' = current_size c \<and> max_size c' = max_size c \<and> chunks c' = chunks c \<and>
     (\<exists>e. ents c a = Some e \<and> links entry_core (ents c') =
        (links entry_core (ents c))(a \<mapsto> entry_core (touch now e)))"

lemma find_split:
  assumes "find P xs = Some a"
  obtains us vs where "xs = us @ a # vs" "P a" "\<forall>x \<in> set us. \<not> P x"
  using assms
proof (induction xs arbitrary: thesis)
  case Nil
  then show ?case by simp
next
  case (Cons x xs)
  show ?case
  proof (cases "P x")
    case True
    then show ?thesis using Cons.prems by (intro Cons.prems(1)[of "[]" xs]) auto
  next
    case False
    with Cons.prems(2) obtain us vs where "xs = us @ a # vs" "P a" "\<forall>x \<in> set us. \<not> P x"
      using Cons.IH by auto
    then show ?thesis using False by (intro Cons.prems(1)[of "x # us" vs]) auto
  qed
qed

lemma cache_lookup_hit:
  assumes inv: "cache_inv c bk es ck"
    and hit: "find (live_match c url) (bk (bucket_idx c url)) = Some a"
  obtains c' where "cache_lookup now url c = ret (Some a, c')"
    "cache_inv c' bk (a # remove1 a es) ck" "touched c a now c'" "lock_clean [] c c'"
    "lock_clean [SearchCreateMutex] c c'"
proof -
  let ?i = "bucket_idx c url"
  let ?c = "logged [Acquire (BucketLock ?i)] c"
  have i: "?i < num_buckets c" using inv by (simp add: cache_inv_def table_ok_def bucket_idx_less)
  note b = cache_inv_bucket[OF inv i]
  from find_split[OF hit] obtain us vs where bk: "bk ?i = us @ a # vs" "live_match c url a"
      "\<forall>x \<in> set us. \<not> live_match c url x" .
  from bk(2) obtain e where e: "ents c a = Some e" "e_url e = url" "e_state e \<noteq> ENTRY_CANCELLED"
    by (auto simp: live_match_def split: option.splits)
  have "llist (enexts ?c) (buckets c ! ?i) (us @ a # vs)" using b(2) bk(1) by simp
  from lookup_loop_skip[OF this, of url now] bk(3) obtain evs where
      skip: "lookup_loop now url (buckets c ! ?i) ?c = lookup_loop now url (Some a) (logged evs ?c)"
        and evs: "disciplined [BucketLock ?i] evs" "disciplined [BucketLock ?i, SearchCreateMutex] evs"
    by auto
  let ?d = "logged (Acquire (BucketLock ?i) # evs @ [Acquire (EntryLock a)]) c"
  let ?d1 = "logged [Acquire LruLock] (?d\<lparr>ents := (ents c)(a \<mapsto> touch now e)\<rparr>)"
  have d1: "?d1 = logged (Acquire (BucketLock ?i) # evs @ [Acquire (EntryLock a), Acquire LruLock])
      (c\<lparr>ents := (ents c)(a \<mapsto> touch now e)\<rparr>)"
    by (simp add: logged_def)
  have inv1: "cache_inv ?d1 bk es ck"
    unfolding d1 using cache_inv_set_entry[OF inv e(1), of "touch now"] by simp
  have "a \<in> dom (ents ?d1)" by simp
  from cache_inv_lru_split[OF inv1 this] obtain xs ys where
      es: "es = xs @ a # ys" "lru_ok ?d1 (xs @ a # ys)" "remove1 a es = xs @ ys" .
  from lru_remove_spec[OF es(2)] obtain d2 where
      d2: "lru_remove ?d1 a = ret d2" "lru_frame ?d1 d2" "lru_ok d2 (xs @ ys)" by blast
  have a2: "a \<in> dom (ents d2)" using lru_frame_dom[OF d2(2)] by simp
  have anot: "a \<notin> set (xs @ ys)" using es(2) by (auto simp: lru_ok_def)
  from lru_add_head_spec[OF d2(3) anot a2] obtain d3 where
      d3: "lru_add_head d2 a = ret d3" "lru_frame d2 d3" "lru_ok d3 (a # xs @ ys)" by blast
  have fr: "lru_frame ?d1 d3" using d2(2) d3(2) by (rule lru_frame_trans)
  let ?c' = "logged [Release LruLock, Release (EntryLock a), Release (BucketLock ?i)] d3"
  show thesis
  proof (rule that[of ?c'])
    have "bucket_head ?c ?i = ret (buckets c ! ?i)" using b(1) by simp
    then show "cache_lookup now url c = ret (Some a, ?c')"
      using skip e d2(1) d3(1)
      by (simp add: cache_lookup_def lookup_loop.simps[of now url "Some a"] emit_logged Let_def
          touch_def logged_def)
    show "cache_inv ?c' bk (a # remove1 a es) ck"
    proof (rule cache_inv_transfer[OF inv1])
      show "links shape (ents ?c') = links shape (ents ?d1)"
        using lru_frame_shape[OF fr] by simp
      show "lru_ok ?c' (a # remove1 a es)"
        using d3(3) es(3) by (simp add: lru_ok_def)
      show "set (a # remove1 a es) = set es" using es by auto
    qed (use fr in \<open>simp_all add: lru_frame_def\<close>)
    show "touched c a now ?c'"
      using fr e(1) by (auto simp: touched_def lru_frame_def)
    have "disciplined [] ((Acquire (BucketLock ?i) # evs @ [Acquire (EntryLock a), Acquire LruLock]) @
        [Release LruLock, Release (EntryLock a), Release (BucketLock ?i)])"
      using evs(1) by (simp add: disciplined_def replay_append)
    then show "lock_clean [] c ?c'"
      using fr by (auto simp: lock_clean_def lru_frame_def)
    have "disciplined [SearchCreateMutex] ((Acquire (BucketLock ?i) # evs @ [Acquire (EntryLock a), Acquire LruLock]) @
        [Release LruLock, Release (EntryLock a), Release (BucketLock ?i)])"
      using evs(2) by (simp add: disciplined_def replay_append)
    then show "lock_clean [SearchCreateMutex] c ?c'"
      using fr by (auto simp: lock_clean_def lru_frame_def)
  qed
qed

subsection \<open>Insertion\<close>

lemma new_entry_simps [simp]:
  "e_url (new_entry now url) = take (MAX_URL_LENGTH - 1) url"
  "data_head (new_entry now url) = None" "data_tail (new_entry now url) = None"
  "total_size (new_entry now url) = 0" "e_state (new_entry now url) = ENTRY_INCOMPLETE"
  "refcount (new_entry now url) = 1"
  by (simp_all add: new_entry_def)

text \<open>The cache with a new entry at the front of its bucket, before it joins the LRU list.\<close>

definition bucketed :: "http_cache \<Rightarrow> addr \<Rightarrow> nat \<Rightarrow> cache_entry \<Rightarrow> http_cache" where
  "bucketed c a i e = c\<lparr>ents := (ents c)(a \<mapsto> e\<lparr>e_next := buckets c ! i\<rparr>),
     buckets := (buckets c)[i := Some a]\<rparr>"

lemma table_ok_bucketed:
  assumes ok: "table_ok c bk" and i: "i < num_buckets c" and a: "a \<notin> dom (ents c)"
    and url: "bucket_idx c (e_url e) = i"
  shows "table_ok (bucketed c a i e) (bk(i := a # bk i))"
proof -
  have anot: "a \<notin> set (bk j)" if "j < num_buckets c" for j
    using ok a that by (auto simp: table_ok_def)
  have idx: "bucket_idx (bucketed c a i e) = bucket_idx c"
    by (rule bucket_idx_cong) (simp add: bucketed_def)
  have "llist (enexts (bucketed c a i e)) (buckets (bucketed c a i e) ! j) ((bk(i := a # bk i)) j)"
    if j: "j < num_buckets c" for j
    using ok anot[OF j] i j by (cases "j = i") (auto simp: table_ok_def bucketed_def)
  moreover have "bucket_idx c u = j"
    if j: "j < num_buckets c" and b: "b \<in> set ((bk(i := a # bk i)) j)"
      and u: "links e_url (ents (bucketed c a i e)) b = Some u" for j b u
  proof (cases "b = a")
    case True
    then show ?thesis using b u url anot[OF j] by (auto simp: bucketed_def split: if_splits)
  next
    case False
    then have "b \<in> set (bk j)" "links e_url (ents c) b = Some u"
      using b u by (auto simp: bucketed_def split: if_splits)
    then show ?thesis using ok j by (auto simp: table_ok_def)
  qed
  moreover have "dom (ents (bucketed c a i e)) = insert a (dom (ents c))"
    by (simp add: bucketed_def)
  moreover have "(\<Union>j < num_buckets c. set ((bk(i := a # bk i)) j)) =
      insert a (\<Union>j < num_buckets c. set (bk j))"
    using i by (auto split: if_splits)
  moreover have "num_buckets (bucketed c a i e) = num_buckets c"
    "length (buckets (bucketed c a i e)) = length (buckets c)"
    by (simp_all add: bucketed_def)
  ultimately show ?thesis
    using ok unfolding table_ok_def idx by (simp del: fun_upd_apply)
qed

lemma data_ok_bucketed:
  assumes ok: "data_ok c ck" and a: "a \<notin> dom (ents c)"
    and e: "data_head e = None" "data_tail e = None" "total_size e = 0"
  shows "data_ok (bucketed c a i e) (ck(a := []))"
proof -
  let ?A = "dom (ents c)"
  have dom: "dom (ents (bucketed c a i e)) = insert a ?A"
    and ch: "chunks (bucketed c a i e) = chunks c"
    by (simp_all add: bucketed_def)
  have ck: "(ck(a := [])) b = ck b" if "b \<in> ?A" for b using a that by auto
  have "\<exists>D. entry_holds (bucketed c a i e) b ((ck(a := [])) b) D" if "b \<in> insert a ?A" for b
  proof (cases "b = a")
    case True
    have "entry_holds (bucketed c a i e) a [] []"
      using e by (simp add: entry_holds_links bucketed_def)
    then show ?thesis using True by auto
  next
    case False
    with that data_okD(1)[OF ok] obtain D where "entry_holds c b (ck b) D" by blast
    then have "entry_holds (bucketed c a i e) b (ck b) D"
      using False by (simp add: entry_holds_links bucketed_def)
    then show ?thesis using False by auto
  qed
  moreover have "set ((ck(a := [])) x) \<inter> set ((ck(a := [])) y) = {}"
    if "x \<in> insert a ?A" "y \<in> insert a ?A" "x \<noteq> y" for x y
    using data_okD(2)[OF ok, of x y] that by (cases "x = a"; cases "y = a") auto
  moreover have "(\<Union>b \<in> insert a ?A. set ((ck(a := [])) b)) = (\<Union>b \<in> ?A. set (ck b))"
  proof -
    have "(\<Union>b \<in> ?A. set ((ck(a := [])) b)) = (\<Union>b \<in> ?A. set (ck b))"
      by (rule SUP_cong) (use a in auto)
    then show ?thesis by simp
  qed
  ultimately show ?thesis
    using ok unfolding data_ok_def dom ch by (simp del: fun_upd_apply)
qed

text \<open>What an insertion at \<open>a\<close> changes.\<close>

definition inserted :: "http_cache \<Rightarrow> addr \<Rightarrow> int \<Rightarrow> string \<Rightarrow> http_cache \<Rightarrow> bool" where
  "inserted c a now url c' \<longleftrightarrow> num_buckets c' = num_buckets c \<and>
     current_size c' = current_size c \<and> max_size c' = max_size c \<and> chunks c' = chunks c \<and>
     (\<exists>e. ents c' a = Some e \<and> entry_core e =
        entry_core ((new_entry now url)\<lparr>e_next := buckets c ! bucket_idx c url\<rparr>)) \<and>
     (\<forall>b. b \<noteq> a \<longrightarrow> links entry_core (ents c') b = links entry_core (ents c) b)"

lemma cache_insert_spec:
  assumes inv: "cache_inv c bk es ck" and a: "a \<notin> dom (ents c)"
    and len: "length url < MAX_URL_LENGTH"
  obtains c' where "cache_insert (Some a) now url c = ret (Some a, c')"
    "cache_inv c' (bk(bucket_idx c url := a # bk (bucket_idx c url))) (a # es) (ck(a := []))"
    "inserted c a now url c'" "lock_clean [] c c'" "lock_clean [SearchCreateMutex] c c'"
proof -
  let ?i = "bucket_idx c url" and ?e = "new_entry now url"
  let ?d = "logged [Acquire (BucketLock ?i), Release (BucketLock ?i), Acquire LruLock] (bucketed c a ?i ?e)"
  have i: "?i < num_buckets c" using inv by (simp add: cache_inv_def table_ok_def bucket_idx_less)
  note b = cache_inv_bucket[OF inv i]
  from len have url: "e_url ?e = url" by simp
  have aes: "a \<notin> set es" using inv a by (simp add: cache_inv_def)
  have "lru_ok ?d es"
    using inv aes by (simp add: cache_inv_def lru_ok_def bucketed_def)
  moreover have "a \<in> dom (ents ?d)" by (simp add: bucketed_def)
  ultimately obtain d2 where d2: "lru_add_head ?d a = ret d2" "lru_frame ?d d2" "lru_ok d2 (a # es)"
    using lru_add_head_spec aes by blast
  let ?c' = "logged [Release LruLock] d2"
  have core: "links entry_core (ents d2) =
      (links entry_core (ents c))(a \<mapsto> entry_core (?e\<lparr>e_next := buckets c ! ?i\<rparr>))"
    using d2(2) by (simp add: lru_frame_def bucketed_def)
  show thesis
  proof (rule that[of ?c'])
    show "cache_insert (Some a) now url c = ret (Some a, ?c')"
      using b(1) d2(1)
      by (simp add: cache_insert_def emit_logged Let_def bucket_head_def bucket_idx_def logged_def
          bucketed_def split: if_splits)
    have "table_ok (bucketed c a ?i ?e) (bk(?i := a # bk ?i))"
      using inv i a url by (intro table_ok_bucketed) (simp_all add: cache_inv_def)
    moreover have "data_ok (bucketed c a ?i ?e) (ck(a := []))"
      using inv a by (intro data_ok_bucketed) (simp_all add: cache_inv_def)
    moreover have "links shape (ents ?c') = links shape (ents (bucketed c a ?i ?e))"
      using lru_frame_shape[OF d2(2)] by simp
    moreover have "set (a # es) = dom (ents ?c')"
      using lru_frame_dom[OF d2(2)] inv by (simp add: cache_inv_def bucketed_def)
    ultimately show "cache_inv ?c' (bk(?i := a # bk ?i)) (a # es) (ck(a := []))"
      unfolding cache_inv_def using d2(2,3)
      by (auto intro: table_ok_transfer data_ok_transfer simp: lru_frame_def lru_ok_def)
    from core have "links entry_core (ents d2) a = Some (entry_core (?e\<lparr>e_next := buckets c ! ?i\<rparr>))"
      by simp
    then obtain e where "ents d2 a = Some e" "entry_core e = entry_core (?e\<lparr>e_next := buckets c ! ?i\<rparr>)"
      by (auto simp: links_eq_Some_iff)
    then show "inserted c a now url ?c'"
      using d2(2) core by (simp add: inserted_def lru_frame_def bucketed_def)
    have "disciplined [] [Acquire (BucketLock ?i), Release (BucketLock ?i), Acquire LruLock, Release LruLock]"
      by (simp add: disciplined_def)
    then show "lock_clean [] c ?c'"
      using d2(2) by (auto simp: lock_clean_def lru_frame_def bucketed_def)
    have "disciplined [SearchCreateMutex]
        [Acquire (BucketLock ?i), Release (BucketLock ?i), Acquire LruLock, Release LruLock]"
      by (simp add: disciplined_def)
    then show "lock_clean [SearchCreateMutex] c ?c'"
      using d2(2) by (auto simp: lock_clean_def lru_frame_def bucketed_def)
  qed
qed

end
