(* ===== verification/CacheLife.thy ===== *)
theory CacheLife
  imports CacheSweep CacheLookup
begin

section \<open>The life of an entry: filling, reading, completing, releasing\<close>

text \<open>
  What \<open>cache_entry_append_chunk\<close>, \<open>cache_entry_read\<close> and the state changes do to a cache
  that satisfies the invariant, and what the shutdown leaves in memory.
\<close>

subsection \<open>Appending\<close>

lemma chunks_snoc:
  assumes "a \<in> A"
  shows "(\<Union>b \<in> A. set ((ck(a := ck a @ [k])) b)) = insert k (\<Union>b \<in> A. set (ck b))"
proof -
  have A: "A = insert a A" using assms by auto
  have "set ((ck(a := ck a @ [k])) b) = set (ck b) \<union> (if b = a then {k} else {})" for b by simp
  then have "(\<Union>b \<in> A. set ((ck(a := ck a @ [k])) b)) = (\<Union>b \<in> A. set (ck b)) \<union> (\<Union>b \<in> A. if b = a then {k} else {})"
    by (simp only: UN_Un_distrib)
  moreover have "(\<Union>b \<in> A. if b = a then {k} else {}) = {k}" using assms by auto
  ultimately show ?thesis by simp
qed

text \<open>The entry appended to has its data with the new chunk, and the others theirs.\<close>

lemma appended_entry_holds:
  assumes ok: "data_ok c ck" and e: "ents c a = Some e" and k: "k \<notin> dom (chunks c)" and b: "b \<in> dom (ents c)"
  shows "\<exists>D. entry_holds (appended c a e (ck a) k data) b ((ck(a := ck a @ [k])) b) D"
proof (cases "b = a")
  case True
  from data_okD(1)[OF ok b] True obtain D where "entry_holds c a (ck a) D" by blast
  from appended_holds[OF this e k] show ?thesis using True by auto
next
  case False
  from data_okD(1)[OF ok b] obtain D where D: "entry_holds c b (ck b) D" by blast
  have "chunks (appended c a e (ck a) k data) x = chunks c x" if x: "x \<in> set (ck b)" for x
  proof -
    have "x \<notin> set (ck a)" using data_okD(2)[OF ok _ b, of a] e False x by auto
    moreover have "x \<noteq> k" using k data_okD(3)[OF ok] b x by auto
    ultimately show ?thesis by (simp add: appended_def link_chunk_frame)
  qed
  then have "entry_holds (appended c a e (ck a) k data) b (ck b) D"
    using False by (intro entry_holds_transfer[OF D]) (simp_all add: appended_def)
  then show ?thesis using False by auto
qed

lemma appended_data_ok:
  assumes ok: "data_ok c ck" and e: "ents c a = Some e" and k: "k \<notin> dom (chunks c)"
  shows "data_ok (appended c a e (ck a) k data) (ck(a := ck a @ [k]))"
proof (rule data_okI)
  let ?d = "appended c a e (ck a) k data"
  have a: "a \<in> dom (ents c)" and dom: "dom (ents ?d) = dom (ents c)" using e by (auto simp: appended_def)
  show "\<exists>D. entry_holds ?d b ((ck(a := ck a @ [k])) b) D" if "b \<in> dom (ents ?d)" for b
    using appended_entry_holds[OF assms] that dom by simp
  have "k \<notin> set (ck b)" if "b \<in> dom (ents c)" for b
    using k data_okD(3)[OF ok] that by auto
  then show "set ((ck(a := ck a @ [k])) x) \<inter> set ((ck(a := ck a @ [k])) y) = {}"
    if "x \<in> dom (ents ?d)" "y \<in> dom (ents ?d)" "x \<noteq> y" for x y
    using data_okD(2)[OF ok, of x y] that dom by auto
  have "set (ck a) \<subseteq> dom (chunks c)" using data_okD(3)[OF ok] a by auto
  then have "dom (chunks ?d) = insert k (dom (chunks c))" by (simp add: appended_def dom_link_chunk)
  then show "dom (chunks ?d) = (\<Union>b \<in> dom (ents ?d). set ((ck(a := ck a @ [k])) b))"
    unfolding dom chunks_snoc[OF a] using data_okD(3)[OF ok] by simp
qed

lemma appended_table_ok:
  assumes ok: "table_ok c bk" and e: "ents c a = Some e"
  shows "table_ok (appended c a e ks k data) bk"
proof (rule table_okI)
  let ?d = "appended c a e ks k data"
  fix i assume "i < num_buckets ?d"
  then have "i < num_buckets c" by (simp add: appended_def)
  then show "llist (enexts ?d) (buckets ?d ! i) (bk i)"
    using table_okD(3)[OF ok] e by (simp add: appended_def links_id_upd)
next
  fix i b u assume "i < num_buckets (appended c a e ks k data)" "b \<in> set (bk i)"
    "links e_url (ents (appended c a e ks k data)) b = Some u"
  then show "bucket_idx (appended c a e ks k data) u = i"
    using table_okD(4)[OF ok, of i b u] e by (simp add: appended_def links_id_upd bucket_idx_def)
qed (use table_okD(1,2,5)[OF ok] e in \<open>auto simp: appended_def\<close>)

lemma appended_inv:
  assumes inv: "cache_inv c bk es ck" and e: "ents c a = Some e" and k: "k \<notin> dom (chunks c)"
  shows "cache_inv (appended c a e (ck a) k data) bk es (ck(a := ck a @ [k]))"
proof -
  let ?d = "appended c a e (ck a) k data"
  have ok: "table_ok c bk" "data_ok c ck" "lru_ok c es" "set es = dom (ents c)"
    using inv by (simp_all add: cache_inv_def)
  have "lru_ok ?d es"
    by (rule lru_ok_same[OF ok(3)]) (use e in \<open>simp_all add: appended_def links_id_upd\<close>)
  moreover have "dom (ents ?d) = dom (ents c)" using e by (auto simp: appended_def)
  ultimately show ?thesis
    using appended_table_ok[OF ok(1) e] appended_data_ok[OF ok(2) e k] ok(4) by (simp add: cache_inv_def)
qed

lemma appended_lock_clean: "lock_clean [] c (appended c a e ks k data)"
  by (auto simp: lock_clean_def appended_def disciplined_def)

text \<open>The failing appends: a cancelled entry, or no memory.\<close>

lemma append_chunk_fails:
  assumes e: "ents c a = Some e"
    and "e_state e = ENTRY_CANCELLED \<or> mc = None \<or> (\<not> md \<and> (\<forall>k. mc = Some k \<longrightarrow> k \<notin> dom (chunks c)))"
  shows "cache_entry_append_chunk mc md a data n c =
    ret (-1, logged [Acquire (EntryLock a), Release (EntryLock a)] c)"
proof -
  show ?thesis
  proof (cases "e_state e = ENTRY_CANCELLED \<or> mc = None")
    case True
    then show ?thesis
      using e by (cases mc) (auto simp: cache_entry_append_chunk_def emit_logged Let_def)
  next
    case False
    with assms(2) obtain k where k: "mc = Some k" "\<not> md" "k \<notin> dom (chunks c)" by auto
    have "(chunks c)(k := None) = chunks c" using k(3) by (auto simp: domIff fun_eq_iff)
    then show ?thesis
      using e False k(1,2) by (simp add: cache_entry_append_chunk_def emit_def logged_def Let_def)
  qed
qed

subsection \<open>State changes\<close>

lemma locked_update_spec:
  assumes e: "ents c a = Some e"
  shows "\<exists>evs. locked_update b f (Some a) c = ret (logged evs (c\<lparr>ents := (ents c)(a \<mapsto> f e)\<rparr>)) \<and>
    disciplined [] evs"
proof (intro exI conjI)
  let ?evs = "if b then [Acquire (EntryLock a), Broadcast a, Release (EntryLock a)]
    else [Acquire (EntryLock a), Release (EntryLock a)]"
  show "locked_update b f (Some a) c = ret (logged ?evs (c\<lparr>ents := (ents c)(a \<mapsto> f e)\<rparr>))"
    using e by (simp add: locked_update_def emit_logged logged_def)
  show "disciplined [] ?evs" by (simp add: disciplined_def)
qed

lemma locked_update_inv:
  assumes inv: "cache_inv c bk es ck" and e: "ents c a = Some e"
    and f: "shape (f e) = shape e" "lru_prev (f e) = lru_prev e" "lru_next (f e) = lru_next e"
  obtains d where "locked_update b f (Some a) c = ret d" "cache_inv d bk es ck" "lock_clean [] c d"
    "ents d = (ents c)(a \<mapsto> f e)" "chunks d = chunks c" "current_size d = current_size c"
proof -
  from locked_update_spec[OF e] obtain evs where
      d: "locked_update b f (Some a) c = ret (logged evs (c\<lparr>ents := (ents c)(a \<mapsto> f e)\<rparr>))"
        "disciplined [] evs" by blast
  show thesis
  proof (rule that[OF d(1)])
    show "cache_inv (logged evs (c\<lparr>ents := (ents c)(a \<mapsto> f e)\<rparr>)) bk es ck"
      using cache_inv_set_entry[where f = f, OF inv e f] by simp
    show "lock_clean [] c (logged evs (c\<lparr>ents := (ents c)(a \<mapsto> f e)\<rparr>))"
      using d(2) by (auto simp: lock_clean_def)
  qed simp_all
qed

subsection \<open>Reading\<close>

lemma total_le_offset:
  assumes "n < 2 ^ 63" and "0 \<le> off" "off < 2 ^ 63"
  shows "(of_nat n :: 64 word) \<le> word_of_int off \<longleftrightarrow> int n \<le> off"
proof -
  obtain m where m: "off = int m" using assms(2) nonneg_int_cases by blast
  then have "m < 2 ^ 63" using assms(3) by simp
  then show ?thesis
    using assms(1) m by (simp add: word_le_nat_alt unat_of_nat_64)
qed

text \<open>What a read that goes on returns: the slice of the entry's bytes.\<close>

lemma read_slice_of_chain:
  assumes "entry_holds c a ks D" and "ents c a = Some e" and "0 \<le> off"
  shows "bindR (find_chunk (chunks c) (data_head e) off) (\<lambda>(p, o').
      bindR (copy_chunks (chunks c) p o' n []) f) = f (take (nat n) (drop (nat off) D))"
proof -
  from assms(1,2) have ch: "chain (chunks c) (data_head e) ks" and D: "D = chunk_bytes (chunks c) ks"
    by (auto simp: entry_holds_def)
  from find_chunk_spec[OF ch assms(3)] obtain q o' ls where
      f: "find_chunk (chunks c) (data_head e) off = ret (q, o')" "chain (chunks c) q ls" "0 \<le> o'"
        "drop (nat off) D = drop (nat o') (chunk_bytes (chunks c) ls)"
        "\<forall>k d. q = Some k \<longrightarrow> chunks c k = Some d \<longrightarrow> o' < ck_size d"
    using D by blast
  have "copy_chunks (chunks c) q o' n [] =
      ret ([] @ take (nat (n - int (length ([] :: string)))) (drop (nat o') (chunk_bytes (chunks c) ls)))"
    by (rule copy_chunks_spec[OF f(2,3)]) (use f(5) in fastforce)
  then show ?thesis using f(1,4) by simp
qed

lemma read_wait_ready:
  assumes "ents c a = Some e" and "\<not> (total_size e \<le> word_of_int off \<and> e_state e = ENTRY_INCOMPLETE)"
  shows "read_wait a off wakes c = ret (True, c)"
  using assms by (subst read_wait.simps) auto

lemma cache_entry_read_spec:
  assumes holds: "entry_holds c a ks D" and e: "ents c a = Some e"
    and st: "e_state e \<noteq> ENTRY_CANCELLED" and off: "0 \<le> off" "off < 2 ^ 63"
    and len: "length D < 2 ^ 63" and ready: "off < int (length D) \<or> e_state e = ENTRY_COMPLETE"
  shows "cache_entry_read wakes a off n c =
    ret (int (length (take (nat n) (drop (nat off) D))), take (nat n) (drop (nat off) D),
      logged [Acquire (EntryLock a), Release (EntryLock a)] c)"
proof -
  let ?c = "logged [Acquire (EntryLock a)] c"
  from holds e have "total_size e = of_nat (length D)" by (auto simp: entry_holds_def)
  with total_le_offset[OF len off] ready
  have nb: "\<not> (total_size e \<le> word_of_int off \<and> e_state e = ENTRY_INCOMPLETE)" by auto
  have w: "read_wait a off wakes ?c = ret (True, ?c)"
    by (rule read_wait_ready[OF _ nb]) (simp add: e)
  have h: "entry_holds ?c a ks D" using holds by (simp add: entry_holds_links)
  have sl: "\<And>f. bindR (find_chunk (chunks c) (data_head e) off) (\<lambda>(p, o').
      bindR (copy_chunks (chunks c) p o' n []) f) = (f (take (nat n) (drop (nat off) D)) ::
        (int \<times> string \<times> http_cache) run)"
    using read_slice_of_chain[OF h _ off(1), of e n] e by simp
  show ?thesis
    using w e st by (simp add: cache_entry_read_def emit_logged sl)
qed

end
