(* ===== verification/CacheEnd.thy ===== *)
theory CacheEnd
  imports CacheLife
begin

section \<open>The beginning and the end of a cache\<close>

text \<open>
  A fresh cache satisfies the invariant; the shutdown of a cache that satisfies it ends, touches
  no freed cell and leaves nothing allocated.
\<close>

text \<open>What is left when the entries \<open>A\<close> and their chunks are freed.\<close>

definition without :: "addr set \<Rightarrow> (addr \<Rightarrow> addr list) \<Rightarrow> http_cache \<Rightarrow> http_cache" where
  "without A ck c = c\<lparr>ents := ents c |` (- A), chunks := chunks c |` (- (\<Union>a \<in> A. set (ck a)))\<rparr>"

lemma without_empty [simp]: "without {} ck c = c"
  by (simp add: without_def restrict_map_def)

lemma without_without:
  "without B ck (logged evs (without A ck c)) = logged evs (without (A \<union> B) ck c)"
  by (auto simp: without_def logged_def restrict_map_def fun_eq_iff)

lemma without_simps [simp]:
  "buckets (without A ck c) = buckets c" "num_buckets (without A ck c) = num_buckets c"
  "c_trace (without A ck c) = c_trace c"
  by (simp_all add: without_def)

lemma without_logged: "without A ck (logged evs c) = logged evs (without A ck c)"
  by (simp add: without_def logged_def)

lemma without_deleted: "deleted a (ck a) c = without {a} ck c"
  by (auto simp: without_def deleted_def restrict_map_def fun_eq_iff)

text \<open>Entries outside \<open>A\<close> still hold what they held.\<close>

lemma without_holds:
  assumes "entry_holds c b ks D" and "b \<notin> A" and "\<And>a. a \<in> A \<Longrightarrow> set (ck a) \<inter> set ks = {}"
  shows "entry_holds (without A ck c) b ks D"
proof (rule entry_holds_transfer[OF assms(1)])
  fix k assume "k \<in> set ks"
  with assms(3) have "k \<notin> (\<Union>a \<in> A. set (ck a))" by blast
  then show "chunks (without A ck c) k = chunks c k" by (simp add: without_def)
qed (use assms(2) in \<open>simp_all add: without_def links_def\<close>)

lemma without_enexts: "x \<notin> A \<Longrightarrow> enexts (without A ck c) x = enexts c x"
  by (simp add: without_def links_def)

subsection \<open>Freeing the buckets\<close>

lemma free_bucket_spec:
  assumes "llist (enexts c) p as" and "\<And>a. a \<in> set as \<Longrightarrow> \<exists>D. entry_holds c a (ck a) D"
    and "\<And>a b. a \<in> set as \<Longrightarrow> b \<in> set as \<Longrightarrow> a \<noteq> b \<Longrightarrow> set (ck a) \<inter> set (ck b) = {}"
  shows "free_bucket p c = ret (logged (map (\<lambda>a. Destroy (EntryLock a)) as) (without (set as) ck c))"
  using assms
proof (induction as arbitrary: p c)
  case Nil
  then show ?case by (simp add: free_bucket.simps)
next
  case (Cons a as)
  from Cons.prems(1) obtain e where p: "p = Some a" and e: "ents c a = Some e"
      and tl: "llist (enexts c) (e_next e) as"
    by (auto simp: links_eq_Some_iff)
  have na: "a \<notin> set as" using llist_distinct[OF Cons.prems(1)] by simp
  from Cons.prems(2)[of a] obtain D where D: "entry_holds c a (ck a) D" by auto
  let ?d = "logged [Destroy (EntryLock a)] (without {a} ck c)"
  have "free_entry a (logged [Destroy (EntryLock a)] c) = ret ?d"
    using free_entry_deletes[of "logged [Destroy (EntryLock a)] c" a "ck a" D] D
    by (simp add: entry_holds_links without_deleted without_logged)
  then have step: "free_bucket p c = free_bucket (e_next e) ?d"
    using p e by (simp add: free_bucket.simps[of "Some a"] emit_logged)
  have "llist (enexts ?d) (e_next e) as = llist (enexts c) (e_next e) as"
    by (rule lseg_cong) (use na in \<open>auto simp: without_def links_def restrict_map_def\<close>)
  with tl have tl': "llist (enexts ?d) (e_next e) as" by simp
  have "free_bucket (e_next e) ?d =
      ret (logged (map (\<lambda>a. Destroy (EntryLock a)) as) (without (set as) ck ?d))"
  proof (rule Cons.IH[OF tl'])
    fix b assume b: "b \<in> set as"
    with na have ba: "b \<noteq> a" by blast
    from Cons.prems(2)[of b] b obtain D' where D': "entry_holds c b (ck b) D'" by auto
    have "set (ck a) \<inter> set (ck b) = {}" using Cons.prems(3)[of a b] b ba by simp
    then have "entry_holds (without {a} ck c) b (ck b) D'"
      using ba by (intro without_holds[OF D']) auto
    then show "\<exists>D. entry_holds ?d b (ck b) D" by (auto simp: entry_holds_links)
  qed (use Cons.prems(3) in simp)
  then show ?case by (simp add: step without_without)
qed

definition destroy_bucket :: "(nat \<Rightarrow> addr list) \<Rightarrow> nat \<Rightarrow> sync_event list" where
  "destroy_bucket bk i = Acquire (BucketLock i) # map (\<lambda>a. Destroy (EntryLock a)) (bk i) @
     [Release (BucketLock i), Destroy (BucketLock i)]"

lemma replay_destroys: "(\<And>a. EntryLock a \<notin> set hs) \<Longrightarrow>
  replay hs (map (\<lambda>a. Destroy (EntryLock a)) as @ evs) = replay hs evs"
  by (induction as) auto

lemma disciplined_destroy_bucket: "disciplined [] (destroy_bucket bk i)"
  by (simp add: disciplined_def destroy_bucket_def replay_destroys)

lemma disciplined_concat: "(\<And>xs. xs \<in> set xss \<Longrightarrow> disciplined hs xs) \<Longrightarrow> disciplined hs (concat xss)"
  by (induction xss) (auto intro: disciplined_append)

lemma free_all_buckets_spec:
  assumes inv: "cache_inv c bk es ck"
  shows "free_all_buckets c = ret (logged (concat (map (destroy_bucket bk) [0..<num_buckets c]))
    (c\<lparr>ents := Map.empty, chunks := Map.empty\<rparr>))"
proof -
  have ok: "table_ok c bk" "data_ok c ck" using inv by (simp_all add: cache_inv_def)
  let ?U = "\<lambda>n. \<Union>j < n. set (bk j)"
  let ?s = "\<lambda>n. logged (concat (map (destroy_bucket bk) [0..<n])) (without (?U n) ck c)"
  have "\<exists>s'. free_all_buckets c = ret s' \<and> s' = ?s (length [0..<num_buckets c])"
    unfolding free_all_buckets_def
  proof (rule forR_invariant[of "\<lambda>n s. s = ?s n"], goal_cases)
    case 1
    show ?case by simp
  next
    case (2 n s)
    then have n: "n < num_buckets c" and s: "s = ?s n" by simp_all
    let ?d = "logged [Acquire (BucketLock n)] s"
    have sub: "set (bk n) \<subseteq> dom (ents c)" using cache_inv_bucket(3)[OF inv n] .
    have old: "?U n \<subseteq> dom (ents c)" using table_okD(5)[OF ok(1)] n by fastforce
    have disj: "a \<notin> ?U n" if a: "a \<in> set (bk n)" for a
    proof
      assume "a \<in> ?U n"
      then obtain j where "j < n" "a \<in> set (bk j)" by blast
      then show False using buckets_disjoint[OF ok(1), of j n] n a by auto
    qed
    have "llist (enexts ?d) (buckets c ! n) (bk n) = llist (enexts c) (buckets c ! n) (bk n)"
      by (rule lseg_cong) (use disj in \<open>simp add: s without_enexts del: UN_iff\<close>)
    then have l: "llist (enexts ?d) (buckets c ! n) (bk n)" using cache_inv_bucket(2)[OF inv n] by simp
    have "free_bucket (buckets c ! n) ?d =
        ret (logged (map (\<lambda>a. Destroy (EntryLock a)) (bk n)) (without (set (bk n)) ck ?d))"
    proof (rule free_bucket_spec[OF l])
      fix a assume a: "a \<in> set (bk n)"
      from data_okD(1)[OF ok(2)] a sub obtain D where D: "entry_holds c a (ck a) D" by blast
      have "entry_holds (without (?U n) ck c) a (ck a) D"
      proof (rule without_holds[OF D disj[OF a]])
        fix b assume b: "b \<in> ?U n"
        with disj[OF a] have "b \<noteq> a" by blast
        then show "set (ck b) \<inter> set (ck a) = {}"
          using data_okD(2)[OF ok(2), of b a] b old a sub by blast
      qed
      then show "\<exists>D. entry_holds ?d a (ck a) D" by (auto simp: s entry_holds_links)
    qed (use data_okD(2)[OF ok(2)] sub in blast)
    moreover have "without (set (bk n)) ck ?d = logged
        (concat (map (destroy_bucket bk) [0..<n]) @ [Acquire (BucketLock n)]) (without (?U (Suc n)) ck c)"
      by (simp add: s without_without lessThan_Suc Un_commute)
    moreover have "bucket_head ?d n = ret (buckets c ! n)"
      using table_okD(2)[OF ok(1)] n by (simp add: s bucket_head_def)
    ultimately show ?case
      using n by (simp add: emit_logged Let_def destroy_bucket_def)
  qed
  moreover have "without (?U (num_buckets c)) ck c = c\<lparr>ents := Map.empty, chunks := Map.empty\<rparr>"
  proof -
    have U: "?U (num_buckets c) = dom (ents c)" using table_okD(5)[OF ok(1)] by simp
    have r: "m |` (- dom m) = Map.empty" for m :: "addr \<rightharpoonup> 'x"
      by (auto simp: restrict_map_def fun_eq_iff)
    have ch: "(\<Union>a \<in> dom (ents c). set (ck a)) = dom (chunks c)" using data_okD(3)[OF ok(2)] by simp
    show ?thesis unfolding U without_def ch r ..
  qed
  ultimately show ?thesis by simp
qed

lemma http_cache_shutdown_no_collector_spec:
  assumes inv: "cache_inv c bk es ck"
  obtains m where "http_cache_shutdown_no_collector (Some c) = ret (None, Some m)"
    "ents m = Map.empty" "chunks m = Map.empty" "lock_clean [] c m"
proof -
  let ?evs = "concat (map (destroy_bucket bk) [0..<num_buckets c])"
  let ?m = "logged (?evs @ [Destroy LruLock, Destroy SizeLock])
      (c\<lparr>ents := Map.empty, chunks := Map.empty, buckets := []\<rparr>)"
  show thesis
  proof (rule that[of ?m])
    show "http_cache_shutdown_no_collector (Some c) = ret (None, Some ?m)"
      by (simp add: http_cache_shutdown_no_collector_def free_all_buckets_spec[OF inv] emit_def logged_def)
    have "disciplined [] (?evs @ [Destroy LruLock, Destroy SizeLock])"
      by (intro disciplined_append disciplined_concat)
        (auto simp: disciplined_destroy_bucket disciplined_def[of _ "[Destroy _, _]"])
    then show "lock_clean [] c ?m" by (auto simp: lock_clean_def)
  qed simp_all
qed

lemma http_cache_shutdown_spec:
  assumes inv: "cache_inv c bk es ck"
  obtains m where "http_cache_shutdown (Some c) = ret (None, Some m)"
    "ents m = Map.empty" "chunks m = Map.empty" "lock_clean [] c m" "\<not> collector_running m"
    "buckets m = []"
proof -
  let ?pre = "[Acquire CollectorLock, Release CollectorLock, Destroy CollectorLock]"
  let ?c = "logged ?pre (c\<lparr>collector_running := False\<rparr>)"
  have inv': "cache_inv ?c bk es ck"
    using inv by (simp add: cache_inv_def table_ok_def lru_ok_def data_ok_def entry_holds_links
        bucket_idx_def)
  let ?evs = "concat (map (destroy_bucket bk) [0..<num_buckets c])"
  let ?m = "logged (?pre @ ?evs @ [Destroy LruLock, Destroy SizeLock])
      (c\<lparr>ents := Map.empty, chunks := Map.empty, collector_running := False, buckets := []\<rparr>)"
  show thesis
  proof (rule that[of ?m])
    have "emit (Destroy CollectorLock) (emit (Release CollectorLock)
        ((emit (Acquire CollectorLock) c)\<lparr>collector_running := False\<rparr>)) = ?c"
      by (simp add: emit_def logged_def)
    then show "http_cache_shutdown (Some c) = ret (None, Some ?m)"
      using free_all_buckets_spec[OF inv']
      by (simp add: http_cache_shutdown_def emit_logged Let_def) (simp add: logged_def)
    have "disciplined [] (?pre @ ?evs @ [Destroy LruLock, Destroy SizeLock])"
      by (intro disciplined_append disciplined_concat)
        (auto simp: disciplined_destroy_bucket disciplined_def[of _ "[Destroy _, _]"]
          disciplined_def[of _ "[Acquire _, _, _]"])
    then show "lock_clean [] c ?m" by (auto simp: lock_clean_def)
  qed simp_all
qed

subsection \<open>Creation\<close>

lemma empty_cache_inv: "cache_inv (empty_cache mx) (\<lambda>_. []) [] ck"
  by (simp add: cache_inv_def table_ok_def lru_ok_def data_ok_def empty_cache_def MAX_BUCKETS_def)

end
