(* ===== verification/CacheSpec.thy ===== *)
theory CacheSpec
  imports CacheEnd
begin

section \<open>The abstract cache and the refinement of it\<close>

text \<open>
  The contract of the cache without hash table, LRU list and chunk chains: a finite map from the
  addresses of the live entries to their URL, state, reference count and bytes. \<open>represents\<close>
  relates a cache to it; each operation is shown to return, to leave the mutexes as they were
  and to act on the abstract cache as stated.
\<close>

record aentry =
  a_url :: string
  a_state :: entry_state_t
  a_refs :: "32 word"
  a_data :: string

type_synonym acache = "addr \<rightharpoonup> aentry"

definition entry_abs :: "http_cache \<Rightarrow> addr list \<Rightarrow> addr \<Rightarrow> aentry \<Rightarrow> bool" where
  "entry_abs c ks a x \<longleftrightarrow> links e_url (ents c) a = Some (a_url x) \<and>
     links e_state (ents c) a = Some (a_state x) \<and> links refcount (ents c) a = Some (a_refs x) \<and>
     entry_holds c a ks (a_data x)"

definition view_ok :: "http_cache \<Rightarrow> (addr \<Rightarrow> addr list) \<Rightarrow> acache \<Rightarrow> bool" where
  "view_ok c ck A \<longleftrightarrow> dom A = dom (ents c) \<and> (\<forall>a x. A a = Some x \<longrightarrow> entry_abs c (ck a) a x)"

definition represents :: "http_cache \<Rightarrow> acache \<Rightarrow> bool" where
  "represents c A \<longleftrightarrow> (\<exists>bk es ck. cache_inv c bk es ck \<and> view_ok c ck A)"

text \<open>An entry that a lookup of \<open>url\<close> may return, and one that the collector removes.\<close>

definition serves :: "string \<Rightarrow> aentry \<Rightarrow> bool" where
  "serves url x \<longleftrightarrow> a_url x = url \<and> a_state x \<noteq> ENTRY_CANCELLED"

definition garbage :: "aentry \<Rightarrow> bool" where
  "garbage x \<longleftrightarrow> a_state x = ENTRY_CANCELLED \<and> a_refs x = 0"

lemma representsE:
  assumes "represents c A"
  obtains bk es ck where "cache_inv c bk es ck" "dom A = dom (ents c)"
    "\<And>a x. A a = Some x \<Longrightarrow> entry_abs c (ck a) a x"
  using assms unfolding represents_def view_ok_def by blast

lemma representsI:
  assumes "cache_inv c bk es ck" and "dom A = dom (ents c)"
    and "\<And>a x. A a = Some x \<Longrightarrow> entry_abs c (ck a) a x"
  shows "represents c A"
  using assms unfolding represents_def view_ok_def by blast

lemma represents_cache_ok: "represents c A \<Longrightarrow> cache_ok c"
  unfolding represents_def cache_ok_def by blast

lemma cache_ok_represents:
  assumes "cache_ok c"
  shows "\<exists>A. represents c A"
proof -
  from assms obtain bk es ck where inv: "cache_inv c bk es ck" unfolding cache_ok_def by blast
  let ?D = "\<lambda>a. SOME D. entry_holds c a (ck a) D"
  let ?A = "\<lambda>a. map_option (\<lambda>e. \<lparr>a_url = e_url e, a_state = e_state e, a_refs = refcount e,
      a_data = ?D a\<rparr>) (ents c a)"
  have "represents c ?A"
  proof (rule representsI[OF inv])
    show "dom ?A = dom (ents c)" by (auto simp: dom_def)
    fix a x assume x: "?A a = Some x"
    then obtain e where e: "ents c a = Some e" by auto
    then obtain D where "entry_holds c a (ck a) D" using cache_inv_holds[OF inv, of a] by auto
    then have "entry_holds c a (ck a) (?D a)" by (rule someI)
    then show "entry_abs c (ck a) a x" using x e by (auto simp: entry_abs_def)
  qed
  then show ?thesis by (rule exI[of "represents c" ?A])
qed

lemma represents_entry:
  assumes "represents c A" and "A a = Some x"
  obtains e where "ents c a = Some e" "e_url e = a_url x" "e_state e = a_state x"
    "refcount e = a_refs x"
  using assms by (elim representsE) (fastforce simp: entry_abs_def links_eq_Some_iff)

lemma represents_abs:
  assumes "represents c A" and "A a = Some x"
  obtains ks where "entry_abs c ks a x"
proof -
  from assms have "\<exists>ks. entry_abs c ks a x" unfolding represents_def view_ok_def by blast
  then show thesis using that by blast
qed

lemma represents_dom: "represents c A \<Longrightarrow> dom A = dom (ents c)"
  by (elim representsE)

lemma represents_logged [simp]: "represents (logged evs c) A = represents c A"
  by (simp add: represents_def view_ok_def entry_abs_def entry_holds_links)

lemma represents_finite:
  assumes "represents c A"
  shows "finite (dom (ents c))"
  using assms unfolding represents_def cache_inv_def by (metis List.finite_set)

lemma represents_finite_chunks:
  assumes "represents c A"
  shows "finite (dom (chunks c))"
proof -
  obtain bk es ck where inv: "cache_inv c bk es ck" using assms unfolding represents_def by blast
  then have "data_ok c ck" by (simp add: cache_inv_def)
  then show ?thesis using data_okD(3)[of c ck] represents_finite[OF assms] by simp
qed

text \<open>The bytes of an abstract entry are determined by the cache.\<close>

lemma entry_holds_unique:
  assumes "entry_holds c a ks D" and "entry_holds c a ls E"
  shows "ks = ls \<and> D = E"
  using assms by (auto simp: entry_holds_def chain_def dest: llist_unique)

lemma represents_unique:
  assumes "represents c A" and "represents c B"
  shows "A = B"
proof
  fix a
  show "A a = B a"
  proof (cases "A a")
    case None
    then show ?thesis using represents_dom[OF assms(1)] represents_dom[OF assms(2)] by (metis domIff)
  next
    case (Some x)
    then obtain y where y: "B a = Some y"
      using represents_dom[OF assms(1)] represents_dom[OF assms(2)] by (metis domD domI)
    from assms(1) Some obtain ks where "entry_abs c ks a x" by (elim representsE) blast
    moreover from assms(2) y obtain ls where "entry_abs c ls a y" by (elim representsE) blast
    ultimately have "a_url x = a_url y" "a_state x = a_state y" "a_refs x = a_refs y"
        "a_data x = a_data y"
      by (auto simp: entry_abs_def dest: entry_holds_unique)
    then have "x = y" by simp
    then show ?thesis using Some y by simp
  qed
qed

subsection \<open>Operations that change one entry\<close>

text \<open>
  The common case: the entries other than \<open>a\<close> keep what the abstraction sees of them, and
  \<open>a\<close> gets the new contents.
\<close>

lemma view_upd:
  assumes view: "dom A = dom (ents c)" "\<And>b y. A b = Some y \<Longrightarrow> entry_abs c (ck b) b y"
    and inv: "cache_inv c' bk es (ck(a := ks))" and new: "entry_abs c' ks a x"
    and dom: "dom (ents c') = insert a (dom (ents c))"
    and keep: "\<And>b y. b \<noteq> a \<Longrightarrow> A b = Some y \<Longrightarrow> entry_abs c (ck b) b y \<Longrightarrow> entry_abs c' (ck b) b y"
  shows "represents c' (A(a \<mapsto> x))"
proof (rule representsI[OF inv])
  show "dom (A(a \<mapsto> x)) = dom (ents c')" using view(1) dom by simp
  fix b y assume b: "(A(a \<mapsto> x)) b = Some y"
  show "entry_abs c' ((ck(a := ks)) b) b y"
  proof (cases "b = a")
    case True
    then show ?thesis using b new by simp
  next
    case False
    with b have "A b = Some y" by simp
    from keep[OF False this view(2)[OF this]] show ?thesis using False by simp
  qed
qed

text \<open>An operation that touches no chunk and no bucket, seen through the cores of the entries.\<close>

lemma entry_core_projections:
  assumes "links entry_core (ents c') b = links entry_core (ents c) b"
  shows "links e_url (ents c') b = links e_url (ents c) b"
    "links e_state (ents c') b = links e_state (ents c) b"
    "links refcount (ents c') b = links refcount (ents c) b"
    "links data_head (ents c') b = links data_head (ents c) b"
    "links data_tail (ents c') b = links data_tail (ents c) b"
    "links total_size (ents c') b = links total_size (ents c) b"
  using assms by (cases "ents c b"; cases "ents c' b"; auto simp: links_def entry_core_def
      dest: arg_cong[of _ _ e_url] arg_cong[of _ _ e_state] arg_cong[of _ _ refcount]
        arg_cong[of _ _ data_head] arg_cong[of _ _ data_tail] arg_cong[of _ _ total_size])+

lemma entry_abs_core:
  assumes "entry_abs c ks b y" and "links entry_core (ents c') b = links entry_core (ents c) b"
    and "chunks c' = chunks c"
  shows "entry_abs c' ks b y"
  using assms(1,3) entry_core_projections[OF assms(2)]
  by (simp add: entry_abs_def entry_holds_links)

subsection \<open>Lookup and insertion\<close>

lemma lookup_refines:
  assumes rep: "represents c A"
  shows "(\<exists>c'. cache_lookup now url c = ret (None, c') \<and> represents c' A \<and> lock_clean [] c c' \<and>
      lock_clean [SearchCreateMutex] c c' \<and> current_size c' = current_size c \<and> (\<forall>a x. A a = Some x \<longrightarrow> \<not> serves url x)) \<or>
    (\<exists>a x c'. cache_lookup now url c = ret (Some a, c') \<and> A a = Some x \<and> serves url x \<and>
      represents c' (A(a \<mapsto> x\<lparr>a_refs := a_refs x + 1\<rparr>)) \<and> lock_clean [] c c' \<and>
      lock_clean [SearchCreateMutex] c c' \<and> current_size c' = current_size c)"
proof -
  obtain bk es ck where inv: "cache_inv c bk es ck" and dom: "dom A = dom (ents c)"
      and abs: "\<And>a x. A a = Some x \<Longrightarrow> entry_abs c (ck a) a x"
    using rep unfolding represents_def view_ok_def by blast
  have live: "live_match c url a \<longleftrightarrow> serves url x" if "A a = Some x" for a x
    using abs[OF that] by (auto simp: live_match_def serves_def entry_abs_def links_eq_Some_iff)
  show ?thesis
  proof (cases "find (live_match c url) (bk (bucket_idx c url))")
    case None
    from cache_lookup_miss[OF inv this, of now] obtain evs where
        r: "cache_lookup now url c = ret (None, logged evs c)" "disciplined [] evs"
          "disciplined [SearchCreateMutex] evs" by blast
    have "\<not> serves url x" if x: "A a = Some x" for a x
    proof
      assume s: "serves url x"
      from represents_entry[OF rep x] obtain e where e: "ents c a = Some e" "e_url e = a_url x" by blast
      have "a \<in> set (bk (bucket_idx c url))"
        using cache_inv_entry_bucket[OF inv e(1)] e(2) s by (simp add: serves_def)
      then show False using None live[OF x] s by (simp add: find_None_iff)
    qed
    then show ?thesis using r rep by (auto simp: lock_clean_def)
  next
    case (Some a)
    from cache_lookup_hit[OF inv this, of now] obtain c' where
        r: "cache_lookup now url c = ret (Some a, c')" "cache_inv c' bk (a # remove1 a es) ck"
           "touched c a now c'" "lock_clean [] c c'" "lock_clean [SearchCreateMutex] c c'" by blast
    from r(3) obtain e where e: "ents c a = Some e" and t: "links entry_core (ents c') =
        (links entry_core (ents c))(a \<mapsto> entry_core (touch now e))" "chunks c' = chunks c"
      by (auto simp: touched_def)
    from e dom obtain x where x: "A a = Some x" by auto
    from Some have "live_match c url a" by (auto simp: find_Some_iff)
    with live[OF x] have s: "serves url x" by simp
    have "represents c' (A(a \<mapsto> x\<lparr>a_refs := a_refs x + 1\<rparr>))"
    proof (rule view_upd[OF dom abs])
      show "cache_inv c' bk (a # remove1 a es) (ck(a := ck a))" using r(2) by simp
      from t(1) have "links entry_core (ents c') a = Some (entry_core (touch now e))" by simp
      then obtain e' where e': "ents c' a = Some e'" "entry_core e' = entry_core (touch now e)"
        by (auto simp: links_eq_Some_iff)
      then show "entry_abs c' (ck a) a (x\<lparr>a_refs := a_refs x + 1\<rparr>)"
        using abs[OF x] e t(2) by (cases e'; cases e) (simp add: entry_abs_def entry_holds_links
            entry_core_def touch_def)
      show "dom (ents c') = insert a (dom (ents c))" using arg_cong[OF t(1), of dom] by simp
      fix b y assume "b \<noteq> a" "entry_abs c (ck b) b y"
      then show "entry_abs c' (ck b) b y" using t by (intro entry_abs_core[of c "ck b" b y c']) simp_all
    qed assumption
    moreover have "current_size c' = current_size c" using r(3) by (simp add: touched_def)
    ultimately show ?thesis using r x s by blast
  qed
qed

lemma insert_refines:
  assumes rep: "represents c A" and a: "a \<notin> dom A" and len: "length url < MAX_URL_LENGTH"
  obtains c' where "cache_insert (Some a) now url c = ret (Some a, c')"
    "represents c' (A(a \<mapsto> \<lparr>a_url = url, a_state = ENTRY_INCOMPLETE, a_refs = 1, a_data = []\<rparr>))"
    "lock_clean [] c c'" "lock_clean [SearchCreateMutex] c c'" "current_size c' = current_size c"
proof -
  obtain bk es ck where inv: "cache_inv c bk es ck" and dom: "dom A = dom (ents c)"
      and abs: "\<And>a x. A a = Some x \<Longrightarrow> entry_abs c (ck a) a x"
    using rep unfolding represents_def view_ok_def by blast
  from a dom have "a \<notin> dom (ents c)" by simp
  from cache_insert_spec[OF inv this len, of now] obtain c' where
      r: "cache_insert (Some a) now url c = ret (Some a, c')" "inserted c a now url c'" "lock_clean [] c c'"
        "cache_inv c' (bk(bucket_idx c url := a # bk (bucket_idx c url))) (a # es) (ck(a := []))"
        "lock_clean [SearchCreateMutex] c c'"
    by blast
  from r(2) obtain e where e: "ents c' a = Some e"
      "entry_core e = entry_core ((new_entry now url)\<lparr>e_next := buckets c ! bucket_idx c url\<rparr>)"
      and keep: "\<And>b. b \<noteq> a \<Longrightarrow> links entry_core (ents c') b = links entry_core (ents c) b"
      and ch: "chunks c' = chunks c"
    by (auto simp: inserted_def)
  let ?x = "\<lparr>a_url = url, a_state = ENTRY_INCOMPLETE, a_refs = 1, a_data = []\<rparr>"
  show thesis
  proof (rule that[OF r(1) _ r(3) r(5)])
    show "current_size c' = current_size c" using r(2) by (simp add: inserted_def)
    show "represents c' (A(a \<mapsto> ?x))"
    proof (rule view_upd[OF dom abs r(4)])
    show "entry_abs c' [] a ?x"
      using e len by (cases e) (simp add: entry_abs_def entry_holds_links entry_core_def new_entry_def)
    show "dom (ents c') = insert a (dom (ents c))"
    proof -
      have "b \<in> dom (ents c') \<longleftrightarrow> b \<in> dom (ents c)" if "b \<noteq> a" for b
        using keep[OF that] by (metis domIff dom_links)
      then show ?thesis using e(1) by (intro set_eqI) (metis domI insert_iff)
    qed
    fix b y assume "b \<noteq> a" "entry_abs c (ck b) b y"
    then show "entry_abs c' (ck b) b y" using keep ch by (intro entry_abs_core[of c "ck b" b y c']) simp_all
    qed assumption
  qed
qed

subsection \<open>Filling and reading\<close>

lemma append_refines:
  assumes rep: "represents c A" and x: "A a = Some x" "a_state x \<noteq> ENTRY_CANCELLED"
    and k: "k \<notin> dom (chunks c)" and len: "length data < 2 ^ 63"
  obtains c' where "cache_entry_append_chunk (Some k) True a data (of_nat (length data)) c = ret (0, c')"
    "represents c' (A(a \<mapsto> x\<lparr>a_data := a_data x @ data\<rparr>))" "lock_clean [] c c'"
    "current_size c' = current_size c"
proof -
  obtain bk es ck where inv: "cache_inv c bk es ck" and dom: "dom A = dom (ents c)"
      and abs: "\<And>a x. A a = Some x \<Longrightarrow> entry_abs c (ck a) a x"
    using rep unfolding represents_def view_ok_def by blast
  from represents_entry[OF rep x(1)] obtain e where e: "ents c a = Some e" "e_url e = a_url x"
      "e_state e = a_state x" "refcount e = a_refs x" by blast
  from abs[OF x(1)] have h: "entry_holds c a (ck a) (a_data x)" by (simp add: entry_abs_def)
  let ?c' = "appended c a e (ck a) k data"
  have hd: "cache_entry_append_chunk (Some k) True a data (of_nat (length data)) c = ret (0, ?c')"
    by (rule append_chunk_runs[OF h e(1) _ k len]) (use e(3) x(2) in simp)
  have sz: "current_size ?c' = current_size c" by (simp add: appended_def)
  show thesis
  proof (rule that[OF hd _ appended_lock_clean sz], rule view_upd[OF dom abs appended_inv[OF inv e(1) k]])
    show "entry_abs ?c' (ck a @ [k]) a (x\<lparr>a_data := a_data x @ data\<rparr>)"
      using appended_holds[OF h e(1) k, of data] e by (simp add: entry_abs_def appended_def)
    show "dom (ents ?c') = insert a (dom (ents c))" by (simp add: appended_def)
    fix b y assume b: "b \<noteq> a" "A b = Some y" "entry_abs c (ck b) b y"
    have ok: "data_ok c ck" using inv by (simp add: cache_inv_def)
    have bd: "b \<in> dom (ents c)" "a \<in> dom (ents c)" using b(2) x(1) dom by auto
    have "chunks ?c' j = chunks c j" if j: "j \<in> set (ck b)" for j
    proof -
      have "j \<in> dom (chunks c)" using data_okD(3)[OF ok] j bd by auto
      then have "j \<noteq> k" using k by blast
      moreover have "j \<notin> set (ck a)" using data_okD(2)[OF ok bd(1,2)] b(1) j by auto
      ultimately show ?thesis by (simp add: appended_def link_chunk_frame)
    qed
    then have "entry_holds ?c' b (ck b) (a_data y)"
      using b(1,3) by (intro entry_holds_transfer[of c b "ck b" "a_data y" ?c'])
        (simp_all add: entry_abs_def appended_def)
    then show "entry_abs ?c' (ck b) b y" using b(1,3) by (simp add: entry_abs_def appended_def)
  qed assumption
qed

lemma append_fails_refines:
  assumes rep: "represents c A" and x: "A a = Some x"
    and "a_state x = ENTRY_CANCELLED \<or> mc = None \<or>
      (\<not> md \<and> (\<forall>k. mc = Some k \<longrightarrow> k \<notin> dom (chunks c)))"
  obtains c' where "cache_entry_append_chunk mc md a data n c = ret (-1, c')"
    "represents c' A" "lock_clean [] c c'"
proof -
  from represents_entry[OF rep x] obtain e where e: "ents c a = Some e" "e_state e = a_state x" by blast
  have "cache_entry_append_chunk mc md a data n c =
      ret (-1, logged [Acquire (EntryLock a), Release (EntryLock a)] c)"
    by (rule append_chunk_fails[OF e(1)]) (use e(2) assms(3) in auto)
  then show thesis
    by (rule that) (use rep in \<open>auto simp: lock_clean_def disciplined_def\<close>)
qed

lemma read_refines:
  assumes rep: "represents c A" and x: "A a = Some x" "a_state x \<noteq> ENTRY_CANCELLED"
    and off: "0 \<le> off" "off < 2 ^ 63" and len: "length (a_data x) < 2 ^ 63"
    and ready: "off < int (length (a_data x)) \<or> a_state x = ENTRY_COMPLETE"
  obtains c' where "cache_entry_read wakes a off n c =
      ret (int (length (take (nat n) (drop (nat off) (a_data x)))),
        take (nat n) (drop (nat off) (a_data x)), c')"
    "represents c' A" "lock_clean [] c c'"
proof -
  from represents_entry[OF rep x(1)] obtain e where e: "ents c a = Some e" "e_state e = a_state x" by blast
  from rep x(1) obtain ks where "entry_abs c ks a x" by (elim representsE) blast
  then have h: "entry_holds c a ks (a_data x)" by (simp add: entry_abs_def)
  show thesis
    by (rule that[OF cache_entry_read_spec[OF h e(1) _ off len]])
      (use e x(2) ready rep in \<open>auto simp: lock_clean_def disciplined_def\<close>)
qed

text \<open>A reader of a cancelled entry gets an error, whatever it waited for.\<close>

lemma read_cancelled_refines:
  assumes rep: "represents c A" and x: "A a = Some x" "a_state x = ENTRY_CANCELLED"
  obtains c' where "cache_entry_read wakes a off n c = ret (-1, [], c')"
    "represents c' A" "lock_clean [] c c'"
proof -
  from represents_entry[OF rep x(1)] obtain e where e: "ents c a = Some e" "e_state e = a_state x" by blast
  let ?c = "logged [Acquire (EntryLock a)] c"
  have w: "read_wait a off wakes ?c = ret (True, ?c)"
    by (rule read_wait_ready) (use e x in auto)
  have "cache_entry_read wakes a off n c =
      ret (-1, [], logged [Acquire (EntryLock a), Release (EntryLock a)] c)"
    using w e x(2) by (simp add: cache_entry_read_def emit_logged)
  then show thesis
    by (rule that) (use rep in \<open>auto simp: lock_clean_def disciplined_def\<close>)
qed

subsection \<open>State changes and the sweep\<close>

lemma locked_update_refines:
  assumes rep: "represents c A" and x: "A a = Some x"
    and f: "\<And>e. shape (f e) = shape e" "\<And>e. lru_prev (f e) = lru_prev e" "\<And>e. lru_next (f e) = lru_next e"
    and g: "\<And>e. e_state (f e) = st (e_state e)" "\<And>e. refcount (f e) = rc (refcount e)"
  obtains c' where "locked_update b f (Some a) c = ret c'" "lock_clean [] c c'"
    "represents c' (A(a \<mapsto> x\<lparr>a_state := st (a_state x), a_refs := rc (a_refs x)\<rparr>))"
    "current_size c' = current_size c"
proof -
  obtain bk es ck where inv: "cache_inv c bk es ck" and dom: "dom A = dom (ents c)"
      and abs: "\<And>a x. A a = Some x \<Longrightarrow> entry_abs c (ck a) a x"
    using rep unfolding represents_def view_ok_def by blast
  from represents_entry[OF rep x] obtain e where e: "ents c a = Some e" "e_url e = a_url x"
      "e_state e = a_state x" "refcount e = a_refs x" by blast
  from locked_update_inv[where f = f and b = b, OF inv e(1) f] obtain d where
      d: "locked_update b f (Some a) c = ret d" "cache_inv d bk es ck" "lock_clean [] c d"
        "ents d = (ents c)(a \<mapsto> f e)" "chunks d = chunks c" "current_size d = current_size c" by blast
  show thesis
  proof (rule that[OF d(1) d(3) _ d(6)], rule view_upd[OF dom abs])
    show "cache_inv d bk es (ck(a := ck a))" using d(2) by simp
    show "entry_abs d (ck a) a (x\<lparr>a_state := st (a_state x), a_refs := rc (a_refs x)\<rparr>)"
      using abs[OF x] e g f(1)[of e] d(4,5)
      by (simp add: entry_abs_def entry_holds_links shape_def)
    show "dom (ents d) = insert a (dom (ents c))" using d(4) by simp
    fix b y assume "b \<noteq> a" "entry_abs c (ck b) b y"
    then show "entry_abs d (ck b) b y" using d(4,5) by (intro entry_abs_core[of c "ck b" b y d]) simp_all
  qed assumption
qed

lemma removable_abs:
  "entry_abs c ks a x \<Longrightarrow> removable c a \<longleftrightarrow> garbage x"
  by (auto simp: removable_def garbage_def entry_abs_def links_eq_Some_iff)

text \<open>An entry that is not swept stays what it is.\<close>

lemma swept_entry_abs:
  assumes "swept c gone d" and "data_ok d ck" and same: "links payload (ents d) a = links payload (ents c) a"
    and old: "entry_abs c (ck a) a x" and "a \<in> dom (ents d)"
  shows "entry_abs d (ck a) a x"
proof -
  have fl: "links f h a = map_option f (links payload h a)"
    if "\<And>e. f e = f (payload e)" for f :: "cache_entry \<Rightarrow> 'x" and h
    by (cases "h a") (simp_all add: links_def that[symmetric])
  have l: "links f (ents d) a = links f (ents c) a" if "\<And>e. f e = f (payload e)" for f :: "cache_entry \<Rightarrow> 'x"
    using fl[of f, OF that] same by simp
  have "set (ck a) \<subseteq> dom (chunks d)" using data_okD(3)[OF assms(2)] assms(5) by blast
  then have "chunks d k = chunks c k" if "k \<in> set (ck a)" for k
    using assms(1) that by (auto simp: swept_def map_le_def)
  then have "entry_holds d a (ck a) (a_data x)"
    using old by (intro entry_holds_transfer[of c a "ck a" "a_data x" d]) (simp_all add: entry_abs_def l)
  then show ?thesis using old by (simp add: entry_abs_def l)
qed

text \<open>What the sweep removes, in the abstract cache.\<close>

lemma removable_garbage:
  assumes dom: "dom A = dom (ents c)" and abs: "\<And>a x. A a = Some x \<Longrightarrow> entry_abs c (ck a) a x"
  shows "{a. removable c a} = {a. \<exists>x. A a = Some x \<and> garbage x}"
    and "dom (ents c) - {a. removable c a} = dom (A |` {a. \<forall>x. A a = Some x \<longrightarrow> \<not> garbage x})"
proof -
  have rem: "removable c a \<longleftrightarrow> garbage x" if "A a = Some x" for a x
    using removable_abs abs that by blast
  show G: "{a. removable c a} = {a. \<exists>x. A a = Some x \<and> garbage x}"
  proof (intro set_eqI iffI; clarify)
    fix a assume r: "removable c a"
    then obtain x where "A a = Some x" using dom by (auto simp: removable_def split: option.splits)
    then show "\<exists>x. A a = Some x \<and> garbage x" using rem r by blast
  qed (use rem in blast)
  show "dom (ents c) - {a. removable c a} = dom (A |` {a. \<forall>x. A a = Some x \<longrightarrow> \<not> garbage x})"
    unfolding G dom[symmetric] by (auto simp: restrict_map_def split: if_splits)
qed

lemma gone_sizes:
  assumes "distinct gone" and "set gone = {a. \<exists>x. A a = Some x \<and> garbage x}"
    and abs: "\<And>a x. A a = Some x \<Longrightarrow> entry_abs c (ck a) a x"
  shows "(\<Sum>a\<leftarrow>gone. size_of c a) = (\<Sum>a \<in> {a. \<exists>x. A a = Some x \<and> garbage x}. of_nat (length (a_data (the (A a)))))"
proof -
  have "size_of c a = of_nat (length (a_data (the (A a))))" if "A a = Some x" for a x
    using abs[OF that] that by (auto simp: entry_abs_def entry_holds_links size_of_def links_eq_Some_iff)
  then show ?thesis unfolding assms(2)[symmetric] using assms(1,2)
    by (subst sum_list_distinct_conv_sum_set) (auto intro!: sum.cong)
qed

lemma sweep_refines:
  assumes rep: "represents c A"
  obtains c' where "cleanup_cancelled_entries c = ret c'" "lock_clean [] c c'"
    "represents c' (A |` {a. \<forall>x. A a = Some x \<longrightarrow> \<not> garbage x})"
    "current_size c' = current_size c - (\<Sum>a \<in> {a. \<exists>x. A a = Some x \<and> garbage x}. of_nat (length (a_data (the (A a)))))"
proof -
  obtain bk es ck where inv: "cache_inv c bk es ck" and dom: "dom A = dom (ents c)"
      and abs: "\<And>a x. A a = Some x \<Longrightarrow> entry_abs c (ck a) a x"
    using rep unfolding represents_def view_ok_def by blast
  let ?gone = "gone_upto c bk (num_buckets c)"
  let ?A = "A |` {a. \<forall>x. A a = Some x \<longrightarrow> \<not> garbage x}"
  note gone = set_gone_upto[OF inv] and rem = removable_garbage[of A c ck, OF dom abs]
  from cleanup_spec[OF inv] obtain d where d: "cleanup_cancelled_entries c = ret d"
      "cache_inv d (kept_upto c bk (num_buckets c)) (filter (\<lambda>a. a \<notin> set ?gone) es) ck"
      "swept c ?gone d" "lock_clean [] c d" by blast
  have pay: "links payload (ents d) = links payload (ents c) |` (- {a. removable c a})"
    using d(3) gone(1) by (simp add: swept_def)
  from arg_cong[OF this, of dom] have domd: "dom ?A = dom (ents d)" using rem(2) by (simp add: Diff_eq)
  show thesis
  proof (rule that[OF d(1,4)])
    show "represents d ?A"
    proof (rule representsI[OF d(2) domd])
      fix a x assume x: "?A a = Some x"
      moreover have "removable c a \<longleftrightarrow> (\<exists>x. A a = Some x \<and> garbage x)" using rem(1) by blast
      ultimately have "A a = Some x" "\<not> removable c a" "a \<in> dom (ents d)"
        using domd by (auto simp: restrict_map_def split: if_splits)
      moreover have "data_ok d ck" using d(2) by (simp add: cache_inv_def)
      ultimately show "entry_abs d (ck a) a x"
        using swept_entry_abs[OF d(3), of ck a x] abs pay by (simp add: restrict_map_def)
    qed
    show "current_size d = current_size c - (\<Sum>a \<in> {a. \<exists>x. A a = Some x \<and> garbage x}. of_nat (length (a_data (the (A a)))))"
      using d(3) gone_sizes[of ?gone A c ck] gone rem(1) abs by (simp add: swept_def)
  qed
qed

end
