(* ===== verification/CacheSystem.thy ===== *)
theory CacheSystem
  imports CacheSpec "HOL-Library.Multiset"
begin

section \<open>The cache shared by the workers\<close>

text \<open>
  The workers and the collector call the operations of the cache in any order, under the rules
  that \<open>process_request\<close> keeps: a lookup that misses keeps \<open>searchCreateMutex\<close> until the
  entry has been inserted or the request given up, only the creator of an entry appends to it,
  completes or cancels it, and only a holder of a reference reads or releases. The step relation
  runs the model's operations; each is atomic here. The ghost state records the references that
  are held, the entries that are being filled and the URL for which \<open>searchCreateMutex\<close> is held
  after a miss.
\<close>

record shared =
  sh_cache :: http_cache
  held :: "addr multiset"
  filling :: "addr set"
  searching :: "string option"

definition max_refs :: nat where
  "max_refs = 2 ^ 32 - 1"

definition shared_init :: "64 word \<Rightarrow> shared" where
  "shared_init mx = \<lparr>sh_cache = empty_cache mx, held = {#}, filling = {}, searching = None\<rparr>"

inductive cache_step :: "shared \<Rightarrow> shared \<Rightarrow> bool" where
  hit: "searching s = None \<Longrightarrow> size (held s) < max_refs \<Longrightarrow>
    cache_lookup now url (sh_cache s) = ret (Some a, c') \<Longrightarrow>
    cache_step s (s\<lparr>sh_cache := c', held := add_mset a (held s)\<rparr>)"
| miss: "searching s = None \<Longrightarrow> cache_lookup now url (sh_cache s) = ret (None, c') \<Longrightarrow>
    cache_step s (s\<lparr>sh_cache := c', searching := Some url\<rparr>)"
| give_up: "searching s = Some url \<Longrightarrow> cache_step s (s\<lparr>searching := None\<rparr>)"
| create: "searching s = Some url \<Longrightarrow> length url < MAX_URL_LENGTH \<Longrightarrow> size (held s) < max_refs \<Longrightarrow>
    a \<notin> dom (ents (sh_cache s)) \<Longrightarrow> cache_insert (Some a) now url (sh_cache s) = ret (Some a, c') \<Longrightarrow>
    cache_step s (s\<lparr>sh_cache := c', held := add_mset a (held s), filling := insert a (filling s),
      searching := None\<rparr>)"
| append: "a \<in> filling s \<Longrightarrow> k \<notin> dom (chunks (sh_cache s)) \<Longrightarrow> length data < 2 ^ 63 \<Longrightarrow>
    cache_entry_append_chunk (Some k) md a data (of_nat (length data)) (sh_cache s) = ret (r, c') \<Longrightarrow>
    cache_step s (s\<lparr>sh_cache := c'\<rparr>)"
| read: "a \<in># held s \<Longrightarrow> cache_entry_read [] a off n (sh_cache s) = ret (r, out, c') \<Longrightarrow>
    0 \<le> off \<Longrightarrow> off < 2 ^ 63 \<Longrightarrow> cache_step s (s\<lparr>sh_cache := c'\<rparr>)"
| complete: "a \<in> filling s \<Longrightarrow> cache_entry_complete (Some a) (sh_cache s) = ret c' \<Longrightarrow>
    cache_step s (s\<lparr>sh_cache := c', filling := filling s - {a}\<rparr>)"
| cancel: "a \<in> filling s \<Longrightarrow> cache_entry_cancel (Some a) (sh_cache s) = ret c' \<Longrightarrow>
    cache_step s (s\<lparr>sh_cache := c', filling := filling s - {a}\<rparr>)"
| release: "a \<in># held s \<Longrightarrow> cache_entry_release (Some a) (sh_cache s) = ret c' \<Longrightarrow>
    cache_step s (s\<lparr>sh_cache := c', held := held s - {#a#}\<rparr>)"
| sweep: "cleanup_cancelled_entries (sh_cache s) = ret c' \<Longrightarrow>
    cache_step s (s\<lparr>sh_cache := c'\<rparr>)"

inductive reachable :: "64 word \<Rightarrow> shared \<Rightarrow> bool" for mx where
  start: "reachable mx (shared_init mx)"
| step: "reachable mx s \<Longrightarrow> cache_step s s' \<Longrightarrow> reachable mx s'"

subsection \<open>The invariant of the system\<close>

definition refs_ok :: "addr multiset \<Rightarrow> acache \<Rightarrow> bool" where
  "refs_ok H A \<longleftrightarrow> set_mset H \<subseteq> dom A \<and> size H \<le> max_refs \<and>
     (\<forall>a x. A a = Some x \<longrightarrow> a_refs x = of_nat (count H a))"

definition one_live :: "acache \<Rightarrow> bool" where
  "one_live A \<longleftrightarrow> (\<forall>a b x y u. A a = Some x \<longrightarrow> A b = Some y \<longrightarrow> serves u x \<longrightarrow> serves u y \<longrightarrow> a = b)"

definition absent :: "string \<Rightarrow> acache \<Rightarrow> bool" where
  "absent u A \<longleftrightarrow> (\<forall>a x. A a = Some x \<longrightarrow> \<not> serves u x)"

definition filling_ok :: "addr set \<Rightarrow> acache \<Rightarrow> bool" where
  "filling_ok F A \<longleftrightarrow> (\<forall>a \<in> F. \<exists>x. A a = Some x \<and> a_state x = ENTRY_INCOMPLETE)"

definition sys_ok :: "shared \<Rightarrow> acache \<Rightarrow> bool" where
  "sys_ok s A \<longleftrightarrow> represents (sh_cache s) A \<and> refs_ok (held s) A \<and> one_live A \<and>
     filling_ok (filling s) A \<and> (\<forall>u. searching s = Some u \<longrightarrow> absent u A) \<and>
     disciplined [] (c_trace (sh_cache s))"

lemma sys_okD:
  assumes "sys_ok s A"
  shows "represents (sh_cache s) A" "refs_ok (held s) A" "one_live A" "filling_ok (filling s) A"
    "searching s = Some u \<Longrightarrow> absent u A" "disciplined [] (c_trace (sh_cache s))"
  using assms by (simp_all add: sys_ok_def)

text \<open>Updates of an entry that change neither its URL nor whether it is live.\<close>

lemma one_live_upd:
  assumes "one_live A" and "A a = Some x" and "\<And>u. serves u x' \<Longrightarrow> serves u x"
  shows "one_live (A(a \<mapsto> x'))"
  using assms unfolding one_live_def by (auto split: if_splits)

lemma absent_upd:
  assumes "absent u A" and "A a = Some x" and "\<And>u. serves u x' \<Longrightarrow> serves u x"
  shows "absent u (A(a \<mapsto> x'))"
  using assms unfolding absent_def by auto

lemma one_live_new:
  assumes "one_live A" and "absent (a_url x) A"
  shows "one_live (A(a \<mapsto> x))"
  using assms unfolding one_live_def absent_def serves_def by (auto split: if_splits)

lemma filling_upd:
  assumes "filling_ok F A" and "\<And>b. b \<in> F' \<Longrightarrow> b \<noteq> a \<Longrightarrow> b \<in> F"
    and "a \<in> F' \<Longrightarrow> a_state x' = ENTRY_INCOMPLETE"
  shows "filling_ok F' (A(a \<mapsto> x'))"
  using assms unfolding filling_ok_def by auto

lemma refs_same:
  assumes "refs_ok H A" and "A a = Some x" and "a_refs x' = a_refs x"
  shows "refs_ok H (A(a \<mapsto> x'))"
  using assms unfolding refs_ok_def by auto

lemma refs_add:
  assumes "refs_ok H A" and "size H < max_refs" and "a_refs x' = of_nat (count H a) + 1"
  shows "refs_ok (add_mset a H) (A(a \<mapsto> x'))"
  using assms unfolding refs_ok_def by auto

lemma refs_remove:
  assumes "refs_ok H A" and a: "a \<in># H" and "A a = Some x" and "a_refs x' = a_refs x - 1"
  shows "refs_ok (H - {#a#}) (A(a \<mapsto> x'))"
proof -
  from a have "count H a = Suc (count (H - {#a#}) a)" by simp
  then have "a_refs x' = of_nat (count (H - {#a#}) a)"
    using assms unfolding refs_ok_def by (metis add_diff_cancel_left' of_nat_Suc)
  then show ?thesis
    using assms size_Diff1_le[of H a] unfolding refs_ok_def
    by (auto dest: in_diffD)
qed

text \<open>No entry to which a reference is held has a reference count of zero.\<close>

lemma refs_pos:
  assumes "refs_ok H A" and a: "a \<in># H" and "A a = Some x"
  shows "a_refs x \<noteq> 0"
proof
  assume "a_refs x = 0"
  moreover from assms have "a_refs x = of_nat (count H a)" by (simp add: refs_ok_def)
  moreover have "count H a \<le> size H" by (metis count_le_replicate_mset_subset_eq size_mset_mono size_replicate_mset order_refl)
  moreover have "size H \<le> max_refs" using assms by (simp add: refs_ok_def)
  ultimately have "(of_nat (count H a) :: 32 word) = 0" "count H a < 2 ^ 32"
    by (simp_all add: max_refs_def)
  then have "count H a = 0" by (auto simp: word_of_nat_eq_0_iff dest: dvd_imp_le)
  then show False using a by (simp add: count_eq_zero_iff)
qed

lemma lock_clean_disciplined:
  "lock_clean [] c c' \<Longrightarrow> disciplined [] (c_trace c) \<Longrightarrow> disciplined [] (c_trace c')"
  by (auto simp: lock_clean_def intro: disciplined_append)

subsection \<open>Every step keeps it\<close>

lemma shared_init_ok: "sys_ok (shared_init mx) Map.empty"
proof -
  have "represents (empty_cache mx) Map.empty"
    by (rule representsI[OF empty_cache_inv]) (simp_all add: empty_cache_def)
  then show ?thesis
    by (simp add: sys_ok_def shared_init_def refs_ok_def one_live_def filling_ok_def empty_cache_def)
qed

lemma hit_ok:
  assumes ok: "sys_ok s A" and "searching s = None" "size (held s) < max_refs"
    and r: "cache_lookup now url (sh_cache s) = ret (Some a, c')"
  shows "\<exists>A'. sys_ok (s\<lparr>sh_cache := c', held := add_mset a (held s)\<rparr>) A'"
proof -
  note d = sys_okD[OF ok]
  from lookup_refines[OF d(1), of now url] r obtain x where x: "A a = Some x"
      "represents c' (A(a \<mapsto> x\<lparr>a_refs := a_refs x + 1\<rparr>))" "lock_clean [] (sh_cache s) c'"
    by auto
  have "a_refs x = of_nat (count (held s) a)" using d(2) x(1) by (simp add: refs_ok_def)
  then have "sys_ok (s\<lparr>sh_cache := c', held := add_mset a (held s)\<rparr>) (A(a \<mapsto> x\<lparr>a_refs := a_refs x + 1\<rparr>))"
    unfolding sys_ok_def using assms(2,3) d x
    by (auto intro!: refs_add one_live_upd filling_upd dest: lock_clean_disciplined
        simp: serves_def filling_ok_def)
  then show ?thesis by blast
qed

lemma miss_ok:
  assumes ok: "sys_ok s A" and "searching s = None"
    and r: "cache_lookup now url (sh_cache s) = ret (None, c')"
  shows "\<exists>A'. sys_ok (s\<lparr>sh_cache := c', searching := Some url\<rparr>) A'"
proof -
  note d = sys_okD[OF ok]
  from lookup_refines[OF d(1), of now url] r have "represents c' A" "lock_clean [] (sh_cache s) c'"
      "absent url A"
    by (auto simp: absent_def)
  then have "sys_ok (s\<lparr>sh_cache := c', searching := Some url\<rparr>) A"
    unfolding sys_ok_def using d by (auto dest: lock_clean_disciplined)
  then show ?thesis by blast
qed

lemma create_ok:
  assumes ok: "sys_ok s A" and "searching s = Some url" "size (held s) < max_refs"
    and len: "length url < MAX_URL_LENGTH" and a: "a \<notin> dom (ents (sh_cache s))"
    and r: "cache_insert (Some a) now url (sh_cache s) = ret (Some a, c')"
  shows "\<exists>A'. sys_ok (s\<lparr>sh_cache := c', held := add_mset a (held s),
    filling := insert a (filling s), searching := None\<rparr>) A'"
proof -
  note d = sys_okD[OF ok]
  let ?x = "\<lparr>a_url = url, a_state = ENTRY_INCOMPLETE, a_refs = 1, a_data = []\<rparr>"
  have aA: "a \<notin> dom A" using a represents_dom[OF d(1)] by simp
  from insert_refines[OF d(1) aA len, of now] r obtain
      x: "represents c' (A(a \<mapsto> ?x))" "lock_clean [] (sh_cache s) c'" by auto
  have "a \<notin># held s" using d(2) aA by (auto simp: refs_ok_def)
  then have "refs_ok (add_mset a (held s)) (A(a \<mapsto> ?x))"
    using refs_add[OF d(2) assms(3), of ?x a] by (simp add: not_in_iff)
  moreover have "one_live (A(a \<mapsto> ?x))" using one_live_new[OF d(3)] d(5)[OF assms(2)] by simp
  moreover have "filling_ok (insert a (filling s)) (A(a \<mapsto> ?x))"
    using d(4) by (auto simp: filling_ok_def)
  ultimately have "sys_ok (s\<lparr>sh_cache := c', held := add_mset a (held s),
      filling := insert a (filling s), searching := None\<rparr>) (A(a \<mapsto> ?x))"
    unfolding sys_ok_def using x d(6) by (auto dest: lock_clean_disciplined)
  then show ?thesis by blast
qed

text \<open>Appending, completing, cancelling and releasing replace one abstract entry.\<close>

lemma update_ok:
  assumes ok: "sys_ok s A" and x: "A a = Some x" and rep: "represents c' (A(a \<mapsto> x'))"
    and lc: "lock_clean [] (sh_cache s) c'" and sv: "\<And>u. serves u x' \<Longrightarrow> serves u x"
    and refs: "refs_ok H (A(a \<mapsto> x'))"
    and fill: "\<And>b. b \<in> F \<Longrightarrow> b \<noteq> a \<Longrightarrow> b \<in> filling s" "a \<in> F \<Longrightarrow> a_state x' = ENTRY_INCOMPLETE"
  shows "sys_ok (s\<lparr>sh_cache := c', held := H, filling := F\<rparr>) (A(a \<mapsto> x'))"
proof -
  note d = sys_okD[OF ok]
  have "absent u (A(a \<mapsto> x'))" if "searching s = Some u" for u
    by (rule absent_upd[OF d(5)[OF that] x]) (rule sv)
  moreover have "one_live (A(a \<mapsto> x'))" by (rule one_live_upd[OF d(3) x]) (rule sv)
  moreover have "filling_ok F (A(a \<mapsto> x'))" by (rule filling_upd[OF d(4)]) (use fill in auto)
  ultimately show ?thesis
    using rep refs d(6) lc by (simp add: sys_ok_def lock_clean_disciplined)
qed

lemma append_ok:
  assumes ok: "sys_ok s A" and a: "a \<in> filling s" and k: "k \<notin> dom (chunks (sh_cache s))"
    and len: "length data < 2 ^ 63"
    and r: "cache_entry_append_chunk (Some k) md a data (of_nat (length data)) (sh_cache s) = ret (r, c')"
  shows "\<exists>A'. sys_ok (s\<lparr>sh_cache := c'\<rparr>) A'"
proof -
  note d = sys_okD[OF ok]
  from d(4) a obtain x where x: "A a = Some x" "a_state x = ENTRY_INCOMPLETE"
    by (auto simp: filling_ok_def)
  show ?thesis
  proof (cases md)
    case True
    from x(2) have nc: "a_state x \<noteq> ENTRY_CANCELLED" by simp
    let ?x' = "x\<lparr>a_data := a_data x @ data\<rparr>"
    from append_refines[OF d(1) x(1) nc k len] r True obtain
        u: "represents c' (A(a \<mapsto> ?x'))" "lock_clean [] (sh_cache s) c'" by auto
    have "sys_ok (s\<lparr>sh_cache := c', held := held s, filling := filling s\<rparr>) (A(a \<mapsto> ?x'))"
      by (rule update_ok[OF ok x(1) u])
        (use x(2) refs_same[OF d(2) x(1), of ?x'] in \<open>simp_all add: serves_def\<close>)
    then show ?thesis by auto
  next
    case False
    then have "a_state x = ENTRY_CANCELLED \<or> Some k = None \<or>
        (\<not> md \<and> (\<forall>j. Some k = Some j \<longrightarrow> j \<notin> dom (chunks (sh_cache s))))" using k by auto
    from append_fails_refines[OF d(1) x(1) this, of data "of_nat (length data)"] r
    have u: "represents c' A" "lock_clean [] (sh_cache s) c'" by auto
    then have "sys_ok (s\<lparr>sh_cache := c'\<rparr>) A"
      using ok by (auto simp: sys_ok_def dest: lock_clean_disciplined)
    then show ?thesis by blast
  qed
qed

text \<open>A read that need not wait only takes and releases the entry's mutex.\<close>

lemma read_only_logs:
  assumes "cache_entry_read [] a off n c = ret (r, out, c')"
  shows "c' = logged [Acquire (EntryLock a), Release (EntryLock a)] c"
proof -
  from assms obtain go d where w: "read_wait a off [] (logged [Acquire (EntryLock a)] c) = ret (go, d)"
    by (auto simp: cache_entry_read_def bindR_eq_ret emit_logged)
  then have "go" "d = logged [Acquire (EntryLock a)] c"
    by (auto simp: read_wait.simps bindR_eq_ret split: if_splits)
  then show ?thesis
    using assms w by (auto simp: cache_entry_read_def bindR_eq_ret emit_logged split: if_splits)
qed

lemma read_ok:
  assumes ok: "sys_ok s A" and r: "cache_entry_read [] a off n (sh_cache s) = ret (r, out, c')"
  shows "\<exists>A'. sys_ok (s\<lparr>sh_cache := c'\<rparr>) A'"
proof -
  have "disciplined [] [Acquire (EntryLock a), Release (EntryLock a)]" by (simp add: disciplined_def)
  then have "sys_ok (s\<lparr>sh_cache := c'\<rparr>) A"
    using ok read_only_logs[OF r] by (auto simp: sys_ok_def intro: disciplined_append)
  then show ?thesis by blast
qed

text \<open>Completing, cancelling and releasing.\<close>

lemma state_change_ok:
  assumes ok: "sys_ok s A" and a: "a \<in> filling s"
    and f: "\<And>e. shape (f e) = shape e" "\<And>e. lru_prev (f e) = lru_prev e" "\<And>e. lru_next (f e) = lru_next e"
      "\<And>e. e_state (f e) = st" "\<And>e. refcount (f e) = refcount e"
    and r: "locked_update b f (Some a) (sh_cache s) = ret c'"
  shows "\<exists>A'. sys_ok (s\<lparr>sh_cache := c', filling := filling s - {a}\<rparr>) A'"
proof -
  note d = sys_okD[OF ok]
  from d(4) a obtain x where x: "A a = Some x" "a_state x = ENTRY_INCOMPLETE"
    by (auto simp: filling_ok_def)
  let ?x' = "x\<lparr>a_state := st\<rparr>"
  from locked_update_refines[where f = f and st = "\<lambda>_. st" and rc = "\<lambda>n. n" and b = b, OF d(1) x(1) f] r
  have u: "represents c' (A(a \<mapsto> ?x'))" "lock_clean [] (sh_cache s) c'" by auto
  have "sys_ok (s\<lparr>sh_cache := c', held := held s, filling := filling s - {a}\<rparr>) (A(a \<mapsto> ?x'))"
    by (rule update_ok[OF ok x(1) u])
      (use x(2) refs_same[OF d(2) x(1), of ?x'] in \<open>simp_all add: serves_def\<close>)
  then show ?thesis by auto
qed

lemma release_ok:
  assumes ok: "sys_ok s A" and a: "a \<in># held s"
    and r: "cache_entry_release (Some a) (sh_cache s) = ret c'"
  shows "\<exists>A'. sys_ok (s\<lparr>sh_cache := c', held := held s - {#a#}\<rparr>) A'"
proof -
  note d = sys_okD[OF ok]
  from d(2) a obtain x where x: "A a = Some x" by (auto simp: refs_ok_def)
  let ?x' = "x\<lparr>a_state := a_state x, a_refs := a_refs x - 1\<rparr>"
  have f: "shape (e\<lparr>refcount := refcount e - 1\<rparr>) = shape e" for e by (simp add: shape_def)
  from locked_update_refines[where f = "\<lambda>e. e\<lparr>refcount := refcount e - 1\<rparr>" and st = "\<lambda>t. t"
      and rc = "\<lambda>n. n - 1" and b = False, OF d(1) x f] r
  have u: "represents c' (A(a \<mapsto> ?x'))" "lock_clean [] (sh_cache s) c'"
    by (auto simp: cache_entry_release_def)
  have fx: "a_state x = ENTRY_INCOMPLETE" if "a \<in> filling s"
    using d(4) x that by (auto simp: filling_ok_def)
  have "sys_ok (s\<lparr>sh_cache := c', held := held s - {#a#}, filling := filling s\<rparr>) (A(a \<mapsto> ?x'))"
    by (rule update_ok[OF ok x u])
      (use fx refs_remove[OF d(2) a x, of ?x'] in \<open>simp_all add: serves_def\<close>)
  then show ?thesis by auto
qed

lemma sweep_ok:
  assumes ok: "sys_ok s A" and r: "cleanup_cancelled_entries (sh_cache s) = ret c'"
  shows "\<exists>A'. sys_ok (s\<lparr>sh_cache := c'\<rparr>) A'"
proof -
  note d = sys_okD[OF ok]
  let ?A = "A |` {a. \<forall>x. A a = Some x \<longrightarrow> \<not> garbage x}"
  have sub: "A a = Some x" if "?A a = Some x" for a x
    using that by (auto simp: restrict_map_def split: if_splits)
  from sweep_refines[OF d(1)] r have u: "represents c' ?A" "lock_clean [] (sh_cache s) c'" by auto
  have "set_mset (held s) \<subseteq> dom ?A"
  proof
    fix a assume a: "a \<in># held s"
    then obtain x where x: "A a = Some x" using d(2) by (auto simp: refs_ok_def)
    then have "\<not> garbage x" using refs_pos[OF d(2) a x] by (simp add: garbage_def)
    then show "a \<in> dom ?A" using x by auto
  qed
  then have "refs_ok (held s) ?A" using d(2) sub unfolding refs_ok_def by blast
  moreover have "one_live ?A" using d(3) sub unfolding one_live_def by blast
  moreover have "filling_ok (filling s) ?A"
    using d(4) by (auto simp: filling_ok_def garbage_def restrict_map_def)
  moreover have "absent v ?A" if "searching s = Some v" for v
    using d(5)[OF that] sub unfolding absent_def by blast
  ultimately have "sys_ok (s\<lparr>sh_cache := c'\<rparr>) ?A"
    using u d(6) by (simp add: sys_ok_def lock_clean_disciplined)
  then show ?thesis by blast
qed

theorem step_keeps_sys_ok:
  assumes "cache_step s s'" and "\<exists>A. sys_ok s A"
  shows "\<exists>A. sys_ok s' A"
proof -
  from assms(2) obtain A where ok: "sys_ok s A" by blast
  from assms(1) show ?thesis
  proof cases
    case (give_up url)
    then have "sys_ok s' A" using ok by (simp add: sys_ok_def)
    then show ?thesis by blast
  next
    case (complete a c')
    then have c: "locked_update True (\<lambda>e. e\<lparr>e_state := ENTRY_COMPLETE\<rparr>) (Some a) (sh_cache s) = ret c'"
      by (simp add: cache_entry_complete_def)
    show ?thesis
      unfolding complete(1) by (rule state_change_ok[OF ok complete(2) _ _ _ _ _ c]) (simp_all add: shape_def)
  next
    case (cancel a c')
    then have c: "locked_update True (\<lambda>e. e\<lparr>e_state := ENTRY_CANCELLED\<rparr>) (Some a) (sh_cache s) = ret c'"
      by (simp add: cache_entry_cancel_def)
    show ?thesis
      unfolding cancel(1) by (rule state_change_ok[OF ok cancel(2) _ _ _ _ _ c]) (simp_all add: shape_def)
  qed (auto intro: hit_ok[OF ok] miss_ok[OF ok] create_ok[OF ok] append_ok[OF ok] read_ok[OF ok]
        release_ok[OF ok] sweep_ok[OF ok])
qed

lemma reachable_sys_ok: "reachable mx s \<Longrightarrow> \<exists>A. sys_ok s A"
  by (induction rule: reachable.induct) (use shared_init_ok step_keeps_sys_ok in blast)+

lemma reachableE:
  assumes "reachable mx s"
  obtains A where "sys_ok s A"
  using reachable_sys_ok[OF assms] by blast

end
