(* ===== verification/CacheProps.thy ===== *)
theory CacheProps
  imports CacheSystem
begin

section \<open>Properties of the cache\<close>

text \<open>
  The theorems about the cache as a whole. They concern the caches that the workers can reach
  (\<open>reachable\<close>), the contract of single operations over the abstract cache
  (\<open>represents\<close>), and the executions that go wrong.
\<close>

lemmas sys_parts = sys_okD(1-5)

subsection \<open>Concrete states for the witnesses\<close>

text \<open>A cache on which one worker has looked up \<open>/a\<close> in vain and created the entry at address 7.\<close>

lemma fresh_lookup:
  obtains c' where "cache_lookup 0 url (empty_cache 0) = ret (None, c')" "represents c' Map.empty"
    "current_size c' = 0"
proof -
  have "represents (empty_cache 0) Map.empty"
    by (rule representsI[OF empty_cache_inv]) (simp_all add: empty_cache_def)
  from lookup_refines[OF this, of 0 url] that show thesis by (auto simp: empty_cache_def)
qed

definition demo_entry :: aentry where
  "demo_entry = \<lparr>a_url = ''/a'', a_state = ENTRY_INCOMPLETE, a_refs = 1, a_data = []\<rparr>"

lemma demo_reachable:
  "\<exists>s. reachable 0 s \<and> held s = {#7#} \<and> filling s = {7} \<and> searching s = None \<and>
     represents (sh_cache s) [7 \<mapsto> demo_entry] \<and> current_size (sh_cache s) = 0"
proof -
  obtain c1 where c1: "cache_lookup 0 ''/a'' (empty_cache 0) = ret (None, c1)" "represents c1 Map.empty"
      "current_size c1 = 0"
    using fresh_lookup .
  obtain c2 where c2: "cache_insert (Some 7) 0 ''/a'' c1 = ret (Some 7, c2)"
      "represents c2 [7 \<mapsto> demo_entry]" "current_size c2 = 0"
    using c1(3) insert_refines[OF c1(2), of 7 "''/a''" 0] by (auto simp: MAX_URL_LENGTH_def demo_entry_def)
  let ?s1 = "\<lparr>sh_cache = c1, held = {#}, filling = {}, searching = Some ''/a''\<rparr>"
  have "cache_step (shared_init 0) ?s1"
    using cache_step.miss[of "shared_init 0" 0 "''/a''" c1] c1(1) by (simp add: shared_init_def)
  then have "reachable 0 ?s1" by (rule reachable.step[OF reachable.start])
  moreover have "cache_step ?s1 \<lparr>sh_cache = c2, held = {#7#}, filling = {7}, searching = None\<rparr>"
    using cache_step.create[of ?s1 "''/a''" 7 0 c2] c2(1) represents_dom[OF c1(2)]
    by (simp add: MAX_URL_LENGTH_def max_refs_def)
  ultimately have "reachable 0 \<lparr>sh_cache = c2, held = {#7#}, filling = {7}, searching = None\<rparr>"
    by (rule reachable.step)
  then show ?thesis using c2(2,3) by (intro exI[of _ "\<lparr>sh_cache = c2, held = {#7#}, filling = {7}, searching = None\<rparr>"]) simp
qed

lemma demo_entry_in:
  assumes "represents c [7 \<mapsto> demo_entry]"
  obtains e where "ents c 7 = Some e" "e_url e = ''/a''" "e_state e = ENTRY_INCOMPLETE" "refcount e = 1"
proof -
  have "[7 \<mapsto> demo_entry] 7 = Some demo_entry" by simp
  then obtain e where "ents c 7 = Some e" "e_url e = a_url demo_entry" "e_state e = a_state demo_entry"
      "refcount e = a_refs demo_entry"
    using represents_entry[OF assms] by blast
  then show thesis using that by (simp add: demo_entry_def)
qed

subsection \<open>Safety of the shared cache\<close>

text \<open>C1: In every cache the workers can reach, an entry to which some worker holds a reference is
  allocated, and its reference count is the (positive) number of references held: neither the
  collector nor any other operation frees an entry in use.\<close>

theorem cache_held_never_freed:
  assumes "reachable mx s" and "a \<in># held s"
  shows "\<exists>e. ents (sh_cache s) a = Some e \<and> refcount e = of_nat (count (held s) a) \<and> refcount e \<noteq> 0"
proof -
  obtain A where ok: "sys_ok s A" using assms(1) by (rule reachableE)
  note d = sys_parts[OF ok]
  from d(2) assms(2) obtain x where x: "A a = Some x" by (auto simp: refs_ok_def)
  from represents_entry[OF d(1) x] obtain e where "ents (sh_cache s) a = Some e" "refcount e = a_refs x"
    by blast
  then show ?thesis using refs_pos[OF d(2) assms(2) x] d(2) x by (auto simp: refs_ok_def)
qed

theorem cache_held_never_freed_witness:
  "\<exists>s e. reachable 0 s \<and> 7 \<in># held s \<and> ents (sh_cache s) 7 = Some e \<and> refcount e = 1"
proof -
  obtain s where s: "reachable 0 s" "held s = {#7#}" using demo_reachable by blast
  from cache_held_never_freed[OF s(1), of 7] s show ?thesis by auto
qed

text \<open>C2: At every moment at most one entry that is not cancelled exists for a URL, because a lookup
  that misses keeps \<open>searchCreateMutex\<close> until its entry has been inserted: two workers never
  download the same URL at once.\<close>

theorem cache_one_live_per_url:
  assumes "reachable mx s" and "ents (sh_cache s) a = Some e" "ents (sh_cache s) b = Some f"
    and "e_url e = e_url f" "e_state e \<noteq> ENTRY_CANCELLED" "e_state f \<noteq> ENTRY_CANCELLED"
  shows "a = b"
proof -
  obtain A where ok: "sys_ok s A" using assms(1) by (rule reachableE)
  note d = sys_parts[OF ok]
  from assms(2,3) represents_dom[OF d(1)] obtain x y where xy: "A a = Some x" "A b = Some y" by blast
  obtain e' where "ents (sh_cache s) a = Some e'" "e_url e' = a_url x" "e_state e' = a_state x"
    using represents_entry[OF d(1) xy(1)] by blast
  with assms(2,5) have "serves (e_url e) x" by (simp add: serves_def)
  moreover obtain f' where "ents (sh_cache s) b = Some f'" "e_url f' = a_url y" "e_state f' = a_state y"
    using represents_entry[OF d(1) xy(2)] by blast
  with assms(3,4,6) have "serves (e_url e) y" by (simp add: serves_def)
  ultimately show ?thesis using d(3) xy unfolding one_live_def by blast
qed

theorem cache_one_live_per_url_witness:
  "\<exists>s e. reachable 0 s \<and> ents (sh_cache s) 7 = Some e \<and> e_state e \<noteq> ENTRY_CANCELLED \<and>
     (\<forall>b f. ents (sh_cache s) b = Some f \<and> e_url f = ''/a'' \<and> e_state f \<noteq> ENTRY_CANCELLED \<longrightarrow> 7 = b)"
proof -
  obtain s where s: "reachable 0 s" "represents (sh_cache s) [7 \<mapsto> demo_entry]"
    using demo_reachable by blast
  obtain e where e: "ents (sh_cache s) 7 = Some e" "e_url e = ''/a''" "e_state e \<noteq> ENTRY_CANCELLED"
    using demo_entry_in[OF s(2)] by (metis entry_state_t.distinct(3))
  have "7 = b" if "ents (sh_cache s) b = Some f \<and> e_url f = ''/a'' \<and> e_state f \<noteq> ENTRY_CANCELLED" for b f
    by (rule cache_one_live_per_url[OF s(1) e(1), of b f]) (use that e in auto)
  then show ?thesis using s(1) e by blast
qed

text \<open>A reference makes its entry readable, whatever the others do while its holder waits.\<close>

definition usable :: "addr \<Rightarrow> http_cache \<Rightarrow> bool" where
  "usable h c \<longleftrightarrow> (\<exists>A x. represents c A \<and> A h = Some x)"

lemma usable_logged [simp]: "usable h (logged evs c) = usable h c"
  by (simp add: usable_def)

lemma held_usable:
  assumes "reachable mx s" and "h \<in># held s"
  shows "usable h (sh_cache s)"
proof -
  obtain A where ok: "sys_ok s A" using assms(1) by (rule reachableE)
  note d = sys_parts[OF ok]
  from d(2) assms(2) obtain x where "A h = Some x" by (auto simp: refs_ok_def)
  then show ?thesis using d(1) unfolding usable_def by blast
qed

lemma usable_entry:
  assumes "usable h c"
  obtains e ks where "ents c h = Some e" "chain (chunks c) (data_head e) ks"
proof -
  from assms obtain A x where r: "represents c A" "A h = Some x" unfolding usable_def by blast
  obtain ks where "entry_abs c ks h x" using represents_abs[OF r] .
  then show thesis using that by (auto simp: entry_abs_def entry_holds_def)
qed

text \<open>The waiting loop: with usable entries it never crashes, and it ends when it is told to.\<close>

lemma read_wait_ends:
  assumes "usable h c" and "\<forall>w \<in> set ws. \<forall>d. usable h (snd w d)"
    and "\<not> must_wait h off c \<or> (\<exists>w \<in> set ws. fst w \<or> (\<forall>d. \<not> must_wait h off (snd w d)))"
  shows "\<exists>go c'. read_wait h off ws c = ret (go, c') \<and> usable h c'"
  using assms
proof (induction ws arbitrary: c)
  case Nil
  then have nb: "\<not> must_wait h off c" by simp
  obtain e ks where e: "ents c h = Some e" "chain (chunks c) (data_head e) ks"
    using Nil.prems(1) by (rule usable_entry)
  have "read_wait h off [] c = ret (True, c)"
    using nb e(1) by (subst read_wait.simps) (simp add: must_wait_def)
  then show ?case using Nil.prems(1) by blast
next
  case (Cons w ws)
  obtain t f where w: "w = (t, f)" by (cases w)
  let ?d = "logged [Acquire (EntryLock h)] (f (logged [Release (EntryLock h)] c))"
  obtain e ks where e: "ents c h = Some e" "chain (chunks c) (data_head e) ks"
    using Cons.prems(1) by (rule usable_entry)
  have ud: "usable h ?d" using Cons.prems(2) w by simp
  obtain e' ks' where e': "ents ?d h = Some e'" "chain (chunks ?d) (data_head e') ks'"
    using ud by (rule usable_entry)
  show ?case
  proof (cases "must_wait h off c")
    case False
    then have "read_wait h off (w # ws) c = ret (True, c)"
      using e(1) by (subst read_wait.simps) (auto simp: must_wait_def)
    then show ?thesis using Cons.prems(1) by blast
  next
    case True
    have r: "read_wait h off (w # ws) c =
        (if e_state e' = ENTRY_CANCELLED \<or> t then ret (False, logged [Release (EntryLock h)] ?d)
         else read_wait h off ws ?d)"
      using True e(1) e'(1) w by (subst read_wait.simps) (auto simp: must_wait_def emit_logged Let_def)
    show ?thesis
    proof (cases "e_state e' = ENTRY_CANCELLED \<or> t")
      case True
      then show ?thesis using r ud by auto
    next
      case False
      have "\<exists>go c'. read_wait h off ws ?d = ret (go, c') \<and> usable h c'"
      proof (rule Cons.IH[OF ud])
        show "\<forall>w \<in> set ws. \<forall>d. usable h (snd w d)" using Cons.prems(2) by simp
        show "\<not> must_wait h off ?d \<or> (\<exists>w \<in> set ws. fst w \<or> (\<forall>d. \<not> must_wait h off (snd w d)))"
          using Cons.prems(3) True False w by auto
      qed
      then show ?thesis using r False by simp
    qed
  qed
qed

lemma read_returns:
  assumes "usable h c" and "\<forall>w \<in> set ws. \<forall>d. usable h (snd w d)" and "0 \<le> off"
    and "\<not> must_wait h off c \<or> (\<exists>w \<in> set ws. fst w \<or> (\<forall>d. \<not> must_wait h off (snd w d)))"
  shows "\<exists>r out c'. cache_entry_read ws h off n c = ret (r, out, c')"
proof -
  let ?c = "logged [Acquire (EntryLock h)] c"
  have "usable h ?c" "\<not> must_wait h off ?c \<or> (\<exists>w \<in> set ws. fst w \<or> (\<forall>d. \<not> must_wait h off (snd w d)))"
    using assms(1,4) by simp_all
  from read_wait_ends[OF this(1) assms(2) this(2)] obtain go d where
      d: "read_wait h off ws ?c = ret (go, d)" "usable h d" by blast
  obtain e ks where e: "ents d h = Some e" "chain (chunks d) (data_head e) ks"
    using d(2) by (rule usable_entry)
  from find_chunk_spec[OF e(2) assms(3)] obtain q o' ls where
      q: "find_chunk (chunks d) (data_head e) off = ret (q, o')" "chain (chunks d) q ls" "0 \<le> o'"
        "\<forall>k y. q = Some k \<longrightarrow> chunks d k = Some y \<longrightarrow> o' < ck_size y" by blast
  have le: "o' \<le> ck_size y" if "q = Some k" "chunks d k = Some y" for k y using q(4) that by fastforce
  have "\<exists>out. copy_chunks (chunks d) q o' n [] = ret out"
    by (rule exI, rule copy_chunks_spec[OF q(2,3)]) (rule le)
  then obtain out where "copy_chunks (chunks d) q o' n [] = ret out" ..
  then show ?thesis using d(1) e(1) q(1) by (simp add: cache_entry_read_def emit_logged)
qed

text \<open>C3: In every reachable cache each operation that the protocol allows runs to its end, whatever
  the allocator returns: no \<open>NULL\<close> pointer and no freed cell is read, no index is out of range, and
  every loop ends. A read, at an offset that is not negative, may wait any number of times while
  the others go from one reachable cache to another in which the reader still holds its reference;
  it returns as soon as a wait is over by its time limit, or finds that the offset is available
  or the download no longer under way.\<close>

theorem cache_calls_return:
  assumes "reachable mx s"
  shows "(\<exists>p c'. cache_lookup now url (sh_cache s) = ret (p, c')) \<and>
    (\<forall>a. (\<forall>b. a = Some b \<longrightarrow> b \<notin> dom (ents (sh_cache s))) \<longrightarrow> length url < MAX_URL_LENGTH \<longrightarrow>
      (\<exists>c'. cache_insert a now url (sh_cache s) = ret (a, c'))) \<and>
    (\<forall>b k md. b \<in> filling s \<longrightarrow> (\<forall>j. k = Some j \<longrightarrow> j \<notin> dom (chunks (sh_cache s))) \<longrightarrow>
      length data < 2 ^ 63 \<longrightarrow>
      (\<exists>c'. cache_entry_append_chunk k md b data (of_nat (length data)) (sh_cache s) =
        ret (if k = None \<or> \<not> md then -1 else 0, c'))) \<and>
    (\<forall>h ws off n. h \<in># held s \<longrightarrow> 0 \<le> off \<longrightarrow>
      (\<forall>(timedout, others) \<in> set ws. \<forall>d. \<exists>s'. reachable mx s' \<and> h \<in># held s' \<and> others d = sh_cache s') \<longrightarrow>
      \<not> must_wait h off (sh_cache s) \<or>
        (\<exists>(timedout, others) \<in> set ws. timedout \<or> (\<forall>d. \<not> must_wait h off (others d))) \<longrightarrow>
      (\<exists>r out c'. cache_entry_read ws h off n (sh_cache s) = ret (r, out, c'))) \<and>
    (\<forall>b. b \<in> filling s \<longrightarrow> (\<exists>c' c''. cache_entry_complete (Some b) (sh_cache s) = ret c' \<and>
      cache_entry_cancel (Some b) (sh_cache s) = ret c'')) \<and>
    (\<forall>h. h \<in># held s \<longrightarrow> (\<exists>c'. cache_entry_release (Some h) (sh_cache s) = ret c')) \<and>
    (\<exists>c'. cleanup_cancelled_entries (sh_cache s) = ret c')"
proof -
  obtain A where ok: "sys_ok s A" using assms by (rule reachableE)
  note d = sys_parts[OF ok]
  have "\<exists>p c'. cache_lookup now url (sh_cache s) = ret (p, c')"
    using lookup_refines[OF d(1), of now url] by blast
  moreover have "\<exists>c'. cleanup_cancelled_entries (sh_cache s) = ret c'"
    using sweep_refines[OF d(1)] by blast
  moreover have "\<exists>c'. cache_insert a now url (sh_cache s) = ret (a, c')"
    if "\<forall>b. a = Some b \<longrightarrow> b \<notin> dom (ents (sh_cache s))" "length url < MAX_URL_LENGTH" for a
  proof (cases a)
    case None
    then show ?thesis by (simp add: cache_insert_def)
  next
    case (Some b)
    then show ?thesis
      using insert_refines[OF d(1) _ that(2), of b now] that(1) represents_dom[OF d(1)] by auto
  qed
  moreover have e: "\<exists>e. ents (sh_cache s) x = Some e" if "x \<in> filling s \<or> x \<in># held s" for x
    using that d(2,4) represents_dom[OF d(1)] by (fastforce simp: refs_ok_def filling_ok_def)
  moreover have "\<exists>c' c''. cache_entry_complete (Some b) (sh_cache s) = ret c' \<and>
      cache_entry_cancel (Some b) (sh_cache s) = ret c''" if "b \<in> filling s" for b
    using e[of b] that locked_update_spec unfolding cache_entry_complete_def cache_entry_cancel_def by blast
  moreover have "\<exists>c'. cache_entry_release (Some h) (sh_cache s) = ret c'" if "h \<in># held s" for h
    using e[of h] that locked_update_spec unfolding cache_entry_release_def by blast
  moreover have "\<exists>c'. cache_entry_append_chunk k md b data (of_nat (length data)) (sh_cache s) =
      ret (if k = None \<or> \<not> md then -1 else 0, c')"
    if "b \<in> filling s" "\<forall>j. k = Some j \<longrightarrow> j \<notin> dom (chunks (sh_cache s))" "length data < 2 ^ 63"
    for b k md
  proof -
    note fresh = that(2)
    from d(4) that(1) obtain x where x: "A b = Some x" "a_state x \<noteq> ENTRY_CANCELLED"
      by (auto simp: filling_ok_def)
    show ?thesis
    proof (cases "k = None \<or> \<not> md")
      case True
      then have "a_state x = ENTRY_CANCELLED \<or> k = None \<or>
          (\<not> md \<and> (\<forall>j. k = Some j \<longrightarrow> j \<notin> dom (chunks (sh_cache s))))" using that(2) by blast
      from append_fails_refines[OF d(1) x(1) this, of data "of_nat (length data)"] True
      show ?thesis by auto
    next
      case False
      then obtain j where j: "k = Some j" "j \<notin> dom (chunks (sh_cache s))" using fresh by (cases k) simp_all
      from append_refines[OF d(1) x j(2) that(3)] j(1) False show ?thesis by auto
    qed
  qed
  moreover have "\<exists>r out c'. cache_entry_read ws h off n (sh_cache s) = ret (r, out, c')"
    if "h \<in># held s" "0 \<le> off"
      "\<forall>(timedout, others) \<in> set ws. \<forall>d. \<exists>s'. reachable mx s' \<and> h \<in># held s' \<and> others d = sh_cache s'"
      "\<not> must_wait h off (sh_cache s) \<or>
        (\<exists>(timedout, others) \<in> set ws. timedout \<or> (\<forall>d. \<not> must_wait h off (others d)))"
    for h ws off n
  proof (rule read_returns[OF held_usable[OF assms that(1)] _ that(2)])
    show "\<forall>w \<in> set ws. \<forall>d. usable h (snd w d)"
    proof (intro ballI allI)
      fix w d assume "w \<in> set ws"
      with that(3) obtain s' where "reachable mx s'" "h \<in># held s'" "snd w d = sh_cache s'"
        by (fastforce simp: case_prod_beta)
      then show "usable h (snd w d)" by (simp add: held_usable)
    qed
    show "\<not> must_wait h off (sh_cache s) \<or> (\<exists>w \<in> set ws. fst w \<or> (\<forall>d. \<not> must_wait h off (snd w d)))"
      using that(4) by (simp add: case_prod_beta)
  qed
  ultimately show ?thesis by blast
qed

theorem cache_calls_return_witness:
  "\<exists>s c'. reachable 0 s \<and> cleanup_cancelled_entries (sh_cache s) = ret c' \<and> 7 \<in># held s \<and>
     (\<exists>c'. cache_entry_release (Some 7) (sh_cache s) = ret c') \<and>
     (\<exists>r out c'. cache_entry_read [(False, \<lambda>_. sh_cache s), (True, \<lambda>_. sh_cache s)] 7 0 10 (sh_cache s) =
        ret (r, out, c'))"
proof -
  obtain s where s: "reachable 0 s" "held s = {#7#}" using demo_reachable by blast
  then have h: "7 \<in># held s" by simp
  note all = cache_calls_return[OF s(1)]
  have "\<exists>r out c'. cache_entry_read [(False, \<lambda>_. sh_cache s), (True, \<lambda>_. sh_cache s)] 7 0 10 (sh_cache s) =
      ret (r, out, c')"
    by (rule all[THEN conjunct2, THEN conjunct2, THEN conjunct2, THEN conjunct1, rule_format])
      (use h s(1) in auto)
  moreover have "\<exists>c'. cache_entry_release (Some 7) (sh_cache s) = ret c'"
    "\<exists>c'. cleanup_cancelled_entries (sh_cache s) = ret c'"
    using all h by blast+
  ultimately show ?thesis using s(1) h by blast
qed

text \<open>C9: Threads that are anywhere inside operations of the cache cannot wait for one another in a
  circle: of any finite set of threads, each about to lock a mutex in the middle of a step from a
  reachable cache, one wants a mutex that none of them holds.\<close>

theorem cache_threads_no_deadlock:
  assumes "finite T" "T \<noteq> {}"
    and "\<And>t. t \<in> T \<Longrightarrow> reachable mx (st t) \<and> cache_step (st t) (st' t) \<and>
      c_trace (sh_cache (st' t)) = c_trace (sh_cache (st t)) @ pre t @ Acquire (want t) # rest t"
  shows "\<exists>t \<in> T. \<forall>u \<in> T. want t \<notin> held_after (pre u)"
proof (rule some_thread_unblocked[OF assms(1,2)])
  fix t assume t: "t \<in> T"
  then have r: "reachable mx (st t)" "reachable mx (st' t)"
    using assms(3) by (auto intro: reachable.step)
  have "disciplined [] (c_trace (sh_cache (st t)))" "disciplined [] (c_trace (sh_cache (st' t)))"
    using r sys_okD(6) by (metis reachableE)+
  then have "disciplined [] (pre t @ Acquire (want t) # rest t)"
    using assms(3)[OF t] by (simp add: disciplined_def replay_append)
  then show "stands_before (pre t) (want t)" by (rule disciplined_prefix)
qed

theorem cache_threads_no_deadlock_witness:
  "\<exists>s s'. cache_step s s' \<and> c_trace (sh_cache s') = c_trace (sh_cache s) @ [] @
       Acquire (EntryLock 7) # [Release (EntryLock 7)] \<and>
     (\<exists>t \<in> {0::nat, 1}. \<forall>u \<in> {0::nat, 1}. EntryLock 7 \<notin> held_after [])"
proof -
  obtain s where s: "reachable 0 s" "held s = {#7#}" "represents (sh_cache s) [7 \<mapsto> demo_entry]"
    using demo_reachable by blast
  obtain e where e: "ents (sh_cache s) 7 = Some e" using demo_entry_in[OF s(3)] .
  let ?c' = "logged [Acquire (EntryLock 7), Release (EntryLock 7)]
      ((sh_cache s)\<lparr>ents := (ents (sh_cache s))(7 \<mapsto> e\<lparr>refcount := refcount e - 1\<rparr>)\<rparr>)"
  let ?s' = "s\<lparr>sh_cache := ?c', held := held s - {#7#}\<rparr>"
  have "cache_entry_release (Some 7) (sh_cache s) = ret ?c'"
    using e by (simp add: cache_entry_release_def locked_update_def emit_logged logged_def)
  then have st: "cache_step s ?s'" using s(2) by (intro cache_step.release[where a = 7]) simp_all
  have "\<exists>t \<in> {0::nat, 1}. \<forall>u \<in> {0::nat, 1}. EntryLock 7 \<notin> held_after []"
    by (rule cache_threads_no_deadlock[of "{0::nat, 1}" 0 "\<lambda>_. s" "\<lambda>_. ?s'" "\<lambda>_. []" "\<lambda>_. EntryLock 7"
        "\<lambda>_. [Release (EntryLock 7)]"]) (use s(1) st in simp_all)
  then show ?thesis using st by (intro exI[of _ s] exI[of _ ?s']) simp
qed

subsection \<open>What the operations do\<close>

lemma no_live_match:
  assumes inv: "cache_inv c bk es ck" and "find (live_match c url) (bk (bucket_idx c url)) = None"
  shows "\<forall>a e. ents c a = Some e \<longrightarrow> e_url e = url \<longrightarrow> e_state e = ENTRY_CANCELLED"
proof (intro allI impI)
  fix a e
  assume e: "ents c a = Some e" "e_url e = url"
  have "\<not> live_match c url a"
    using cache_inv_entry_bucket[OF inv e(1)] e(2) assms(2) by (simp add: find_None_iff)
  then show "e_state e = ENTRY_CANCELLED" using e by (simp add: live_match_def)
qed

lemma live_match_found:
  assumes inv: "cache_inv c bk es ck" and "find (live_match c url) (bk (bucket_idx c url)) = Some a"
  shows "\<exists>c' e e'. cache_lookup now url c = ret (Some a, c') \<and> lru_head c' = Some a \<and> ents c a = Some e \<and>
    ents c' a = Some e' \<and> e_url e = url \<and> e_state e \<noteq> ENTRY_CANCELLED \<and> entry_core e' = entry_core (touch now e)"
proof -
  from cache_lookup_hit[OF assms, of now] obtain c' where
      r: "cache_lookup now url c = ret (Some a, c')" "cache_inv c' bk (a # remove1 a es) ck"
         "touched c a now c'" by blast
  have m: "live_match c url a" using assms(2) by (auto simp: find_Some_iff)
  from r(3) obtain e where e: "ents c a = Some e" and t: "links entry_core (ents c') =
      (links entry_core (ents c))(a \<mapsto> entry_core (touch now e))" by (auto simp: touched_def)
  from t have "links entry_core (ents c') a = Some (entry_core (touch now e))" by simp
  then obtain e' where "ents c' a = Some e'" "entry_core e' = entry_core (touch now e)"
    by (auto simp: links_eq_Some_iff)
  moreover have "lru_head c' = Some a" using r(2) by (simp add: cache_inv_def lru_ok_def)
  moreover have "e_url e = url" "e_state e \<noteq> ENTRY_CANCELLED" using m e by (simp_all add: live_match_def)
  ultimately show ?thesis using r(1) e by blast
qed

text \<open>C25: A lookup in a reachable cache finds an entry exactly when there is one for the URL that is
  not cancelled; it then counts one reference more, leaves the bytes and the state of the entry as
  they were, and moves the entry to the front of the LRU list.\<close>

theorem cache_lookup_exact:
  assumes "reachable mx s"
  shows "\<exists>p c'. cache_lookup now url (sh_cache s) = ret (p, c') \<and>
    (p = None \<longleftrightarrow> (\<forall>a e. ents (sh_cache s) a = Some e \<longrightarrow> e_url e = url \<longrightarrow> e_state e = ENTRY_CANCELLED)) \<and>
    (\<forall>a. p = Some a \<longrightarrow> lru_head c' = Some a \<and>
      (\<exists>e e'. ents (sh_cache s) a = Some e \<and> ents c' a = Some e' \<and> e_url e = url \<and>
        e_state e \<noteq> ENTRY_CANCELLED \<and> entry_core e' = entry_core (touch now e)))"
proof -
  let ?c = "sh_cache s"
  obtain A where ok: "sys_ok s A" using assms by (rule reachableE)
  then obtain bk es ck where inv: "cache_inv ?c bk es ck"
    using represents_cache_ok sys_okD(1) unfolding cache_ok_def by blast
  show ?thesis
  proof (cases "find (live_match ?c url) (bk (bucket_idx ?c url))")
    case None
    obtain evs where "cache_lookup now url ?c = ret (None, logged evs ?c)"
      using cache_lookup_miss[OF inv None, of now] by blast
    then show ?thesis using no_live_match[OF inv None] by (intro exI[of _ None] exI[of _ "logged evs ?c"]) simp
  next
    case (Some a)
    from live_match_found[OF inv this, of now] obtain c' e e' where
        r: "cache_lookup now url ?c = ret (Some a, c')" "lru_head c' = Some a" "ents ?c a = Some e" "ents c' a = Some e'"
          "e_url e = url" "e_state e \<noteq> ENTRY_CANCELLED" "entry_core e' = entry_core (touch now e)" by blast
    then have "\<not> (\<forall>b f. ents ?c b = Some f \<longrightarrow> e_url f = url \<longrightarrow> e_state f = ENTRY_CANCELLED)" by blast
    with r show ?thesis by (intro exI[of _ "Some a"] exI[of _ c']) auto
  qed
qed

theorem cache_lookup_exact_witness:
  "\<exists>s c'. reachable 0 s \<and> cache_lookup 3 ''/a'' (sh_cache s) = ret (Some 7, c') \<and> lru_head c' = Some 7"
proof -
  obtain s where s: "reachable 0 s" "represents (sh_cache s) [7 \<mapsto> demo_entry]"
    using demo_reachable by blast
  obtain e where e: "ents (sh_cache s) 7 = Some e" "e_url e = ''/a''" "e_state e = ENTRY_INCOMPLETE"
    using demo_entry_in[OF s(2)] .
  from cache_lookup_exact[OF s(1), of 3 "''/a''"] obtain p c' where
      p: "cache_lookup 3 ''/a'' (sh_cache s) = ret (p, c')"
        "p = None \<longleftrightarrow> (\<forall>a e. ents (sh_cache s) a = Some e \<longrightarrow> e_url e = ''/a'' \<longrightarrow> e_state e = ENTRY_CANCELLED)"
        "\<And>a. p = Some a \<Longrightarrow> lru_head c' = Some a \<and> (\<exists>e. ents (sh_cache s) a = Some e)"
    by blast
  from p(2) e obtain a where a: "p = Some a" by (cases p) auto
  then have "a \<in> dom (ents (sh_cache s))" using p(3) by blast
  then have "a = 7" using represents_dom[OF s(2)] by auto
  then show ?thesis using s(1) p a by blast
qed

text \<open>A worker that inserts an entry and another that then looks its URL up share the entry: the
  lookup returns the new entry, which then counts two references and holds no bytes yet, and
  nothing else in the cache has changed.\<close>

theorem cache_insert_then_lookup:
  assumes "represents c A" and "absent url A" and "a \<notin> dom A" and "length url < MAX_URL_LENGTH"
  shows "\<exists>c1 c2. cache_insert (Some a) now url c = ret (Some a, c1) \<and>
    cache_lookup later url c1 = ret (Some a, c2) \<and>
    represents c2 (A(a \<mapsto> \<lparr>a_url = url, a_state = ENTRY_INCOMPLETE, a_refs = 2, a_data = []\<rparr>))"
proof -
  let ?x = "\<lparr>a_url = url, a_state = ENTRY_INCOMPLETE, a_refs = 1, a_data = []\<rparr>"
  from insert_refines[OF assms(1,3,4), of now] obtain c1 where
      c1: "cache_insert (Some a) now url c = ret (Some a, c1)" "represents c1 (A(a \<mapsto> ?x))" by blast
  let ?A = "A(a \<mapsto> ?x)"
  have only: "b = a \<and> y = ?x" if "?A b = Some y" "serves url y" for b y
    using that assms(2) by (auto simp: absent_def split: if_splits)
  have "serves url ?x" by (simp add: serves_def)
  then have "\<not> (\<forall>b y. ?A b = Some y \<longrightarrow> \<not> serves url y)" by (metis fun_upd_same)
  with lookup_refines[OF c1(2), of later url] obtain b y c2 where
      c2: "cache_lookup later url c1 = ret (Some b, c2)" "?A b = Some y" "serves url y"
        "represents c2 (?A(b \<mapsto> y\<lparr>a_refs := a_refs y + 1\<rparr>))" by blast
  from only[OF c2(2,3)] have b: "b = a" and y: "y = ?x" by simp_all
  show ?thesis using c1(1) c2(1,4) unfolding b y by auto
qed

theorem cache_insert_then_lookup_witness:
  "\<exists>c1 c2. cache_insert (Some 3) 0 ''/x'' (empty_cache 0) = ret (Some 3, c1) \<and>
    cache_lookup 9 ''/x'' c1 = ret (Some 3, c2) \<and>
    represents c2 [3 \<mapsto> \<lparr>a_url = ''/x'', a_state = ENTRY_INCOMPLETE, a_refs = 2, a_data = []\<rparr>]"
proof -
  have "represents (empty_cache 0) Map.empty"
    by (rule representsI[OF empty_cache_inv]) (simp_all add: empty_cache_def)
  from cache_insert_then_lookup[OF this, of "''/x''" 3 0 9] show ?thesis
    by (simp add: absent_def MAX_URL_LENGTH_def)
qed

text \<open>C26: What has been appended to an entry is what a reader gets back: a chunk appended behind the
  bytes of an entry is read at the offset where the entry ended, byte for byte, whatever chunks
  were there before.\<close>

theorem cache_append_then_read:
  assumes "represents c A" and "A a = Some x" and "a_state x \<noteq> ENTRY_CANCELLED"
    and "k \<notin> dom (chunks c)" and "data \<noteq> []" and "length (a_data x @ data) < 2 ^ 63"
  shows "\<exists>c1 c2. cache_entry_append_chunk (Some k) True a data (of_nat (length data)) c = ret (0, c1) \<and>
    cache_entry_read wakes a (int (length (a_data x))) (int (length data)) c1 =
      ret (int (length data), data, c2) \<and>
    represents c2 (A(a \<mapsto> x\<lparr>a_data := a_data x @ data\<rparr>))"
proof -
  let ?y = "x\<lparr>a_data := a_data x @ data\<rparr>"
  have "length data < 2 ^ 63" using assms(6) by simp
  from append_refines[OF assms(1-4) this] obtain c1 where
      c1: "cache_entry_append_chunk (Some k) True a data (of_nat (length data)) c = ret (0, c1)"
        "represents c1 (A(a \<mapsto> ?y))" by blast
  have y: "(A(a \<mapsto> ?y)) a = Some ?y" "a_state ?y \<noteq> ENTRY_CANCELLED" using assms(3) by simp_all
  have off: "0 \<le> int (length (a_data x))" "int (length (a_data x)) < 2 ^ 63"
    "length (a_data ?y) < 2 ^ 63" using assms(6) by simp_all
  have "int (length (a_data x)) < int (length (a_data ?y)) \<or> a_state ?y = ENTRY_COMPLETE"
    using assms(5) by simp
  from read_refines[OF c1(2) y off this, of wakes "int (length data)"] obtain c2 where
      "cache_entry_read wakes a (int (length (a_data x))) (int (length data)) c1 =
        ret (int (length (take (nat (int (length data))) (drop (nat (int (length (a_data x)))) (a_data ?y)))),
          take (nat (int (length data))) (drop (nat (int (length (a_data x)))) (a_data ?y)), c2)"
      "represents c2 (A(a \<mapsto> ?y))" by blast
  then show ?thesis using c1(1) by auto
qed

lemma represents_fresh_chunk:
  assumes "represents c A"
  obtains k where "k \<notin> dom (chunks c)"
  using ex_new_if_finite[OF infinite_UNIV_nat represents_finite_chunks[OF assms]] that by blast

theorem cache_append_then_read_witness:
  "\<exists>c k c1 c2. represents c [7 \<mapsto> demo_entry] \<and>
    cache_entry_append_chunk (Some k) True 7 ''hello'' 5 c = ret (0, c1) \<and>
    cache_entry_read [] 7 0 5 c1 = ret (5, ''hello'', c2)"
proof -
  obtain c0 where c0: "represents c0 [7 \<mapsto> demo_entry]" using demo_reachable by blast
  obtain k where k: "k \<notin> dom (chunks c0)" using represents_fresh_chunk[OF c0] .
  have x: "[7 \<mapsto> demo_entry] 7 = Some demo_entry" "a_state demo_entry \<noteq> ENTRY_CANCELLED"
    "a_data demo_entry = []" by (simp_all add: demo_entry_def)
  from cache_append_then_read[OF c0 x(1,2) k, of "''hello''" "[]"] c0 x(3) show ?thesis by auto
qed

text \<open>What the writer's calls leave in the trace wakes the readers that wait for the entry.\<close>

lemma append_signals:
  assumes "represents c A" and "A a = Some x" and "a_state x \<noteq> ENTRY_CANCELLED"
    and "k \<notin> dom (chunks c)" and "length data < 2 ^ 63"
    and "cache_entry_append_chunk (Some k) True a data (of_nat (length data)) c = ret (0, d)"
  shows "broadcast_between a c d"
proof -
  obtain ks where "entry_abs c ks a x" using assms(1,2) by (rule represents_abs)
  then have h: "entry_holds c a ks (a_data x)" by (simp add: entry_abs_def)
  obtain e where e: "ents c a = Some e" "e_state e = a_state x"
    using represents_entry[OF assms(1,2)] by blast
  have "e_state e \<noteq> ENTRY_CANCELLED" using e(2) assms(3) by simp
  from append_chunk_runs[OF h e(1) this assms(4,5)] assms(6) have "d = appended c a e ks k data" by simp
  then show ?thesis by (simp add: broadcast_between_def appended_def)
qed

lemma complete_signals:
  assumes "ents c a = Some e" and "cache_entry_complete (Some a) c = ret d"
  shows "broadcast_between a c d"
  using assms by (auto simp: cache_entry_complete_def locked_update_def emit_logged broadcast_between_def)

text \<open>A reader that waits, once: what it does when the others have left \<open>d\<close>.\<close>

lemma waiting_read:
  assumes rep: "represents c A" and x: "A a = Some x" "a_state x = ENTRY_INCOMPLETE"
    and sig: "broadcast_between a (at_wait a c) d"
    and d: "represents d B" "B a = Some y" "a_state y \<noteq> ENTRY_CANCELLED"
    and ready: "length (a_data x) < length (a_data y) \<or> a_state y = ENTRY_COMPLETE"
    and len: "length (a_data x) < 2 ^ 63" "length (a_data y) < 2 ^ 63"
  obtains c' where "cache_entry_read [woken_by a (\<lambda>_. d) (at_wait a c)] a (int (length (a_data x))) n c =
      ret (int (length (take (nat n) (drop (length (a_data x)) (a_data y)))),
        take (nat n) (drop (length (a_data x)) (a_data y)), c')"
    "represents c' B"
proof -
  let ?off = "int (length (a_data x))"
  from represents_entry[OF rep x(1)] obtain e where
      e: "ents c a = Some e" "e_state e = ENTRY_INCOMPLETE" using x(2) by metis
  obtain f where f: "ents d a = Some f" "e_state f = a_state y"
    using represents_entry[OF d(1,2)] by blast
  obtain ks where "entry_abs c ks a x" using rep x(1) by (rule represents_abs)
  then have sz: "total_size e = of_nat (length (a_data x))"
    using e(1) by (auto simp: entry_abs_def entry_holds_def)
  have "read_wait a ?off [woken_by a (\<lambda>_. d) (at_wait a c)] (logged [Acquire (EntryLock a)] c) =
      read_wait a ?off [] (logged [Acquire (EntryLock a)] d)"
    using e f d(3) sz sig by (subst read_wait.simps) (simp add: emit_logged woken_by_def)
  then have w: "cache_entry_read [woken_by a (\<lambda>_. d) (at_wait a c)] a ?off n c =
      cache_entry_read [] a ?off n d"
    unfolding cache_entry_read_def emit_logged by simp
  have off: "0 \<le> ?off" "?off < 2 ^ 63" using len(1) by simp_all
  have "?off < int (length (a_data y)) \<or> a_state y = ENTRY_COMPLETE" using ready by simp
  from read_refines[OF d off len(2) this, of "[]" n] obtain c' where
      "cache_entry_read [] a ?off n d = ret (int (length (take (nat n) (drop (nat ?off) (a_data y)))),
        take (nat n) (drop (nat ?off) (a_data y)), c')" "represents c' B" by blast
  then show thesis using that w by simp
qed

text \<open>C28: A reader that has caught up with a download waits, and the writer's broadcast wakes it in
  time: when the writer appends \<open>data\<close> during the wait, the read returns the beginning of
  \<open>data\<close>, and when the writer completes the entry, the read returns 0, the end of the file. (A wait
  that no broadcast ends runs into its time limit, and the read fails.)\<close>

theorem cache_reader_follows_writer:
  assumes "represents c A" and "A a = Some x" and "a_state x = ENTRY_INCOMPLETE"
    and "k \<notin> dom (chunks c)" and "data \<noteq> []" and "length (a_data x @ data) < 2 ^ 63"
  shows "(\<exists>d c'. cache_entry_append_chunk (Some k) True a data (of_nat (length data)) (at_wait a c) = ret (0, d) \<and>
      cache_entry_read [woken_by a (\<lambda>_. d) (at_wait a c)] a (int (length (a_data x))) n c =
        ret (int (length (take (nat n) data)), take (nat n) data, c') \<and>
      represents c' (A(a \<mapsto> x\<lparr>a_data := a_data x @ data\<rparr>))) \<and>
    (\<exists>d c'. cache_entry_complete (Some a) (at_wait a c) = ret d \<and>
      cache_entry_read [woken_by a (\<lambda>_. d) (at_wait a c)] a (int (length (a_data x))) n c =
        ret (0, [], c') \<and>
      represents c' (A(a \<mapsto> x\<lparr>a_state := ENTRY_COMPLETE\<rparr>)))"
proof (intro conjI)
  let ?c = "at_wait a c" and ?y = "x\<lparr>a_data := a_data x @ data\<rparr>" and ?z = "x\<lparr>a_state := ENTRY_COMPLETE\<rparr>"
  have rep: "represents ?c A" and ns: "a_state x \<noteq> ENTRY_CANCELLED" "k \<notin> dom (chunks ?c)"
    using assms(1,3,4) by (simp_all add: at_wait_logged)
  have ld: "length data < 2 ^ 63" "length (a_data x) < 2 ^ 63" using assms(6) by simp_all
  note wr = waiting_read[OF assms(1-3)]
  from append_refines[OF rep assms(2) ns ld(1)] obtain d where
      d: "cache_entry_append_chunk (Some k) True a data (of_nat (length data)) ?c = ret (0, d)"
        "represents d (A(a \<mapsto> ?y))" by blast
  obtain c' where "cache_entry_read [woken_by a (\<lambda>_. d) ?c] a (int (length (a_data x))) n c =
      ret (int (length (take (nat n) (drop (length (a_data x)) (a_data ?y)))),
        take (nat n) (drop (length (a_data x)) (a_data ?y)), c')" "represents c' (A(a \<mapsto> ?y))"
    by (rule wr[OF append_signals[OF rep assms(2) ns ld(1) d(1)] d(2), of ?y n])
      (use assms ld in auto)
  then show "\<exists>d c'. cache_entry_append_chunk (Some k) True a data (of_nat (length data)) ?c = ret (0, d) \<and>
      cache_entry_read [woken_by a (\<lambda>_. d) ?c] a (int (length (a_data x))) n c =
        ret (int (length (take (nat n) data)), take (nat n) data, c') \<and> represents c' (A(a \<mapsto> ?y))"
    using d(1) by auto
  from represents_entry[OF rep assms(2)] obtain e where e: "ents ?c a = Some e" by blast
  from locked_update_refines[where f = "\<lambda>e. e\<lparr>e_state := ENTRY_COMPLETE\<rparr>" and st = "\<lambda>_. ENTRY_COMPLETE"
      and rc = "\<lambda>n. n" and b = True, OF rep assms(2)] obtain g where
      g: "cache_entry_complete (Some a) ?c = ret g" "represents g (A(a \<mapsto> ?z))"
    unfolding cache_entry_complete_def by (auto simp: shape_def)
  obtain c2 where "cache_entry_read [woken_by a (\<lambda>_. g) ?c] a (int (length (a_data x))) n c =
      ret (int (length (take (nat n) (drop (length (a_data x)) (a_data ?z)))),
        take (nat n) (drop (length (a_data x)) (a_data ?z)), c2)" "represents c2 (A(a \<mapsto> ?z))"
    by (rule wr[OF complete_signals[OF e g(1)] g(2), of ?z n]) (use ld in auto)
  then show "\<exists>d c'. cache_entry_complete (Some a) ?c = ret d \<and>
      cache_entry_read [woken_by a (\<lambda>_. d) ?c] a (int (length (a_data x))) n c = ret (0, [], c') \<and>
      represents c' (A(a \<mapsto> ?z))"
    using g(1) by auto
qed

theorem cache_reader_follows_writer_witness:
  "\<exists>c k d c'. represents c [7 \<mapsto> demo_entry] \<and>
     cache_entry_append_chunk (Some k) True 7 ''hello'' 5 (at_wait 7 c) = ret (0, d) \<and>
     cache_entry_read [woken_by 7 (\<lambda>_. d) (at_wait 7 c)] 7 0 3 c = ret (3, ''hel'', c')"
proof -
  obtain c where c: "represents c [7 \<mapsto> demo_entry]" using demo_reachable by blast
  obtain k where k: "k \<notin> dom (chunks c)" using represents_fresh_chunk[OF c] .
  have x: "[7 \<mapsto> demo_entry] 7 = Some demo_entry" "a_state demo_entry = ENTRY_INCOMPLETE"
    "a_data demo_entry = []" by (simp_all add: demo_entry_def)
  from cache_reader_follows_writer[OF c x(1,2) k, of "''hello''" 3] c x(3) show ?thesis by auto
qed

text \<open>A reader that waits for bytes that are not there gives up with \<open>-1\<close> and writes nothing
  to its buffer when its entry is cancelled meanwhile or when its five seconds are over; until one
  of this or new bytes or the completion wakes it, it goes on waiting.\<close>

theorem cache_reader_gives_up:
  assumes "ents c a = Some e" and "e_state e = ENTRY_INCOMPLETE" and "total_size e \<le> word_of_int off"
    and "ents (others (logged [Acquire (EntryLock a), Release (EntryLock a)] c)) a = Some e'"
  shows "(timedout \<or> e_state e' = ENTRY_CANCELLED \<longrightarrow>
      (\<exists>c'. cache_entry_read ((timedout, others) # ws) a off n c = ret (-1, [], c') \<and>
        (\<exists>evs. c_trace c' = c_trace (others (logged [Acquire (EntryLock a), Release (EntryLock a)] c)) @
          [Acquire (EntryLock a), Release (EntryLock a)]))) \<and>
    (\<not> timedout \<and> e_state e' = ENTRY_INCOMPLETE \<and> total_size e' \<le> word_of_int off \<longrightarrow>
      cache_entry_read [(timedout, others)] a off n c = None)"
proof -
  let ?c = "logged [Acquire (EntryLock a)] c"
  let ?o = "others (logged [Acquire (EntryLock a), Release (EntryLock a)] c)"
  have w: "read_wait a off ((timedout, others) # ws) ?c =
      (if timedout \<or> e_state e' = ENTRY_CANCELLED
       then ret (False, logged [Acquire (EntryLock a), Release (EntryLock a)] ?o)
       else read_wait a off ws (logged [Acquire (EntryLock a)] ?o))" for ws
    using assms by (subst read_wait.simps) (simp add: emit_logged Let_def)
  have n: "read_wait a off [] (logged [Acquire (EntryLock a)] ?o) = None"
    if "e_state e' = ENTRY_INCOMPLETE" "total_size e' \<le> word_of_int off"
    using that assms(4) by (subst read_wait.simps) simp
  show ?thesis
    using n w[of "[]"] w[of ws] by (auto simp: cache_entry_read_def emit_logged)
qed

theorem cache_reader_gives_up_witness:
  "\<exists>c c'. cache_entry_read [(True, \<lambda>c. c)] 7 0 10 c = ret (-1, [], c') \<and> represents c [7 \<mapsto> demo_entry]"
proof -
  obtain c where c: "represents c [7 \<mapsto> demo_entry]" using demo_reachable by blast
  obtain e where e: "ents c 7 = Some e" "e_state e = ENTRY_INCOMPLETE" using demo_entry_in[OF c] .
  have "[7 \<mapsto> demo_entry] 7 = Some demo_entry" by simp
  then obtain ks where "entry_abs c ks 7 demo_entry" using represents_abs[OF c] by blast
  then have "total_size e \<le> word_of_int 0"
    using e(1) by (auto simp: entry_abs_def entry_holds_def demo_entry_def)
  from cache_reader_gives_up[OF e this, of "\<lambda>c. c" e True "[]" 10] e c show ?thesis by auto
qed

subsection \<open>Collection, shutdown and accounting\<close>

text \<open>C27: A sweep of the collector removes exactly the entries that are cancelled and unreferenced: the
  rest keep their contents and their order in the LRU list, the chunks of the removed entries are
  freed with them, and the size counter goes down by the bytes they held.\<close>

theorem cache_sweep_exact:
  assumes "cache_inv c bk es ck"
  shows "\<exists>c' bk'. cleanup_cancelled_entries c = ret c' \<and>
    cache_inv c' bk' (filter (\<lambda>a. \<not> removable c a) es) ck \<and>
    links payload (ents c') = links payload (ents c) |` {a. \<not> removable c a} \<and>
    dom (chunks c') = dom (chunks c) - (\<Union>a \<in> {a. removable c a}. set (ck a)) \<and>
    current_size c' = current_size c - (\<Sum>a \<in> {a. removable c a}. size_of c a)"
proof -
  let ?gone = "gone_upto c bk (num_buckets c)"
  note g = set_gone_upto[OF assms]
  from cleanup_spec[OF assms] obtain d where d: "cleanup_cancelled_entries c = ret d"
      "cache_inv d (kept_upto c bk (num_buckets c)) (filter (\<lambda>a. a \<notin> set ?gone) es) ck"
      "swept c ?gone d" by blast
  have inv: "cache_inv d (kept_upto c bk (num_buckets c)) (filter (\<lambda>a. \<not> removable c a) es) ck"
    using d(2) by (simp add: g(1))
  have "- {a. removable c a} = {a. \<not> removable c a}" by auto
  with d(3) have pay: "links payload (ents d) = links payload (ents c) |` {a. \<not> removable c a}"
    by (simp add: swept_def g(1))
  have sz: "current_size d = current_size c - (\<Sum>a \<in> {a. removable c a}. size_of c a)"
    using d(3) g by (simp add: swept_def sum_list_distinct_conv_sum_set)
  have ok: "data_ok c ck" "data_ok d ck" using assms inv by (simp_all add: cache_inv_def)
  have dom: "dom (ents d) = dom (ents c) - {a. removable c a}" using arg_cong[OF pay, of dom] by auto
  have rd: "a \<in> dom (ents c)" if "removable c a" for a
    using that by (auto simp: removable_def split: option.splits)
  have "dom (chunks d) = (\<Union>a \<in> dom (ents c) - {a. removable c a}. set (ck a))"
    using data_okD(3)[OF ok(2)] dom by simp
  also have "\<dots> = (\<Union>a \<in> dom (ents c). set (ck a)) - (\<Union>a \<in> {a. removable c a}. set (ck a))"
  proof (intro set_eqI iffI)
    fix k assume "k \<in> (\<Union>a \<in> dom (ents c) - {a. removable c a}. set (ck a))"
    then obtain a where a: "a \<in> dom (ents c)" "\<not> removable c a" "k \<in> set (ck a)" by blast
    have "k \<notin> set (ck b)" if b: "removable c b" for b
    proof -
      have "a \<noteq> b" using a(2) b by blast
      then show ?thesis using data_okD(2)[OF ok(1) a(1) rd[OF b]] a(3) by blast
    qed
    then show "k \<in> (\<Union>a \<in> dom (ents c). set (ck a)) - (\<Union>a \<in> {a. removable c a}. set (ck a))"
      using a by blast
  qed blast
  also have "\<dots> = dom (chunks c) - (\<Union>a \<in> {a. removable c a}. set (ck a))"
    using data_okD(3)[OF ok(1)] by simp
  finally show ?thesis using d(1) inv pay sz by blast
qed

theorem cache_sweep_exact_witness:
  "\<exists>c'. cleanup_cancelled_entries (empty_cache 5) = ret c' \<and> current_size c' = 0"
  using cache_sweep_exact[OF empty_cache_inv, of 5 "\<lambda>_. []"]
  by (auto simp: empty_cache_def removable_def)

text \<open>C29: Shutting down a reachable cache frees every entry and every chunk, each of them once, without
  touching freed memory, and sets the caller's pointer to \<open>NULL\<close>.\<close>

theorem cache_shutdown_frees_all:
  assumes "reachable mx s"
  shows "\<exists>m. http_cache_shutdown (Some (sh_cache s)) = ret (None, Some m) \<and>
    ents m = Map.empty \<and> chunks m = Map.empty \<and> buckets m = [] \<and> disciplined [] (c_trace m)"
proof -
  obtain A where ok: "sys_ok s A" using assms by (rule reachableE)
  then obtain bk es ck where inv: "cache_inv (sh_cache s) bk es ck"
    using represents_cache_ok sys_okD(1) unfolding cache_ok_def by blast
  from http_cache_shutdown_spec[OF inv] obtain m where
      "http_cache_shutdown (Some (sh_cache s)) = ret (None, Some m)" "ents m = Map.empty"
      "chunks m = Map.empty" "lock_clean [] (sh_cache s) m" "buckets m = []" by blast
  then show ?thesis using lock_clean_disciplined sys_okD(6)[OF ok] by blast
qed

theorem cache_shutdown_frees_all_witness:
  "\<exists>s m. reachable 0 s \<and> 7 \<in> dom (ents (sh_cache s)) \<and>
     http_cache_shutdown (Some (sh_cache s)) = ret (None, Some m) \<and> ents m = Map.empty"
proof -
  obtain s where s: "reachable 0 s" "represents (sh_cache s) [7 \<mapsto> demo_entry]"
    using demo_reachable by blast
  have "7 \<in> dom (ents (sh_cache s))" using represents_dom[OF s(2)] by auto
  then show ?thesis using cache_shutdown_frees_all[OF s(1)] s(1) by blast
qed

text \<open>No operation adds to \<open>current_size\<close>, while the collector subtracts the bytes of what it
  removes: after one entry of five bytes has been cancelled and collected, the counter of the
  empty cache has wrapped around to \<open>2^64 - 5\<close>.\<close>

theorem cache_size_wraps:
  "\<exists>s. reachable 0 s \<and> ents (sh_cache s) = Map.empty \<and> unat (current_size (sh_cache s)) = 2 ^ 64 - 5"
proof -
  obtain s0 where s0: "reachable 0 s0" "held s0 = {#7#}" "filling s0 = {7}"
      "represents (sh_cache s0) [7 \<mapsto> demo_entry]" "current_size (sh_cache s0) = 0"
    using demo_reachable by blast
  obtain k where k: "k \<notin> dom (chunks (sh_cache s0))" using represents_fresh_chunk[OF s0(4)] .
  have x0: "[7 \<mapsto> demo_entry] 7 = Some demo_entry" "a_state demo_entry \<noteq> ENTRY_CANCELLED"
    by (simp_all add: demo_entry_def)
  let ?x1 = "demo_entry\<lparr>a_data := ''hello''\<rparr>"
  let ?x2 = "?x1\<lparr>a_state := ENTRY_CANCELLED\<rparr>"
  let ?x3 = "?x2\<lparr>a_refs := 0\<rparr>"
  have d0: "a_data demo_entry @ ''hello'' = ''hello''" "a_refs demo_entry = 1"
    by (simp_all add: demo_entry_def)
  have "length ''hello'' < (2::nat) ^ 63" by simp
  from append_refines[OF s0(4) x0 k this] obtain c1 where
      "cache_entry_append_chunk (Some k) True 7 ''hello'' (of_nat (length ''hello'')) (sh_cache s0) = ret (0, c1)"
      "represents c1 ([7 \<mapsto> demo_entry](7 \<mapsto> demo_entry\<lparr>a_data := a_data demo_entry @ ''hello''\<rparr>))"
      "current_size c1 = current_size (sh_cache s0)" by blast
  then have c1: "cache_entry_append_chunk (Some k) True 7 ''hello'' (of_nat (length ''hello'')) (sh_cache s0) =
      ret (0, c1)" "represents c1 [7 \<mapsto> ?x1]" "current_size c1 = 0"
    using s0(5) d0(1) by simp_all
  let ?s1 = "s0\<lparr>sh_cache := c1\<rparr>"
  have r1: "reachable 0 ?s1"
    by (rule reachable.step[OF s0(1) cache_step.append[OF _ k _ c1(1)]]) (simp_all add: s0(3))
  have x1: "[7 \<mapsto> ?x1] 7 = Some ?x1" by simp
  have sh: "shape (e\<lparr>e_state := st\<rparr>) = shape e" "shape (e\<lparr>refcount := n\<rparr>) = shape e" for e st n
    by (simp_all add: shape_def)
  have "\<exists>c2. cache_entry_cancel (Some 7) c1 = ret c2 \<and> represents c2 [7 \<mapsto> ?x2] \<and> current_size c2 = 0"
    unfolding cache_entry_cancel_def
    by (rule locked_update_refines[where f = "\<lambda>e. e\<lparr>e_state := ENTRY_CANCELLED\<rparr>" and b = True and
        st = "\<lambda>_. ENTRY_CANCELLED" and rc = "\<lambda>n. n", OF c1(2) x1 sh(1)])
      (simp_all only: fun_upd_upd, simp_all add: c1(3))
  then obtain c2 where c2: "cache_entry_cancel (Some 7) c1 = ret c2" "represents c2 [7 \<mapsto> ?x2]"
      "current_size c2 = 0" by blast
  let ?s2 = "?s1\<lparr>sh_cache := c2, filling := filling ?s1 - {7}\<rparr>"
  have r2: "reachable 0 ?s2"
    by (rule reachable.step[OF r1 cache_step.cancel]) (use s0(3) c2(1) in simp_all)
  have x2: "[7 \<mapsto> ?x2] 7 = Some ?x2" by simp
  have "\<exists>c3. cache_entry_release (Some 7) c2 = ret c3 \<and> represents c3 [7 \<mapsto> ?x3] \<and> current_size c3 = 0"
    unfolding cache_entry_release_def
    by (rule locked_update_refines[where f = "\<lambda>e. e\<lparr>refcount := refcount e - 1\<rparr>" and b = False and
        st = "\<lambda>t. t" and rc = "\<lambda>n. n - 1", OF c2(2) x2 sh(2)])
      (simp_all only: fun_upd_upd, simp_all add: c2(3) d0(2))
  then obtain c3 where c3: "cache_entry_release (Some 7) c2 = ret c3" "represents c3 [7 \<mapsto> ?x3]"
      "current_size c3 = 0" by blast
  let ?s3 = "?s2\<lparr>sh_cache := c3, held := held ?s2 - {#7#}\<rparr>"
  have r3: "reachable 0 ?s3"
    by (rule reachable.step[OF r2 cache_step.release]) (use s0(2) c3(1) in simp_all)
  have g: "garbage ?x3" by (simp add: garbage_def)
  have G: "{a. \<exists>x. [7 \<mapsto> ?x3] a = Some x \<and> garbage x} = {7}" using g by (auto split: if_splits)
  have R: "[7 \<mapsto> ?x3] |` {a. \<forall>x. [7 \<mapsto> ?x3] a = Some x \<longrightarrow> \<not> garbage x} = Map.empty"
    using g by (auto simp: restrict_map_def fun_eq_iff)
  have "\<exists>c4. cleanup_cancelled_entries c3 = ret c4 \<and> represents c4 Map.empty \<and> current_size c4 = - 5"
    by (rule sweep_refines[OF c3(2)]) (unfold G R, simp add: c3(3))
  then obtain c4 where c4: "cleanup_cancelled_entries c3 = ret c4" "represents c4 Map.empty"
      "current_size c4 = - 5" by blast
  have "reachable 0 (?s3\<lparr>sh_cache := c4\<rparr>)"
    by (rule reachable.step[OF r3 cache_step.sweep]) (use c4(1) in simp)
  moreover have "ents c4 = Map.empty" using represents_dom[OF c4(2)] by (metis dom_empty dom_eq_empty_conv)
  moreover have "unat (- 5 :: 64 word) = 2 ^ 64 - 5" by simp
  ultimately show ?thesis using c4(3) by (intro exI[of _ "?s3\<lparr>sh_cache := c4\<rparr>"]) simp
qed

text \<open>Creating a cache gives an empty cache that satisfies the invariant, with the given limit or
  the default one, or no cache when memory is short; but when the collector thread cannot be
  started, the code frees the cache, sets its own pointer to \<open>NULL\<close> and then dereferences it.\<close>

theorem http_cache_init_outcomes:
  "(\<exists>c. http_cache_init True True True mx = ret (Some c) \<and> cache_ok c \<and> ents c = Map.empty \<and>
      num_buckets c = 1024 \<and> max_size c = (if mx = 0 then 104857600 else mx)) \<and>
   http_cache_init False b t mx = ret None \<and> http_cache_init True False t mx = ret None \<and>
   http_cache_init True True False mx = crashed NullDeref"
proof -
  have "cache_ok (empty_cache mx)" using empty_cache_inv unfolding cache_ok_def by blast
  moreover obtain m where "http_cache_shutdown_no_collector (Some (empty_cache mx)) = ret (None, Some m)"
    using http_cache_shutdown_no_collector_spec[OF empty_cache_inv] by blast
  ultimately show ?thesis
    by (simp add: http_cache_init_def empty_cache_def MAX_BUCKETS_def DEFAULT_CACHE_SIZE_def)
qed

definition one_entry_cache :: http_cache where
  "one_entry_cache = \<lparr>buckets = [Some 0], num_buckets = 1, current_size = 0, max_size = 100,
     lru_head = Some 0, lru_tail = Some 0, collector_running = True,
     ents = [0 \<mapsto> (new_entry 0 ''/u'')\<lparr>refcount := 0\<rparr>], chunks = Map.empty, c_trace = []\<rparr>"

lemma one_entry_cache_inv: "cache_inv one_entry_cache (\<lambda>_. [0]) [0] (\<lambda>_. [])"
  by (auto simp: cache_inv_def table_ok_def lru_ok_def data_ok_def one_entry_cache_def new_entry_def
      bucket_idx_def entry_holds_def lessThan_Suc links_def last_ptr_def)

text \<open>\<open>remove_entry\<close>, which the program no longer calls, takes a bucket's mutex while it holds
  that of an entry, against the order of every other operation, and destroys the entry's mutex
  while holding it.\<close>

theorem remove_entry_breaks_lock_order:
  "\<exists>c'. remove_entry 0 one_entry_cache = ret c' \<and> ents c' = Map.empty \<and>
     c_trace c' = [Acquire (EntryLock 0), Acquire LruLock, Release LruLock, Acquire (BucketLock 0),
       Acquire SizeLock, Release SizeLock, Release (BucketLock 0), Destroy (EntryLock 0)] \<and>
     replay [] [Acquire (EntryLock 0), Acquire LruLock, Release LruLock, Acquire (BucketLock 0)] = None \<and>
     \<not> disciplined [] (c_trace c')"
proof -
  let ?r = "remove_entry 0 one_entry_cache"
  have f: "free_chunks Map.empty None = ret Map.empty" by (simp add: free_chunks.simps)
  have run: "\<exists>c'. ?r = ret c' \<and> ents c' = Map.empty \<and>
     c_trace c' = [Acquire (EntryLock 0), Acquire LruLock, Release LruLock, Acquire (BucketLock 0),
       Acquire SizeLock, Release SizeLock, Release (BucketLock 0), Destroy (EntryLock 0)]"
    by (simp add: remove_entry_def one_entry_cache_def new_entry_def lru_remove_def drop_entry_def
        bucket_idx_def bucket_head_def unlink_loop.simps subtract_size_def emit_def free_entry_def
        free_entry_data_def f Let_def)
  then show ?thesis by (auto simp: disciplined_def less_cache_lock_def)
qed

end
