(* ===== verification/Picohttp.thy ===== *)
theory Picohttp
  imports Prelude
begin

section \<open>The HTTP parser\<close>

text \<open>
  \<^verbatim>\<open>third_party/picohttpparser.c\<close>: requests, responses and headers. A parser gets the bytes from
  \<open>buf\<close> to \<open>buf_end\<close> and returns what it read with the bytes left, or why it stopped: \<open>Eof\<close> is
  \<open>*ret = -2\<close> (the input is a part of a message), \<open>Bad\<close> is \<open>*ret = -1\<close>, and \<open>Overrun\<close> is a read of
  \<open>*buf\<close> at \<open>buf_end\<close>, which C leaves undefined. \<open>sse\<close> says that the code is compiled with
  \<open>__SSE4_2__\<close>.
\<close>

datatype perr = Eof | Bad | Overrun

type_synonym 'a parse = "perr + 'a \<times> string"

definition bindP :: "'a parse \<Rightarrow> ('a \<Rightarrow> string \<Rightarrow> 'b parse) \<Rightarrow> 'b parse" where
  "bindP m f = (case m of Inl e \<Rightarrow> Inl e | Inr (x, s) \<Rightarrow> f x s)"

lemma bindP_simps [simp]:
  "bindP (Inl e) f = Inl e" "bindP (Inr (x, s)) f = f x s"
  by (simp_all add: bindP_def)

lemma bindP_assoc: "bindP (bindP m f) g = bindP m (\<lambda>x r. bindP (f x r) g)"
  by (cases m) (auto simp: bindP_def split: prod.splits sum.splits)

lemma bindP_return: "bindP m (\<lambda>x r. Inr (x, r)) = m"
  by (cases m) auto

lemma bindP_return_unit: "bindP m (\<lambda>x r. Inr ((), r)) = m"
  by (cases m) auto

lemma bindP_cong [fundef_cong]:
  assumes "m = m'" and "\<And>x s. m' = Inr (x, s) \<Longrightarrow> f x s = g x s"
  shows "bindP m f = bindP m' g"
  using assms by (auto simp: bindP_def split: sum.split)

lemma bindP_eq_Inr: "bindP m f = Inr z \<longleftrightarrow> (\<exists>x s. m = Inr (x, s) \<and> f x s = Inr z)"
  by (cases m) (auto simp: bindP_def split: prod.splits)

text \<open>
  A header. \<open>h_name\<close> is \<open>None\<close> for a continuation line, whose name is \<open>NULL\<close>; \<open>h_off\<close> is the place
  of the value in the buffer.
\<close>

record phr_header =
  h_name :: "string option"
  h_value :: string
  h_off :: nat

record request =
  rq_method :: string
  rq_path :: string
  rq_minor :: int
  rq_headers :: "phr_header list"

record response =
  rs_minor :: int
  rs_status :: int
  rs_msg :: string
  rs_headers :: "phr_header list"

subsection \<open>Characters\<close>

abbreviation CR :: char where "CR \<equiv> CHR 0x0D"
abbreviation LF :: char where "LF \<equiv> CHR 0x0A"

abbreviation code :: "char \<Rightarrow> nat" where "code ch \<equiv> of_char ch"

definition printable :: "char \<Rightarrow> bool" where
  "printable ch \<longleftrightarrow> 32 \<le> code ch \<and> code ch < 127"

definition ctl :: "char \<Rightarrow> bool" where
  "ctl ch \<longleftrightarrow> code ch < 32 \<and> ch \<noteq> CHR 0x09 \<or> ch = CHR 0x7F"

definition blank :: "char \<Rightarrow> bool" where
  "blank ch \<longleftrightarrow> ch = CHR '' '' \<or> ch = CHR 0x09"

definition is_digit :: "char \<Rightarrow> bool" where
  "is_digit ch \<longleftrightarrow> 48 \<le> code ch \<and> code ch \<le> 57"

text \<open>The table, row by row; the upper half of it is zero.\<close>

definition token_char_map :: "nat list" where
  "token_char_map = replicate 32 0 @
     [0, 1, 0, 1, 1, 1, 1, 1, 0, 0, 1, 1, 0, 1, 1, 0, 1, 1, 1, 1, 1, 1, 1, 1, 1, 1, 0, 0, 0, 0, 0, 0] @
     [0, 1, 1, 1, 1, 1, 1, 1, 1, 1, 1, 1, 1, 1, 1, 1, 1, 1, 1, 1, 1, 1, 1, 1, 1, 1, 1, 0, 0, 0, 1, 1] @
     [1, 1, 1, 1, 1, 1, 1, 1, 1, 1, 1, 1, 1, 1, 1, 1, 1, 1, 1, 1, 1, 1, 1, 1, 1, 1, 1, 0, 1, 0, 1, 0] @
     replicate 128 0"

definition token_char :: "char \<Rightarrow> bool" where
  "token_char ch \<longleftrightarrow> token_char_map ! code ch \<noteq> 0"

subsection \<open>Finding a character\<close>

definition in_ranges :: "(nat \<times> nat) list \<Rightarrow> char \<Rightarrow> bool" where
  "in_ranges ranges ch \<longleftrightarrow> list_ex (\<lambda>(l, u). l \<le> code ch \<and> code ch \<le> u) ranges"

text \<open>
  The loop over blocks of 16 bytes: \<open>_mm_cmpestri\<close> gives the index of the first byte in one of the
  ranges, or 16. The result is what was passed over, the rest and \<open>*found\<close>.
\<close>

fun findchar_loop :: "(nat \<times> nat) list \<Rightarrow> nat \<Rightarrow> string \<Rightarrow> string \<times> string \<times> bool" where
  "findchar_loop ranges 0 s = ([], s, False)"
| "findchar_loop ranges (Suc blocks) s =
     (let r = length (takeWhile (\<lambda>ch. \<not> in_ranges ranges ch) (take 16 s)) in
      if r \<noteq> 16 then (take r s, drop r s, True)
      else case findchar_loop ranges blocks (drop 16 s) of (u, rest, found) \<Rightarrow> (take 16 s @ u, rest, found))"

definition findchar_fast :: "bool \<Rightarrow> (nat \<times> nat) list \<Rightarrow> string \<Rightarrow> string \<times> string \<times> bool" where
  "findchar_fast sse ranges s =
     (if sse \<and> 16 \<le> length s then findchar_loop ranges (length s div 16) s else ([], s, False))"

subsection \<open>Tokens\<close>

text \<open>An end of line at \<open>buf\<close>, which is inside the buffer.\<close>

definition end_of_line :: "string \<Rightarrow> unit parse" where
  "end_of_line s = (case s of [] \<Rightarrow> Inl Overrun
     | ch # s' \<Rightarrow>
       if ch = CR then (case s' of [] \<Rightarrow> Inl Eof | ch' # r \<Rightarrow> if ch' = LF then Inr ((), r) else Inl Bad)
       else if ch = LF then Inr ((), s')
       else Inl Bad)"

text \<open>The last loop of \<open>get_token_to_eol\<close>, up to \<open>FOUND_CTL\<close>, and the loop by eight before it.\<close>

fun eol_loop :: "string \<Rightarrow> string parse" where
  "eol_loop [] = Inl Eof"
| "eol_loop (ch # s) =
     (if \<not> printable ch \<and> ctl ch then Inr ([], ch # s)
      else bindP (eol_loop s) (\<lambda>u r. Inr (ch # u, r)))"

function eol_by_8 :: "string \<Rightarrow> string parse" where
  "eol_by_8 s =
     (if 8 \<le> length s then
        let k = length (takeWhile printable (take 8 s)) in
        if k = 8 then bindP (eol_by_8 (drop 8 s)) (\<lambda>u r. Inr (take 8 s @ u, r))
        else if ctl (s ! k) then Inr (take k s, drop k s)
        else bindP (eol_by_8 (drop (Suc k) s)) (\<lambda>u r. Inr (take (Suc k) s @ u, r))
      else eol_loop s)"
  by pat_completeness auto
termination by (relation "measure length") auto

declare eol_by_8.simps [simp del]

definition ranges1 :: "(nat \<times> nat) list" where
  "ranges1 = [(0, 8), (10, 31), (127, 127)]"

text \<open>From the beginning to \<open>FOUND_CTL\<close>: the bytes passed over, and the rest, which begins with it.\<close>

definition find_ctl :: "bool \<Rightarrow> string \<Rightarrow> string parse" where
  "find_ctl sse s =
     (if sse then
        case findchar_fast sse ranges1 s of (u, r, found) \<Rightarrow>
          if found then Inr (u, r) else bindP (eol_loop r) (\<lambda>v r. Inr (u @ v, r))
      else eol_by_8 s)"

definition get_token_to_eol :: "bool \<Rightarrow> string \<Rightarrow> string parse" where
  "get_token_to_eol sse s =
     bindP (find_ctl sse s) (\<lambda>tok r. bindP (end_of_line r) (\<lambda>_ r. Inr (tok, r)))"

text \<open>The loop of \<open>parse_token\<close>, entered with \<open>buf\<close> inside the buffer.\<close>

fun token_loop :: "char \<Rightarrow> string \<Rightarrow> string parse" where
  "token_loop next_char [] = Inl Overrun"
| "token_loop next_char (ch # s) =
     (if ch = next_char then Inr ([], ch # s)
      else if \<not> token_char ch then Inl Bad
      else if s = [] then Inl Eof
      else bindP (token_loop next_char s) (\<lambda>u r. Inr (ch # u, r)))"

definition token_ranges :: "(nat \<times> nat) list" where
  "token_ranges = [(0, 32), (34, 34), (40, 41), (44, 44), (47, 47), (58, 64), (91, 93), (123, 255)]"

definition parse_token :: "bool \<Rightarrow> char \<Rightarrow> string \<Rightarrow> string parse" where
  "parse_token sse next_char s =
     (case findchar_fast sse token_ranges s of (u, r, found) \<Rightarrow>
      if \<not> found \<and> r = [] then Inl Eof
      else bindP (token_loop next_char r) (\<lambda>v r. Inr (u @ v, r)))"

text \<open>\<open>ADVANCE_TOKEN\<close>: up to the next space.\<close>

fun advance_loop :: "string \<Rightarrow> string parse" where
  "advance_loop [] = Inl Overrun"
| "advance_loop (ch # s) =
     (if ch = CHR '' '' then Inr ([], ch # s)
      else if \<not> printable ch \<and> (code ch < 32 \<or> ch = CHR 0x7F) then Inl Bad
      else if s = [] then Inl Eof
      else bindP (advance_loop s) (\<lambda>u r. Inr (ch # u, r)))"

definition ranges2 :: "(nat \<times> nat) list" where
  "ranges2 = [(0, 32), (127, 127)]"

definition advance_token :: "bool \<Rightarrow> string \<Rightarrow> string parse" where
  "advance_token sse s =
     (case findchar_fast sse ranges2 s of (u, r, found) \<Rightarrow>
      if \<not> found \<and> r = [] then Inl Eof
      else bindP (advance_loop r) (\<lambda>v r. Inr (u @ v, r)))"

text \<open>\<open>do { ++buf; CHECK_EOF(); } while (*buf == ' ')\<close>.\<close>

fun skip_spaces :: "string \<Rightarrow> unit parse" where
  "skip_spaces [] = Inl Overrun"
| "skip_spaces (ch # s) =
     (case s of [] \<Rightarrow> Inl Eof | ch' # _ \<Rightarrow> if ch' = CHR '' '' then skip_spaces s else Inr ((), s))"

subsection \<open>The HTTP version\<close>

text \<open>\<open>EXPECT_CHAR_NO_CHECK\<close> for each character of a word, and \<open>PARSE_INT\<close>.\<close>

fun expect :: "string \<Rightarrow> string \<Rightarrow> unit parse" where
  "expect [] s = Inr ((), s)"
| "expect (w # ws) [] = Inl Overrun"
| "expect (w # ws) (ch # s) = (if ch \<noteq> w then Inl Bad else expect ws s)"

definition parse_int :: "int \<Rightarrow> string \<Rightarrow> int parse" where
  "parse_int mul s = (case s of [] \<Rightarrow> Inl Overrun
     | ch # s' \<Rightarrow> if \<not> is_digit ch then Inl Bad else Inr (mul * (of_char ch - 48), s'))"

definition parse_http_version :: "string \<Rightarrow> int parse" where
  "parse_http_version s =
     (if length s < 9 then Inl Eof else bindP (expect ''HTTP/1.'' s) (\<lambda>_ r. parse_int 1 r))"

subsection \<open>Headers\<close>

fun skip_blanks :: "string \<Rightarrow> unit parse" where
  "skip_blanks [] = Inl Eof"
| "skip_blanks (ch # s) = (if blank ch then skip_blanks s else Inr ((), ch # s))"

text \<open>The name of a header with the colon and the blanks after it; no name on a continuation line.\<close>

definition header_name :: "bool \<Rightarrow> bool \<Rightarrow> string \<Rightarrow> string option parse" where
  "header_name sse first s =
     (if \<not> (\<not> first \<and> blank (hd s)) then
        bindP (parse_token sse (CHR '':'') s) (\<lambda>name r.
        if name = [] then Inl Bad
        else bindP (skip_blanks (tl r)) (\<lambda>_ r. Inr (Some name, r)))
      else Inr (None, s))"

definition trim_end :: "string \<Rightarrow> string" where
  "trim_end v = rev (dropWhile blank (rev v))"

text \<open>One header line that begins at the place \<open>i\<close> of the buffer: the header and where it ends.\<close>

definition parse_header :: "bool \<Rightarrow> bool \<Rightarrow> nat \<Rightarrow> string \<Rightarrow> (phr_header \<times> nat) parse" where
  "parse_header sse first i s =
     bindP (header_name sse first s) (\<lambda>name r.
     bindP (get_token_to_eol sse r) (\<lambda>value r'.
     Inr ((\<lparr>h_name = name, h_value = trim_end value, h_off = i + (length s - length r)\<rparr>,
           i + (length s - length r')), r')))"

lemma eol_loop_split: "eol_loop s = Inr (u, r) \<Longrightarrow> s = u @ r"
  by (induction s arbitrary: u) (auto simp: bindP_eq_Inr split: if_splits)

lemma findchar_loop_split: "findchar_loop ranges n s = (u, r, found) \<Longrightarrow> s = u @ r"
  by (induction n arbitrary: s u) (auto simp: Let_def split: if_splits prod.splits)

lemma findchar_fast_split: "findchar_fast sse ranges s = (u, r, found) \<Longrightarrow> s = u @ r"
  by (auto simp: findchar_fast_def findchar_loop_split split: if_splits)

lemma eol_by_8_split: "eol_by_8 s = Inr (u, r) \<Longrightarrow> s = u @ r"
proof (induction s arbitrary: u rule: eol_by_8.induct)
  case (1 s)
  have step: "s = take n s @ v @ r" if "drop n s = v @ r" for n v
    using append_take_drop_id[of n s] that by simp
  let ?k = "length (takeWhile printable (take 8 s))"
  consider "length s < 8" | "8 \<le> length s" "?k = 8" | "8 \<le> length s" "?k \<noteq> 8" "ctl (s ! ?k)"
    | "8 \<le> length s" "?k \<noteq> 8" "\<not> ctl (s ! ?k)" by linarith
  then show ?case
  proof cases
    case 1
    then show ?thesis using "1.prems" eol_loop_split by (simp add: eol_by_8.simps[of s])
  next
    case 2
    then obtain v where "eol_by_8 (drop 8 s) = Inr (v, r)" "u = take 8 s @ v"
      using "1.prems" by (auto simp: eol_by_8.simps[of s] bindP_eq_Inr)
    then show ?thesis using "1.IH"(1)[OF _ _ _] 2 step[of 8 v] by simp
  next
    case 3
    then show ?thesis using "1.prems" by (auto simp: eol_by_8.simps[of s] Let_def)
  next
    case 4
    then obtain v where "eol_by_8 (drop (Suc ?k) s) = Inr (v, r)" "u = take (Suc ?k) s @ v"
      using "1.prems" by (auto simp: eol_by_8.simps[of s] bindP_eq_Inr Let_def)
    then show ?thesis using "1.IH"(2)[OF _ refl] 4 step[of "Suc ?k" v] by simp
  qed
qed

lemma find_ctl_split: "find_ctl sse s = Inr (u, r) \<Longrightarrow> s = u @ r"
  using eol_by_8_split[of s u r]
  by (auto simp: find_ctl_def bindP_eq_Inr dest!: eol_loop_split findchar_fast_split
      split: if_splits prod.splits)

lemma token_loop_split: "token_loop n s = Inr (u, r) \<Longrightarrow> s = u @ r"
  by (induction n s arbitrary: u rule: token_loop.induct) (auto simp: bindP_eq_Inr split: if_splits)

lemma advance_loop_split: "advance_loop s = Inr (u, r) \<Longrightarrow> s = u @ r"
  by (induction s arbitrary: u rule: advance_loop.induct) (auto simp: bindP_eq_Inr split: if_splits)

lemma parse_token_split: "parse_token sse n s = Inr (u, r) \<Longrightarrow> s = u @ r"
  by (auto simp: parse_token_def bindP_eq_Inr dest!: token_loop_split findchar_fast_split
      split: if_splits prod.splits)

lemma skip_blanks_length: "skip_blanks s = Inr (x, r) \<Longrightarrow> length r \<le> length s"
  by (induction s) (auto split: if_splits)

lemma end_of_line_shorter: "end_of_line s = Inr (x, r) \<Longrightarrow> length r < length s"
  by (auto simp: end_of_line_def split: list.split_asm if_split_asm)

lemma get_token_to_eol_shorter: "get_token_to_eol sse s = Inr (u, r) \<Longrightarrow> length r < length s"
proof -
  assume "get_token_to_eol sse s = Inr (u, r)"
  then obtain tok x where f: "find_ctl sse s = Inr (tok, x)" and "end_of_line x = Inr ((), r)"
    by (auto simp: get_token_to_eol_def bindP_eq_Inr)
  then have "length r < length x" using end_of_line_shorter by blast
  with find_ctl_split[OF f] show ?thesis by simp
qed

lemma header_name_length: "header_name sse first s = Inr (x, r) \<Longrightarrow> length r \<le> length s"
  by (auto simp: header_name_def bindP_eq_Inr dest!: parse_token_split skip_blanks_length split: if_splits)

lemma parse_header_shorter:
  assumes "parse_header sse first i s = Inr (x, r)"
  shows "length r < length s"
proof -
  obtain name v r' where "header_name sse first s = Inr (name, r')" "get_token_to_eol sse r' = Inr (v, r)"
    using assms by (auto simp: parse_header_def bindP_eq_Inr)
  from header_name_length[OF this(1)] get_token_to_eol_shorter[OF this(2)] show ?thesis by simp
qed

text \<open>
  The loop over the lines, from the place \<open>i\<close> of the buffer with the headers \<open>hs\<close> read: all headers.
\<close>

function parse_headers :: "bool \<Rightarrow> nat \<Rightarrow> nat \<Rightarrow> phr_header list \<Rightarrow> string \<Rightarrow> phr_header list parse" where
  "parse_headers sse max_headers i hs s =
     (case s of
        [] \<Rightarrow> Inl Eof
      | ch # _ \<Rightarrow>
        if ch = CR \<or> ch = LF then bindP (end_of_line s) (\<lambda>_ r. Inr (hs, r))
        else if length hs = max_headers then Inl Bad
        else bindP (parse_header sse (hs = []) i s)
          (\<lambda>h r. parse_headers sse max_headers (snd h) (hs @ [fst h]) r))"
  by pat_completeness auto
termination
  by (relation "measure (\<lambda>(sse, m, i, hs, s). length s)") (auto dest: parse_header_shorter)

declare parse_headers.simps [simp del]

subsection \<open>Requests and responses\<close>

definition request_line :: "bool \<Rightarrow> string \<Rightarrow> (string \<times> string \<times> int) parse" where
  "request_line sse buf =
     (if buf = [] then Inl Eof
      else bindP (if hd buf = CR \<or> hd buf = LF then end_of_line buf else Inr ((), buf)) (\<lambda>_ r.
        bindP (parse_token sse (CHR '' '') r) (\<lambda>verb r.
        bindP (skip_spaces r) (\<lambda>_ r.
        bindP (advance_token sse r) (\<lambda>target r.
        bindP (skip_spaces r) (\<lambda>_ r.
        if verb = [] \<or> target = [] then Inl Bad
        else bindP (parse_http_version r) (\<lambda>minor r.
          bindP (end_of_line r) (\<lambda>_ r. Inr ((verb, target, minor), r)))))))))"

definition parse_request :: "bool \<Rightarrow> nat \<Rightarrow> string \<Rightarrow> request parse" where
  "parse_request sse max_headers buf =
     bindP (request_line sse buf) (\<lambda>line r.
     bindP (parse_headers sse max_headers (length buf - length r) [] r) (\<lambda>hs r.
     case line of (verb, target, minor) \<Rightarrow>
       Inr (\<lparr>rq_method = verb, rq_path = target, rq_minor = minor, rq_headers = hs\<rparr>, r)))"

text \<open>The status code: the length check and \<open>PARSE_INT_3\<close>.\<close>

definition parse_int_3 :: "string \<Rightarrow> int parse" where
  "parse_int_3 s = bindP (parse_int 100 s) (\<lambda>a r. bindP (parse_int 10 r) (\<lambda>b r.
     bindP (parse_int 1 r) (\<lambda>c r. Inr (a + b + c, r))))"

definition status_code :: "string \<Rightarrow> int parse" where
  "status_code s = (if length s < 4 then Inl Eof else parse_int_3 s)"

definition status_line :: "bool \<Rightarrow> string \<Rightarrow> (int \<times> int \<times> string) parse" where
  "status_line sse buf =
     bindP (parse_http_version buf) (\<lambda>minor r.
     case r of [] \<Rightarrow> Inl Overrun | ch # _ \<Rightarrow>
     if ch \<noteq> CHR '' '' then Inl Bad
     else bindP (skip_spaces r) (\<lambda>_ r.
       bindP (status_code r) (\<lambda>status r.
       bindP (get_token_to_eol sse r) (\<lambda>msg r.
       if msg \<noteq> [] \<and> hd msg \<noteq> CHR '' '' then Inl Bad
       else Inr ((minor, status, dropWhile (\<lambda>ch. ch = CHR '' '') msg), r)))))"

definition parse_response :: "bool \<Rightarrow> nat \<Rightarrow> string \<Rightarrow> response parse" where
  "parse_response sse max_headers buf =
     bindP (status_line sse buf) (\<lambda>line r.
     bindP (parse_headers sse max_headers (length buf - length r) [] r) (\<lambda>hs r.
     case line of (minor, status, msg) \<Rightarrow>
       Inr (\<lparr>rs_minor = minor, rs_status = status, rs_msg = msg, rs_headers = hs\<rparr>, r)))"

text \<open>
  \<open>is_complete\<close> from \<open>last_len - 3\<close> on: whether there is an empty line; \<open>ret_cnt\<close> counts line ends. A start behind
  \<open>buf_end\<close> never meets \<open>buf == buf_end\<close>: the loop reads outside of the buffer.
\<close>

function complete_loop :: "nat \<Rightarrow> string \<Rightarrow> unit parse" where
  "complete_loop ret_cnt s =
     (if s = [] then Inl Eof
      else bindP (if hd s = CR \<or> hd s = LF then bindP (end_of_line s) (\<lambda>_ r. Inr (ret_cnt + 1, r))
                  else Inr (0, tl s)) (\<lambda>ret_cnt r.
           if ret_cnt = 2 then Inr ((), r) else complete_loop ret_cnt r))"
  by pat_completeness auto
termination
  by (relation "measure (\<lambda>(n, s). length s)")
    (auto simp: bindP_eq_Inr dest: end_of_line_shorter split: if_splits)

declare complete_loop.simps [simp del]

definition is_complete :: "string \<Rightarrow> nat \<Rightarrow> unit parse" where
  "is_complete buf last_len =
     (if length buf + 3 < last_len then Inl Overrun
      else complete_loop 0 (if last_len < 3 then buf else drop (last_len - 3) buf))"

text \<open>What the interface functions return: the value of the call and the message.\<close>

definition report :: "string \<Rightarrow> 'a parse \<Rightarrow> (int \<times> 'a option) run" where
  "report buf p = (case p of
       Inl Eof \<Rightarrow> ret (-2, None)
     | Inl Bad \<Rightarrow> ret (-1, None)
     | Inl Overrun \<Rightarrow> crashed OutOfBounds
     | Inr (x, r) \<Rightarrow> ret (int (length buf - length r), Some x))"

definition phr_parse :: "(string \<Rightarrow> 'a parse) \<Rightarrow> string \<Rightarrow> nat \<Rightarrow> (int \<times> 'a option) run" where
  "phr_parse parser buf last_len = report buf
     (if last_len \<noteq> 0 then bindP (is_complete buf last_len) (\<lambda>_ _. parser buf) else parser buf)"

definition phr_parse_request :: "bool \<Rightarrow> nat \<Rightarrow> string \<Rightarrow> nat \<Rightarrow> (int \<times> request option) run" where
  "phr_parse_request sse max_headers = phr_parse (parse_request sse max_headers)"

definition phr_parse_response :: "bool \<Rightarrow> nat \<Rightarrow> string \<Rightarrow> nat \<Rightarrow> (int \<times> response option) run" where
  "phr_parse_response sse max_headers = phr_parse (parse_response sse max_headers)"

definition phr_parse_headers :: "bool \<Rightarrow> nat \<Rightarrow> string \<Rightarrow> nat \<Rightarrow> (int \<times> phr_header list option) run" where
  "phr_parse_headers sse max_headers = phr_parse (parse_headers sse max_headers 0 [])"

end
