(* ===== verification/ProxyIo.thy ===== *)
theory ProxyIo
  imports CacheSystem Picohttp
begin

section \<open>Input and output of the proxy\<close>

text \<open>
  The helpers of \<^verbatim>\<open>proxy/proxy.c\<close>: connecting to the origin server, sending a buffer,
  finding a header, reading the content length and serving an entry of the cache. The outcomes
  of the system calls (\<open>socket\<close>, \<open>connect\<close>, \<open>send\<close>, \<open>recv\<close>) are lists, one element for
  each call; when a list runs out the call is still blocked and the run is \<open>None\<close>.
\<close>

datatype sock = Client | Remote

subsection \<open>Connecting\<close>

text \<open>What happens at one address of the list \<open>getaddrinfo\<close> returned.\<close>

datatype addr_try = SocketFails | ConnectFails int | Connects int

text \<open>The loop: the value of \<open>sockfd\<close> after it, the descriptors closed, whether it broke off.\<close>

fun try_addrs :: "addr_try list \<Rightarrow> int \<Rightarrow> int \<times> int list \<times> bool" where
  "try_addrs [] sockfd = (sockfd, [], False)"
| "try_addrs (SocketFails # rps) sockfd = try_addrs rps (-1)"
| "try_addrs (ConnectFails fd # rps) sockfd =
     (case try_addrs rps fd of (r, closed, found) \<Rightarrow> (r, fd # closed, found))"
| "try_addrs (Connects fd # rps) sockfd = (fd, [], True)"

definition resolve_and_connect :: "addr_try list option \<Rightarrow> int \<times> int list" where
  "resolve_and_connect res =
     (case res of
        None \<Rightarrow> (-1, [])
      | Some rps \<Rightarrow> (case try_addrs rps (-1) of (sockfd, closed, found) \<Rightarrow>
          if found then (sockfd, closed) else (-1, closed @ [sockfd])))"

subsection \<open>Sending a buffer\<close>

datatype send_result = Sent nat | SendIntr | SendErr

text \<open>
  A \<open>send\<close> transmits at most the bytes it is given. The result is the return value, the bytes
  that went out, and the outcomes not used.
\<close>

fun send_loop :: "string \<Rightarrow> nat \<Rightarrow> send_result list \<Rightarrow> (int \<times> string \<times> send_result list) run" where
  "send_loop buf tot rs =
     (if tot < length buf then
        case rs of
          [] \<Rightarrow> None
        | SendIntr # rs' \<Rightarrow> send_loop buf tot rs'
        | SendErr # rs' \<Rightarrow> ret (-1, take tot buf, rs')
        | Sent n # rs' \<Rightarrow>
            let sent = min n (length buf - tot) in
            if sent = 0 then ret (-1, take tot buf, rs')
            else send_loop buf (tot + sent) rs'
      else ret (int tot, take tot buf, rs))"

declare send_loop.simps [simp del]

definition send_buffer :: "string \<Rightarrow> send_result list \<Rightarrow> (int \<times> string \<times> send_result list) run" where
  "send_buffer buf rs = send_loop buf 0 rs"

subsection \<open>Headers\<close>

definition to_lower :: "char \<Rightarrow> char" where
  "to_lower ch = (if 65 \<le> (of_char ch :: nat) \<and> (of_char ch :: nat) \<le> 90
     then char_of (of_char ch + 32 :: nat) else ch)"

text \<open>A continuation line has no name, and the length 0 of it is that of no name looked for.\<close>

definition findHeader :: "phr_header list \<Rightarrow> string \<Rightarrow> phr_header option" where
  "findHeader headers name =
     find (\<lambda>h. case h_name h of None \<Rightarrow> False
       | Some n \<Rightarrow> length n = length name \<and> map to_lower n = map to_lower name) headers"

text \<open>
  \<open>strtoll\<close> of the standard library in base 10: blanks, a sign, digits. The result is the
  (saturated) value, the rest of the string at \<open>endptr\<close> and whether \<open>errno\<close> is set.
\<close>

definition is_blank :: "char \<Rightarrow> bool" where
  "is_blank ch \<longleftrightarrow> ch = CHR '' '' \<or> (9 \<le> (of_char ch :: nat) \<and> (of_char ch :: nat) \<le> 13)"

definition digits_value :: "string \<Rightarrow> int" where
  "digits_value ds = fold (\<lambda>d v. 10 * v + (of_char d - 48)) ds 0"

definition strtoll :: "string \<Rightarrow> int \<times> string \<times> bool" where
  "strtoll s =
     (let s1 = dropWhile is_blank s;
          negative = (s1 \<noteq> [] \<and> hd s1 = CHR ''-'');
          s2 = (if s1 \<noteq> [] \<and> (hd s1 = CHR ''-'' \<or> hd s1 = CHR ''+'') then tl s1 else s1);
          ds = takeWhile is_digit s2;
          v = (if negative then - digits_value ds else digits_value ds) in
      if ds = [] then (0, s, False)
      else if v > 2 ^ 63 - 1 then (2 ^ 63 - 1, dropWhile is_digit s2, True)
      else if v < - (2 ^ 63) then (- (2 ^ 63), dropWhile is_digit s2, True)
      else (v, dropWhile is_digit s2, False))"

text \<open>
  \<open>strtoll\<close> reads the buffer from the value on, whatever its length is; the buffer ends with a zero.
  \<open>stale\<close>: \<open>errno\<close> was \<open>ERANGE\<close> or \<open>EINVAL\<close> before the call; nothing resets it.
\<close>

definition get_content_len :: "bool \<Rightarrow> string \<Rightarrow> phr_header list \<Rightarrow> int" where
  "get_content_len stale buf headers =
     (case findHeader headers ''Content-Length'' of
        None \<Rightarrow> -1
      | Some h \<Rightarrow> (case strtoll (drop (h_off h) buf) of (v, rest, overflow) \<Rightarrow>
          if rest = [] \<or> hd rest \<noteq> CHR 0x0D then -1
          else if overflow \<or> stale then -1
          else if v < 0 then 0
          else v))"

subsection \<open>Serving an entry\<close>

text \<open>The loop of \<open>handle_cached_request\<close> over any source of bytes; \<open>out\<close> has been sent.\<close>

definition BUFFER_SIZE :: nat where
  "BUFFER_SIZE = 8192"

partial_function (option) copy_out ::
  "(int \<Rightarrow> int \<Rightarrow> 's \<Rightarrow> (int \<times> string \<times> 's) run) \<Rightarrow> int \<Rightarrow> send_result list \<Rightarrow> 's \<Rightarrow> string \<Rightarrow>
     (int \<times> string \<times> send_result list \<times> 's) run" where
  "copy_out rd offset rs s out =
     bindR (rd offset (int BUFFER_SIZE) s) (\<lambda>(bytes_read, buffer, s).
     if bytes_read > 0 then
       bindR (send_buffer buffer rs) (\<lambda>(bytes_sent, bytes, rs).
       if bytes_sent < 0 then ret (-1, out @ bytes, rs, s)
       else copy_out rd (offset + bytes_sent) rs s (out @ bytes))
     else if bytes_read = -1 then ret (-1, out, rs, s)
     else ret (0, out, rs, s))"

text \<open>
  The reads of the entry at \<open>a\<close>; the first component of the state says, for each call, what
  ends the waits of that call.
\<close>

definition entry_source ::
  "addr \<Rightarrow> int \<Rightarrow> int \<Rightarrow> (bool \<times> (http_cache \<Rightarrow> http_cache)) list list \<times> http_cache \<Rightarrow>
     (int \<times> string \<times> (bool \<times> (http_cache \<Rightarrow> http_cache)) list list \<times> http_cache) run" where
  "entry_source a offset n = (\<lambda>(waits, c).
     bindR (cache_entry_read (case waits of [] \<Rightarrow> [] | w # _ \<Rightarrow> w) a offset n c)
       (\<lambda>(r, buf, c). ret (r, buf, tl waits, c)))"

definition handle_cached_request ::
  "addr \<Rightarrow> (bool \<times> (http_cache \<Rightarrow> http_cache)) list list \<Rightarrow> send_result list \<Rightarrow> http_cache \<Rightarrow>
     (int \<times> string \<times> send_result list \<times> http_cache) run" where
  "handle_cached_request a waits rs c =
     bindR (copy_out (entry_source a) 0 rs (waits, c) []) (\<lambda>(r, out, rs, _, c). ret (r, out, rs, c))"

subsection \<open>What sending does\<close>

text \<open>The calls of \<open>send\<close> in a list that were not merely interrupted.\<close>

definition sends :: "send_result list \<Rightarrow> nat" where
  "sends rs = length (filter (\<lambda>r. r \<noteq> SendIntr) rs)"

lemma sends_simps [simp]:
  "sends [] = 0" "sends (SendIntr # rs) = sends rs" "sends (SendErr # rs) = Suc (sends rs)"
  "sends (Sent n # rs) = Suc (sends rs)"
  by (simp_all add: sends_def)

lemma send_loop_spec:
  assumes "tot \<le> length buf" and "length buf - tot \<le> sends rs"
  shows "\<exists>rs'. send_loop buf tot rs = ret (int (length buf), buf, rs') \<and>
        sends rs \<le> sends rs' + (length buf - tot) \<or>
    (\<exists>m. tot \<le> m \<and> m < length buf \<and> send_loop buf tot rs = ret (-1, take m buf, rs'))"
  using assms
proof (induction buf tot rs rule: send_loop.induct)
  case (1 buf tot rs)
  note IH = 1(1,2) and prems = 1(3,4)
  show ?case
  proof (cases "tot < length buf")
    case False
    then show ?thesis using prems by (intro exI[of _ rs]) (simp add: send_loop.simps)
  next
    case True
    show ?thesis
    proof (cases rs)
      case Nil
      then show ?thesis using True prems by simp
    next
      case (Cons r rs')
      show ?thesis
      proof (cases r)
        case (Sent n)
        show ?thesis
        proof (cases "n = 0")
          case True
          then show ?thesis using \<open>tot < length buf\<close> Cons Sent
            by (auto simp: send_loop.simps[of buf tot])
        next
          case False
          let ?t = "tot + min n (length buf - tot)"
          have step: "send_loop buf tot rs = send_loop buf ?t rs'"
            by (subst send_loop.simps) (use True False Cons Sent in \<open>auto simp: Let_def min_def\<close>)
          have "\<exists>rs''. send_loop buf ?t rs' = ret (int (length buf), buf, rs'') \<and>
                sends rs' \<le> sends rs'' + (length buf - ?t) \<or>
              (\<exists>m. ?t \<le> m \<and> m < length buf \<and> send_loop buf ?t rs' = ret (-1, take m buf, rs''))"
            by (rule IH(1)[OF True Cons Sent refl]) (use True False Cons Sent prems in auto)
          then show ?thesis
            unfolding step using Cons Sent False True by (fastforce simp: Suc_le_eq)
        qed
      next
        case SendIntr
        then have step: "send_loop buf tot rs = send_loop buf tot rs'"
          using True Cons by (simp add: send_loop.simps[of buf tot])
        show ?thesis unfolding step using IH(2)[OF True Cons SendIntr] Cons SendIntr prems by simp
      next
        case SendErr
        then show ?thesis using True Cons by (auto simp: send_loop.simps[of buf tot])
      qed
    qed
  qed
qed

subsection \<open>The contract of a source of bytes\<close>

text \<open>
  What the copying loop relies on: a read at an offset within the bytes \<open>D\<close> returns the slice
  there and leaves the source with the same bytes.
\<close>

locale byte_source =
  fixes rd :: "int \<Rightarrow> int \<Rightarrow> 's \<Rightarrow> (int \<times> string \<times> 's) run"
    and holds :: "'s \<Rightarrow> string \<Rightarrow> bool"
  assumes rd_slice: "holds s D \<Longrightarrow> off \<le> length D \<Longrightarrow>
    \<exists>s'. rd (int off) n s = ret (int (length (take (nat n) (drop off D))), take (nat n) (drop off D), s') \<and>
      holds s' D"
begin

text \<open>The loop ends, has sent a prefix of the bytes, and all of them when it reports success.\<close>

lemma copy_out_prefix:
  assumes "holds s D" and "off \<le> length D" and "length D - off \<le> sends rs"
  shows "\<exists>r m rs' s'. copy_out rd (int off) rs s out = ret (r, out @ take m (drop off D), rs', s') \<and>
    holds s' D \<and> (r = 0 \<and> m = length D - off \<or> r = -1 \<and> m < length D - off)"
  using assms
proof (induction "length D - off" arbitrary: off rs s out rule: less_induct)
  case less
  let ?buf = "take BUFFER_SIZE (drop off D)"
  from rd_slice[OF less.prems(1,2), of "int BUFFER_SIZE"] obtain s1 where
      rd: "rd (int off) (int BUFFER_SIZE) s = ret (int (length ?buf), ?buf, s1)" "holds s1 D" by auto
  show ?case
  proof (cases "off = length D")
    case True
    then have "copy_out rd (int off) rs s out = ret (0, out, rs, s1)"
      using rd(1) by (simp add: copy_out.simps[of rd])
    then show ?thesis using True rd(2) by auto
  next
    case False
    then have pos: "0 < length ?buf" using less.prems(2) by (simp add: BUFFER_SIZE_def)
    have le: "length ?buf \<le> length D - off" by simp
    have "length ?buf - 0 \<le> sends rs" using le less.prems(3) by linarith
    from send_loop_spec[OF _ this] obtain rs1 where
        sb: "send_loop ?buf 0 rs = ret (int (length ?buf), ?buf, rs1) \<and> sends rs \<le> sends rs1 + length ?buf \<or>
        (\<exists>m. m < length ?buf \<and> send_loop ?buf 0 rs = ret (-1, take m ?buf, rs1))" by auto
    show ?thesis
    proof (cases "\<exists>m. m < length ?buf \<and> send_loop ?buf 0 rs = ret (-1, take m ?buf, rs1)")
      case True
      then obtain m where m: "m < length ?buf" "send_loop ?buf 0 rs = ret (-1, take m ?buf, rs1)" by blast
      then have "m \<le> BUFFER_SIZE" by simp
      then have "take m ?buf = take m (drop off D)" by (simp add: min_def)
      then have "copy_out rd (int off) rs s out = ret (-1, out @ take m (drop off D), rs1, s1)"
        using rd(1) pos m(2) by (simp add: copy_out.simps[of rd] send_buffer_def)
      then show ?thesis using m(1) le rd(2) by (metis less_le_trans)
    next
      case False
      with sb have ok: "send_loop ?buf 0 rs = ret (int (length ?buf), ?buf, rs1)"
        "sends rs \<le> sends rs1 + length ?buf" by auto
      let ?off = "off + length ?buf"
      have step: "copy_out rd (int off) rs s out = copy_out rd (int ?off) rs1 s1 (out @ ?buf)"
        using rd(1) pos ok(1) by (simp add: copy_out.simps[of rd "int off"] send_buffer_def)
      have "\<exists>r m rs' s'. copy_out rd (int ?off) rs1 s1 (out @ ?buf) =
          ret (r, (out @ ?buf) @ take m (drop ?off D), rs', s') \<and>
          holds s' D \<and> (r = 0 \<and> m = length D - ?off \<or> r = -1 \<and> m < length D - ?off)"
        by (rule less.hyps[OF _ rd(2)]) (use pos le less.prems ok(2) in auto)
      then obtain r m rs' s' where
          IH: "copy_out rd (int ?off) rs1 s1 (out @ ?buf) = ret (r, (out @ ?buf) @ take m (drop ?off D), rs', s')"
            "holds s' D" "r = 0 \<and> m = length D - ?off \<or> r = -1 \<and> m < length D - ?off" by blast
      have b: "take (length ?buf) (drop off D) = ?buf" by (simp add: min_def)
      have "?buf @ take m (drop ?off D) = take (length ?buf + m) (drop off D)"
        unfolding take_add b drop_drop by (simp only: add.commute)
      then have run: "copy_out rd (int off) rs s out =
          ret (r, out @ take (length ?buf + m) (drop off D), rs', s')"
        using IH(1) unfolding step by simp
      have "r = 0 \<and> length ?buf + m = length D - off \<or> r = -1 \<and> length ?buf + m < length D - off"
        using IH(3) le by linarith
      then show ?thesis using run IH(2) by blast
    qed
  qed
qed

end

subsection \<open>A complete entry is such a source\<close>

definition complete_entry :: "addr \<Rightarrow> 'w list \<times> http_cache \<Rightarrow> string \<Rightarrow> bool" where
  "complete_entry a s D \<longleftrightarrow> (\<exists>A x. represents (snd s) A \<and> A a = Some x \<and>
     a_state x = ENTRY_COMPLETE \<and> a_data x = D \<and> length D < 2 ^ 63)"

interpretation entry: byte_source "entry_source a" "complete_entry a" for a
proof
  fix s :: "(bool \<times> (http_cache \<Rightarrow> http_cache)) list list \<times> http_cache" and D off n
  assume h: "complete_entry a s D" and off: "off \<le> length D"
  obtain waits c where s: "s = (waits, c)" by (cases s)
  from h s obtain A x where x: "represents c A" "A a = Some x" "a_state x = ENTRY_COMPLETE"
      "a_data x = D" "length D < 2 ^ 63"
    by (auto simp: complete_entry_def)
  let ?w = "case waits of [] \<Rightarrow> [] | w # _ \<Rightarrow> w"
  have "a_state x \<noteq> ENTRY_CANCELLED" "0 \<le> int off" "int off < 2 ^ 63" "length (a_data x) < 2 ^ 63"
    "int off < int (length (a_data x)) \<or> a_state x = ENTRY_COMPLETE"
    using x off by simp_all
  from read_refines[OF x(1,2) this, of ?w n] obtain c' where
      "cache_entry_read ?w a (int off) n c = ret (int (length (take (nat n) (drop (nat (int off)) (a_data x)))),
        take (nat n) (drop (nat (int off)) (a_data x)), c')" "represents c' A" by blast
  then show "\<exists>s'. entry_source a (int off) n s = ret (int (length (take (nat n) (drop off D))),
      take (nat n) (drop off D), s') \<and> complete_entry a s' D"
    using x by (intro exI[of _ "(tl waits, c')"]) (auto simp: entry_source_def s complete_entry_def)
qed

end
