(* ===== verification/Proxy.thy ===== *)
theory Proxy
  imports ProxyIo
begin

section \<open>One request\<close>

text \<open>
  \<open>process_request\<close> of \<^verbatim>\<open>proxy/proxy.c\<close>, from the first \<open>recv\<close> to the last
  \<open>disconnect\<close>. The allocator, the clock and the network are the fields of \<open>proxy_env\<close>; the parser is that
  of \<^verbatim>\<open>third_party/picohttpparser.c\<close>; each element of a list of results is the outcome of one system call. Bytes
  beyond the size the call asks for are not delivered by it.
\<close>

datatype recv_result = Received string | RecvIntr | RecvErr

record proxy_env =
  clock :: int
  waits :: "(bool \<times> (http_cache \<Rightarrow> http_cache)) list list"
  addresses :: "string \<Rightarrow> addr_try list option"
  entry_mem :: "http_cache \<Rightarrow> ptr"
  chunk_mem :: "http_cache \<Rightarrow> ptr \<times> bool"
  stale_errno :: bool

record conn_st =
  p_cache :: http_cache
  client_in :: "recv_result list"
  remote_in :: "recv_result list"
  client_tx :: "send_result list"
  remote_tx :: "send_result list"
  client_got :: string
  remote_got :: string
  disconnected :: "sock list"
  sock_fd :: int

subsection \<open>Steps on the connection\<close>

definition disconnect :: "sock \<Rightarrow> conn_st \<Rightarrow> conn_st" where
  "disconnect s st = st\<lparr>disconnected := disconnected st @ [s]\<rparr>"

definition close_client :: "conn_st \<Rightarrow> conn_st" where
  "close_client st = (disconnect Client st)\<lparr>sock_fd := -1\<rparr>"

definition close_both :: "conn_st \<Rightarrow> conn_st" where
  "close_both st = (disconnect Remote (disconnect Client st))\<lparr>sock_fd := -1\<rparr>"

definition log_cache :: "sync_event \<Rightarrow> conn_st \<Rightarrow> conn_st" where
  "log_cache ev st = st\<lparr>p_cache := emit ev (p_cache st)\<rparr>"

definition on_cache :: "(http_cache \<Rightarrow> http_cache run) \<Rightarrow> conn_st \<Rightarrow> conn_st run" where
  "on_cache f st = bindR (f (p_cache st)) (\<lambda>c. ret (st\<lparr>p_cache := c\<rparr>))"

definition send_client :: "string \<Rightarrow> conn_st \<Rightarrow> (int \<times> conn_st) run" where
  "send_client data st = bindR (send_buffer data (client_tx st)) (\<lambda>(r, out, rs).
     ret (r, st\<lparr>client_tx := rs, client_got := client_got st @ out\<rparr>))"

definition send_remote :: "string \<Rightarrow> conn_st \<Rightarrow> (int \<times> conn_st) run" where
  "send_remote data st = bindR (send_buffer data (remote_tx st)) (\<lambda>(r, out, rs).
     ret (r, st\<lparr>remote_tx := rs, remote_got := remote_got st @ out\<rparr>))"

subsection \<open>Receiving and checking the request\<close>

definition MAX_HEADERS :: nat where
  "MAX_HEADERS = 128"

text \<open>The build does not ask for the SSE instructions.\<close>

definition parse_req :: "string \<Rightarrow> nat \<Rightarrow> (int \<times> request option) run" where
  "parse_req = phr_parse_request False MAX_HEADERS"

fun recv_request ::
  "(string \<Rightarrow> nat \<Rightarrow> (int \<times> request option) run) \<Rightarrow> string \<Rightarrow> recv_result list \<Rightarrow>
     ((string \<times> request) option \<times> recv_result list) run" where
  "recv_request parse buf [] = None"
| "recv_request parse buf (RecvIntr # rs) = recv_request parse buf rs"
| "recv_request parse buf (RecvErr # rs) = ret (None, rs)"
| "recv_request parse buf (Received d # rs) =
     (let got = take (BUFFER_SIZE - length buf) d; buf' = buf @ got in
      if got = [] then ret (None, rs)
      else bindR (parse buf' (length buf)) (\<lambda>(pret, req).
        if pret > 0 then ret (Some (buf', the req), rs)
        else if pret = -1 then ret (None, rs)
        else if pret \<noteq> -2 then crashed AssertFail
        else if length buf' = BUFFER_SIZE then ret (None, rs)
        else recv_request parse buf' rs))"

definition c_str :: "string \<Rightarrow> string" where
  "c_str s = takeWhile (\<lambda>ch. ch \<noteq> CHR 0x00) s"

text \<open>The host name and the URL under which the answer is cached, or \<open>None\<close> for a refusal.\<close>

definition check_request :: "request \<Rightarrow> (string \<times> string) option run" where
  "check_request req =
     (if take 3 (rq_method req) \<noteq> ''GET'' then ret None
      else if rq_minor req \<noteq> 0 \<and> rq_minor req \<noteq> 1 then ret None
      else case findHeader (rq_headers req) ''Host'' of
        None \<Rightarrow> crashed NullDeref
      | Some h \<Rightarrow>
        if 1024 \<le> length (h_value h) then crashed OutOfBounds
        else if 2048 < length (h_value h) + length (rq_path req) then ret None
        else if 2048 \<le> length (rq_path req) then crashed OutOfBounds
        else ret (Some (c_str (h_value h), c_str (rq_path req))))"

subsection \<open>A hit\<close>

definition serve_cached :: "proxy_env \<Rightarrow> addr \<Rightarrow> conn_st \<Rightarrow> conn_st run" where
  "serve_cached env a st =
     (let st = log_cache (Release SearchCreateMutex) st in
      bindR (handle_cached_request a (waits env) (client_tx st) (p_cache st)) (\<lambda>(r, out, rs, c).
      bindR (on_cache (cache_entry_release (Some a))
               (st\<lparr>p_cache := c, client_tx := rs, client_got := client_got st @ out\<rparr>)) (\<lambda>st.
      ret (close_client st))))"

subsection \<open>A miss: the head of the response\<close>

text \<open>The position after the first empty line, as \<open>strstr\<close> finds it.\<close>

fun find_end :: "nat \<Rightarrow> string \<Rightarrow> nat option" where
  "find_end i [] = None"
| "find_end i (ch # s) =
     (if take 4 (ch # s) = [CHR 0x0D, CHR 0x0A, CHR 0x0D, CHR 0x0A] then Some (i + 4)
      else find_end (Suc i) s)"

definition header_end :: "string \<Rightarrow> nat option" where
  "header_end buf = find_end 0 (c_str buf)"

fun recv_headers :: "string \<Rightarrow> recv_result list \<Rightarrow> ((string \<times> nat) option \<times> recv_result list) run" where
  "recv_headers buf rs =
     (if BUFFER_SIZE - 1 \<le> length buf then ret (None, rs)
      else case rs of
        [] \<Rightarrow> None
      | Received d # rs' \<Rightarrow>
          let got = take (BUFFER_SIZE - length buf - 1) d; buf' = buf @ got in
          if got = [] then ret (None, rs')
          else (case header_end buf' of
                  None \<Rightarrow> recv_headers buf' rs'
                | Some n \<Rightarrow> ret (Some (buf', n), rs'))
      | RecvIntr # rs' \<Rightarrow> ret (None, rs')
      | RecvErr # rs' \<Rightarrow> ret (None, rs'))"

declare recv_headers.simps [simp del]

subsection \<open>Forwarding the body\<close>

text \<open>\<open>entry\<close> is \<open>NULL\<close> exactly when the response is not cached. Failed appends are ignored.\<close>

definition store_chunk :: "proxy_env \<Rightarrow> ptr \<Rightarrow> string \<Rightarrow> conn_st \<Rightarrow> conn_st run" where
  "store_chunk env entry data st =
     (case entry of
        None \<Rightarrow> ret st
      | Some a \<Rightarrow> (case chunk_mem env (p_cache st) of (mc, md) \<Rightarrow>
          bindR (cache_entry_append_chunk mc md a data (of_nat (length data)) (p_cache st))
            (\<lambda>(_, c). ret (st\<lparr>p_cache := c\<rparr>))))"

definition release_cancel :: "ptr \<Rightarrow> conn_st \<Rightarrow> conn_st run" where
  "release_cancel entry st =
     bindR (on_cache (cache_entry_release entry) st) (\<lambda>st.
     bindR (on_cache (cache_entry_cancel entry) st) (\<lambda>st. ret (close_both st)))"

definition cancel_release :: "ptr \<Rightarrow> conn_st \<Rightarrow> conn_st run" where
  "cancel_release entry st =
     bindR (on_cache (cache_entry_cancel entry) st) (\<lambda>st.
     bindR (on_cache (cache_entry_release entry) st) (\<lambda>st. ret (close_both st)))"

definition complete_release :: "ptr \<Rightarrow> conn_st \<Rightarrow> conn_st run" where
  "complete_release entry st =
     bindR (on_cache (cache_entry_complete entry) st) (\<lambda>st.
     bindR (on_cache (cache_entry_release entry) st) (\<lambda>st. ret (close_both st)))"

text \<open>The body of a response whose length is known.\<close>

fun forward_known :: "proxy_env \<Rightarrow> ptr \<Rightarrow> int \<Rightarrow> recv_result list \<Rightarrow> conn_st \<Rightarrow> conn_st run" where
  "forward_known env entry remaining rs st =
     (if 0 < remaining then
        case rs of
          [] \<Rightarrow> None
        | Received d # rs' \<Rightarrow>
            let got = take BUFFER_SIZE d in
            if got = [] then release_cancel entry (st\<lparr>remote_in := rs'\<rparr>)
            else bindR (store_chunk env entry got st) (\<lambda>st.
                 bindR (send_client got st) (\<lambda>(r, st).
                 if r = -1 then release_cancel entry (st\<lparr>remote_in := rs'\<rparr>)
                 else forward_known env entry (remaining - int (length got)) rs' st))
        | RecvIntr # rs' \<Rightarrow> release_cancel entry (st\<lparr>remote_in := rs'\<rparr>)
        | RecvErr # rs' \<Rightarrow> release_cancel entry (st\<lparr>remote_in := rs'\<rparr>)
      else complete_release entry (st\<lparr>remote_in := rs\<rparr>))"

declare forward_known.simps [simp del]

text \<open>The body of a response without a length: until the server closes; nothing is appended.\<close>

fun forward_eof :: "ptr \<Rightarrow> recv_result list \<Rightarrow> conn_st \<Rightarrow> conn_st run" where
  "forward_eof entry [] st = None"
| "forward_eof entry (RecvIntr # rs) st = cancel_release entry (st\<lparr>remote_in := rs\<rparr>)"
| "forward_eof entry (RecvErr # rs) st = cancel_release entry (st\<lparr>remote_in := rs\<rparr>)"
| "forward_eof entry (Received d # rs) st =
     (let got = take BUFFER_SIZE d in
      if got = [] then complete_release entry (st\<lparr>remote_in := rs\<rparr>)
      else bindR (send_client got st) (\<lambda>(r, st).
           if r = -1 then cancel_release entry (st\<lparr>remote_in := rs\<rparr>)
           else forward_eof entry rs st))"

text \<open>The response after its head has been received: \<open>buf\<close> with \<open>hlen\<close> bytes of head.\<close>

definition forward_response ::
  "proxy_env \<Rightarrow> ptr \<Rightarrow> string \<Rightarrow> nat \<Rightarrow> int \<Rightarrow> conn_st \<Rightarrow> conn_st run" where
  "forward_response env entry buf hlen content_len st =
     bindR (store_chunk env entry buf st) (\<lambda>st.
     bindR (send_client buf st) (\<lambda>(r, st).
     if r = -1 then release_cancel entry st
     else if content_len \<noteq> -1 then
       (if 2 ^ 63 \<le> int hlen + content_len then crashed SignedOverflow
        else forward_known env entry (int hlen + content_len - int (length buf)) (remote_in st) st)
     else forward_eof entry (remote_in st) st))"

definition handle_response ::
  "proxy_env \<Rightarrow> string \<Rightarrow> string \<Rightarrow> nat \<Rightarrow> conn_st \<Rightarrow> conn_st run" where
  "handle_response env url buf hlen st =
     bindR (phr_parse_response False MAX_HEADERS (take hlen buf) 0) (\<lambda>(err, resp).
      if err < 0 then ret (close_both (log_cache (Release SearchCreateMutex) st))
      else
        let resp = the resp; content_len = get_content_len (stale_errno env) buf (rs_headers resp) in
        if rs_status resp \<noteq> 200 \<and> rs_status resp \<noteq> 304 then
          forward_response env None buf hlen content_len (log_cache (Release SearchCreateMutex) st)
        else
          bindR (cache_insert (entry_mem env (p_cache st)) (clock env) url (p_cache st)) (\<lambda>(entry, c).
          let st = log_cache (Release SearchCreateMutex) (st\<lparr>p_cache := c\<rparr>) in
          if entry = None then ret (close_both st)
          else forward_response env entry buf hlen content_len st))"

definition fetch :: "proxy_env \<Rightarrow> string \<Rightarrow> string \<Rightarrow> string \<Rightarrow> conn_st \<Rightarrow> conn_st run" where
  "fetch env hostname url buffer st =
     (if fst (resolve_and_connect (addresses env hostname)) = -1
      then ret (close_client (log_cache (Release SearchCreateMutex) st))
      else bindR (send_remote buffer st) (\<lambda>(r, st).
        if r = -1 then
          ret ((disconnect Client (disconnect Remote (log_cache (Release SearchCreateMutex) st)))\<lparr>sock_fd := -1\<rparr>)
        else bindR (recv_headers [] (remote_in st)) (\<lambda>(h, rs).
          let st = st\<lparr>remote_in := rs\<rparr> in
          case h of
            None \<Rightarrow> ret (close_both (log_cache (Release SearchCreateMutex) st))
          | Some (buf, hlen) \<Rightarrow> handle_response env url buf hlen st)))"

subsection \<open>The whole request\<close>

definition process_request :: "proxy_env \<Rightarrow> conn_st \<Rightarrow> conn_st run" where
  "process_request env st =
     bindR (recv_request parse_req [] (client_in st)) (\<lambda>(req, rs).
     let st = st\<lparr>client_in := rs\<rparr> in
     case req of
       None \<Rightarrow> ret (close_client st)
     | Some (buffer, req) \<Rightarrow>
       bindR (check_request req) (\<lambda>ok.
       case ok of
         None \<Rightarrow> ret (close_client st)
       | Some (hostname, url) \<Rightarrow>
         let st = log_cache (Acquire SearchCreateMutex) st in
         bindR (cache_lookup (clock env) url (p_cache st)) (\<lambda>(entry, c).
         let st = st\<lparr>p_cache := c\<rparr> in
         case entry of
           Some a \<Rightarrow> serve_cached env a st
         | None \<Rightarrow> fetch env hostname url buffer st)))"

end
