(* ===== verification/PicohttpScan.thy ===== *)
theory PicohttpScan
  imports Picohttp
begin

section \<open>How the HTTP parser scans its input\<close>

text \<open>
  The fast paths find what the plain loops find; no parser reads outside of its buffer; what a parser
  decides on a part of the input it decides on the whole, and it does not depend on the bytes after a
  message. The interface functions rest on that through two locales.
\<close>

subsection \<open>Characters\<close>

lemma char_codes:
  "ch = CHR '' '' \<longleftrightarrow> code ch = 32" "ch = CHR '':'' \<longleftrightarrow> code ch = 58" "ch = CHR 0x09 \<longleftrightarrow> code ch = 9"
  "ch = CHR 0x7F \<longleftrightarrow> code ch = 127" "ch = CR \<longleftrightarrow> code ch = 13" "ch = LF \<longleftrightarrow> code ch = 10"
  by (simp_all flip: of_char_eq_iff[where 'a = nat])

lemma token_char_map_spec:
  "list_all (\<lambda>n. (token_char_map ! n \<noteq> 0) = (33 \<le> n \<and> n \<le> 126 \<and>
     n \<notin> {34, 40, 41, 44, 47, 58, 59, 60, 61, 62, 63, 64, 91, 92, 93, 123, 125})) [0..<256]"
  by code_simp

lemma token_char_iff:
  "token_char ch \<longleftrightarrow> 33 \<le> code ch \<and> code ch \<le> 126 \<and>
     code ch \<notin> {34, 40, 41, 44, 47, 58, 59, 60, 61, 62, 63, 64, 91, 92, 93, 123, 125}"
  using token_char_map_spec nat_of_char_less_256[of ch] by (simp only: token_char_def list_all_iff set_upt) simp

lemma token_range_chars:
  assumes "\<not> in_ranges token_ranges ch"
  shows "token_char ch" and "ch \<noteq> CHR '':''" and "ch \<noteq> CHR '' ''"
proof -
  have n: "32 < n \<and> n \<noteq> 34 \<and> n \<noteq> 40 \<and> n \<noteq> 41 \<and> n \<noteq> 44 \<and> n \<noteq> 47 \<and> (n < 58 \<or> 64 < n) \<and> (n < 91 \<or> 93 < n) \<and> n < 123"
    if "n < 256" "\<not> list_ex (\<lambda>(l, u). l \<le> n \<and> n \<le> u) token_ranges" for n :: nat
    using that by (simp add: token_ranges_def) presburger
  from n[OF nat_of_char_less_256[of ch]] assms show "token_char ch" "ch \<noteq> CHR '':''" "ch \<noteq> CHR '' ''"
    by (auto simp: in_ranges_def token_char_iff char_codes)
qed

lemma ctl_code: "ctl ch \<longleftrightarrow> code ch < 32 \<and> code ch \<noteq> 9 \<or> code ch = 127"
  by (simp add: ctl_def char_codes)

lemma ctl_not_printable: "ctl ch \<Longrightarrow> \<not> printable ch"
  by (auto simp: ctl_code printable_def)

lemma ranges1_ctl: "in_ranges ranges1 ch \<longleftrightarrow> ctl ch"
  by (auto simp: in_ranges_def ranges1_def ctl_code)

definition path_char :: "char \<Rightarrow> bool" where
  "path_char ch \<longleftrightarrow> 32 < code ch \<and> code ch \<noteq> 127"

lemma path_char_iff:
  "path_char ch \<longleftrightarrow> ch \<noteq> CHR '' '' \<and> \<not> (\<not> printable ch \<and> (code ch < 32 \<or> ch = CHR 0x7F))"
  by (auto simp: path_char_def printable_def char_codes)

lemma ranges2_path: "\<not> in_ranges ranges2 ch \<longleftrightarrow> path_char ch"
  by (auto simp: in_ranges_def ranges2_def path_char_def)

lemma CR_class [simp]: "ctl CR" "\<not> printable CR" "\<not> token_char CR" "\<not> path_char CR" "\<not> blank CR" "\<not> is_digit CR"
  by (simp_all add: ctl_code printable_def token_char_iff path_char_def blank_def is_digit_def)

subsection \<open>The fast paths\<close>

lemma takeWhile_of_take: "takeWhile P (take n s) = take (length (takeWhile P (take n s))) s"
  using takeWhile_eq_take[of P "take n s"] length_takeWhile_le[of P "take n s"] by (simp add: min_absorb1)

lemma findchar_loop_props:
  assumes "findchar_loop ranges n s = (u, r, found)" and "16 * n \<le> length s"
  shows "(\<forall>ch \<in> set u. \<not> in_ranges ranges ch) \<and> (found \<longrightarrow> r \<noteq> [] \<and> in_ranges ranges (hd r))"
  using assms
proof (induction n arbitrary: s u)
  case 0
  then show ?case by auto
next
  case (Suc n)
  let ?w = "takeWhile (\<lambda>ch. \<not> in_ranges ranges ch) (take 16 s)"
  have len: "length (take 16 s) = 16" using Suc.prems(2) by simp
  show ?case
  proof (cases "length ?w = 16")
    case True
    then have all: "?w = take 16 s" using len by (metis takeWhile_eq_take take_all_iff order_refl)
    obtain v where "findchar_loop ranges n (drop 16 s) = (v, r, found)" "u = take 16 s @ v"
      using Suc.prems(1) True by (auto simp: Let_def split: prod.splits)
    moreover have "\<not> in_ranges ranges ch" if "ch \<in> set (take 16 s)" for ch
      using that set_takeWhileD[of ch "\<lambda>ch. \<not> in_ranges ranges ch" "take 16 s"] all by simp
    ultimately show ?thesis using Suc.IH[of "drop 16 s" v] Suc.prems(2) by auto
  next
    case False
    then have u: "u = take (length ?w) s" "r = drop (length ?w) s" "found"
      using Suc.prems(1) by (auto simp: Let_def)
    have k: "length ?w < length (take 16 s)" using False len length_takeWhile_le[of _ "take 16 s"] by (metis le_neq_implies_less)
    have "?w = u" unfolding u(1) by (rule takeWhile_of_take)
    moreover have "hd r = take 16 s ! length ?w" "r \<noteq> []" using u(2) k by (simp_all add: hd_drop_conv_nth)
    moreover have "in_ranges ranges (take 16 s ! length ?w)" using nth_length_takeWhile[OF k] by simp
    ultimately show ?thesis using u(3) set_takeWhileD by (metis (no_types, lifting))
  qed
qed

lemma findchar_fast_props:
  assumes "findchar_fast sse ranges s = (u, r, found)"
  shows "s = u @ r" and "\<forall>ch \<in> set u. \<not> in_ranges ranges ch" and "found \<Longrightarrow> r \<noteq> []"
  using assms findchar_loop_props[of ranges "length s div 16" s u r found] findchar_fast_split[OF assms]
  by (auto simp: findchar_fast_def split: if_splits)

lemma eol_loop_append:
  "\<forall>ch \<in> set u. \<not> ctl ch \<Longrightarrow> eol_loop (u @ r) = bindP (eol_loop r) (\<lambda>v r. Inr (u @ v, r))"
  by (induction u) (simp_all add: bindP_assoc bindP_return)

lemma eol_by_8_loop: "eol_by_8 s = eol_loop s"
proof (induction s rule: eol_by_8.induct)
  case (1 s)
  let ?k = "length (takeWhile printable (take 8 s))"
  have pre: "printable ch" if "ch \<in> set (take ?k s)" for ch
    using that set_takeWhileD[of ch printable "take 8 s"] takeWhile_of_take[of printable 8 s] by simp
  have skip: "eol_loop s = bindP (eol_loop (drop n s)) (\<lambda>v r. Inr (take n s @ v, r))"
    if "\<forall>ch \<in> set (take n s). \<not> ctl ch" for n
    using eol_loop_append[OF that, of "drop n s"] by simp
  consider "length s < 8" | "8 \<le> length s" "?k = 8" | "8 \<le> length s" "?k < 8"
    using length_takeWhile_le[of printable "take 8 s"] by fastforce
  then show ?case
  proof cases
    case 1
    then show ?thesis by (simp add: eol_by_8.simps[of s])
  next
    case 2
    then have "\<forall>ch \<in> set (take 8 s). \<not> ctl ch" using pre ctl_not_printable by metis
    then show ?thesis using "1.IH"(1)[OF _ _ _] 2 skip[of 8] by (simp add: eol_by_8.simps[of s])
  next
    case 3
    then have s: "take (Suc ?k) s = take ?k s @ [s ! ?k]" "drop ?k s = s ! ?k # drop (Suc ?k) s"
      by (simp_all add: take_Suc_conv_app_nth Cons_nth_drop_Suc)
    have n: "\<forall>ch \<in> set (take ?k s). \<not> ctl ch" using pre ctl_not_printable by metis
    show ?thesis
    proof (cases "ctl (s ! ?k)")
      case True
      then show ?thesis using 3 skip[OF n] s(2) ctl_not_printable by (simp add: eol_by_8.simps[of s] Let_def)
    next
      case False
      then have "\<forall>ch \<in> set (take (Suc ?k) s). \<not> ctl ch" using n unfolding s(1) by auto
      then show ?thesis using "1.IH"(2)[OF _ refl] 3 False skip[of "Suc ?k"]
        by (simp add: eol_by_8.simps[of s] Let_def)
    qed
  qed
qed

lemma find_ctl_loop: "find_ctl sse s = eol_loop s"
proof (cases sse)
  case True
  obtain u r found where f: "findchar_fast sse ranges1 s = (u, r, found)" by (cases "findchar_fast sse ranges1 s")
  note p = findchar_fast_props[OF f]
  have "eol_loop s = bindP (eol_loop r) (\<lambda>v r. Inr (u @ v, r))"
    using eol_loop_append[of u r] p by (simp add: ranges1_ctl)
  moreover have "eol_loop r = Inr ([], r)" if found
  proof -
    have "ctl (hd r)"
      using that f findchar_loop_props[of ranges1 "length s div 16" s u r found]
      by (auto simp: findchar_fast_def ranges1_ctl split: if_splits)
    then show ?thesis using p(3)[OF that] ctl_not_printable by (cases r) auto
  qed
  ultimately show ?thesis using True f by (simp add: find_ctl_def)
qed (simp add: find_ctl_def eol_by_8_loop)

lemma token_loop_append:
  "\<forall>ch \<in> set u. token_char ch \<and> ch \<noteq> n \<Longrightarrow> r \<noteq> [] \<Longrightarrow>
   token_loop n (u @ r) = bindP (token_loop n r) (\<lambda>v r. Inr (u @ v, r))"
  by (induction u) (simp_all add: bindP_assoc bindP_return)

lemma token_loop_all: "\<forall>ch \<in> set u. token_char ch \<and> ch \<noteq> n \<Longrightarrow> u \<noteq> [] \<Longrightarrow> token_loop n u = Inl Eof"
  by (induction u) auto

lemma parse_token_loop:
  assumes "n = CHR '':'' \<or> n = CHR '' ''"
  shows "parse_token sse n s = (if s = [] then Inl Eof else token_loop n s)"
proof -
  obtain u r found where f: "findchar_fast sse token_ranges s = (u, r, found)"
    by (cases "findchar_fast sse token_ranges s")
  note p = findchar_fast_props[OF f]
  have u: "\<forall>ch \<in> set u. token_char ch \<and> ch \<noteq> n" using p(2) token_range_chars assms by blast
  show ?thesis
  proof (cases "r = []")
    case True
    then show ?thesis using f p token_loop_all[OF u] by (cases "u = []") (auto simp: parse_token_def)
  next
    case False
    then show ?thesis using f p(1) token_loop_append[OF u False] by (simp add: parse_token_def)
  qed
qed

lemma advance_loop_step:
  "advance_loop (ch # s) =
     (if ch = CHR '' '' then Inr ([], ch # s) else if \<not> path_char ch then Inl Bad
      else if s = [] then Inl Eof else bindP (advance_loop s) (\<lambda>u r. Inr (ch # u, r)))"
  by (simp add: path_char_iff)

lemma path_char_not_space: "path_char ch \<Longrightarrow> ch \<noteq> CHR '' ''"
  by (simp add: path_char_iff)

declare advance_loop.simps(2) [simp del]

lemma advance_loop_append:
  "\<forall>ch \<in> set u. path_char ch \<Longrightarrow> r \<noteq> [] \<Longrightarrow>
   advance_loop (u @ r) = bindP (advance_loop r) (\<lambda>v r. Inr (u @ v, r))"
proof (induction u)
  case Nil
  then show ?case by (simp add: bindP_return)
next
  case (Cons ch u)
  then have "path_char ch" "ch \<noteq> CHR '' ''" using path_char_not_space by simp_all
  with Cons show ?case by (simp add: advance_loop_step bindP_assoc)
qed

lemma advance_loop_all: "\<forall>ch \<in> set u. path_char ch \<Longrightarrow> u \<noteq> [] \<Longrightarrow> advance_loop u = Inl Eof"
  by (induction u) (auto simp: advance_loop_step dest: path_char_not_space)

lemma advance_token_loop: "advance_token sse s = (if s = [] then Inl Eof else advance_loop s)"
proof -
  obtain u r found where f: "findchar_fast sse ranges2 s = (u, r, found)" by (cases "findchar_fast sse ranges2 s")
  note p = findchar_fast_props[OF f]
  have u: "\<forall>ch \<in> set u. path_char ch" using p(2) ranges2_path by blast
  show ?thesis
  proof (cases "r = []")
    case True
    then show ?thesis using f p advance_loop_all[OF u] by (cases "u = []") (auto simp: advance_token_def)
  next
    case False
    then show ?thesis using f p(1) advance_loop_append[OF u False] by (simp add: advance_token_def)
  qed
qed

lemma parse_header_sse: "parse_header sse first i s = parse_header False first i s"
  by (simp add: parse_header_def header_name_def parse_token_loop get_token_to_eol_def find_ctl_loop)

lemma parse_headers_sse: "parse_headers sse m i hs s = parse_headers False m i hs s"
proof (induction sse m i hs s rule: parse_headers.induct)
  case (1 sse m i hs s)
  show ?case
  proof (cases s)
    case Nil
    then show ?thesis by (simp add: parse_headers.simps)
  next
    case (Cons ch s')
    show ?thesis
      using 1[OF Cons] parse_header_sse[of sse]
      unfolding parse_headers.simps[of sse m i hs s] parse_headers.simps[of False m i hs s]
      by (cases "parse_header False (hs = []) i s") (auto simp: Cons)
  qed
qed

lemma parse_request_sse: "parse_request sse m s = parse_request False m s"
  unfolding parse_request_def request_line_def parse_token_loop[OF disjI2[OF refl]] advance_token_loop parse_headers_sse[of sse]
  by (rule refl)

lemma parse_response_sse: "parse_response sse m s = parse_response False m s"
  unfolding parse_response_def status_line_def get_token_to_eol_def find_ctl_loop parse_headers_sse[of sse] by (rule refl)

subsection \<open>What a parser decides\<close>

text \<open>Every carriage return is followed by a line feed.\<close>

fun crlf_ok :: "string \<Rightarrow> bool" where
  "crlf_ok [] = True"
| "crlf_ok (ch # s) = ((ch = CR \<longrightarrow> s \<noteq> [] \<and> hd s = LF) \<and> crlf_ok s)"

lemma crlf_ok_append: "crlf_ok u \<Longrightarrow> crlf_ok v \<Longrightarrow> crlf_ok (u @ v)"
  by (induction u) auto

lemma no_CR_crlf_ok: "CR \<notin> set u \<Longrightarrow> crlf_ok u"
  by (induction u) auto

text \<open>Two rests look the same to a parser that looks at one byte ahead.\<close>

fun same_start :: "string \<Rightarrow> string \<Rightarrow> bool" where
  "same_start [] r' \<longleftrightarrow> r' = []"
| "same_start (ch # r) r' \<longleftrightarrow> (\<exists>z. r' = ch # z)"

lemma same_start_Nil: "same_start r r' \<Longrightarrow> r = [] \<longleftrightarrow> r' = []"
  by (cases r) auto

lemma same_start_hd: "same_start r r' \<Longrightarrow> r \<noteq> [] \<Longrightarrow> r' \<noteq> [] \<and> hd r' = hd r"
  by (cases r) auto

lemma same_start_not_Nil [simp]: "same_start s [] \<longleftrightarrow> s = []"
  by (cases s) auto

lemma same_start_self_append: "s \<noteq> [] \<Longrightarrow> same_start s (s @ t)"
  by (cases s) auto

lemma same_start_append: "same_start r r' \<Longrightarrow> same_start (u @ r) (u @ r')"
  by (cases u) auto

text \<open>
  \<open>scans p s Q\<close>: on the input \<open>s\<close> the parser \<open>p\<close> reads nothing outside of it; when it rejects \<open>s\<close>
  it rejects every longer input; and when it returns \<open>x\<close> with the rest \<open>r\<close>, \<open>Q x r\<close> holds, it has
  passed over proper line ends only, it has looked at one byte of the rest at most, and it returns
  the same on every longer input, with the additional bytes left over.
\<close>

definition scans :: "(string \<Rightarrow> 'a parse) \<Rightarrow> string \<Rightarrow> ('a \<Rightarrow> string \<Rightarrow> bool) \<Rightarrow> bool" where
  "scans p s Q \<longleftrightarrow> (case p s of
      Inl e \<Rightarrow> e \<noteq> Overrun \<and> (e = Bad \<longrightarrow> (\<forall>t. p (s @ t) = Inl Bad))
    | Inr (x, r) \<Rightarrow> Q x r \<and> (\<forall>t. p (s @ t) = Inr (x, r @ t)) \<and>
        (\<exists>u. crlf_ok u \<and> s = u @ r \<and> (\<forall>r'. same_start r r' \<longrightarrow> p (u @ r') = Inr (x, r'))))"

lemma scans_Inr:
  assumes "scans p s Q" and "p s = Inr (x, r)"
  shows "Q x r" and "\<exists>u. crlf_ok u \<and> s = u @ r" and "p (s @ t) = Inr (x, r @ t)"
    and "\<exists>u. crlf_ok u \<and> s = u @ r \<and> (\<forall>r'. same_start r r' \<longrightarrow> p (u @ r') = Inr (x, r'))"
  using assms by (auto simp: scans_def)

lemma scans_Bad: "scans p s Q \<Longrightarrow> p s = Inl Bad \<Longrightarrow> p (s @ t) = Inl Bad"
  by (auto simp: scans_def)

lemma scans_no_overrun: "scans p s Q \<Longrightarrow> p s \<noteq> Inl Overrun"
  by (auto simp: scans_def)

lemma scans_cong:
  assumes q: "scans q s Q" and eq: "\<And>s'. s = [] \<or> same_start s s' \<Longrightarrow> p s' = q s'"
  shows "scans p s Q"
proof -
  have e: "p (s @ t) = q (s @ t)" for t using eq same_start_self_append by (cases "s = []") auto
  have u: "p (u @ r') = q (u @ r')" if "s = u @ r" "same_start r r'" for u r r'
    using that eq same_start_append by blast
  show ?thesis
  proof (cases "q s")
    case (Inl err)
    then show ?thesis using q e e[of "[]"] by (auto simp: scans_def)
  next
    case (Inr z)
    then obtain x r where x: "q s = Inr (x, r)" by (cases z) auto
    from scans_Inr(4)[OF q x] u
    have "\<exists>u. crlf_ok u \<and> s = u @ r \<and> (\<forall>r'. same_start r r' \<longrightarrow> p (u @ r') = Inr (x, r'))" by metis
    then show ?thesis using scans_Inr(1,3)[OF q x] e e[of "[]"] x by (auto simp: scans_def)
  qed
qed

lemma scans_mono: "scans p s Q \<Longrightarrow> (\<And>x r. Q x r \<Longrightarrow> R x r) \<Longrightarrow> scans p s R"
  by (auto simp: scans_def split: sum.splits)

lemma scans_eof: "p s = Inl Eof \<Longrightarrow> scans p s Q"
  by (simp add: scans_def)

lemma scans_return: "Q x s \<Longrightarrow> scans (\<lambda>s. Inr (x, s)) s Q"
  by (simp add: scans_def)

lemma scans_bad [simp]: "scans (\<lambda>s. Inl Bad) s Q"
  by (simp add: scans_def)

lemma scans_bind_count:
  assumes p: "scans p s Q"
    and q: "\<And>x r. p s = Inr (x, r) \<Longrightarrow> Q x r \<Longrightarrow> scans (q x (length s - length r)) r R"
  shows "scans (\<lambda>s. bindP (p s) (\<lambda>x r. q x (length s - length r) r)) s R"
proof (cases "p s")
  case (Inl e)
  then show ?thesis using p by (auto simp: scans_def)
next
  case (Inr z)
  then obtain x r where x: "p s = Inr (x, r)" by (cases z) auto
  obtain u where u: "crlf_ok u" and s: "s = u @ r" and ur: "\<And>r'. same_start r r' \<Longrightarrow> p (u @ r') = Inr (x, r')"
    using scans_Inr(4)[OF p x] by blast
  let ?b = "\<lambda>s. bindP (p s) (\<lambda>x r. q x (length s - length r) r)"
  have step: "?b (s @ t) = q x (length u) (r @ t)" for t
    using scans_Inr(3)[OF p x] by (simp add: s)
  have qs: "scans (q x (length u)) r R" using q[OF x scans_Inr(1)[OF p x]] by (simp add: s)
  show ?thesis
  proof (cases "q x (length u) r")
    case (Inl e)
    then show ?thesis using qs step step[of "[]"] by (auto simp: scans_def)
  next
    case (Inr y)
    then obtain z r2 where z: "q x (length u) r = Inr (z, r2)" by (cases y) auto
    obtain w where w: "crlf_ok w" "r = w @ r2" and wr: "\<And>r'. same_start r2 r' \<Longrightarrow> q x (length u) (w @ r') = Inr (z, r')"
      using scans_Inr(4)[OF qs z] by blast
    have "?b ((u @ w) @ r') = Inr (z, r')" if "same_start r2 r'" for r'
      using ur[of "w @ r'"] same_start_append[OF that, of w] wr[OF that] w(2) by simp
    moreover have "crlf_ok (u @ w)" "s = (u @ w) @ r2" using crlf_ok_append[OF u w(1)] s w(2) by simp_all
    ultimately have "\<exists>v. crlf_ok v \<and> s = v @ r2 \<and> (\<forall>r'. same_start r2 r' \<longrightarrow> ?b (v @ r') = Inr (z, r'))" by blast
    then show ?thesis using scans_Inr(1,3)[OF qs z] step step[of "[]"] z by (simp add: scans_def)
  qed
qed

lemma scans_bind:
  assumes "scans p s Q" and "\<And>x r. p s = Inr (x, r) \<Longrightarrow> Q x r \<Longrightarrow> scans (q x) r R"
  shows "scans (\<lambda>s. bindP (p s) (\<lambda>x r. q x r)) s R"
  using scans_bind_count[of p s Q "\<lambda>x n. q x" R] assms by blast

subsection \<open>The parsers, one by one\<close>

lemma scans_end_of_line: "s \<noteq> [] \<Longrightarrow> scans end_of_line s (\<lambda>_ _. True)"
proof (cases s)
  case (Cons ch s')
  then show ?thesis by (cases s') (auto simp: scans_def end_of_line_def)
qed simp

lemma scans_eol_loop: "scans eol_loop s (\<lambda>_ r. r \<noteq> [])"
proof (induction s)
  case (Cons ch s)
  then show ?case by (cases "eol_loop s") (auto simp: scans_def)
qed (simp add: scans_def)

lemma scans_get_token_to_eol: "scans (get_token_to_eol sse) s (\<lambda>_ _. True)"
  unfolding get_token_to_eol_def find_ctl_loop
  by (rule scans_bind[OF scans_eol_loop]) (rule scans_bind[OF scans_end_of_line], simp, rule scans_return, simp)

text \<open>A loop that passes over one byte and goes on inside the buffer.\<close>

lemma scans_step:
  assumes p: "scans p s (\<lambda>_ r. P r)" and s: "s \<noteq> []" and "ch \<noteq> CR"
    and step: "\<And>s'. same_start s s' \<Longrightarrow> p' (ch # s') = bindP (p s') (\<lambda>u r. Inr (f u, r))"
  shows "scans p' (ch # s) (\<lambda>_ r. P r)"
proof -
  have e: "p' (ch # s @ t) = bindP (p (s @ t)) (\<lambda>u r. Inr (f u, r))" for t
    using step same_start_self_append[OF s] by blast
  show ?thesis
  proof (cases "p s")
    case (Inl err)
    then show ?thesis using p e e[of "[]"] by (auto simp: scans_def)
  next
    case (Inr z)
    then obtain x r where x: "p s = Inr (x, r)" by (cases z) auto
    obtain u where u: "crlf_ok u" "s = u @ r" "\<And>r'. same_start r r' \<Longrightarrow> p (u @ r') = Inr (x, r')"
      using scans_Inr(4)[OF p x] by blast
    have "p' ((ch # u) @ r') = Inr (f x, r')" if "same_start r r'" for r'
      using step[of "u @ r'"] same_start_append[OF that, of u] u(2,3) that by simp
    moreover have "crlf_ok (ch # u)" using u(1) assms(3) by simp
    ultimately have "\<exists>v. crlf_ok v \<and> ch # s = v @ r \<and> (\<forall>r'. same_start r r' \<longrightarrow> p' (v @ r') = Inr (f x, r'))"
      using u(2) by (metis append_Cons)
    then show ?thesis using scans_Inr(1,3)[OF p x] e e[of "[]"] x by (simp add: scans_def)
  qed
qed

text \<open>A loop that stops before the byte it looks at.\<close>

lemma scans_stop:
  assumes "P (ch # s)" and "\<And>s'. p (ch # s') = Inr (x, ch # s')"
  shows "scans p (ch # s) (\<lambda>_ r. P r)"
  using assms by (auto simp: scans_def intro: exI[of _ "[]"])

lemma scans_token_loop: "s \<noteq> [] \<Longrightarrow> scans (token_loop n) s (\<lambda>_ r. r \<noteq> [] \<and> hd r = n)"
proof (induction s)
  case (Cons ch s)
  consider "ch = n" | "ch \<noteq> n" "\<not> token_char ch" | "ch \<noteq> n" "token_char ch" "s = []" | "ch \<noteq> n" "token_char ch" "s \<noteq> []"
    by blast
  then show ?case
  proof cases
    case 4
    then have "ch \<noteq> CR" by auto
    with 4 Cons.IH show ?thesis by (intro scans_step[where f = "\<lambda>u. ch # u"]) (auto dest: same_start_hd)
  qed (auto simp: scans_eof scans_def intro!: scans_stop)
qed simp

lemma scans_parse_token:
  assumes "n = CHR '':'' \<or> n = CHR '' ''"
  shows "scans (parse_token sse n) s (\<lambda>_ r. r \<noteq> [] \<and> hd r = n)"
proof (cases "s = []")
  case False
  then show ?thesis by (auto simp: parse_token_loop[OF assms] intro!: scans_cong[OF scans_token_loop])
qed (simp add: scans_eof parse_token_loop[OF assms])

lemma scans_advance_loop: "s \<noteq> [] \<Longrightarrow> scans advance_loop s (\<lambda>_ r. r \<noteq> [] \<and> hd r = CHR '' '')"
proof (induction s)
  case (Cons ch s)
  consider "ch = CHR '' ''" | "ch \<noteq> CHR '' ''" "\<not> path_char ch" | "path_char ch" "s = []" | "path_char ch" "s \<noteq> []"
    by blast
  then show ?case
  proof cases
    case 4
    then have "ch \<noteq> CR" by auto
    with 4 Cons.IH show ?thesis
      by (intro scans_step[where f = "\<lambda>u. ch # u"]) (auto simp: advance_loop_step path_char_not_space dest: same_start_hd)
  qed (auto simp: scans_eof scans_def advance_loop_step path_char_not_space intro!: scans_stop)
qed simp

lemma scans_advance_token: "scans (advance_token sse) s (\<lambda>_ r. r \<noteq> [] \<and> hd r = CHR '' '')"
proof (cases "s = []")
  case False
  then show ?thesis by (auto simp: advance_token_loop intro!: scans_cong[OF scans_advance_loop])
qed (simp add: scans_eof advance_token_loop)

lemma scans_skip_spaces: "s \<noteq> [] \<and> hd s = CHR '' '' \<Longrightarrow> scans skip_spaces s (\<lambda>_ r. r \<noteq> [])"
proof (induction s)
  case (Cons ch s)
  then have ch: "ch = CHR '' ''" by simp
  show ?case
  proof (cases s)
    case Nil
    then show ?thesis by (simp add: scans_eof)
  next
    case s: (Cons ch' s')
    show ?thesis
    proof (cases "ch' = CHR '' ''")
      case True
      with Cons.IH s have "scans skip_spaces s (\<lambda>_ r. r \<noteq> [])" by simp
      then show ?thesis by (rule scans_step[where f = "\<lambda>u. u"]) (auto simp: s True ch bindP_return_unit)
    next
      case False
      then show ?thesis by (auto simp: scans_def s ch intro!: exI[of _ "[CHR '' '']"])
    qed
  qed
qed simp

lemma scans_parse_http_version: "scans parse_http_version s (\<lambda>_ r. r \<noteq> [])"
proof (cases "length s < 9")
  case False
  then obtain a b c d e f g h i s' where s: "s = a # b # c # d # e # f # g # h # i # s'"
    by (auto simp: not_less numeral_eq_Suc Suc_le_length_iff)
  show ?thesis
    by (auto simp: s scans_def parse_http_version_def parse_int_def intro!: exI[of _ "[a, b, c, d, e, f, g, h]"])
qed (simp add: scans_eof parse_http_version_def)

lemma scans_status_code: "scans status_code s (\<lambda>_ r. r \<noteq> [])"
proof (cases "length s < 4")
  case False
  then obtain a b c d s' where s: "s = a # b # c # d # s'"
    by (auto simp: not_less numeral_eq_Suc Suc_le_length_iff)
  show ?thesis
    by (auto simp: s scans_def status_code_def parse_int_3_def parse_int_def intro!: exI[of _ "[a, b, c]"])
qed (simp add: scans_eof status_code_def)

lemma scans_skip_blanks: "scans skip_blanks s (\<lambda>_ _. True)"
  by (induction s) (auto simp: scans_def split: sum.splits)

lemma scans_header_name: "s \<noteq> [] \<Longrightarrow> scans (header_name sse first) s (\<lambda>_ _. True)"
proof (cases "\<not> first \<and> blank (hd s)")
  case True
  moreover assume "s \<noteq> []"
  ultimately show ?thesis by (intro scans_cong[OF scans_return]) (auto simp: header_name_def dest: same_start_hd)
next
  case False
  assume s: "s \<noteq> []"
  have tail: "scans (\<lambda>r. if name = [] then Inl Bad else bindP (skip_blanks (tl r)) (\<lambda>_ r. Inr (Some name, r))) r
      (\<lambda>_ _. True)" if r: "r \<noteq> [] \<and> hd r = CHR '':''" for name r
  proof (cases "name = []")
    case False
    obtain r' where r': "r = CHR '':'' # r'" using r by (cases r) auto
    have "scans (\<lambda>r. bindP (skip_blanks r) (\<lambda>_ r. Inr (Some name, r))) r' (\<lambda>_ _. True)"
      by (rule scans_bind[OF scans_skip_blanks]) (rule scans_return, simp)
    with False show ?thesis by (auto simp: scans_def r' Cons_eq_append_conv split: sum.splits)
  qed simp
  show ?thesis
    by (rule scans_cong[OF scans_bind[OF scans_parse_token[of "CHR '':''" sse s, OF disjI1[OF refl]] tail]])
      (use False s in \<open>auto simp: header_name_def dest: same_start_hd\<close>)
qed

lemma parse_header_counts:
  "parse_header sse first i s = bindP (header_name sse first s) (\<lambda>name r.
     bindP (get_token_to_eol sse r) (\<lambda>value r'.
     Inr ((\<lparr>h_name = name, h_value = trim_end value, h_off = i + (length s - length r)\<rparr>,
           i + (length s - length r) + (length r - length r')), r')))"
proof (cases "header_name sse first s")
  case (Inr z)
  then obtain name r where h: "header_name sse first s = Inr (name, r)" by (cases z) auto
  show ?thesis
  proof (cases "get_token_to_eol sse r")
    case (Inr y)
    then obtain v r' where "get_token_to_eol sse r = Inr (v, r')" by (cases y) auto
    with h show ?thesis
      using header_name_length[OF h] get_token_to_eol_shorter[of sse r v r'] by (simp add: parse_header_def)
  qed (simp add: h parse_header_def)
qed (simp add: parse_header_def)

lemma scans_parse_header:
  assumes "s \<noteq> []"
  shows "scans (parse_header sse first i) s (\<lambda>_ _. True)"
proof -
  have val: "scans (\<lambda>r. bindP (get_token_to_eol sse r) (\<lambda>value r'.
      Inr ((\<lparr>h_name = name, h_value = trim_end value, h_off = i + n\<rparr>, i + n + (length r - length r')), r'))) r
      (\<lambda>_ _. True)" for name n r
    by (rule scans_bind_count[OF scans_get_token_to_eol]) (rule scans_return, simp)
  show ?thesis
    by (rule scans_cong[OF scans_bind_count[OF scans_header_name[OF assms], where R = "\<lambda>_ _. True"]])
      (rule val, rule parse_header_counts)
qed

lemma scans_parse_headers: "scans (parse_headers sse m i hs) s (\<lambda>_ _. True)"
proof (induction sse m i hs s rule: parse_headers.induct)
  case (1 sse m i hs s)
  show ?case
  proof (cases s)
    case Nil
    then show ?thesis by (simp add: scans_eof parse_headers.simps)
  next
    case (Cons ch s')
    consider "ch = CR \<or> ch = LF" | "\<not> (ch = CR \<or> ch = LF)" "length hs = m" | "\<not> (ch = CR \<or> ch = LF)" "length hs \<noteq> m"
      by blast
    then show ?thesis
    proof cases
      case 1
      have "scans (\<lambda>s. bindP (end_of_line s) (\<lambda>_ r. Inr (hs, r))) s (\<lambda>_ _. True)"
        by (rule scans_bind[OF scans_end_of_line]) (simp add: Cons, rule scans_return, simp)
      then show ?thesis by (rule scans_cong) (use 1 in \<open>auto simp: Cons parse_headers.simps[of sse m i hs]\<close>)
    next
      case 2
      have "scans (\<lambda>s. Inl Bad) s (\<lambda>_ _. True)" by simp
      then show ?thesis by (rule scans_cong) (use 2 in \<open>auto simp: Cons parse_headers.simps[of sse m i hs]\<close>)
    next
      case 3
      have "scans (\<lambda>s. bindP (parse_header sse (hs = []) i s)
          (\<lambda>h r. parse_headers sse m (snd h) (hs @ [fst h]) r)) s (\<lambda>_ _. True)"
        by (rule scans_bind[OF scans_parse_header]) (simp add: Cons, rule "1.IH"[OF Cons 3])
      then show ?thesis by (rule scans_cong) (use 3 in \<open>auto simp: Cons parse_headers.simps[of sse m i hs]\<close>)
    qed
  qed
qed

lemma scans_request_line: "scans (request_line sse) buf (\<lambda>_ _. True)"
proof (cases buf)
  case Nil
  then show ?thesis by (simp add: scans_eof request_line_def)
next
  case (Cons ch s)
  have line: "scans (\<lambda>s. if hd s = CR \<or> hd s = LF then end_of_line s else Inr ((), s)) buf (\<lambda>_ _. True)"
  proof (cases "ch = CR \<or> ch = LF")
    case True
    then show ?thesis by (intro scans_cong[OF scans_end_of_line[of buf]]) (auto simp: Cons)
  next
    case False
    then show ?thesis by (intro scans_cong[OF scans_return[of _ _ buf]]) (auto simp: Cons)
  qed
  have last: "scans (\<lambda>r. if verb = [] \<or> target = [] then Inl Bad
      else bindP (parse_http_version r) (\<lambda>minor r. bindP (end_of_line r) (\<lambda>_ r. Inr ((verb, target, minor), r)))) r
      (\<lambda>_ _. True)" for verb target r
  proof (cases "verb = [] \<or> target = []")
    case False
    have "scans (\<lambda>r. bindP (parse_http_version r) (\<lambda>minor r.
        bindP (end_of_line r) (\<lambda>_ r. Inr ((verb, target, minor), r)))) r (\<lambda>_ _. True)"
      by (rule scans_bind[OF scans_parse_http_version], rule scans_bind[OF scans_end_of_line], assumption)
        (rule scans_return, simp)
    with False show ?thesis by simp
  qed simp
  have "scans (\<lambda>buf. bindP (if hd buf = CR \<or> hd buf = LF then end_of_line buf else Inr ((), buf)) (\<lambda>_ r.
      bindP (parse_token sse (CHR '' '') r) (\<lambda>verb r. bindP (skip_spaces r) (\<lambda>_ r.
      bindP (advance_token sse r) (\<lambda>target r. bindP (skip_spaces r) (\<lambda>_ r.
      if verb = [] \<or> target = [] then Inl Bad
      else bindP (parse_http_version r) (\<lambda>minor r.
        bindP (end_of_line r) (\<lambda>_ r. Inr ((verb, target, minor), r))))))))) buf (\<lambda>_ _. True)"
    by (rule scans_bind[OF line], rule scans_bind[OF scans_parse_token[OF disjI2[OF refl]]],
        rule scans_bind[OF scans_skip_spaces], assumption, rule scans_bind[OF scans_advance_token],
        rule scans_bind[OF scans_skip_spaces], assumption, rule last)
  then show ?thesis by (rule scans_cong) (auto simp: request_line_def Cons)
qed

lemma scans_parse_request: "scans (parse_request sse m) buf (\<lambda>_ _. True)"
proof -
  have headers: "scans (\<lambda>r. bindP (parse_headers sse m n [] r) (\<lambda>hs r. case line of (verb, target, minor) \<Rightarrow>
      Inr (\<lparr>rq_method = verb, rq_path = target, rq_minor = minor, rq_headers = hs\<rparr>, r))) r (\<lambda>_ _. True)"
    for n r and line :: "string \<times> string \<times> int"
    by (rule scans_bind[OF scans_parse_headers]) (cases line, simp, rule scans_return, simp)
  show ?thesis
    by (rule scans_cong[OF scans_bind_count[OF scans_request_line headers]]) (rule parse_request_def)
qed

lemma scans_status_line: "scans (status_line sse) buf (\<lambda>_ _. True)"
proof -
  have msg: "scans (\<lambda>r. bindP (get_token_to_eol sse r) (\<lambda>msg r. if msg \<noteq> [] \<and> hd msg \<noteq> CHR '' '' then Inl Bad
      else Inr ((minor, status, dropWhile (\<lambda>ch. ch = CHR '' '') msg), r))) r (\<lambda>_ _. True)"
    for minor status :: int and r
  proof (rule scans_bind[OF scans_get_token_to_eol])
    fix msg :: string and r
    show "scans (\<lambda>r. if msg \<noteq> [] \<and> hd msg \<noteq> CHR '' '' then Inl Bad
      else Inr ((minor, status, dropWhile (\<lambda>ch. ch = CHR '' '') msg), r)) r (\<lambda>_ _. True)"
      by (cases "msg \<noteq> [] \<and> hd msg \<noteq> CHR '' ''") (simp, simp only: if_False scans_return)
  qed
  have status: "scans (\<lambda>r. bindP (status_code r) (\<lambda>status r.
      bindP (get_token_to_eol sse r) (\<lambda>msg r. if msg \<noteq> [] \<and> hd msg \<noteq> CHR '' '' then Inl Bad
      else Inr ((minor, status, dropWhile (\<lambda>ch. ch = CHR '' '') msg), r)))) r (\<lambda>_ _. True)"
    for minor :: int and r
    by (intro scans_bind[OF scans_status_code] msg)
  have space: "scans (\<lambda>r. case r of [] \<Rightarrow> Inl Overrun | ch # _ \<Rightarrow> if ch \<noteq> CHR '' '' then Inl Bad
     else bindP (skip_spaces r) (\<lambda>_ r. bindP (status_code r) (\<lambda>status r.
      bindP (get_token_to_eol sse r) (\<lambda>msg r. if msg \<noteq> [] \<and> hd msg \<noteq> CHR '' '' then Inl Bad
      else Inr ((minor, status, dropWhile (\<lambda>ch. ch = CHR '' '') msg), r))))) r (\<lambda>_ _. True)"
    if r: "r \<noteq> []" for minor :: int and r
  proof -
    obtain ch r' where r': "r = ch # r'" using r by (cases r) auto
    show ?thesis
    proof (cases "ch = CHR '' ''")
      case True
      show ?thesis
        by (rule scans_cong[OF scans_bind[OF scans_skip_spaces status[of minor]]]) (auto simp: r' True)
    next
      case False
      have "scans (\<lambda>r. Inl Bad) r (\<lambda>_ _. True)" by simp
      then show ?thesis by (rule scans_cong) (auto simp: r' False)
    qed
  qed
  show ?thesis by (rule scans_cong[OF scans_bind[OF scans_parse_http_version space]]) (simp_all add: status_line_def)
qed

lemma scans_parse_response: "scans (parse_response sse m) buf (\<lambda>_ _. True)"
proof -
  have headers: "scans (\<lambda>r. bindP (parse_headers sse m n [] r) (\<lambda>hs r. case line of (minor, status, msg) \<Rightarrow>
      Inr (\<lparr>rs_minor = minor, rs_status = status, rs_msg = msg, rs_headers = hs\<rparr>, r))) r (\<lambda>_ _. True)"
    for n r and line :: "int \<times> int \<times> string"
    by (rule scans_bind[OF scans_parse_headers]) (cases line, simp, rule scans_return, simp)
  show ?thesis
    by (rule scans_cong[OF scans_bind_count[OF scans_status_line headers]]) (rule parse_response_def)
qed

subsection \<open>What is parsed\<close>

text \<open>
  A header that ends before the place \<open>j\<close>: a proper name or none, a value without control characters and
  without blanks at its end, and the place where the buffer has it.
\<close>

definition header_ok :: "string \<Rightarrow> nat \<Rightarrow> phr_header \<Rightarrow> bool" where
  "header_ok buf j h \<longleftrightarrow>
     (case h_name h of None \<Rightarrow> True | Some name \<Rightarrow> name \<noteq> [] \<and> list_all token_char name) \<and>
     \<not> list_ex ctl (h_value h) \<and> (h_value h = [] \<or> \<not> blank (last (h_value h))) \<and>
     h_off h + length (h_value h) < j \<and> take (length (h_value h)) (drop (h_off h) buf) = h_value h"

lemma trim_end_split: "\<exists>w. v = trim_end v @ w"
  unfolding trim_end_def by (metis rev_append rev_rev_ident takeWhile_dropWhile_id)

lemma trim_end_last: "trim_end v = [] \<or> \<not> blank (last (trim_end v))"
  using hd_dropWhile[of blank "rev v"] by (auto simp: trim_end_def last_rev)

lemma eol_loop_chars: "eol_loop s = Inr (u, r) \<Longrightarrow> \<not> list_ex ctl u"
proof (induction s arbitrary: u)
  case (Cons ch s)
  then show ?case using ctl_not_printable[of ch] by (auto simp: bindP_eq_Inr split: if_splits)
qed simp

lemma token_loop_chars: "token_loop n s = Inr (u, r) \<Longrightarrow> list_all token_char u"
  by (induction n s arbitrary: u rule: token_loop.induct) (auto simp: bindP_eq_Inr split: if_splits)

lemma advance_loop_chars: "advance_loop s = Inr (u, r) \<Longrightarrow> list_all path_char u"
proof (induction s arbitrary: u)
  case (Cons ch s)
  then show ?case by (auto simp: bindP_eq_Inr advance_loop_step split: if_splits)
qed simp

lemma parse_token_chars:
  "n = CHR '':'' \<or> n = CHR '' '' \<Longrightarrow> parse_token sse n s = Inr (u, r) \<Longrightarrow> list_all token_char u"
  using token_loop_chars by (simp add: parse_token_loop split: if_splits)

lemma get_token_to_eol_chars:
  assumes "get_token_to_eol sse s = Inr (u, r)"
  shows "\<not> list_ex ctl u" and "\<exists>e. e \<noteq> [] \<and> s = u @ e @ r"
proof -
  obtain x where e: "eol_loop s = Inr (u, x)" and l: "end_of_line x = Inr ((), r)"
    using assms by (auto simp: get_token_to_eol_def find_ctl_loop bindP_eq_Inr)
  show "\<not> list_ex ctl u" using e by (rule eol_loop_chars)
  have "x \<noteq> []" using l by (auto simp: end_of_line_def)
  from scans_Inr(2)[OF scans_end_of_line[OF this] l] obtain y where "x = y @ r" by blast
  with eol_loop_split[OF e] end_of_line_shorter[OF l] show "\<exists>e. e \<noteq> [] \<and> s = u @ e @ r" by auto
qed

lemma parse_header_ok:
  assumes h: "parse_header sse first i s = Inr ((h, j), r)" and s: "s \<noteq> []" "s = drop i buf" "i + length s = length buf"
  shows "header_ok buf j h" and "r = drop j buf" and "j + length r = length buf" and "i < j"
proof -
  obtain name v r' where n: "header_name sse first s = Inr (name, r')"
    and v: "get_token_to_eol sse r' = Inr (v, r)"
    and h': "h = \<lparr>h_name = name, h_value = trim_end v, h_off = i + (length s - length r')\<rparr>"
      "j = i + (length s - length r)"
    using h by (auto simp: parse_header_def bindP_eq_Inr)
  from scans_Inr(2)[OF scans_header_name[OF s(1)] n] obtain u where u: "s = u @ r'" by blast
  from get_token_to_eol_chars[OF v] obtain e where e: "e \<noteq> []" "r' = v @ e @ r" by blast
  obtain w where w: "v = trim_end v @ w" using trim_end_split by blast
  have b: "buf = take i buf @ s" "length (take i buf) = i" using s by simp_all
  have o: "drop (i + length u) buf = r'" using arg_cong[OF b(1), of "drop (i + length u)"] b(2) u by simp
  have "\<not> list_ex ctl (trim_end v)" using get_token_to_eol_chars(1)[OF v] w by (metis list_ex_append)
  moreover have "case name of None \<Rightarrow> True | Some x \<Rightarrow> x \<noteq> [] \<and> list_all token_char x"
    using n parse_token_chars[of "CHR '':''"] by (auto simp: header_name_def bindP_eq_Inr split: if_splits)
  moreover have "take (length (trim_end v)) r' = trim_end v"
    using e(2) w by (metis append.assoc append_eq_conv_conj)
  moreover have "length (trim_end v) < length v + length e"
    using arg_cong[OF w, of length] e(1) by (simp add: length_greater_0_conv[symmetric] del: length_greater_0_conv)
  ultimately show "header_ok buf j h" using e o u trim_end_last[of v] by (auto simp: header_ok_def h')
  show "r = drop j buf" using arg_cong[OF b(1), of "drop j"] b(2) u e h'(2) by simp
  show "j + length r = length buf" using h'(2) u e s(3) by simp
  show "i < j" using h'(2) u e by simp
qed

lemma header_ok_mono: "header_ok buf i h \<Longrightarrow> i \<le> j \<Longrightarrow> header_ok buf j h"
  by (auto simp: header_ok_def)

lemma parse_headers_ok:
  assumes "parse_headers sse m i hs s = Inr (hs', r)" and "s = drop i buf" "i + length s = length buf"
    and "list_all (header_ok buf i) hs" "length hs \<le> m"
  shows "list_all (header_ok buf (length buf - length r)) hs' \<and> length hs' \<le> m"
  using assms
proof (induction sse m i hs s rule: parse_headers.induct)
  case (1 sse m i hs s)
  obtain ch s' where s: "s = ch # s'" using "1.prems"(1) by (cases s) (simp_all add: parse_headers.simps)
  show ?case
  proof (cases "ch = CR \<or> ch = LF")
    case True
    then have e: "end_of_line s = Inr ((), r)" "hs' = hs"
      using "1.prems"(1) by (auto simp: s parse_headers.simps bindP_eq_Inr)
    have "i \<le> length buf - length r" using end_of_line_shorter[OF e(1)] "1.prems"(3) by simp
    then show ?thesis using "1.prems"(4,5) header_ok_mono e(2) by (auto simp: list_all_iff)
  next
    case False
    then have m: "length hs \<noteq> m" using "1.prems"(1) by (auto simp: s parse_headers.simps)
    then obtain h j r' where h: "parse_header sse (hs = []) i s = Inr ((h, j), r')"
      and rec: "parse_headers sse m j (hs @ [h]) r' = Inr (hs', r)"
      using "1.prems"(1) False by (auto simp: s parse_headers.simps[of _ _ _ _ "_ # _"] bindP_eq_Inr)
    note ok = parse_header_ok[OF h _ "1.prems"(2,3)]
    have "list_all (header_ok buf j) (hs @ [h])"
      using ok(1,4) "1.prems"(4) header_ok_mono by (auto simp: s list_all_iff)
    then show ?thesis using "1.IH"[OF s False m h] rec ok(2,3) m "1.prems"(5) s by simp
  qed
qed

definition request_ok :: "nat \<Rightarrow> string \<Rightarrow> nat \<Rightarrow> request \<Rightarrow> bool" where
  "request_ok m buf n q \<longleftrightarrow>
     rq_method q \<noteq> [] \<and> list_all token_char (rq_method q) \<and> rq_path q \<noteq> [] \<and> list_all path_char (rq_path q) \<and>
     0 \<le> rq_minor q \<and> rq_minor q \<le> 9 \<and> length (rq_headers q) \<le> m \<and> list_all (header_ok buf n) (rq_headers q)"

definition response_ok :: "nat \<Rightarrow> string \<Rightarrow> nat \<Rightarrow> response \<Rightarrow> bool" where
  "response_ok m buf n q \<longleftrightarrow>
     0 \<le> rs_minor q \<and> rs_minor q \<le> 9 \<and> 0 \<le> rs_status q \<and> rs_status q \<le> 999 \<and> \<not> list_ex ctl (rs_msg q) \<and>
     length (rs_headers q) \<le> m \<and> list_all (header_ok buf n) (rs_headers q)"

lemma parse_int_range:
  assumes "parse_int k s = Inr (v, r)" and "0 \<le> k"
  shows "0 \<le> v" and "v \<le> 9 * k"
proof -
  obtain ch where ch: "is_digit ch" "v = k * (of_char ch - 48)"
    using assms(1) by (auto simp: parse_int_def split: list.splits if_splits)
  have "(of_char ch :: int) = int (code ch)" by (simp only: of_nat_of_char)
  with ch(1) have "48 \<le> (of_char ch :: int)" "(of_char ch :: int) \<le> 57" unfolding is_digit_def by linarith+
  with ch(2) assms(2) show "0 \<le> v" "v \<le> 9 * k" by (simp_all add: mult.commute[of 9] mult_left_mono)
qed

lemma parse_headers_shorter: "parse_headers sse m i hs s = Inr (hs', r) \<Longrightarrow> length r < length s"
proof (induction sse m i hs s rule: parse_headers.induct)
  case (1 sse m i hs s)
  obtain ch s' where s: "s = ch # s'" using "1.prems" by (cases s) (simp_all add: parse_headers.simps)
  show ?case
  proof (cases "ch = CR \<or> ch = LF")
    case True
    then have "end_of_line s = Inr ((), r)"
      using "1.prems" by (auto simp: s parse_headers.simps bindP_eq_Inr)
    then show ?thesis by (rule end_of_line_shorter)
  next
    case False
    then have m: "length hs \<noteq> m" using "1.prems" by (auto simp: s parse_headers.simps)
    then obtain h r' where h: "parse_header sse (hs = []) i s = Inr (h, r')"
      and rec: "parse_headers sse m (snd h) (hs @ [fst h]) r' = Inr (hs', r)"
      using "1.prems" False by (auto simp: s parse_headers.simps[of _ _ _ _ "_ # _"] bindP_eq_Inr)
    show ?thesis using "1.IH"[OF s False m h rec] parse_header_shorter[OF h] by simp
  qed
qed

lemma parse_http_version_range: "parse_http_version s = Inr (v, r) \<Longrightarrow> 0 \<le> v \<and> v \<le> 9"
  using parse_int_range[of 1] by (auto simp: parse_http_version_def bindP_eq_Inr split: if_splits)

lemma status_code_range: "status_code s = Inr (v, r) \<Longrightarrow> 0 \<le> v \<and> v \<le> 999"
  using parse_int_range[of 100] parse_int_range[of 10] parse_int_range[of 1]
  by (fastforce simp: status_code_def parse_int_3_def bindP_eq_Inr split: if_splits)

lemma request_line_ok:
  assumes "request_line sse buf = Inr ((verb, target, minor), r)"
  shows "verb \<noteq> [] \<and> list_all token_char verb \<and> target \<noteq> [] \<and> list_all path_char target \<and> 0 \<le> minor \<and> minor \<le> 9"
proof -
  obtain r1 r2 r3 r4 r5 r6 where t: "parse_token sse (CHR '' '') r1 = Inr (verb, r2)"
    and p: "advance_token sse r3 = Inr (target, r4)"
    and v: "parse_http_version r5 = Inr (minor, r6)" and ne: "verb \<noteq> []" "target \<noteq> []"
    using assms by (auto simp: request_line_def bindP_eq_Inr split: if_splits)
  from p have "list_all path_char target" using advance_loop_chars by (simp add: advance_token_loop split: if_splits)
  then show ?thesis using ne parse_token_chars[OF _ t] parse_http_version_range[OF v] by simp
qed

lemma status_line_ok:
  assumes "status_line sse buf = Inr ((minor, status, msg), r)"
  shows "0 \<le> minor \<and> minor \<le> 9 \<and> 0 \<le> status \<and> status \<le> 999 \<and> \<not> list_ex ctl msg"
proof -
  obtain m1 r1 where v: "parse_http_version buf = Inr (m1, r1)"
    using assms by (auto simp: status_line_def bindP_eq_Inr)
  then obtain ch r2 where r1: "r1 = ch # r2" using assms by (cases r1) (simp_all add: status_line_def)
  obtain r3 r4 msg' r5 where m1: "m1 = minor" and s: "status_code r3 = Inr (status, r4)"
    and m: "get_token_to_eol sse r4 = Inr (msg', r5)" "msg = dropWhile (\<lambda>ch. ch = CHR '' '') msg'"
    using assms by (auto simp: status_line_def v r1 bindP_eq_Inr split: if_split_asm)
  have "set msg \<subseteq> set msg'" unfolding m(2) by (auto dest: set_dropWhileD)
  then have "\<not> list_ex ctl msg" using get_token_to_eol_chars(1)[OF m(1)] by (auto simp: list_ex_iff)
  then show ?thesis using parse_http_version_range[OF v] m1 status_code_range[OF s] by simp
qed

lemma parse_request_ok:
  assumes "parse_request sse m buf = Inr (q, r)"
  shows "request_ok m buf (length buf - length r) q" and "length r < length buf"
proof -
  obtain verb target minor hs r' where l: "request_line sse buf = Inr ((verb, target, minor), r')"
    and h: "parse_headers sse m (length buf - length r') [] r' = Inr (hs, r)"
    and q: "q = \<lparr>rq_method = verb, rq_path = target, rq_minor = minor, rq_headers = hs\<rparr>"
    using assms by (auto simp: parse_request_def bindP_eq_Inr split: prod.splits)
  obtain u where u: "buf = u @ r'" using scans_Inr(2)[OF scans_request_line l] by blast
  then have "list_all (header_ok buf (length buf - length r)) hs \<and> length hs \<le> m"
    by (intro parse_headers_ok[OF h]) simp_all
  then show "request_ok m buf (length buf - length r) q" using request_line_ok[OF l] by (simp add: request_ok_def q)
  show "length r < length buf" using parse_headers_shorter[OF h] u by simp
qed

lemma parse_response_ok:
  assumes "parse_response sse m buf = Inr (q, r)"
  shows "response_ok m buf (length buf - length r) q" and "length r < length buf"
proof -
  obtain minor status msg hs r' where l: "status_line sse buf = Inr ((minor, status, msg), r')"
    and h: "parse_headers sse m (length buf - length r') [] r' = Inr (hs, r)"
    and q: "q = \<lparr>rs_minor = minor, rs_status = status, rs_msg = msg, rs_headers = hs\<rparr>"
    using assms by (auto simp: parse_response_def bindP_eq_Inr split: prod.splits)
  obtain u where u: "buf = u @ r'" using scans_Inr(2)[OF scans_status_line l] by blast
  then have "list_all (header_ok buf (length buf - length r)) hs \<and> length hs \<le> m"
    by (intro parse_headers_ok[OF h]) simp_all
  then show "response_ok m buf (length buf - length r) q" using status_line_ok[OF l] by (simp add: response_ok_def q)
  show "length r < length buf" using parse_headers_shorter[OF h] u by simp
qed

lemma complete_loop_no_overrun: "complete_loop n s \<noteq> Inl Overrun"
proof (induction n s rule: complete_loop.induct)
  case (1 n s)
  have e: "end_of_line s \<noteq> Inl Overrun" if "s \<noteq> []" using scans_no_overrun[OF scans_end_of_line[OF that]] .
  show ?case
  proof (cases "s = []")
    case False
    then show ?thesis
      using 1[OF False] e unfolding complete_loop.simps[of n s]
      by (cases "end_of_line s") (auto simp: bindP_def split: sum.splits)
  qed (simp add: complete_loop.simps)
qed

lemma is_complete_no_overrun: "last_len \<le> length buf + 3 \<Longrightarrow> is_complete buf last_len \<noteq> Inl Overrun"
  by (simp add: is_complete_def complete_loop_no_overrun)

subsection \<open>Where a message ends\<close>

lemma end_of_line_exact:
  assumes "end_of_line s = Inr ((), r)"
  shows "s = CR # LF # r \<or> s = LF # r"
proof (cases s)
  case (Cons ch s')
  then show ?thesis using assms by (cases s') (auto simp: end_of_line_def split: if_splits)
qed (use assms in \<open>simp add: end_of_line_def\<close>)

lemma get_token_to_eol_ends: "get_token_to_eol sse s = Inr (v, r) \<Longrightarrow> \<exists>u. s = u @ LF # r"
proof -
  assume "get_token_to_eol sse s = Inr (v, r)"
  then obtain x where e: "eol_loop s = Inr (v, x)" and l: "end_of_line x = Inr ((), r)"
    by (auto simp: get_token_to_eol_def find_ctl_loop bindP_eq_Inr)
  from end_of_line_exact[OF l] eol_loop_split[OF e] have "s = (v @ [CR]) @ LF # r \<or> s = v @ LF # r" by auto
  then show ?thesis by blast
qed

lemma parse_header_ends: "parse_header sse first i s = Inr (h, r) \<Longrightarrow> s \<noteq> [] \<Longrightarrow> \<exists>u. s = u @ LF # r"
proof -
  assume "parse_header sse first i s = Inr (h, r)" and s: "s \<noteq> []"
  then obtain name v r' where n: "header_name sse first s = Inr (name, r')" and v: "get_token_to_eol sse r' = Inr (v, r)"
    by (auto simp: parse_header_def bindP_eq_Inr)
  from scans_Inr(2)[OF scans_header_name[OF s] n] get_token_to_eol_ends[OF v] show ?thesis
    by (metis append.assoc)
qed

text \<open>The headers that follow a line end with an empty line.\<close>

lemma parse_headers_ends:
  "parse_headers sse m i hs s = Inr (hs', r) \<Longrightarrow> \<exists>a y. LF # s = a @ LF # y @ r \<and> y \<in> {[LF], [CR, LF]}"
proof (induction sse m i hs s rule: parse_headers.induct)
  case (1 sse m i hs s)
  obtain ch s' where s: "s = ch # s'" using "1.prems" by (cases s) (simp_all add: parse_headers.simps)
  show ?case
  proof (cases "ch = CR \<or> ch = LF")
    case True
    then have "end_of_line s = Inr ((), r)"
      using "1.prems" by (auto simp: s parse_headers.simps bindP_eq_Inr)
    from end_of_line_exact[OF this] have "LF # s = [] @ LF # [CR, LF] @ r \<or> LF # s = [] @ LF # [LF] @ r" by auto
    then show ?thesis by blast
  next
    case False
    then have m: "length hs \<noteq> m" using "1.prems" by (auto simp: s parse_headers.simps)
    then obtain h r' where h: "parse_header sse (hs = []) i s = Inr (h, r')"
      and rec: "parse_headers sse m (snd h) (hs @ [fst h]) r' = Inr (hs', r)"
      using "1.prems" False by (auto simp: s parse_headers.simps[of _ _ _ _ "_ # _"] bindP_eq_Inr)
    from parse_header_ends[OF h] s obtain u where u: "s = u @ LF # r'" by blast
    from "1.IH"[OF s False m h rec] obtain a y where "LF # r' = a @ LF # y @ r" "y \<in> {[LF], [CR, LF]}" by blast
    then have "LF # s = (LF # u @ a) @ LF # y @ r" using u by simp
    then show ?thesis using \<open>y \<in> _\<close> by blast
  qed
qed

lemma request_line_ends: "request_line sse buf = Inr (x, r) \<Longrightarrow> \<exists>u. buf = u @ LF # r"
proof -
  assume l: "request_line sse buf = Inr (x, r)"
  then obtain r1 r2 r3 r4 r5 r6 verb target where b: "(if hd buf = CR \<or> hd buf = LF then end_of_line buf else Inr ((), buf)) = Inr ((), r1)"
    "buf \<noteq> []" and t: "parse_token sse (CHR '' '') r1 = Inr (verb, r2)" and s: "skip_spaces r2 = Inr ((), r3)"
    and p: "advance_token sse r3 = Inr (target, r4)" and s': "skip_spaces r4 = Inr ((), r5)"
    and v: "\<exists>minor. parse_http_version r5 = Inr (minor, r6)" and e: "end_of_line r6 = Inr ((), r)"
    by (auto simp: request_line_def bindP_eq_Inr split: if_split_asm)
  have "buf = [CR, LF] @ r1 \<or> buf = [LF] @ r1 \<or> buf = [] @ r1"
    using b(1) end_of_line_exact[of buf r1] by (cases "hd buf = CR \<or> hd buf = LF") auto
  then have "\<exists>u. buf = u @ r1" by blast
  moreover have "\<exists>u. r1 = u @ r2" using parse_token_split[OF t] by blast
  moreover have "\<exists>u. r2 = u @ r3"
    using scans_Inr(2)[OF scans_skip_spaces s] scans_Inr(1)[OF scans_parse_token t] by blast
  moreover have "\<exists>u. r3 = u @ r4" using scans_Inr(2)[OF scans_advance_token p] by blast
  moreover have "\<exists>u. r4 = u @ r5"
    using scans_Inr(2)[OF scans_skip_spaces s'] scans_Inr(1)[OF scans_advance_token p] by blast
  moreover have "\<exists>u. r5 = u @ r6" using v scans_Inr(2)[OF scans_parse_http_version] by blast
  moreover have "\<exists>u. r6 = u @ LF # r" using end_of_line_exact[OF e] by auto
  ultimately show ?thesis by (metis append.assoc)
qed

lemma status_line_ends: "status_line sse buf = Inr (x, r) \<Longrightarrow> \<exists>u. buf = u @ LF # r"
proof -
  assume l: "status_line sse buf = Inr (x, r)"
  then obtain m1 r1 where v: "parse_http_version buf = Inr (m1, r1)"
    by (auto simp: status_line_def bindP_eq_Inr)
  then obtain ch r2 where r1: "r1 = ch # r2" using l by (cases r1) (simp_all add: status_line_def)
  then obtain r3 status r4 msg where c: "ch = CHR '' ''" and s: "skip_spaces r1 = Inr ((), r3)"
    and i: "status_code r3 = Inr (status, r4)" and m: "get_token_to_eol sse r4 = Inr (msg, r)"
    using l by (auto simp: status_line_def v bindP_eq_Inr split: if_split_asm)
  have "\<exists>u. buf = u @ r1" using scans_Inr(2)[OF scans_parse_http_version v] by blast
  moreover have "\<exists>u. r1 = u @ r3" using scans_Inr(2)[OF scans_skip_spaces s] r1 c by auto
  moreover have "\<exists>u. r3 = u @ r4" using scans_Inr(2)[OF scans_status_code i] by blast
  moreover have "\<exists>u. r4 = u @ LF # r" using get_token_to_eol_ends[OF m] .
  ultimately show ?thesis by (metis append.assoc)
qed

subsection \<open>No byte beyond the message\<close>

text \<open>\<open>exact p s\<close>: what the parser \<open>p\<close> returns on \<open>s\<close> does not depend on the bytes it leaves over.\<close>

definition exact :: "(string \<Rightarrow> 'a parse) \<Rightarrow> string \<Rightarrow> bool" where
  "exact p s \<longleftrightarrow> (\<forall>x r. p s = Inr (x, r) \<longrightarrow> (\<exists>u. s = u @ r \<and> (\<forall>r'. p (u @ r') = Inr (x, r'))))"

lemma exactD: "exact p s \<Longrightarrow> p s = Inr (x, r) \<Longrightarrow> \<exists>u. s = u @ r \<and> (\<forall>r'. p (u @ r') = Inr (x, r'))"
  by (simp add: exact_def)

lemma exact_return: "exact (\<lambda>s. Inr (x, s)) s"
  by (simp add: exact_def)

lemma exact_end_of_line: "exact end_of_line s"
  using end_of_line_exact[of s] by (auto simp: exact_def end_of_line_def)

lemma exact_bind_count:
  assumes "exact p s" and "\<And>x r. p s = Inr (x, r) \<Longrightarrow> exact (q x (length s - length r)) r"
  shows "exact (\<lambda>s. bindP (p s) (\<lambda>x r. q x (length s - length r) r)) s"
  unfolding exact_def
proof (intro allI impI)
  fix z r2
  assume "bindP (p s) (\<lambda>x r. q x (length s - length r) r) = Inr (z, r2)"
  then obtain x r where x: "p s = Inr (x, r)" and z: "q x (length s - length r) r = Inr (z, r2)"
    by (auto simp: bindP_eq_Inr)
  obtain u where u: "s = u @ r" "\<And>r'. p (u @ r') = Inr (x, r')" using exactD[OF assms(1) x] by blast
  obtain w where w: "r = w @ r2" "\<And>r'. q x (length s - length r) (w @ r') = Inr (z, r')"
    using exactD[OF assms(2)[OF x] z] by blast
  have "s = (u @ w) @ r2" "\<And>r'. bindP (p ((u @ w) @ r')) (\<lambda>x r. q x (length ((u @ w) @ r') - length r) r) = Inr (z, r')"
    using u w by simp_all
  then show "\<exists>u. s = u @ r2 \<and> (\<forall>r'. bindP (p (u @ r')) (\<lambda>x r. q x (length (u @ r') - length r) r) = Inr (z, r'))"
    by blast
qed

lemma exact_bind:
  assumes "exact p s" and "\<And>x r. p s = Inr (x, r) \<Longrightarrow> exact (q x) r"
  shows "exact (\<lambda>s. bindP (p s) (\<lambda>x r. q x r)) s"
  using exact_bind_count[of p s "\<lambda>x n. q x"] assms by blast

text \<open>A parser that looks one byte ahead may come first when another one consumes that byte.\<close>

lemma exact_scan_bind_count:
  assumes p: "scans p s Q"
    and q: "\<And>x r. p s = Inr (x, r) \<Longrightarrow> exact (q x (length s - length r)) r"
    and consumes: "\<And>x r n z r2. q x n r = Inr (z, r2) \<Longrightarrow> length r2 < length r"
  shows "exact (\<lambda>s. bindP (p s) (\<lambda>x r. q x (length s - length r) r)) s"
  unfolding exact_def
proof (intro allI impI)
  fix z r2
  assume "bindP (p s) (\<lambda>x r. q x (length s - length r) r) = Inr (z, r2)"
  then obtain x r where x: "p s = Inr (x, r)" and z: "q x (length s - length r) r = Inr (z, r2)"
    by (auto simp: bindP_eq_Inr)
  obtain u where u: "s = u @ r" "\<And>r'. same_start r r' \<Longrightarrow> p (u @ r') = Inr (x, r')"
    using scans_Inr(4)[OF p x] by blast
  obtain w where w: "r = w @ r2" "\<And>r'. q x (length s - length r) (w @ r') = Inr (z, r')"
    using exactD[OF q[OF x] z] by blast
  have "w \<noteq> []" using consumes[OF z] w(1) by auto
  then have "same_start r (w @ r')" for r' by (cases w) (auto simp: w(1))
  then have "s = (u @ w) @ r2" "\<And>r'. bindP (p ((u @ w) @ r')) (\<lambda>x r. q x (length ((u @ w) @ r') - length r) r) = Inr (z, r')"
    using u w by simp_all
  then show "\<exists>u. s = u @ r2 \<and> (\<forall>r'. bindP (p (u @ r')) (\<lambda>x r. q x (length (u @ r') - length r) r) = Inr (z, r'))"
    by blast
qed

lemma exact_scan_bind:
  assumes "scans p s Q" and "\<And>x r. p s = Inr (x, r) \<Longrightarrow> exact (q x) r"
    and "\<And>x r z r2. q x r = Inr (z, r2) \<Longrightarrow> length r2 < length r"
  shows "exact (\<lambda>s. bindP (p s) (\<lambda>x r. q x r)) s"
  using exact_scan_bind_count[of p s Q "\<lambda>x n. q x"] assms by blast

lemma exact_get_token_to_eol: "exact (get_token_to_eol sse) s"
  unfolding get_token_to_eol_def find_ctl_loop
  by (rule exact_scan_bind[OF scans_eol_loop])
    (auto intro!: exact_bind exact_end_of_line exact_return simp: bindP_eq_Inr dest: end_of_line_shorter)

lemma exact_parse_header:
  assumes "s \<noteq> []"
  shows "exact (parse_header sse first i) s"
proof -
  have "exact (\<lambda>s. bindP (header_name sse first s) (\<lambda>name r. (\<lambda>name n r. bindP (get_token_to_eol sse r) (\<lambda>v r'.
      Inr ((\<lparr>h_name = name, h_value = trim_end v, h_off = i + n\<rparr>, i + n + (length r - length r')), r')))
      name (length s - length r) r)) s"
  proof (rule exact_scan_bind_count[OF scans_header_name[OF assms]])
    fix name n r
    show "exact (\<lambda>r. bindP (get_token_to_eol sse r) (\<lambda>v r'.
      Inr ((\<lparr>h_name = name, h_value = trim_end v, h_off = i + n\<rparr>, i + n + (length r - length r')), r'))) r"
      by (rule exact_bind_count[OF exact_get_token_to_eol]) (rule exact_return)
  qed (auto simp: bindP_eq_Inr dest: get_token_to_eol_shorter)
  moreover have "parse_header sse first i = (\<lambda>s. bindP (header_name sse first s) (\<lambda>name r.
      (\<lambda>name n r. bindP (get_token_to_eol sse r) (\<lambda>v r'.
      Inr ((\<lparr>h_name = name, h_value = trim_end v, h_off = i + n\<rparr>, i + n + (length r - length r')), r')))
      name (length s - length r) r))"
    using parse_header_counts by blast
  ultimately show ?thesis by simp
qed

lemma exact_parse_headers: "exact (parse_headers sse m i hs) s"
proof (induction sse m i hs s rule: parse_headers.induct)
  case (1 sse m i hs s)
  have lift: "exact (parse_headers sse m i hs) s"
    if c: "s = ch # s'" and e: "exact p s" and eq: "\<And>z. parse_headers sse m i hs (ch # z) = p (ch # z)" for ch s' p
    unfolding exact_def
  proof (intro allI impI)
    fix x r
    assume a: "parse_headers sse m i hs s = Inr (x, r)"
    then obtain u where u: "s = u @ r" "\<And>r'. p (u @ r') = Inr (x, r')"
      using exactD[OF e, of x r] eq[of s'] c by auto
    moreover have "u \<noteq> []" using parse_headers_shorter[OF a] u(1) by auto
    ultimately show "\<exists>u. s = u @ r \<and> (\<forall>r'. parse_headers sse m i hs (u @ r') = Inr (x, r'))"
      using eq c by (cases u) auto
  qed
  show ?case
  proof (cases s)
    case Nil
    then show ?thesis by (simp add: exact_def parse_headers.simps)
  next
    case (Cons ch s')
    consider "ch = CR \<or> ch = LF" | "\<not> (ch = CR \<or> ch = LF)" "length hs = m" | "\<not> (ch = CR \<or> ch = LF)" "length hs \<noteq> m"
      by blast
    then show ?thesis
    proof cases
      case 1
      then show ?thesis
        by (intro lift[OF Cons exact_bind[OF exact_end_of_line exact_return]])
          (auto simp: parse_headers.simps[of sse m i hs])
    next
      case 2
      then show ?thesis
        by (intro lift[OF Cons, of "\<lambda>s. Inl Bad"]) (auto simp: exact_def parse_headers.simps[of sse m i hs])
    next
      case 3
      have "exact (\<lambda>s. bindP (parse_header sse (hs = []) i s)
          (\<lambda>h r. parse_headers sse m (snd h) (hs @ [fst h]) r)) s"
        by (rule exact_bind[OF exact_parse_header]) (simp add: Cons, rule "1.IH"[OF Cons 3])
      then show ?thesis by (rule lift[OF Cons]) (use 3 in \<open>auto simp: parse_headers.simps[of sse m i hs]\<close>)
    qed
  qed
qed

lemma exact_after_line:
  assumes line: "scans line buf Q"
  shows "exact (\<lambda>buf. bindP (line buf) (\<lambda>x r.
    bindP (parse_headers sse m (length buf - length r) [] r) (\<lambda>hs r. Inr (f x hs, r)))) buf"
  by (rule exact_scan_bind_count[OF line, where q = "\<lambda>x n r. bindP (parse_headers sse m n [] r) (\<lambda>hs r. Inr (f x hs, r))"])
    (auto intro!: exact_bind exact_parse_headers exact_return simp: bindP_eq_Inr dest: parse_headers_shorter)

lemma exact_parse_request: "exact (parse_request sse m) buf"
proof -
  let ?f = "\<lambda>line hs. case line of (verb, target, minor) \<Rightarrow>
      \<lparr>rq_method = verb, rq_path = target, rq_minor = minor, rq_headers = hs\<rparr>"
  have "parse_request sse m = (\<lambda>buf. bindP (request_line sse buf) (\<lambda>line r.
      bindP (parse_headers sse m (length buf - length r) [] r) (\<lambda>hs r. Inr (?f line hs, r))))"
    by (auto simp: parse_request_def fun_eq_iff split_def)
  then show ?thesis using exact_after_line[OF scans_request_line, of sse sse m ?f] by simp
qed

lemma exact_parse_response: "exact (parse_response sse m) buf"
proof -
  let ?f = "\<lambda>line hs. case line of (minor, status, msg) \<Rightarrow>
      \<lparr>rs_minor = minor, rs_status = status, rs_msg = msg, rs_headers = hs\<rparr>"
  have "parse_response sse m = (\<lambda>buf. bindP (status_line sse buf) (\<lambda>line r.
      bindP (parse_headers sse m (length buf - length r) [] r) (\<lambda>hs r. Inr (?f line hs, r))))"
    by (auto simp: parse_response_def fun_eq_iff split_def)
  then show ?thesis using exact_after_line[OF scans_status_line, of sse sse m ?f] by simp
qed

text \<open>\<open>is_complete\<close> finds the end of a message from any place before its last four bytes.\<close>

lemma complete_loop_eol:
  assumes "end_of_line s = Inr ((), r)"
  shows "complete_loop n s = (if n = 1 then Inr ((), r) else complete_loop (n + 1) r)"
proof -
  have "s \<noteq> []" "hd s = CR \<or> hd s = LF" using end_of_line_exact[OF assms] by auto
  then show ?thesis using assms by (simp add: complete_loop.simps[of n s])
qed

lemma complete_loop_last:
  assumes "y \<in> {[LF], [CR, LF]}"
  shows "complete_loop 1 (y @ r) = Inr ((), r)"
  using assms by (auto simp: complete_loop_eol end_of_line_def)

lemma complete_loop_stops:
  assumes y: "y \<in> {[LF], [CR, LF]}" and "crlf_ok (a @ LF # y)" and "n \<le> 1"
  shows "\<exists>r'. complete_loop n (a @ LF # y @ r) = Inr ((), r')"
  using assms(2,3)
proof (induction a arbitrary: n rule: length_induct)
  case (1 a)
  have count: "\<exists>r'. complete_loop n (u @ r) = Inr ((), r')"
    if "end_of_line (u @ r) = Inr ((), v @ r)" "\<exists>r'. complete_loop 1 (v @ r) = Inr ((), r')" for u v
    using that "1.prems"(2) by (cases "n = 0") (auto simp: complete_loop_eol)
  show ?case
  proof (cases a)
    case Nil
    then show ?thesis
      using count[of "LF # y" y] complete_loop_last[OF y] by (auto simp: end_of_line_def)
  next
    case (Cons ch b)
    consider "ch = CR" | "ch = LF" | "ch \<noteq> CR" "ch \<noteq> LF" by blast
    then show ?thesis
    proof cases
      case 1
      show ?thesis
      proof (cases b)
        case Nil
        then show ?thesis
          using count[of "CR # LF # y" y] complete_loop_last[OF y] by (auto simp: Cons 1 end_of_line_def)
      next
        case b: (Cons ch' c)
        with "1.prems" Cons 1 have "ch' = LF" "crlf_ok (c @ LF # y)" by simp_all
        then show ?thesis
          using "1.IH"[rule_format, of c 1] count[of "a @ LF # y" "c @ LF # y"] by (auto simp: Cons b 1 end_of_line_def)
      qed
    next
      case 2
      then show ?thesis
        using "1.IH"[rule_format, of b 1] count[of "a @ LF # y" "b @ LF # y"] "1.prems"(1) by (auto simp: Cons end_of_line_def)
    next
      case 3
      then show ?thesis
        using "1.IH"[rule_format, of b 0] "1.prems"(1) by (simp add: Cons complete_loop.simps[of n "_ # _"])
    qed
  qed
qed

lemma crlf_ok_drop: "crlf_ok u \<Longrightarrow> crlf_ok (drop n u)"
proof (induction u arbitrary: n)
  case (Cons ch u)
  then show ?case by (cases n) auto
qed simp

lemma is_complete_found:
  assumes u: "crlf_ok u" "u = a @ LF # y" "y \<in> {[LF], [CR, LF]}" and k: "k < length u"
  shows "\<exists>r'. is_complete (u @ r) k = Inr ((), r')"
proof -
  let ?j = "if k < 3 then 0 else k - 3"
  have "length y \<le> 2" using u(3) by auto
  then have "?j \<le> length a" using k u(2) by auto
  then have "drop ?j u = drop ?j a @ LF # y" unfolding u(2) by simp
  then have "\<exists>b. crlf_ok (b @ LF # y) \<and> drop ?j u = b @ LF # y" using crlf_ok_drop[OF u(1), of ?j] by auto
  then obtain b where b: "crlf_ok (b @ LF # y)" "drop ?j u = b @ LF # y" by blast
  have "is_complete (u @ r) k = complete_loop 0 (drop ?j u @ r)" using k by (auto simp: is_complete_def)
  then show ?thesis using complete_loop_stops[OF u(3) b(1), of 0 r] b(2) by simp
qed

lemma complete_loop_not_bad: "crlf_ok (s @ z) \<Longrightarrow> complete_loop n s \<noteq> Inl Bad"
proof (induction n s rule: complete_loop.induct)
  case (1 n s)
  show ?case
  proof (cases "s = []")
    case False
    then obtain ch s' where s: "s = ch # s'" by (cases s) auto
    have e: "end_of_line s \<noteq> Inl Bad \<and> (\<forall>r. end_of_line s = Inr ((), r) \<longrightarrow> crlf_ok (r @ z))" if "ch = CR \<or> ch = LF"
      using that "1.prems" by (cases s') (auto simp: s end_of_line_def)
    show ?thesis
    proof (cases "ch = CR \<or> ch = LF")
      case True
      show ?thesis
      proof (cases "end_of_line s")
        case (Inl err)
        then show ?thesis using e[OF True] True by (simp add: s complete_loop.simps[of n "_ # _"])
      next
        case (Inr y)
        then obtain r where r: "end_of_line s = Inr ((), r)" by (cases y) auto
        then have "crlf_ok (r @ z)" using e[OF True] by blast
        then have "complete_loop (n + 1) r \<noteq> Inl Bad" if "n \<noteq> 1"
          using "1.IH"[OF False, of "n + 1" r] r True that by (auto simp: s)
        then show ?thesis using complete_loop_eol[OF r, of n] by simp
      qed
    next
      case c: False
      have "complete_loop 0 s' \<noteq> Inl Bad" using "1.IH"[OF False, of 0 s'] "1.prems" c by (auto simp: s)
      then show ?thesis using c by (simp add: s complete_loop.simps[of n "_ # _"])
    qed
  qed (simp add: complete_loop.simps)
qed

lemma is_complete_not_bad: "crlf_ok (buf @ z) \<Longrightarrow> is_complete buf k \<noteq> Inl Bad"
proof (cases "k - 3 \<le> length buf")
  case True
  assume "crlf_ok (buf @ z)"
  then have "crlf_ok (drop (k - 3) buf @ z)" using crlf_ok_drop[of "buf @ z" "k - 3"] True by simp
  then have "complete_loop 0 (drop (k - 3) buf) \<noteq> Inl Bad" by (rule complete_loop_not_bad)
  then show ?thesis by (cases "k < 3") (auto simp: is_complete_def)
next
  case False
  then have "\<not> k < 3" "drop (k - 3) buf = []" by simp_all
  then show ?thesis by (simp add: is_complete_def complete_loop.simps[of 0 "[]"])
qed

subsection \<open>Parsers of messages\<close>

text \<open>
  What the interface functions need of a parser, and what a message adds: it ends with an empty line.
\<close>

locale scanner =
  fixes parser :: "string \<Rightarrow> 'a parse"
  assumes scans: "scans parser s (\<lambda>_ _. True)"
    and consumes: "parser s = Inr (x, r) \<Longrightarrow> length r < length s"
begin

lemma answer_cases:
  obtains (eof) "phr_parse parser buf last_len = ret (-2, None)"
  | (bad) "phr_parse parser buf last_len = ret (-1, None)"
  | (parsed) x r where "parser buf = Inr (x, r)"
      "phr_parse parser buf last_len = ret (int (length buf - length r), Some x)"
  | (outside) "phr_parse parser buf last_len = crashed OutOfBounds" "length buf + 3 < last_len"
proof (cases "last_len \<noteq> 0 \<and> (\<exists>e. is_complete buf last_len = Inl e)")
  case True
  then obtain e where e: "is_complete buf last_len = Inl e" "last_len \<noteq> 0" by blast
  then have r: "phr_parse parser buf last_len = report buf (Inl e)" by (simp add: phr_parse_def)
  show ?thesis
  proof (cases e)
    case Overrun
    then have "length buf + 3 < last_len" using e(1) is_complete_no_overrun[of last_len buf] by (meson not_le)
    then show ?thesis by (intro outside) (use r Overrun in \<open>simp_all add: report_def\<close>)
  qed (use eof bad r in \<open>simp_all add: report_def\<close>)
next
  case False
  then have r: "phr_parse parser buf last_len = report buf (parser buf)"
    by (cases "is_complete buf last_len") (auto simp: phr_parse_def)
  show ?thesis
  proof (cases "parser buf")
    case (Inl e)
    then show ?thesis
      using eof bad r scans_no_overrun[OF scans, of buf] by (cases e) (auto simp: report_def)
  next
    case (Inr z)
    then show ?thesis using parsed r by (cases z) (auto simp: report_def)
  qed
qed

lemma answer_outside: "length buf + 3 < last_len \<Longrightarrow> phr_parse parser buf last_len = crashed OutOfBounds"
  by (simp add: phr_parse_def is_complete_def report_def)

lemma answer_range:
  assumes "phr_parse parser buf last_len = ret (n, q)"
  shows "q = None \<and> (n = -1 \<or> n = -2) \<or> (\<exists>x. q = Some x \<and> 0 < n \<and> n \<le> int (length buf))"
  by (cases rule: answer_cases[of buf last_len]) (use assms consumes in fastforce)+

lemma answer_Some:
  assumes "phr_parse parser buf last_len = ret (n, Some x)"
  obtains r where "parser buf = Inr (x, r)" "n = int (length buf - length r)"
  by (cases rule: answer_cases[of buf last_len]) (use assms that in auto)

lemma answer_first: "phr_parse parser buf 0 = report buf (parser buf)"
  by (simp add: phr_parse_def)

lemma answer_of_parsed: "parser buf = Inr (x, r) \<Longrightarrow> phr_parse parser buf 0 = ret (int (length buf - length r), Some x)"
  by (simp add: answer_first report_def)

lemma answer_longer:
  assumes "phr_parse parser buf 0 = ret (n, q)" and "n \<noteq> -2"
  shows "phr_parse parser (buf @ t) 0 = ret (n, q)"
proof (cases "parser buf")
  case (Inl e)
  then have "e = Bad" using assms by (cases e) (auto simp: answer_first report_def)
  then show ?thesis using assms(1) Inl scans_Bad[OF scans, of buf t] by (simp add: answer_first report_def)
next
  case (Inr z)
  then obtain x r where x: "parser buf = Inr (x, r)" by (cases z) auto
  then have "n = int (length buf - length r)" "q = Some x" using assms(1) by (auto simp: answer_first report_def)
  moreover obtain u where "buf = u @ r" using scans_Inr(2)[OF scans x] by blast
  ultimately show ?thesis using answer_of_parsed[OF scans_Inr(3)[OF scans x, of t]] by simp
qed

lemma answer_shorter:
  assumes "phr_parse parser buf 0 = ret (n, Some x)" and "int k < n"
  shows "phr_parse parser (take k buf) 0 = ret (-2, None)"
proof -
  obtain m q where a: "phr_parse parser (take k buf) 0 = ret (m, q)"
    by (cases rule: answer_cases[of "take k buf" 0]) auto
  have "m = -2"
  proof (rule ccontr)
    assume "m \<noteq> -2"
    from answer_longer[OF a this, of "drop k buf"] assms(1) have "m = n" "q = Some x" by auto
    with answer_range[OF a] assms(2) show False by simp
  qed
  with answer_range[OF a] a show ?thesis by auto
qed

end

locale message_parser = scanner +
  assumes blank_line: "parser s = Inr (x, r) \<Longrightarrow> \<exists>a y. s = a @ LF # y @ r \<and> y \<in> {[LF], [CR, LF]}"
    and no_lookahead: "exact parser s"
begin

text \<open>The answer to the whole input is given as soon as the message is there.\<close>

lemma answer_prefix:
  assumes "phr_parse parser (buf @ t) 0 = ret (n, Some x)" and "n \<le> int (length buf)"
  shows "phr_parse parser buf 0 = ret (n, Some x)"
proof -
  obtain r where r: "parser (buf @ t) = Inr (x, r)" "n = int (length (buf @ t) - length r)"
    using answer_Some[OF assms(1)] .
  obtain u where u: "buf @ t = u @ r" "\<And>r'. parser (u @ r') = Inr (x, r')" using exactD[OF no_lookahead r(1)] by blast
  then have l: "n = int (length u)" using r(2) by simp
  then obtain z where z: "buf = u @ z" using u(1) assms(2) by (auto simp: append_eq_append_conv2)
  show ?thesis using answer_of_parsed[of buf x z] u(2)[of z] z l by simp
qed

text \<open>The check of \<open>is_complete\<close> changes nothing for a message that reaches beyond \<open>last_len\<close>.\<close>

lemma answer_resumed:
  assumes "phr_parse parser buf 0 = ret (n, Some x)" and "int last_len < n"
  shows "phr_parse parser buf last_len = ret (n, Some x)"
proof -
  obtain r where r: "parser buf = Inr (x, r)" "n = int (length buf - length r)" using answer_Some[OF assms(1)] .
  obtain u where u: "crlf_ok u" "buf = u @ r" using scans_Inr(2)[OF scans r(1)] by blast
  obtain a y where y: "buf = a @ LF # y @ r" "y \<in> {[LF], [CR, LF]}" using blank_line[OF r(1)] by blast
  from u(2) y(1) have "u = a @ LF # y" by simp
  from is_complete_found[OF u(1) this y(2), of last_len r] obtain r' where "is_complete buf last_len = Inr ((), r')"
    using assms(2) r(2) u(2) by auto
  then have "phr_parse parser buf last_len = report buf (parser buf)" by (auto simp: phr_parse_def)
  then show ?thesis using assms(1) answer_first[of buf] by simp
qed

text \<open>A buffer that does not yet hold the whole message is incomplete for the resumed parser too.\<close>

lemma answer_incomplete:
  assumes "phr_parse parser (buf @ t) 0 = ret (n, Some x)" and short: "int (length buf) < n" and "k \<le> length buf + 3"
  shows "phr_parse parser buf k = ret (-2, None)"
proof -
  obtain r where r: "parser (buf @ t) = Inr (x, r)" "n = int (length (buf @ t) - length r)"
    using answer_Some[OF assms(1)] .
  obtain u where u: "crlf_ok u" "buf @ t = u @ r" using scans_Inr(2)[OF scans r(1)] by blast
  then have "length buf < length u" using r(2) short by simp
  then obtain z where "u = buf @ z" using u(2) by (auto simp: append_eq_append_conv2)
  then have c: "is_complete buf k \<noteq> Inl Bad" using u(1) is_complete_not_bad by blast
  have "phr_parse parser buf 0 = ret (-2, None)" using answer_shorter[OF assms(1) short] by simp
  then have "parser buf = Inl Eof"
    by (cases "parser buf") (auto simp: answer_first report_def split: perr.splits)
  then show ?thesis
    using c is_complete_no_overrun[OF assms(3)]
    by (cases "is_complete buf k") (auto simp: phr_parse_def report_def split: perr.splits)
qed

lemma answer_unresumed:
  assumes "phr_parse parser buf last_len = ret (n, Some x)"
  shows "phr_parse parser buf 0 = ret (n, Some x)"
  using answer_Some[OF assms] answer_of_parsed by metis

end

interpretation requests: message_parser "parse_request sse m" for sse m
proof
  fix s x r
  show "scans (parse_request sse m) s (\<lambda>_ _. True)" by (rule scans_parse_request)
  assume p: "parse_request sse m s = Inr (x, r)"
  show "length r < length s" using parse_request_ok(2)[OF p] .
  from p obtain y hs r' where "request_line sse s = Inr (y, r')" "parse_headers sse m (length s - length r') [] r' = Inr (hs, r)"
    by (auto simp: parse_request_def bindP_eq_Inr split: prod.splits)
  from request_line_ends[OF this(1)] parse_headers_ends[OF this(2)]
  show "\<exists>a y. s = a @ LF # y @ r \<and> y \<in> {[LF], [CR, LF]}" by (metis append.assoc)
qed (rule exact_parse_request)

interpretation responses: message_parser "parse_response sse m" for sse m
proof
  fix s x r
  show "scans (parse_response sse m) s (\<lambda>_ _. True)" by (rule scans_parse_response)
  assume p: "parse_response sse m s = Inr (x, r)"
  show "length r < length s" using parse_response_ok(2)[OF p] .
  from p obtain y hs r' where "status_line sse s = Inr (y, r')" "parse_headers sse m (length s - length r') [] r' = Inr (hs, r)"
    by (auto simp: parse_response_def bindP_eq_Inr split: prod.splits)
  from status_line_ends[OF this(1)] parse_headers_ends[OF this(2)]
  show "\<exists>a y. s = a @ LF # y @ r \<and> y \<in> {[LF], [CR, LF]}" by (metis append.assoc)
qed (rule exact_parse_response)

interpretation header_sections: scanner "parse_headers sse m 0 []" for sse m
  by unfold_locales (rule scans_parse_headers, erule parse_headers_shorter)

end
