(* ===== verification/PicohttpProps.thy ===== *)
theory PicohttpProps
  imports PicohttpScan
begin

section \<open>Properties of the HTTP parser\<close>

text \<open>
  What is printed is parsed back, and the properties of the interface functions on any bytes.
\<close>

subsection \<open>Printing a request\<close>

fun print_header :: "string \<times> string \<Rightarrow> string" where
  "print_header (name, v) = name @ '': '' @ v @ [CR, LF]"

definition print_headers :: "(string \<times> string) list \<Rightarrow> string" where
  "print_headers fs = concat (map print_header fs) @ [CR, LF]"

definition print_request :: "string \<Rightarrow> string \<Rightarrow> nat \<Rightarrow> (string \<times> string) list \<Rightarrow> string" where
  "print_request verb target minor fs =
     verb @ '' '' @ target @ '' HTTP/1.'' @ [char_of (48 + minor)] @ [CR, LF] @ print_headers fs"

definition field_ok :: "string \<times> string \<Rightarrow> bool" where
  "field_ok f \<longleftrightarrow> fst f \<noteq> [] \<and> list_all token_char (fst f) \<and> \<not> list_ex ctl (snd f) \<and>
     (snd f = [] \<or> \<not> blank (hd (snd f)) \<and> \<not> blank (last (snd f)))"

lemma token_char_not [simp]: "\<not> token_char (CHR '' '')" "\<not> token_char (CHR '':'')" "\<not> token_char LF"
  by (simp_all add: token_char_iff)

lemma token_loop_exact:
  assumes "list_all token_char u" and "\<not> token_char n"
  shows "token_loop n (u @ n # r) = Inr (u, n # r)"
  using token_loop_append[of u n "n # r"] assms by (auto simp: list_all_iff)

lemma advance_loop_exact: "list_all path_char u \<Longrightarrow> advance_loop (u @ CHR '' '' # r) = Inr (u, CHR '' '' # r)"
  using advance_loop_append[of u "CHR '' '' # r"] by (auto simp: list_all_iff advance_loop_step)

lemma skip_blanks_exact: "v = [] \<or> \<not> blank (hd v) \<Longrightarrow> skip_blanks (v @ CR # r) = Inr ((), v @ CR # r)"
  by (cases v) auto

lemma get_token_to_eol_exact:
  assumes "\<not> list_ex ctl v"
  shows "get_token_to_eol sse (v @ CR # LF # r) = Inr (v, r)"
  using eol_loop_append[of v "CR # LF # r"] assms
  by (simp add: get_token_to_eol_def find_ctl_loop end_of_line_def list_ex_iff)

lemma trim_end_exact: "v = [] \<or> \<not> blank (last v) \<Longrightarrow> trim_end v = v"
  by (cases v rule: rev_cases) (auto simp: trim_end_def)

text \<open>The headers a parser finds when the first line begins at the place \<open>i\<close> of the buffer.\<close>

fun placed :: "nat \<Rightarrow> (string \<times> string) list \<Rightarrow> phr_header list" where
  "placed i [] = []"
| "placed i ((name, v) # fs) = \<lparr>h_name = Some name, h_value = v, h_off = i + length name + 2\<rparr> #
     placed (i + length name + length v + 4) fs"

lemma parse_header_exact:
  assumes "field_ok (name, v)"
  shows "parse_header sse first i (print_header (name, v) @ r) =
    Inr ((\<lparr>h_name = Some name, h_value = v, h_off = i + length name + 2\<rparr>, i + length name + length v + 4), r)"
proof -
  have n: "name \<noteq> []" "list_all token_char name" and v: "\<not> list_ex ctl v" "v = [] \<or> \<not> blank (hd v)" "v = [] \<or> \<not> blank (last v)"
    using assms by (auto simp: field_ok_def)
  then have "token_char (hd name)" by (cases name) auto
  then have b: "\<not> blank (hd (print_header (name, v) @ r))" using n by (cases name) (auto simp: blank_def token_char_iff)
  have "header_name sse first (print_header (name, v) @ r) = Inr (Some name, v @ CR # LF # r)"
    using token_loop_exact[OF n(2) token_char_not(2), of "CHR '' '' # v @ CR # LF # r"] n(1) b
      skip_blanks_exact[OF v(2), of "LF # r"]
    by (simp add: header_name_def parse_token_loop blank_def)
  then show ?thesis
    using get_token_to_eol_exact[OF v(1), of sse r] trim_end_exact[OF v(3)] by (simp add: parse_header_def)
qed

lemma parse_headers_exact:
  assumes "list_all field_ok fs" and "length hs + length fs \<le> m"
  shows "parse_headers sse m i hs (print_headers fs @ r) = Inr (hs @ placed i fs, r)"
  using assms
proof (induction i fs arbitrary: hs rule: placed.induct)
  case (1 i)
  then show ?case by (simp add: print_headers_def parse_headers.simps end_of_line_def)
next
  case (2 i name v fs)
  let ?rest = "print_headers fs @ r" and ?h = "\<lparr>h_name = Some name, h_value = v, h_off = i + length name + 2\<rparr>"
  obtain ch name' where n: "name = ch # name'" "token_char ch"
    using "2.prems"(1) by (cases name) (auto simp: field_ok_def)
  then have ch: "ch \<noteq> CR" "ch \<noteq> LF" using CR_class(3) token_char_not(3) by metis+
  have "parse_header sse (hs = []) i (print_header (name, v) @ ?rest) =
      Inr ((?h, i + length name + length v + 4), ?rest)"
    using parse_header_exact "2.prems"(1) by simp
  moreover have "parse_headers sse m (i + length name + length v + 4) (hs @ [?h]) ?rest =
      Inr ((hs @ [?h]) @ placed (i + length name + length v + 4) fs, r)"
    using "2.IH"[of "hs @ [?h]"] "2.prems" by simp
  moreover have "print_headers ((name, v) # fs) @ r = print_header (name, v) @ ?rest" by (simp add: print_headers_def)
  moreover have "print_header (name, v) @ ?rest = ch # name' @ '': '' @ v @ [CR, LF] @ ?rest" by (simp add: n(1))
  ultimately show ?case using ch "2.prems"(2) by (simp add: parse_headers.simps[of sse m i hs])
qed

lemma request_line_exact:
  assumes "verb \<noteq> []" "list_all token_char verb" "target \<noteq> []" "list_all path_char target" "minor \<le> 9"
  shows "request_line sse (verb @ '' '' @ target @ '' HTTP/1.'' @ [char_of (48 + minor)] @ [CR, LF] @ r) =
    Inr ((verb, target, int minor), r)"
proof -
  obtain ch m' where m: "verb = ch # m'" "token_char ch" using assms(1,2) by (cases verb) auto
  then have ch: "ch \<noteq> CR" "ch \<noteq> LF" using CR_class(3) token_char_not(3) by metis+
  obtain p target' where p: "target = p # target'" "p \<noteq> CHR '' ''"
    using assms(3,4) path_char_not_space by (cases target) auto
  let ?v = "''HTTP/1.'' @ [char_of (48 + minor)] @ [CR, LF] @ r"
  have c: "code (char_of (48 + minor)) = 48 + minor" using assms(5) by simp
  moreover have "(of_char (char_of (48 + minor)) :: int) = 48 + int minor"
    using c of_nat_of_char[of "char_of (48 + minor)", where 'a = int] by simp
  ultimately have v: "parse_http_version ?v = Inr (int minor, CR # LF # r)"
    using assms(5) by (simp add: parse_http_version_def parse_int_def is_digit_def)
  have "parse_token sse (CHR '' '') (verb @ CHR '' '' # target @ CHR '' '' # ?v) = Inr (verb, CHR '' '' # target @ CHR '' '' # ?v)"
    using token_loop_exact[OF assms(2) token_char_not(1)] assms(1) by (simp add: parse_token_loop)
  moreover have "skip_spaces (CHR '' '' # target @ CHR '' '' # ?v) = Inr ((), target @ CHR '' '' # ?v)" using p by simp
  moreover have "advance_token sse (target @ CHR '' '' # ?v) = Inr (target, CHR '' '' # ?v)"
    using advance_loop_exact[OF assms(4)] by (simp add: advance_token_loop)
  moreover have "skip_spaces (CHR '' '' # ?v) = Inr ((), ?v)" by simp
  moreover have "end_of_line (CR # LF # r) = Inr ((), r)" by (simp add: end_of_line_def)
  ultimately show ?thesis
    using v ch m(1) assms(1,3) by (simp add: request_line_def)
qed

lemma parse_request_printed:
  assumes "verb \<noteq> []" "list_all token_char verb" "target \<noteq> []" "list_all path_char target" "minor \<le> 9"
    and "list_all field_ok fs" "length fs \<le> m"
  shows "parse_request sse m (print_request verb target minor fs @ body) =
      Inr (\<lparr>rq_method = verb, rq_path = target, rq_minor = int minor,
        rq_headers = placed (length verb + length target + 12) fs\<rparr>, body)"
proof -
  let ?r = "print_headers fs @ body"
  have "parse_headers sse m (length verb + length target + 12) [] ?r =
      Inr (placed (length verb + length target + 12) fs, body)"
    using parse_headers_exact[of fs "[]" m sse "length verb + length target + 12" body] assms(6,7) by simp
  moreover have "request_line sse (print_request verb target minor fs @ body) = Inr ((verb, target, int minor), ?r)"
    using request_line_exact[OF assms(1-5), of sse ?r] by (simp add: print_request_def)
  moreover have "length (print_request verb target minor fs @ body) - length ?r = length verb + length target + 12"
    by (simp add: print_request_def)
  ultimately show ?thesis by (simp add: parse_request_def)
qed

definition print_response :: "nat \<Rightarrow> nat \<Rightarrow> string \<Rightarrow> (string \<times> string) list \<Rightarrow> string" where
  "print_response minor status msg fs = ''HTTP/1.'' @ [char_of (48 + minor)] @ '' '' @
     [char_of (48 + status div 100), char_of (48 + status div 10 mod 10), char_of (48 + status mod 10)] @ '' '' @
     msg @ [CR, LF] @ print_headers fs"

definition message_ok :: "string \<Rightarrow> bool" where
  "message_ok msg \<longleftrightarrow> \<not> list_ex ctl msg \<and> (msg = [] \<or> hd msg \<noteq> CHR '' '')"

lemma parse_int_exact: "n \<le> 9 \<Longrightarrow> parse_int k (char_of (48 + n) # s) = Inr (k * int n, s)"
proof -
  assume n: "n \<le> 9"
  have "code (char_of (48 + n)) = 48 + n" using n by simp
  moreover from this have "(of_char (char_of (48 + n)) :: int) = 48 + int n"
    using of_nat_of_char[of "char_of (48 + n)", where 'a = int] by simp
  ultimately show ?thesis using n by (simp add: parse_int_def is_digit_def)
qed

lemma status_line_exact:
  assumes "minor \<le> 9" "status \<le> 999" "message_ok msg"
  shows "status_line sse (''HTTP/1.'' @ [char_of (48 + minor)] @ '' '' @
     [char_of (48 + status div 100), char_of (48 + status div 10 mod 10), char_of (48 + status mod 10)] @ '' '' @
     msg @ [CR, LF] @ r) = Inr ((int minor, int status, msg), r)"
proof -
  let ?d = "[char_of (48 + status div 100), char_of (48 + status div 10 mod 10), char_of (48 + status mod 10)]"
  let ?m = "CHR '' '' # msg @ [CR, LF] @ r"
  have "parse_http_version (''HTTP/1.'' @ char_of (48 + minor) # CHR '' '' # ?d @ ?m) = Inr (int minor, CHR '' '' # ?d @ ?m)"
    using parse_int_exact[OF assms(1), of 1] by (simp add: parse_http_version_def)
  moreover have "char_of (48 + status div 100) \<noteq> CHR '' ''"
    using assms(2) by (simp add: char_codes)
  then have "skip_spaces (CHR '' '' # ?d @ ?m) = Inr ((), ?d @ ?m)" by simp
  moreover have "status_code (?d @ ?m) = Inr (int status, ?m)"
  proof -
    have "status div 100 = status div 10 div 10" by (simp add: div_mult2_eq[of status 10 10, simplified])
    then have "100 * (status div 100) + 10 * (status div 10 mod 10) + status mod 10 = status"
      using div_mult_mod_eq[of status 10] div_mult_mod_eq[of "status div 10" 10] by linarith
    moreover have s: "status div 100 \<le> 9" "status div 10 mod 10 \<le> 9" "status mod 10 \<le> 9"
      using assms(2) by simp_all
    ultimately have "int status = 100 * int (status div 100) + 10 * int (status div 10 mod 10) + int (status mod 10)"
      by linarith
    then show ?thesis by (simp add: status_code_def parse_int_3_def parse_int_exact s(1-3))
  qed
  moreover have "get_token_to_eol sse ?m = Inr (CHR '' '' # msg, r)"
    using get_token_to_eol_exact[of "CHR '' '' # msg" sse r] assms(3) by (simp add: message_ok_def ctl_code)
  moreover have "dropWhile (\<lambda>ch. ch = CHR '' '') (CHR '' '' # msg) = msg"
    using assms(3) by (cases msg) (auto simp: message_ok_def)
  ultimately show ?thesis by (simp add: status_line_def)
qed

lemma parse_response_printed:
  assumes "minor \<le> 9" "status \<le> 999" "message_ok msg" and "list_all field_ok fs" "length fs \<le> m"
  shows "parse_response sse m (print_response minor status msg fs @ body) =
      Inr (\<lparr>rs_minor = int minor, rs_status = int status, rs_msg = msg,
        rs_headers = placed (length msg + 15) fs\<rparr>, body)"
proof -
  let ?r = "print_headers fs @ body"
  have "parse_headers sse m (length msg + 15) [] ?r = Inr (placed (length msg + 15) fs, body)"
    using parse_headers_exact[of fs "[]" m sse "length msg + 15" body] assms(4,5) by simp
  moreover have "status_line sse (print_response minor status msg fs @ body) = Inr ((int minor, int status, msg), ?r)"
    using status_line_exact[OF assms(1-3), of sse ?r] by (simp add: print_response_def)
  moreover have "length (print_response minor status msg fs @ body) - length ?r = length msg + 15"
    by (simp add: print_response_def)
  ultimately show ?thesis by (simp add: parse_response_def)
qed

text \<open>A request with a \<open>Host\<close> header.\<close>

definition demo_text :: string where
  "demo_text = print_request ''GET'' ''/a'' 1 [(''hOSt'', ''h'')]"

lemma demo_text_length: "length demo_text = 28"
  by (simp add: demo_text_def print_request_def print_headers_def)

definition demo_request :: request where
  "demo_request = \<lparr>rq_method = ''GET'', rq_path = ''/a'', rq_minor = 1,
     rq_headers = [\<lparr>h_name = Some ''hOSt'', h_value = ''h'', h_off = 23\<rparr>]\<rparr>"

lemma demo_parsed: "parse_request False 128 (demo_text @ t) = Inr (demo_request, t)"
  using parse_request_printed[of "''GET''" "''/a''" 1 "[(''hOSt'', ''h'')]" 128 False t]
  by (simp add: demo_text_def demo_request_def field_ok_def token_char_iff ctl_code blank_def path_char_def)

subsection \<open>The properties\<close>

text \<open>C31:
  Compiled with or without the SSE instructions and the loop by eight, the parsers of requests, responses and
  headers give the same answer on every input.
\<close>

theorem fast_paths_agree:
  "phr_parse_request True m buf last_len = phr_parse_request False m buf last_len \<and>
   phr_parse_response True m buf last_len = phr_parse_response False m buf last_len \<and>
   phr_parse_headers True m buf last_len = phr_parse_headers False m buf last_len"
  using parse_request_sse[of True m] parse_response_sse[of True m] parse_headers_sse[of True m]
  by (simp add: phr_parse_request_def phr_parse_response_def phr_parse_headers_def phr_parse_def)

text \<open>C7:
  On any bytes, told that at most three bytes more than these were there before, the parsers of requests and responses
  read nothing outside of the buffer and answer -1, -2 or the length of a message inside the buffer, of which every part
  is proper: tokens, a printable target, numbers in range, at most \<open>m\<close> headers, and values that are slices of the
  message without control characters and trailing blanks. A greater \<open>last_len\<close> makes both read outside of it.
\<close>

theorem phr_parsers_stay_inside:
  "if last_len \<le> length buf + 3 then
     \<exists>n q n' p. phr_parse_request sse m buf last_len = ret (n, q) \<and> phr_parse_response sse m buf last_len = ret (n', p) \<and>
       (case q of None \<Rightarrow> n \<in> {-1, -2}
        | Some x \<Rightarrow> 0 < n \<and> n \<le> int (length buf) \<and> request_ok m buf (nat n) x) \<and>
       (case p of None \<Rightarrow> n' \<in> {-1, -2}
        | Some x \<Rightarrow> 0 < n' \<and> n' \<le> int (length buf) \<and> response_ok m buf (nat n') x)
   else phr_parse_request sse m buf last_len = crashed OutOfBounds \<and> phr_parse_response sse m buf last_len = crashed OutOfBounds"
proof (cases "last_len \<le> length buf + 3")
  case False
  then show ?thesis
    using requests.answer_outside responses.answer_outside
    by (simp add: phr_parse_request_def phr_parse_response_def)
next
  case True
  obtain n q where q: "phr_parse_request sse m buf last_len = ret (n, q)"
    by (cases rule: requests.answer_cases[of sse m buf last_len]) (use True in \<open>auto simp: phr_parse_request_def\<close>)
  moreover have "request_ok m buf (nat n) x" if "q = Some x" for x
    using q that parse_request_ok(1)
    by (cases rule: requests.answer_cases[of sse m buf last_len]) (auto simp: phr_parse_request_def)
  moreover obtain n' p where p: "phr_parse_response sse m buf last_len = ret (n', p)"
    by (cases rule: responses.answer_cases[of sse m buf last_len]) (use True in \<open>auto simp: phr_parse_response_def\<close>)
  moreover have "response_ok m buf (nat n') x" if "p = Some x" for x
    using p that parse_response_ok(1)
    by (cases rule: responses.answer_cases[of sse m buf last_len]) (auto simp: phr_parse_response_def)
  ultimately show ?thesis
    using True requests.answer_range[of sse m buf last_len n q] responses.answer_range[of sse m buf last_len n' p]
    by (auto simp: phr_parse_request_def phr_parse_response_def split: option.split)
qed

text \<open>C8:
  What the request parser decides on a part of the input stands: a rejection or an accepted request is the same
  whatever bytes follow, every proper part of an accepted request is reported as incomplete, and a call
  that is told that the first \<open>last_len\<close> bytes were incomplete gives the same answer.
\<close>

theorem phr_parse_request_incremental:
  assumes "phr_parse_request sse m buf 0 = ret (n, q)"
  shows "(n \<noteq> -2 \<longrightarrow> phr_parse_request sse m (buf @ t) 0 = ret (n, q)) \<and>
    (int k < n \<longrightarrow> phr_parse_request sse m (take k buf) 0 = ret (-2, None)) \<and>
    (int last_len < n \<longrightarrow> phr_parse_request sse m buf last_len = ret (n, q))"
proof (intro conjI impI)
  note a = assms[unfolded phr_parse_request_def]
  show "phr_parse_request sse m (buf @ t) 0 = ret (n, q)" if "n \<noteq> -2"
    using requests.answer_longer[OF a that] by (simp add: phr_parse_request_def)
  have some: "\<exists>x. q = Some x" if "0 \<le> n" using requests.answer_range[OF a] that by auto
  show "phr_parse_request sse m (take k buf) 0 = ret (-2, None)" if "int k < n"
    using requests.answer_shorter[of sse m buf n _ k] a some that by (auto simp: phr_parse_request_def)
  show "phr_parse_request sse m buf last_len = ret (n, q)" if "int last_len < n"
    using requests.answer_resumed[of sse m buf n _ last_len] a some that by (auto simp: phr_parse_request_def)
qed

theorem phr_parse_request_incremental_witness:
  "phr_parse_request False 128 (demo_text @ ''x'') 0 = ret (28, Some demo_request) \<and>
   phr_parse_request False 128 demo_text 20 = ret (28, Some demo_request) \<and>
   phr_parse_request False 128 (take 27 demo_text) 0 = ret (-2, None)"
proof -
  from requests.answer_of_parsed[OF demo_parsed[of "[]"]]
  have "phr_parse_request False 128 demo_text 0 = ret (28, Some demo_request)"
    by (simp add: phr_parse_request_def demo_text_length)
  from phr_parse_request_incremental[OF this, of "''x''" 27 20] show ?thesis by simp
qed

text \<open>C30:
  A well-formed request or response that is printed is parsed back, whatever follows it: the verb, the target, the
  version, the status, the message and the headers in their order with their places in the buffer; the answer is the
  length of what was printed.
\<close>

theorem phr_parse_roundtrip:
  assumes "minor \<le> 9" and "list_all field_ok fs" "length fs \<le> m"
    and "verb \<noteq> []" "list_all token_char verb" "target \<noteq> []" "list_all path_char target"
    and "status \<le> 999" "message_ok msg"
  shows "phr_parse_request sse m (print_request verb target minor fs @ body) 0 =
      ret (int (length (print_request verb target minor fs)),
        Some \<lparr>rq_method = verb, rq_path = target, rq_minor = int minor,
          rq_headers = placed (length verb + length target + 12) fs\<rparr>) \<and>
    phr_parse_response sse m (print_response minor status msg fs @ body) 0 =
      ret (int (length (print_response minor status msg fs)),
        Some \<lparr>rs_minor = int minor, rs_status = int status, rs_msg = msg,
          rs_headers = placed (length msg + 15) fs\<rparr>)"
  using requests.answer_of_parsed[OF parse_request_printed[OF assms(4-7,1-3), of sse body]]
    responses.answer_of_parsed[OF parse_response_printed[OF assms(1,8,9,2,3), of sse body]]
  by (simp add: phr_parse_request_def phr_parse_response_def)

theorem phr_parse_roundtrip_witness:
  "phr_parse_request False 128 (print_request ''GET'' ''/a'' 1 [(''Host'', ''h'')] @ ''rest'') 0 =
      ret (28, Some \<lparr>rq_method = ''GET'', rq_path = ''/a'', rq_minor = 1,
        rq_headers = [\<lparr>h_name = Some ''Host'', h_value = ''h'', h_off = 23\<rparr>]\<rparr>)"
proof -
  have "field_ok (''Host'', ''h'')" "list_all token_char ''GET''" "list_all path_char ''/a''" "message_ok ''OK''"
    by (simp_all add: field_ok_def token_char_iff ctl_code blank_def path_char_def message_ok_def)
  moreover have "length (print_request ''GET'' ''/a'' 1 [(''Host'', ''h'')]) = 28"
    by (simp add: print_request_def print_headers_def)
  ultimately show ?thesis
    using phr_parse_roundtrip[of 1 "[(''Host'', ''h'')]" 128 "''GET''" "''/a''" 200 "''OK''" False "''rest''"] by simp
qed

end
