(* ===== verification/ProxyRecv.thy ===== *)
theory ProxyRecv
  imports Proxy PicohttpProps
begin

section \<open>Receiving a request piece by piece\<close>

text \<open>
  The loop of \<open>process_request\<close> that receives a request, with the parser that resumes: how the network cuts
  a request into pieces does not matter.
\<close>

lemma parse_req_first: "parse_req buf 0 = phr_parse (parse_request False MAX_HEADERS) buf 0"
  by (simp add: parse_req_def phr_parse_request_def)

lemma parse_req_answer:
  assumes "k \<le> length buf"
  obtains n q where "parse_req buf k = ret (n, q)"
    "q = None \<and> (n = -1 \<or> n = -2) \<or> (\<exists>x. q = Some x \<and> 0 < n)"
proof -
  obtain n q where a: "phr_parse (parse_request False MAX_HEADERS) buf k = ret (n, q)"
    by (cases rule: requests.answer_cases[of False MAX_HEADERS buf k]) (use assms in auto)
  with requests.answer_range[OF a] show ?thesis using that by (auto simp: phr_parse_request_def parse_req_def)
qed

lemma parse_req_unresumed: "parse_req buf k = ret (n, Some q) \<Longrightarrow> parse_req buf 0 = ret (n, Some q)"
  using requests.answer_unresumed[of False MAX_HEADERS buf k n q] by (simp add: phr_parse_request_def parse_req_def)

lemma parse_req_incomplete:
  "parse_req (buf @ t) 0 = ret (n, Some q) \<Longrightarrow> int (length buf) < n \<Longrightarrow> k \<le> length buf \<Longrightarrow> parse_req buf k = ret (-2, None)"
  using requests.answer_incomplete[of False MAX_HEADERS buf t n q k] by (simp add: phr_parse_request_def parse_req_def)

lemma parse_req_complete:
  assumes "parse_req (buf @ t) 0 = ret (n, Some q)" "n \<le> int (length buf)" "int k < n"
  shows "parse_req buf k = ret (n, Some q)"
proof -
  have "phr_parse (parse_request False MAX_HEADERS) buf 0 = ret (n, Some q)"
    using requests.answer_prefix[of False MAX_HEADERS buf t n q] assms(1,2) by (simp add: parse_req_first)
  from requests.answer_resumed[OF this assms(3)] show ?thesis by (simp add: phr_parse_request_def parse_req_def)
qed

lemma recv_request_from:
  assumes "parse_req (buf @ concat ds) 0 = ret (n, Some q)" and "int (length buf) < n"
    and "\<forall>d \<in> set ds. d \<noteq> []" and "length (buf @ concat ds) \<le> BUFFER_SIZE"
  shows "\<exists>k \<le> length ds. recv_request parse_req buf (map Received ds @ rs) =
      ret (Some (buf @ concat (take k ds), q), map Received (drop k ds) @ rs) \<and>
    n \<le> int (length (buf @ concat (take k ds))) \<and> (\<forall>j < k. int (length (buf @ concat (take j ds))) < n)"
  using assms
proof (induction ds arbitrary: buf)
  case Nil
  with requests.answer_range[OF Nil(1)[unfolded parse_req_first]] show ?case by simp
next
  case (Cons d ds)
  let ?b = "buf @ d"
  have fits: "take (BUFFER_SIZE - length buf) d = d" "d \<noteq> []" "length ?b \<le> BUFFER_SIZE" using Cons.prems(3,4) by simp_all
  have whole: "parse_req (?b @ concat ds) 0 = ret (n, Some q)" using Cons.prems(1) by simp
  show ?case
  proof (cases "n \<le> int (length ?b)")
    case True
    have "0 < n" using requests.answer_range[OF whole[unfolded parse_req_first]] by simp
    with parse_req_complete[OF whole True Cons.prems(2)] fits True Cons.prems(2) show ?thesis
      by (intro exI[of _ 1]) simp
  next
    case False
    then have short: "int (length ?b) < n" by simp
    have "int (length ?b) < int (length (?b @ concat ds))"
      using short requests.answer_range[OF whole[unfolded parse_req_first]] by linarith
    then have room: "length ?b \<noteq> BUFFER_SIZE" using Cons.prems(4) by (simp del: length_concat length_append)
    obtain k where k: "k \<le> length ds" "recv_request parse_req ?b (map Received ds @ rs) =
        ret (Some (?b @ concat (take k ds), q), map Received (drop k ds) @ rs)"
      "n \<le> int (length (?b @ concat (take k ds)))" "\<forall>j < k. int (length (?b @ concat (take j ds))) < n"
      using Cons.IH[OF whole short] Cons.prems(3,4) by auto
    have "int (length (buf @ concat (take j (d # ds)))) < n" if "j < Suc k" for j
      using that k(4) Cons.prems(2) by (cases j) auto
    moreover have "recv_request parse_req buf (map Received (d # ds) @ rs) =
        recv_request parse_req ?b (map Received ds @ rs)"
      using parse_req_incomplete[OF whole short, of "length buf"] fits(1,2) room by simp
    ultimately show ?thesis using k(1-3) by (intro exI[of _ "Suc k"]) simp
  qed
qed

lemma recv_request_accepts_parsed:
  "recv_request parse_req buf rs = ret (Some (b, q), rest) \<Longrightarrow> \<exists>n. parse_req b 0 = ret (n, Some q) \<and> 0 < n"
proof (induction rs arbitrary: buf)
  case (Cons r rs)
  show ?case
  proof (cases r)
    case (Received d)
    let ?b = "buf @ take (BUFFER_SIZE - length buf) d"
    obtain n x where p: "parse_req ?b (length buf) = ret (n, x)"
      "x = None \<and> (n = -1 \<or> n = -2) \<or> (\<exists>y. x = Some y \<and> 0 < n)"
      by (rule parse_req_answer[of "length buf" ?b]) simp
    show ?thesis
    proof (cases "0 < n")
      case True
      then have "b = ?b" "x = Some q" using Cons.prems p Received by (auto simp: Let_def split: if_splits)
      then show ?thesis using p True parse_req_unresumed by blast
    next
      case False
      then show ?thesis using Cons.prems p Received Cons.IH[of ?b] by (auto simp: Let_def split: if_splits)
    qed
  qed (use Cons in simp_all)
qed simp

text \<open>C6:
  How the network cuts a request into pieces does not matter: when the bytes that arrive hold a request of \<open>n\<close> bytes
  and fit into the buffer, the loop accepts this very request with the first piece that completes it, and leaves
  the rest in the socket. Conversely whatever the loop accepts is what the parser makes of the bytes received.
\<close>

theorem recv_request_any_pieces:
  assumes "parse_req (concat ds) 0 = ret (n, Some q)"
    and "\<forall>d \<in> set ds. d \<noteq> []" and "length (concat ds) \<le> BUFFER_SIZE"
  shows "(\<exists>k \<le> length ds. recv_request parse_req [] (map Received ds @ rs) =
      ret (Some (concat (take k ds), q), map Received (drop k ds) @ rs) \<and>
      n \<le> int (length (concat (take k ds))) \<and> (\<forall>j < k. int (length (concat (take j ds))) < n)) \<and>
    (\<forall>b q' rs' rest. recv_request parse_req [] rs' = ret (Some (b, q'), rest) \<longrightarrow>
      (\<exists>n'. parse_req b 0 = ret (n', Some q') \<and> 0 < n'))"
proof -
  have "0 < n" using requests.answer_range[OF assms(1)[unfolded parse_req_first]] by simp
  then show ?thesis
    using recv_request_from[of "[]" ds n q rs] recv_request_accepts_parsed assms by auto
qed

theorem recv_request_any_pieces_witness:
  "\<exists>k \<le> 3. recv_request parse_req [] (map Received [take 3 demo_text, drop 3 demo_text, ''x''] @ [RecvErr]) =
    ret (Some (concat (take k [take 3 demo_text, drop 3 demo_text, ''x'']), demo_request),
      map Received (drop k [take 3 demo_text, drop 3 demo_text, ''x'']) @ [RecvErr])"
proof -
  let ?ds = "[take 3 demo_text, drop 3 demo_text, ''x'']"
  have "parse_request False MAX_HEADERS (concat ?ds) = Inr (demo_request, ''x'')"
    using demo_parsed[of "''x''"] append_take_drop_id[of 3 demo_text] by (simp add: MAX_HEADERS_def flip: append_assoc)
  from requests.answer_of_parsed[OF this] have p: "parse_req (concat ?ds) 0 = ret (28, Some demo_request)"
    by (simp add: parse_req_first demo_text_length)
  have "length (take 3 demo_text) = 3" "length (drop 3 demo_text) = 25" by (simp_all add: demo_text_length)
  then have "\<forall>d \<in> set ?ds. d \<noteq> []" "length (concat ?ds) \<le> BUFFER_SIZE"
    using demo_text_length by (auto simp: BUFFER_SIZE_def)
  from recv_request_any_pieces[OF p this, of "[RecvErr]"] obtain k where "k \<le> length ?ds"
    "recv_request parse_req [] (map Received ?ds @ [RecvErr]) =
      ret (Some (concat (take k ?ds), demo_request), map Received (drop k ?ds) @ [RecvErr])" by blast
  then show ?thesis by (intro exI[of _ k]) (simp only: list.size, simp)
qed

end
