(* ===== verification/ProxyOutcome.thy ===== *)
theory ProxyOutcome
  imports ProxyRecv CacheProps
begin

section \<open>How a request ends\<close>

text \<open>
  What \<open>process_request\<close> leaves behind on every path: sockets, mutexes, references and the cached
  bytes. The other workers act during its waits only; they may append to entries, complete and
  cancel them then. The lemmas follow the functions of \<^verbatim>\<open>Proxy\<close>, each with
  the rule for the outcome of a sequence.
\<close>

subsection \<open>The state of an entry that is being downloaded\<close>

text \<open>
  \<open>A\<close> is the abstract cache without the entry; \<open>D\<close> the bytes stored so far. Without an entry
  (a response that is not cached) the cache is just \<open>A\<close>.
\<close>

definition downloading :: "acache \<Rightarrow> string \<Rightarrow> ptr \<Rightarrow> string \<Rightarrow> conn_st \<Rightarrow> bool" where
  "downloading A url entry D st \<longleftrightarrow> disciplined [] (c_trace (p_cache st)) \<and>
     (case entry of
        None \<Rightarrow> represents (p_cache st) A
      | Some a \<Rightarrow> a \<notin> dom A \<and> represents (p_cache st) (A(a \<mapsto>
          \<lparr>a_url = url, a_state = ENTRY_INCOMPLETE, a_refs = 1, a_data = D\<rparr>)))"

definition settled :: "acache \<Rightarrow> string \<Rightarrow> ptr \<Rightarrow> entry_state_t \<Rightarrow> string \<Rightarrow> conn_st \<Rightarrow> bool" where
  "settled A url entry final D st \<longleftrightarrow> disciplined [] (c_trace (p_cache st)) \<and>
     (case entry of
        None \<Rightarrow> represents (p_cache st) A
      | Some a \<Rightarrow> a \<notin> dom A \<and> represents (p_cache st) (A(a \<mapsto>
          \<lparr>a_url = url, a_state = final, a_refs = 0, a_data = D\<rparr>)))"

text \<open>Both sockets are closed once more, the client's descriptor is marked as closed.\<close>

definition closed_both :: "conn_st \<Rightarrow> conn_st \<Rightarrow> bool" where
  "closed_both st st' \<longleftrightarrow> sock_fd st' = -1 \<and>
     count_list (disconnected st') Client = Suc (count_list (disconnected st) Client) \<and>
     count_list (disconnected st') Remote = Suc (count_list (disconnected st) Remote)"

text \<open>What a step that only moves bytes leaves alone.\<close>

definition same_sockets :: "conn_st \<Rightarrow> conn_st \<Rightarrow> bool" where
  "same_sockets st st' \<longleftrightarrow> disconnected st' = disconnected st \<and> sock_fd st' = sock_fd st"

lemma same_sockets_refl [simp]: "same_sockets st st"
  by (simp add: same_sockets_def)

lemma same_sockets_upd [simp]:
  "same_sockets st (st'\<lparr>remote_in := rs\<rparr>) = same_sockets st st'"
  "same_sockets st (st'\<lparr>p_cache := c\<rparr>) = same_sockets st st'"
  by (simp_all add: same_sockets_def)

lemma same_sockets_trans: "same_sockets st st' \<Longrightarrow> same_sockets st' st'' \<Longrightarrow> same_sockets st st''"
  by (simp add: same_sockets_def)

lemma closed_both_trans: "same_sockets st st' \<Longrightarrow> closed_both st' st'' \<Longrightarrow> closed_both st st''"
  by (simp add: same_sockets_def closed_both_def)

lemma closed_both_close: "closed_both st (close_both st)"
  by (simp add: closed_both_def close_both_def disconnect_def)

lemma downloading_remote [simp]:
  "downloading A url entry D (st\<lparr>remote_in := rs\<rparr>) = downloading A url entry D st"
  by (simp add: downloading_def split: option.split)

subsection \<open>The last steps of a download\<close>

lemma locked_update_None [simp]: "locked_update b f None c = ret c"
  by (simp add: locked_update_def)

lemma on_cache_None [simp]:
  "on_cache (cache_entry_release None) st = ret st" "on_cache (cache_entry_cancel None) st = ret st"
  "on_cache (cache_entry_complete None) st = ret st"
  by (simp_all add: on_cache_def cache_entry_release_def cache_entry_cancel_def cache_entry_complete_def)

text \<open>A state change of one entry, as the proxy makes it.\<close>

lemma on_cache_update:
  assumes rep: "represents (p_cache st) (A(a \<mapsto> x))" and d: "disciplined [] (c_trace (p_cache st))"
    and f: "\<And>e. shape (f e) = shape e" "\<And>e. lru_prev (f e) = lru_prev e" "\<And>e. lru_next (f e) = lru_next e"
    and g: "\<And>e. e_state (f e) = sf (e_state e)" "\<And>e. refcount (f e) = rf (refcount e)"
  shows "\<exists>c'. on_cache (locked_update b f (Some a)) st = ret (st\<lparr>p_cache := c'\<rparr>) \<and>
    disciplined [] (c_trace c') \<and>
    represents c' (A(a \<mapsto> x\<lparr>a_state := sf (a_state x), a_refs := rf (a_refs x)\<rparr>))"
proof -
  have x: "(A(a \<mapsto> x)) a = Some x" by simp
  from locked_update_refines[where f = f and st = sf and rc = rf and b = b, OF rep x f g]
  obtain c' where "locked_update b f (Some a) (p_cache st) = ret c'" "lock_clean [] (p_cache st) c'"
      "represents c' (A(a \<mapsto> x\<lparr>a_state := sf (a_state x), a_refs := rf (a_refs x)\<rparr>))"
    unfolding fun_upd_upd by blast
  then show ?thesis using lock_clean_disciplined[OF _ d]
    by (intro exI[of _ c']) (simp add: on_cache_def)
qed

text \<open>
  A download ends with two changes of the entry, in either order, and both sockets closed. Without
  an entry the changes are no-ops.
\<close>

lemma settled_close [simp]: "settled A url entry f D (close_both st) = settled A url entry f D st"
  by (simp add: settled_def close_both_def disconnect_def split: option.split)

lemma two_changes:
  assumes dl: "downloading A url entry D st"
    and f1: "\<And>e. shape (f1 e) = shape e" "\<And>e. lru_prev (f1 e) = lru_prev e" "\<And>e. lru_next (f1 e) = lru_next e"
      "\<And>e. e_state (f1 e) = sf1 (e_state e)" "\<And>e. refcount (f1 e) = rf1 (refcount e)"
    and f2: "\<And>e. shape (f2 e) = shape e" "\<And>e. lru_prev (f2 e) = lru_prev e" "\<And>e. lru_next (f2 e) = lru_next e"
      "\<And>e. e_state (f2 e) = sf2 (e_state e)" "\<And>e. refcount (f2 e) = rf2 (refcount e)"
    and final: "sf2 (sf1 ENTRY_INCOMPLETE) = final" "rf2 (rf1 1) = 0"
  shows "\<exists>st'. bindR (on_cache (locked_update b1 f1 entry) st) (\<lambda>st.
      bindR (on_cache (locked_update b2 f2 entry) st) (\<lambda>st. ret (close_both st))) = ret st' \<and>
    settled A url entry final D st' \<and> closed_both st st' \<and> client_got st' = client_got st"
proof (cases entry)
  case None
  then show ?thesis
    using dl closed_both_close[of st]
    by (auto simp: on_cache_def downloading_def settled_def close_both_def disconnect_def)
next
  case (Some a)
  let ?x = "\<lparr>a_url = url, a_state = ENTRY_INCOMPLETE, a_refs = 1, a_data = D\<rparr>"
  from dl Some have a: "a \<notin> dom A" "represents (p_cache st) (A(a \<mapsto> ?x))"
      "disciplined [] (c_trace (p_cache st))" by (simp_all add: downloading_def)
  from on_cache_update[where f = f1 and b = b1 and sf = sf1 and rf = rf1, OF a(2,3) f1]
  obtain c1 where c1: "on_cache (locked_update b1 f1 (Some a)) st = ret (st\<lparr>p_cache := c1\<rparr>)"
      "disciplined [] (c_trace c1)"
      "represents c1 (A(a \<mapsto> ?x\<lparr>a_state := sf1 ENTRY_INCOMPLETE, a_refs := rf1 1\<rparr>))" by auto
  let ?st = "st\<lparr>p_cache := c1\<rparr>"
  have s1: "represents (p_cache ?st) (A(a \<mapsto> ?x\<lparr>a_state := sf1 ENTRY_INCOMPLETE, a_refs := rf1 1\<rparr>))"
    "disciplined [] (c_trace (p_cache ?st))" using c1 by simp_all
  from on_cache_update[where f = f2 and b = b2 and sf = sf2 and rf = rf2, OF s1 f2]
  obtain c2 where c2: "on_cache (locked_update b2 f2 (Some a)) ?st = ret (?st\<lparr>p_cache := c2\<rparr>)"
      "disciplined [] (c_trace c2)"
      "represents c2 (A(a \<mapsto> \<lparr>a_url = url, a_state = final, a_refs = 0, a_data = D\<rparr>))"
    using final by auto
  show ?thesis
    using c1(1) c2 a(1) Some
    by (simp add: settled_def closed_both_def close_both_def disconnect_def)
qed

lemma download_ends:
  assumes dl: "downloading A url entry D st"
  shows "\<exists>st'. release_cancel entry st = ret st' \<and> settled A url entry ENTRY_CANCELLED D st' \<and>
      closed_both st st' \<and> client_got st' = client_got st"
    and "\<exists>st'. cancel_release entry st = ret st' \<and> settled A url entry ENTRY_CANCELLED D st' \<and>
      closed_both st st' \<and> client_got st' = client_got st"
    and "\<exists>st'. complete_release entry st = ret st' \<and> settled A url entry ENTRY_COMPLETE D st' \<and>
      closed_both st st' \<and> client_got st' = client_got st"
  unfolding release_cancel_def cancel_release_def complete_release_def
    cache_entry_release_def cache_entry_cancel_def cache_entry_complete_def
  by ((rule two_changes[where ?sf1.0 = "\<lambda>t. t" and ?rf1.0 = "\<lambda>n. n - 1" and ?sf2.0 = "\<lambda>_. ENTRY_CANCELLED"
        and ?rf2.0 = "\<lambda>n. n", OF dl]; simp add: shape_def),
     (rule two_changes[where ?sf2.0 = "\<lambda>t. t" and ?rf2.0 = "\<lambda>n. n - 1" and ?sf1.0 = "\<lambda>_. ENTRY_CANCELLED"
        and ?rf1.0 = "\<lambda>n. n", OF dl]; simp add: shape_def),
     (rule two_changes[where ?sf2.0 = "\<lambda>t. t" and ?rf2.0 = "\<lambda>n. n - 1" and ?sf1.0 = "\<lambda>_. ENTRY_COMPLETE"
        and ?rf1.0 = "\<lambda>n. n", OF dl]; simp add: shape_def))

subsection \<open>Storing and sending\<close>

text \<open>The allocator hands out unused addresses, or none.\<close>

definition fresh_memory :: "proxy_env \<Rightarrow> bool" where
  "fresh_memory env \<longleftrightarrow> (\<forall>c. (\<forall>a. entry_mem env c = Some a \<longrightarrow> a \<notin> dom (ents c)) \<and>
     (\<forall>k. fst (chunk_mem env c) = Some k \<longrightarrow> k \<notin> dom (chunks c)))"

text \<open>It never runs out of memory for chunks.\<close>

definition ample_memory :: "proxy_env \<Rightarrow> bool" where
  "ample_memory env \<longleftrightarrow> (\<forall>c. finite (dom (chunks c)) \<longrightarrow>
     fst (chunk_mem env c) \<noteq> None \<and> snd (chunk_mem env c))"

lemma store_chunk_downloading:
  assumes dl: "downloading A url entry D st" and m: "fresh_memory env" and len: "length data < 2 ^ 63"
  shows "\<exists>st' D'. store_chunk env entry data st = ret st' \<and> downloading A url entry D' st' \<and>
    (D' = D \<or> D' = D @ data) \<and> same_sockets st st' \<and> client_tx st' = client_tx st \<and>
    remote_in st' = remote_in st \<and> client_got st' = client_got st \<and>
    (ample_memory env \<longrightarrow> D' = D @ data)"
proof (cases entry)
  case None
  then show ?thesis using dl by (auto simp: store_chunk_def downloading_def)
next
  case (Some a)
  let ?x = "\<lparr>a_url = url, a_state = ENTRY_INCOMPLETE, a_refs = 1, a_data = D\<rparr>"
  from dl Some have a: "a \<notin> dom A" "represents (p_cache st) (A(a \<mapsto> ?x))"
      "disciplined [] (c_trace (p_cache st))" by (simp_all add: downloading_def)
  obtain mc md where mem: "chunk_mem env (p_cache st) = (mc, md)" by (cases "chunk_mem env (p_cache st)")
  have fresh: "\<And>k. mc = Some k \<Longrightarrow> k \<notin> dom (chunks (p_cache st))"
    using m mem unfolding fresh_memory_def by (metis fst_conv)
  show ?thesis
  proof (cases "mc \<noteq> None \<and> md")
    case True
    then obtain k where k: "mc = Some k" "md" by auto
    have nc: "a_state ?x \<noteq> ENTRY_CANCELLED" by simp
    from append_refines[OF a(2) fun_upd_same nc fresh[OF k(1)] len] obtain c' where
        "cache_entry_append_chunk (Some k) True a data (of_nat (length data)) (p_cache st) = ret (0, c')"
        "represents c' (A(a \<mapsto> ?x\<lparr>a_data := a_data ?x @ data\<rparr>))" "lock_clean [] (p_cache st) c'"
      unfolding fun_upd_upd by blast
    then show ?thesis
      using Some mem k a(1) lock_clean_disciplined[OF _ a(3)]
      by (intro exI[of _ "st\<lparr>p_cache := c'\<rparr>"] exI[of _ "D @ data"])
        (simp add: store_chunk_def downloading_def)
  next
    case False
    have fin: "finite (dom (chunks (p_cache st)))" by (rule represents_finite_chunks[OF a(2)])
    have "a_state ?x = ENTRY_CANCELLED \<or> mc = None \<or> (\<not> md \<and> (\<forall>k. mc = Some k \<longrightarrow> k \<notin> dom (chunks (p_cache st))))"
      using False fresh by auto
    from append_fails_refines[OF a(2) fun_upd_same this, of data "of_nat (length data)"] obtain c' where
        "cache_entry_append_chunk mc md a data (of_nat (length data)) (p_cache st) = ret (-1, c')"
        "represents c' (A(a \<mapsto> ?x))" "lock_clean [] (p_cache st) c'" by blast
    then show ?thesis
      using Some mem a(1) lock_clean_disciplined[OF _ a(3)] False
      by (intro exI[of _ "st\<lparr>p_cache := c'\<rparr>"] exI[of _ D])
        (auto simp: store_chunk_def downloading_def ample_memory_def fin dest: spec[of _ "p_cache st"])
  qed
qed

lemma send_loop_outcome:
  "tot \<le> length buf \<Longrightarrow> outcome (send_loop buf tot rs) (\<lambda>(r, out, rs').
     (r = int (length buf) \<and> out = buf) \<or> (r = -1 \<and> (\<exists>m < length buf. out = take m buf)))"
proof (induction buf tot rs rule: send_loop.induct)
  case (1 buf tot rs)
  show ?case
  proof (cases "tot < length buf")
    case False
    then show ?thesis using 1(3) by (simp add: send_loop.simps)
  next
    case True
    show ?thesis
    proof (cases rs)
      case Nil
      then show ?thesis using True by (simp add: send_loop.simps)
    next
      case (Cons r rs')
      show ?thesis
      proof (cases r)
        case (Sent n)
        then show ?thesis using 1(1)[OF True Cons Sent refl] Cons True
          by (subst send_loop.simps) (auto simp: Let_def)
      next
        case SendIntr
        then show ?thesis using 1(2)[OF True Cons SendIntr 1(3)] Cons True
          by (subst send_loop.simps) simp
      next
        case SendErr
        then show ?thesis using Cons True by (subst send_loop.simps) auto
      qed
    qed
  qed
qed

lemma send_client_outcome:
  "outcome (send_client data st) (\<lambda>(r, st').
     p_cache st' = p_cache st \<and> same_sockets st st' \<and> remote_in st' = remote_in st \<and>
     (\<exists>m. client_got st' = client_got st @ take m data \<and> (r = -1 \<or> m = length data)))"
  unfolding send_client_def send_buffer_def
  by (rule outcome_bind[OF send_loop_outcome]) (auto simp: same_sockets_def)

lemma downloading_cache: "p_cache st' = p_cache st \<Longrightarrow> downloading A url entry D st' = downloading A url entry D st"
  by (simp add: downloading_def split: option.split)

subsection \<open>Forwarding\<close>

text \<open>
  How a download may end: everything is closed, the entry has no reference left and is complete
  or cancelled.
\<close>

definition finished :: "acache \<Rightarrow> string \<Rightarrow> ptr \<Rightarrow> conn_st \<Rightarrow> conn_st \<Rightarrow> bool" where
  "finished A url entry st st' \<longleftrightarrow> closed_both st st' \<and>
     (\<exists>final D. final \<noteq> ENTRY_INCOMPLETE \<and> settled A url entry final D st')"

lemma finishedI:
  "settled A url entry final D st' \<Longrightarrow> closed_both st st' \<Longrightarrow> final \<noteq> ENTRY_INCOMPLETE \<Longrightarrow>
     finished A url entry st st'"
  by (auto simp: finished_def)

lemma finished_trans: "same_sockets st st' \<Longrightarrow> finished A url entry st' st'' \<Longrightarrow> finished A url entry st st''"
  by (auto simp: finished_def intro: closed_both_trans)

lemma download_finished:
  assumes "downloading A url entry D st"
  shows "outcome (release_cancel entry st) (finished A url entry st)"
    and "outcome (cancel_release entry st) (finished A url entry st)"
    and "outcome (complete_release entry st) (finished A url entry st)"
  using download_ends[OF assms] by (auto intro: finishedI)

lemma finished_remote [simp]: "finished A url entry (st\<lparr>remote_in := rs\<rparr>) = finished A url entry st"
  by (auto simp: finished_def closed_both_def fun_eq_iff)

lemma forward_known_outcome:
  assumes "downloading A url entry D st" and "fresh_memory env"
  shows "outcome (forward_known env entry remaining rs st) (finished A url entry st)"
  using assms
proof (induction rs arbitrary: remaining st D)
  case Nil
  then show ?case
    using download_finished(3)[of A url entry D "st\<lparr>remote_in := []\<rparr>"]
    by (simp add: forward_known.simps)
next
  case (Cons r rs)
  show ?case
  proof (cases "0 < remaining")
    case False
    then show ?thesis
      using download_finished(3)[of A url entry D "st\<lparr>remote_in := r # rs\<rparr>"] Cons.prems
      by (simp add: forward_known.simps)
  next
    case True
    note fail = download_finished(1)[of A url entry _ "st\<lparr>remote_in := rs\<rparr>" for st, simplified]
    show ?thesis
    proof (cases r)
      case (Received d)
      let ?got = "take BUFFER_SIZE d"
      have len: "length ?got < 2 ^ 63" by (simp add: BUFFER_SIZE_def)
      from store_chunk_downloading[OF Cons.prems len] obtain st1 D1 where
          s1: "store_chunk env entry ?got st = ret st1" "downloading A url entry D1 st1" "same_sockets st st1"
        by blast
      have "outcome (bindR (send_client ?got st1) (\<lambda>(r, st).
          if r = -1 then release_cancel entry (st\<lparr>remote_in := rs\<rparr>)
          else forward_known env entry (remaining - int (length ?got)) rs st)) (finished A url entry st)"
      proof (rule outcome_bind[OF send_client_outcome], clarify)
        fix r st2 m
        assume c: "p_cache st2 = p_cache st1" and sk: "same_sockets st1 st2"
        have dl: "downloading A url entry D1 st2" using s1(2) downloading_cache[OF c] by simp
        have tr: "finished A url entry st2 x \<Longrightarrow> finished A url entry st x" for x
          using finished_trans same_sockets_trans[OF s1(3) sk] by blast
        show "outcome (if r = -1 then release_cancel entry (st2\<lparr>remote_in := rs\<rparr>)
          else forward_known env entry (remaining - int (length ?got)) rs st2) (finished A url entry st)"
          using outcome_mono[OF fail[OF dl] tr] outcome_mono[OF Cons.IH[OF dl Cons.prems(2)] tr] by simp
      qed
      then show ?thesis
        using True Received s1(1) fail[OF Cons.prems(1)]
        by (subst forward_known.simps) (simp add: Let_def)
    next
      case RecvIntr
      then show ?thesis using True fail[OF Cons.prems(1)] by (subst forward_known.simps) simp
    next
      case RecvErr
      then show ?thesis using True fail[OF Cons.prems(1)] by (subst forward_known.simps) simp
    qed
  qed
qed

lemma forward_eof_outcome:
  assumes "downloading A url entry D st"
  shows "outcome (forward_eof entry rs st) (finished A url entry st)"
  using assms
proof (induction rs arbitrary: st D)
  case (Cons r rs)
  note end_now = download_finished[of A url entry _ "st\<lparr>remote_in := rs\<rparr>" for st, simplified]
  show ?case
  proof (cases r)
    case (Received d)
    let ?got = "take BUFFER_SIZE d"
    have "outcome (bindR (send_client ?got st) (\<lambda>(r, st).
        if r = -1 then cancel_release entry (st\<lparr>remote_in := rs\<rparr>) else forward_eof entry rs st))
      (finished A url entry st)"
    proof (rule outcome_bind[OF send_client_outcome], clarify)
      fix r st2 m
      assume c: "p_cache st2 = p_cache st" and sk: "same_sockets st st2"
      have dl: "downloading A url entry D st2" using Cons.prems downloading_cache[OF c] by simp
      have tr: "finished A url entry st2 x \<Longrightarrow> finished A url entry st x" for x
        using finished_trans sk by blast
      show "outcome (if r = -1 then cancel_release entry (st2\<lparr>remote_in := rs\<rparr>)
        else forward_eof entry rs st2) (finished A url entry st)"
        using outcome_mono[OF end_now(2)[OF dl] tr] outcome_mono[OF Cons.IH[OF dl] tr] by simp
    qed
    then show ?thesis using Received end_now(3)[OF Cons.prems] by (simp add: Let_def)
  qed (use end_now(2)[OF Cons.prems] in simp_all)
qed simp

subsection \<open>Serving from the cache, alone\<close>

text \<open>What a loop over any source keeps, whatever the client does.\<close>

lemma send_buffer_nonneg: "outcome (send_buffer buf rs) (\<lambda>(r, _, _). r = -1 \<or> 0 \<le> r)"
  unfolding send_buffer_def by (rule outcome_mono[OF send_loop_outcome]) auto

lemma copy_out_outcome:
  assumes rd: "\<And>off n s. 0 \<le> off \<Longrightarrow> I s \<Longrightarrow> outcome (rd off n s) (\<lambda>(r, buf, s'). I s')"
    and "0 \<le> off" and "I s"
  shows "outcome (copy_out rd off rs s out) (\<lambda>(r, _, _, s'). I s')"
proof (cases "copy_out rd off rs s out")
  case (Some y)
  let ?Q = "\<lambda>(r, _, _, s'). I s'"
  have "rd = rd \<longrightarrow> 0 \<le> off \<longrightarrow> I s \<longrightarrow> outcome (Some y) ?Q"
  proof (rule copy_out.raw_induct[OF _ Some, where P = "\<lambda>rd' off rs s out y.
      rd' = rd \<longrightarrow> 0 \<le> off \<longrightarrow> I s \<longrightarrow> outcome (Some y) ?Q"], intro impI, goal_cases)
    case (1 loop rd' off rs s out y)
    note IH = 1(1) and body = 1(2) and r = 1(3)
    have "outcome (bindR (rd off (int BUFFER_SIZE) s) (\<lambda>(bytes_read, buffer, s).
        if 0 < bytes_read then bindR (send_buffer buffer rs) (\<lambda>(bytes_sent, bytes, rs).
          if bytes_sent < 0 then ret (- 1, out @ bytes, rs, s)
          else loop rd (off + bytes_sent) rs s (out @ bytes))
        else if bytes_read = - 1 then ret (- 1, out, rs, s) else ret (0, out, rs, s))) ?Q"
    proof (rule outcome_bind[OF rd[OF 1(4,5)]], clarify)
      fix n buf s1
      assume I1: "I s1"
      have loop: "outcome (loop rd off' rs' s1 out') ?Q" if "0 \<le> off'" for off' rs' out'
        using IH[of rd off' rs' s1 out'] that I1 by (cases "loop rd off' rs' s1 out'") simp_all
      have "outcome (bindR (send_buffer buf rs) (\<lambda>(bytes_sent, bytes, rs).
          if bytes_sent < 0 then ret (- 1, out @ bytes, rs, s1)
          else loop rd (off + bytes_sent) rs s1 (out @ bytes))) ?Q"
        by (rule outcome_bind[OF send_buffer_nonneg]) (use I1 loop 1(4) in auto)
      then show "outcome (if 0 < n then bindR (send_buffer buf rs) (\<lambda>(bytes_sent, bytes, rs).
          if bytes_sent < 0 then ret (- 1, out @ bytes, rs, s1)
          else loop rd (off + bytes_sent) rs s1 (out @ bytes))
        else if n = - 1 then ret (- 1, out, rs, s1) else ret (0, out, rs, s1)) ?Q"
        using I1 by simp
    qed
    then show ?case unfolding body[unfolded r] .
  qed
  then show ?thesis using Some assms(2,3) by simp
qed simp

subsection \<open>Waiting for the rest of an entry\<close>

text \<open>
  What the other workers may do to the cache while a request waits: append to entries, complete and
  cancel them. No entry comes, goes, or changes its URL or its references.
\<close>

definition evolves :: "acache \<Rightarrow> acache \<Rightarrow> bool" where
  "evolves A B \<longleftrightarrow> dom B = dom A \<and> (\<forall>a x y. A a = Some x \<longrightarrow> B a = Some y \<longrightarrow>
     a_url y = a_url x \<and> a_refs y = a_refs x)"

definition peaceful :: "(http_cache \<Rightarrow> http_cache) \<Rightarrow> bool" where
  "peaceful others \<longleftrightarrow> (\<forall>c A. represents c A \<longrightarrow> disciplined [] (c_trace c) \<longrightarrow>
     (\<exists>B. evolves A B \<and> represents (others c) B \<and> disciplined [] (c_trace (others c))))"

definition sane_waits :: "(bool \<times> (http_cache \<Rightarrow> http_cache)) list list \<Rightarrow> bool" where
  "sane_waits ws \<longleftrightarrow> (\<forall>w \<in> set ws. \<forall>(timedout, others) \<in> set w. peaceful others)"

text \<open>A cache reached from \<open>A\<close> during waits; without waits it is still \<open>A\<close>.\<close>

definition later :: "'w list \<Rightarrow> acache \<Rightarrow> http_cache \<Rightarrow> bool" where
  "later ws A c \<longleftrightarrow> (\<exists>B. evolves A B \<and> (ws = [] \<longrightarrow> B = A) \<and> represents c B)"

lemma evolves_refl [simp]: "evolves A A"
  by (simp add: evolves_def)

lemma evolvesD:
  assumes "evolves A B" and "A a = Some x" and "B a = Some y"
  shows "a_url y = a_url x" and "a_refs y = a_refs x"
  using assms unfolding evolves_def by blast+

lemma evolves_dom: "evolves A B \<Longrightarrow> dom B = dom A"
  by (simp add: evolves_def)

lemma evolvesI:
  assumes "dom B = dom A"
    and "\<And>a x y. A a = Some x \<Longrightarrow> B a = Some y \<Longrightarrow> a_url y = a_url x \<and> a_refs y = a_refs x"
  shows "evolves A B"
  using assms unfolding evolves_def by blast

lemma evolves_entry:
  assumes "evolves A B" and "A a = Some x"
  obtains y where "B a = Some y" "a_url y = a_url x" "a_refs y = a_refs x"
proof -
  from assms(2) evolves_dom[OF assms(1)] obtain y where y: "B a = Some y" by (metis domD domI)
  show thesis by (rule that[OF y]) (rule evolvesD[OF assms y])+
qed

lemma evolves_trans:
  assumes "evolves A B" and "evolves B C"
  shows "evolves A C"
proof (rule evolvesI)
  show "dom C = dom A" using evolves_dom[OF assms(1)] evolves_dom[OF assms(2)] by simp
  fix a x z assume x: "A a = Some x" and z: "C a = Some z"
  obtain y where y: "B a = Some y" "a_url y = a_url x" "a_refs y = a_refs x"
    using assms(1) x by (rule evolves_entry)
  show "a_url z = a_url x \<and> a_refs z = a_refs x"
    using evolvesD[OF assms(2) y(1) z] y(2,3) by simp
qed

lemma later_now: "represents c A \<Longrightarrow> later ws A c"
  by (auto simp: later_def intro: exI[of _ A])

lemma later_logged [simp]: "later ws A (logged evs c) = later ws A c"
  by (simp add: later_def)

lemma later_step:
  assumes "later ws A c" and "peaceful others" and "disciplined [] (c_trace c)" and "ws \<noteq> []"
  shows "later ws A (others c) \<and> disciplined [] (c_trace (others c))"
proof -
  from assms(1) obtain B where B: "evolves A B" "represents c B" by (auto simp: later_def)
  from assms(2,3) B(2) obtain C where
      "evolves B C" "represents (others c) C" "disciplined [] (c_trace (others c))"
    unfolding peaceful_def by blast
  then show ?thesis using evolves_trans[OF B(1)] assms(4) by (auto simp: later_def)
qed

lemma later_entry:
  assumes "later ws A c" and "A a = Some x"
  obtains e ks D where "ents c a = Some e" "entry_holds c a ks D"
proof -
  from assms(1) obtain B where B: "evolves A B" "represents c B" by (auto simp: later_def)
  obtain y where y: "B a = Some y" using evolves_entry[OF B(1) assms(2)] by blast
  obtain ks where "entry_abs c ks a y" using represents_abs[OF B(2) y] .
  then have h: "entry_holds c a ks (a_data y)" by (simp add: entry_abs_def)
  obtain e where "ents c a = Some e" using represents_entry[OF B(2) y] by blast
  then show thesis using h by (rule that)
qed

definition peaceful_wakes :: "(bool \<times> (http_cache \<Rightarrow> http_cache)) list \<Rightarrow> bool" where
  "peaceful_wakes w \<longleftrightarrow> (\<forall>(timedout, others) \<in> set w. peaceful others)"

definition times_out :: "(bool \<times> (http_cache \<Rightarrow> http_cache)) list \<Rightarrow> bool" where
  "times_out w \<longleftrightarrow> (\<exists>(timedout, others) \<in> set w. timedout)"

lemma wakes_Cons [simp]:
  "peaceful_wakes ((t, f) # w) \<longleftrightarrow> peaceful f \<and> peaceful_wakes w"
  "times_out ((t, f) # w) \<longleftrightarrow> t \<or> times_out w"
  "peaceful_wakes []" "\<not> times_out []"
  by (simp_all add: peaceful_wakes_def times_out_def)

text \<open>The waiting loop: it keeps the mutex when it goes on, and a time limit ends it.\<close>

lemma read_wait_outcome:
  assumes "later ws A c" and "A a = Some x" and "replay [] (c_trace c) = Some [EntryLock a]"
    and "peaceful_wakes w" and "w \<noteq> [] \<longrightarrow> ws \<noteq> []"
  shows "outcome (read_wait a off w c) (\<lambda>(go, c'). later ws A c' \<and>
      replay [] (c_trace c') = Some (if go then [EntryLock a] else [])) \<and>
    (times_out w \<longrightarrow> (\<exists>y. read_wait a off w c = ret y))"
  using assms
proof (induction w arbitrary: c)
  case Nil
  obtain e ks D where "ents c a = Some e" "entry_holds c a ks D"
    using Nil.prems(1,2) by (rule later_entry)
  then show ?case using Nil.prems by (subst read_wait.simps) (simp add: read_wait.simps)
next
  case (Cons tf w)
  obtain t f where tf: "tf = (t, f)" by (cases tf)
  have ne: "ws \<noteq> []" using Cons.prems(5) by simp
  have pf: "peaceful f" "peaceful_wakes w" using Cons.prems(4) tf by simp_all
  obtain e ks D where e: "ents c a = Some e" "entry_holds c a ks D"
    using Cons.prems(1,2) by (rule later_entry)
  let ?r = "logged [Release (EntryLock a)] c"
  let ?d = "logged [Acquire (EntryLock a)] (f ?r)"
  have "later ws A ?r" "disciplined [] (c_trace ?r)"
    using Cons.prems(1,3) by (simp_all add: disciplined_def replay_append)
  from later_step[OF this(1) pf(1) this(2) ne] have fr: "later ws A (f ?r)" "replay [] (c_trace (f ?r)) = Some []"
    by (simp_all add: disciplined_def)
  then have d: "later ws A ?d" "replay [] (c_trace ?d) = Some [EntryLock a]" by (simp_all add: replay_append)
  obtain e' ks' D' where e': "ents ?d a = Some e'" "entry_holds ?d a ks' D'"
    using d(1) Cons.prems(2) by (rule later_entry)
  have out: "read_wait a off (tf # w) c =
      (if total_size e \<le> word_of_int off \<and> e_state e = ENTRY_INCOMPLETE
       then if e_state e' = ENTRY_CANCELLED \<or> t then ret (False, logged [Release (EntryLock a)] ?d)
         else read_wait a off w ?d
       else ret (True, c))"
    using e(1) e'(1) tf by (subst read_wait.simps) (auto simp: emit_logged Let_def)
  have rel: "later ws A (logged [Release (EntryLock a)] ?d)"
    "replay [] (c_trace (logged [Release (EntryLock a)] ?d)) = Some []"
    using fr by (simp_all add: replay_append)
  have "w \<noteq> [] \<longrightarrow> ws \<noteq> []" using ne by simp
  note IH = Cons.IH[OF d(1) Cons.prems(2) d(2) pf(2) this]
  show ?case unfolding out using IH rel Cons.prems(1,3) tf by auto
qed

text \<open>A read never crashes, whatever happens during its waits.\<close>

lemma read_outcome:
  assumes "later ws A c" and "A a = Some x" and "0 \<le> off" and "disciplined [] (c_trace c)"
    and "peaceful_wakes w" and "w \<noteq> [] \<longrightarrow> ws \<noteq> []"
  shows "outcome (cache_entry_read w a off n c) (\<lambda>(r, buf, c').
      later ws A c' \<and> disciplined [] (c_trace c') \<and> (r = -1 \<or> r = int (length buf)))"
    and "times_out w \<Longrightarrow> \<exists>y. cache_entry_read w a off n c = ret y"
proof -
  let ?c = "logged [Acquire (EntryLock a)] c"
  let ?rest = "\<lambda>(proceed, c). if \<not> proceed then ret (-1, [], c)
     else bindR (get_entry c (Some a)) (\<lambda>e.
       if e_state e = ENTRY_CANCELLED then ret (-1, [], emit (Release (EntryLock a)) c)
       else bindR (find_chunk (chunks c) (data_head e) off) (\<lambda>(p, chunk_offset).
         bindR (copy_chunks (chunks c) p chunk_offset n []) (\<lambda>out.
         ret (int (length out), out, emit (Release (EntryLock a)) c))))"
  have c: "later ws A ?c" "replay [] (c_trace ?c) = Some [EntryLock a]"
    using assms(1,4) by (simp_all add: disciplined_def replay_append)
  have "\<exists>y. ?rest (go, d) = ret y \<and> (case y of (r, buf, c') \<Rightarrow>
      later ws A c' \<and> disciplined [] (c_trace c') \<and> (r = -1 \<or> r = int (length buf)))"
    if l: "later ws A d" and tr: "replay [] (c_trace d) = Some (if go then [EntryLock a] else [])" for go d
  proof -
    obtain e ks D where e: "ents d a = Some e" "entry_holds d a ks D"
      using l assms(2) by (rule later_entry)
    have sl: "\<And>f. bindR (find_chunk (chunks d) (data_head e) off) (\<lambda>(p, o').
        bindR (copy_chunks (chunks d) p o' n []) f) =
        (f (take (nat n) (drop (nat off) D)) :: (int \<times> string \<times> http_cache) run)"
      by (rule read_slice_of_chain[OF e(2,1) assms(3)])
    show ?thesis
      using l tr e(1) sl by (auto simp: emit_logged disciplined_def replay_append)
  qed
  note rest = this
  have "outcome (bindR (read_wait a off w ?c) ?rest) (\<lambda>(r, buf, c').
      later ws A c' \<and> disciplined [] (c_trace c') \<and> (r = -1 \<or> r = int (length buf)))"
  proof (rule outcome_bind[OF conjunct1[OF read_wait_outcome[OF c(1) assms(2) c(2) assms(5,6)]]], goal_cases)
    case (1 y)
    obtain go d where y: "y = (go, d)" by (cases y)
    with 1 rest[of d go] show ?case by auto
  qed
  then show "outcome (cache_entry_read w a off n c) (\<lambda>(r, buf, c').
      later ws A c' \<and> disciplined [] (c_trace c') \<and> (r = -1 \<or> r = int (length buf)))"
    unfolding cache_entry_read_def emit_logged .
  assume "times_out w"
  with read_wait_outcome[OF c(1) assms(2) c(2) assms(5,6), of off] obtain go d where
      d: "read_wait a off w ?c = ret (go, d)" "later ws A d"
        "replay [] (c_trace d) = Some (if go then [EntryLock a] else [])"
    by (auto simp: outcome_def)
  then show "\<exists>y. cache_entry_read w a off n c = ret y"
    using rest[OF d(2,3)] unfolding cache_entry_read_def emit_logged by auto
qed

definition served :: "'w list \<Rightarrow> acache \<Rightarrow> (bool \<times> (http_cache \<Rightarrow> http_cache)) list list \<times> http_cache \<Rightarrow> bool" where
  "served ws A s \<longleftrightarrow> (fst s \<noteq> [] \<longrightarrow> ws \<noteq> []) \<and> (\<forall>w \<in> set (fst s). peaceful_wakes w) \<and>
     later ws A (snd s) \<and> disciplined [] (c_trace (snd s))"

lemma entry_source_outcome:
  assumes "A a = Some x" and "0 \<le> off" and "served ws A s"
  shows "outcome (entry_source a off n s) (\<lambda>(r, buf, s').
      served ws A s' \<and> fst s' = tl (fst s) \<and> (r = -1 \<or> r = int (length buf)))"
    and "fst s \<noteq> [] \<Longrightarrow> times_out (hd (fst s)) \<Longrightarrow> \<exists>y. entry_source a off n s = ret y"
proof -
  obtain vs c where s: "s = (vs, c)" by (cases s)
  let ?w = "case vs of [] \<Rightarrow> [] | w # _ \<Rightarrow> w"
  from assms(3) s have sv: "later ws A c" "disciplined [] (c_trace c)" "peaceful_wakes ?w" "?w \<noteq> [] \<longrightarrow> ws \<noteq> []"
    by (auto simp: served_def split: list.splits)
  note rd = read_outcome[OF sv(1) assms(1,2) sv(2-4)]
  have vs: "\<forall>w \<in> set (tl vs). peaceful_wakes w" "tl vs \<noteq> [] \<longrightarrow> ws \<noteq> []"
    using assms(3) s by (cases vs; simp add: served_def)+
  have "outcome (bindR (cache_entry_read ?w a off n c) (\<lambda>(r, buf, c). ret (r, buf, tl vs, c)))
      (\<lambda>(r, buf, s'). served ws A s' \<and> fst s' = tl vs \<and> (r = -1 \<or> r = int (length buf)))"
    by (rule outcome_bind[OF rd(1)]) (use vs in \<open>auto simp: served_def\<close>)
  then show "outcome (entry_source a off n s) (\<lambda>(r, buf, s').
      served ws A s' \<and> fst s' = tl (fst s) \<and> (r = -1 \<or> r = int (length buf)))"
    by (simp add: entry_source_def s)
  assume "fst s \<noteq> []" "times_out (hd (fst s))"
  then have "times_out ?w" using s by (cases vs) auto
  from rd(2)[OF this, of n] rd(1)[of n] show "\<exists>y. entry_source a off n s = ret y"
    by (auto simp: entry_source_def s outcome_def)
qed

lemma handle_cached_request_outcome:
  assumes "represents c A" "A a = Some x" "disciplined [] (c_trace c)" "sane_waits ws"
  shows "outcome (handle_cached_request a ws rs c) (\<lambda>(_, _, _, c').
    later ws A c' \<and> disciplined [] (c_trace c'))"
proof -
  have "served ws A (ws, c)"
    using assms later_now by (auto simp: served_def sane_waits_def peaceful_wakes_def)
  moreover have "outcome (entry_source a off n s) (\<lambda>(r, buf, s'). served ws A s')"
    if "0 \<le> off" "served ws A s" for off n s
    by (rule outcome_mono[OF entry_source_outcome(1)[OF assms(2) that]]) auto
  ultimately have "outcome (copy_out (entry_source a) 0 rs (ws, c) []) (\<lambda>(r, _, _, s'). served ws A s')"
    by (intro copy_out_outcome) simp_all
  then show ?thesis
    unfolding handle_cached_request_def by (rule outcome_bind) (auto simp: served_def)
qed

subsection \<open>The paths of a request\<close>

text \<open>While the worker holds \<open>searchCreateMutex\<close>.\<close>

definition searching_in :: "acache \<Rightarrow> conn_st \<Rightarrow> bool" where
  "searching_in A st \<longleftrightarrow> represents (p_cache st) A \<and>
     replay [] (c_trace (p_cache st)) = Some [SearchCreateMutex]"

lemma still_held:
  "lock_clean hs c c' \<Longrightarrow> replay [] (c_trace c) = Some hs \<Longrightarrow> replay [] (c_trace c') = Some hs"
  by (auto simp: lock_clean_def disciplined_def replay_append)

lemma searching_release:
  "searching_in A st \<Longrightarrow> downloading A url None D (log_cache (Release SearchCreateMutex) st)"
  by (simp add: searching_in_def downloading_def log_cache_def emit_logged disciplined_def replay_append)

lemma searching_remote [simp]:
  "searching_in A (st\<lparr>remote_in := rs\<rparr>) = searching_in A st"
  by (simp add: searching_in_def)

text \<open>
  What is left at the end of a request, over the abstract cache \<open>A\<close> at its beginning: the
  client's socket closed once and forgotten, the origin's closed at most once, all mutexes released,
  no reference kept, and at most one new entry, which is complete or cancelled.
\<close>

definition left_over :: "acache \<Rightarrow> conn_st \<Rightarrow> conn_st \<Rightarrow> bool" where
  "left_over A st st' \<longleftrightarrow> sock_fd st' = -1 \<and>
     count_list (disconnected st') Client = Suc (count_list (disconnected st) Client) \<and>
     count_list (disconnected st') Remote \<le> Suc (count_list (disconnected st) Remote) \<and>
     disciplined [] (c_trace (p_cache st')) \<and>
     (represents (p_cache st') A \<or> (\<exists>a x. a \<notin> dom A \<and> represents (p_cache st') (A(a \<mapsto> x)) \<and>
        a_refs x = 0 \<and> a_state x \<noteq> ENTRY_INCOMPLETE))"

text \<open>The same when the request may have waited for other workers: what they did is kept.\<close>

definition left_behind :: "'w list \<Rightarrow> acache \<Rightarrow> conn_st \<Rightarrow> conn_st \<Rightarrow> bool" where
  "left_behind ws A st st' \<longleftrightarrow> sock_fd st' = -1 \<and>
     count_list (disconnected st') Client = Suc (count_list (disconnected st) Client) \<and>
     count_list (disconnected st') Remote \<le> Suc (count_list (disconnected st) Remote) \<and>
     disciplined [] (c_trace (p_cache st')) \<and>
     (later ws A (p_cache st') \<or> (\<exists>a x. a \<notin> dom A \<and> represents (p_cache st') (A(a \<mapsto> x)) \<and>
        a_refs x = 0 \<and> a_state x \<noteq> ENTRY_INCOMPLETE))"

lemma left_over_behind: "left_over A st st' \<Longrightarrow> left_behind ws A st st'"
  using later_now by (auto simp: left_over_def left_behind_def)

lemma left_behind_same: "same_sockets st st' \<Longrightarrow> left_behind ws A st' st'' \<Longrightarrow> left_behind ws A st st''"
  by (simp add: left_behind_def same_sockets_def)

lemma left_over_same: "same_sockets st st' \<Longrightarrow> left_over A st' st'' \<Longrightarrow> left_over A st st''"
  by (simp add: left_over_def same_sockets_def)

lemma same_sockets_log [simp]: "same_sockets st (log_cache ev st') = same_sockets st st'"
  by (simp add: same_sockets_def log_cache_def)

lemma finished_left_over: "finished A url entry st st' \<Longrightarrow> left_over A st st'"
  by (fastforce simp: finished_def left_over_def closed_both_def settled_def split: option.splits)

lemma close_left_over:
  assumes "downloading A url None D st"
  shows "left_over A st (close_both st)" "left_over A st (close_client st)"
    "left_over A st ((disconnect Client (disconnect Remote st))\<lparr>sock_fd := -1\<rparr>)"
  using assms by (auto simp: left_over_def downloading_def close_both_def close_client_def disconnect_def)

text \<open>
  What the proxy assumes of an answer without checking it: the length announced in its head can be added
  to the length of the head in an \<open>ssize_t\<close>.
\<close>

definition sane_reply :: "proxy_env \<Rightarrow> string \<Rightarrow> nat \<Rightarrow> bool" where
  "sane_reply env buf hlen \<longleftrightarrow> (\<forall>n resp. phr_parse_response False MAX_HEADERS (take hlen buf) 0 = ret (n, Some resp) \<longrightarrow>
     get_content_len (stale_errno env) buf (rs_headers resp) < 2 ^ 63 - 2 ^ 14)"

definition sane_replies :: "proxy_env \<Rightarrow> recv_result list \<Rightarrow> bool" where
  "sane_replies env rs \<longleftrightarrow> (\<forall>buf hlen rest. recv_headers [] rs = ret (Some (buf, hlen), rest) \<longrightarrow> sane_reply env buf hlen)"

lemma phr_parse_response_answer:
  obtains n q where "phr_parse_response sse m buf 0 = ret (n, q)"
    "q = None \<and> n < 0 \<or> (\<exists>x. q = Some x \<and> 0 < n)"
proof -
  obtain n q where a: "phr_parse (parse_response sse m) buf 0 = ret (n, q)"
    by (cases rule: responses.answer_cases[of sse m buf 0]) auto
  with responses.answer_range[OF a] show ?thesis using that by (auto simp: phr_parse_response_def)
qed

lemma forward_response_outcome:
  assumes dl: "downloading A url entry D st" and m: "fresh_memory env"
    and len: "length buf < 2 ^ 13" "hlen \<le> length buf" and cl: "content_len < 2 ^ 63 - 2 ^ 14"
  shows "outcome (forward_response env entry buf hlen content_len st) (left_over A st)"
proof -
  have "length buf < 2 ^ 63" using len(1) by simp
  from store_chunk_downloading[OF dl m this] obtain st1 D1 where
      s1: "store_chunk env entry buf st = ret st1" "downloading A url entry D1 st1" "same_sockets st st1"
    by blast
  have nov: "\<not> 2 ^ 63 \<le> int hlen + content_len" using len cl by simp
  have "outcome (bindR (send_client buf st1) (\<lambda>(r, st).
      if r = -1 then release_cancel entry st
      else if content_len \<noteq> -1 then
        (if 2 ^ 63 \<le> int hlen + content_len then crashed SignedOverflow
         else forward_known env entry (int hlen + content_len - int (length buf)) (remote_in st) st)
      else forward_eof entry (remote_in st) st)) (left_over A st)"
  proof (rule outcome_bind[OF send_client_outcome], clarify)
    fix r st2 m'
    assume c: "p_cache st2 = p_cache st1" and sk: "same_sockets st1 st2"
    have dl2: "downloading A url entry D1 st2" using s1(2) downloading_cache[OF c] by simp
    have tr: "finished A url entry st2 x \<Longrightarrow> left_over A st x" for x
      using finished_left_over finished_trans same_sockets_trans[OF s1(3) sk] by blast
    show "outcome (if r = -1 then release_cancel entry st2
      else if content_len \<noteq> -1 then
        (if 2 ^ 63 \<le> int hlen + content_len then crashed SignedOverflow
         else forward_known env entry (int hlen + content_len - int (length buf)) (remote_in st2) st2)
      else forward_eof entry (remote_in st2) st2) (left_over A st)"
      using nov outcome_mono[OF download_finished(1)[OF dl2] tr]
        outcome_mono[OF forward_known_outcome[OF dl2 m] tr] outcome_mono[OF forward_eof_outcome[OF dl2] tr]
      by simp
  qed
  then show ?thesis by (simp add: forward_response_def s1(1))
qed

lemma handle_response_outcome:
  assumes s: "searching_in A st" and m: "fresh_memory env" and sane: "sane_reply env buf hlen"
    and len: "length buf < 2 ^ 13" "hlen \<le> length buf" and url: "length url < MAX_URL_LENGTH"
  shows "outcome (handle_response env url buf hlen st) (left_over A st)"
proof -
  obtain err q where pr: "phr_parse_response False MAX_HEADERS (take hlen buf) 0 = ret (err, q)"
    "q = None \<and> err < 0 \<or> (\<exists>x. q = Some x \<and> 0 < err)" by (rule phr_parse_response_answer)
  let ?r = "log_cache (Release SearchCreateMutex) st"
  have dl: "downloading A url None [] ?r" using searching_release[OF s] .
  have lo: "left_over A ?r x \<Longrightarrow> left_over A st x" for x
    using left_over_same[of st ?r] by (simp add: same_sockets_def log_cache_def)
  show ?thesis
  proof (cases q)
    case None
    then show ?thesis using pr lo[OF close_left_over(1)[OF dl]] by (simp add: handle_response_def)
  next
    case q: (Some resp)
  let ?cl = "get_content_len (stale_errno env) buf (rs_headers resp)"
  have cl: "?cl < 2 ^ 63 - 2 ^ 14" using sane pr(1) q unfolding sane_reply_def by blast
  note plain = outcome_mono[OF forward_response_outcome[OF dl m len cl] lo]
  have ins: "outcome (bindR (cache_insert (entry_mem env (p_cache st)) (clock env) url (p_cache st)) (\<lambda>(entry, c).
      let st = log_cache (Release SearchCreateMutex) (st\<lparr>p_cache := c\<rparr>) in
      if entry = None then ret (close_both st)
      else forward_response env entry buf hlen ?cl st)) (left_over A st)"
  proof (cases "entry_mem env (p_cache st)")
    case None
    then show ?thesis using lo[OF close_left_over(1)[OF dl]] by (simp add: cache_insert_def)
  next
    case (Some a)
    from s have rep: "represents (p_cache st) A" "replay [] (c_trace (p_cache st)) = Some [SearchCreateMutex]"
      by (simp_all add: searching_in_def)
    have "a \<notin> dom A" using m Some represents_dom[OF rep(1)] by (simp add: fresh_memory_def)
    from insert_refines[OF rep(1) this url, of "clock env"] obtain c' where
        c': "cache_insert (Some a) (clock env) url (p_cache st) = ret (Some a, c')"
          "represents c' (A(a \<mapsto> \<lparr>a_url = url, a_state = ENTRY_INCOMPLETE, a_refs = 1, a_data = []\<rparr>))"
          "lock_clean [SearchCreateMutex] (p_cache st) c'" by blast
    let ?st = "log_cache (Release SearchCreateMutex) (st\<lparr>p_cache := c'\<rparr>)"
    have "downloading A url (Some a) [] ?st"
      using c'(2,3) rep(2) \<open>a \<notin> dom A\<close>
      by (auto simp: downloading_def log_cache_def emit_logged lock_clean_def disciplined_def replay_append)
    note fw = forward_response_outcome[OF this m len cl]
    have "left_over A ?st x \<Longrightarrow> left_over A st x" for x
      using left_over_same[of st ?st] by (simp add: same_sockets_def log_cache_def)
    then show ?thesis using Some c'(1) outcome_mono[OF fw] by (simp add: Let_def)
  qed
  show ?thesis
    using plain ins lo[OF close_left_over(1)[OF dl]] pr q
    by (simp add: handle_response_def Let_def cong: if_cong)
  qed
qed

lemma find_end_le: "find_end i s = Some n \<Longrightarrow> n \<le> i + length s"
proof (induction i s rule: find_end.induct)
  case (2 i ch s)
  then show ?case
  proof (cases "take 4 (ch # s) = [CHR 0x0D, CHR 0x0A, CHR 0x0D, CHR 0x0A]")
    case True
    then have "length (take 4 (ch # s)) = 4" by simp
    then have "4 \<le> length (ch # s)" by (simp only: length_take min_def split: if_splits)
    then show ?thesis using True 2(2) by simp
  qed auto
qed simp

lemma header_end_le: "header_end buf = Some n \<Longrightarrow> n \<le> length buf"
  using find_end_le[of 0 "c_str buf" n] length_takeWhile_le[of "\<lambda>ch. ch \<noteq> CHR 0x00" buf]
  by (simp add: header_end_def c_str_def)

lemma recv_headers_outcome:
  "outcome (recv_headers buf rs) (\<lambda>(h, _). \<forall>b n. h = Some (b, n) \<longrightarrow> length b < BUFFER_SIZE \<and> n \<le> length b)"
proof (induction rs arbitrary: buf)
  case Nil
  then show ?case by (simp add: recv_headers.simps)
next
  case (Cons r rs)
  show ?case
  proof (cases r)
    case (Received d)
    let ?b = "buf @ take (BUFFER_SIZE - length buf - 1) d"
    have "length ?b < BUFFER_SIZE" if "\<not> BUFFER_SIZE - 1 \<le> length buf"
      using that by (simp add: BUFFER_SIZE_def)
    then show ?thesis
      using Cons[of ?b] header_end_le[of ?b] Received
      by (auto simp: recv_headers.simps[of buf] Let_def split: option.split)
  qed (simp_all add: recv_headers.simps[of buf])
qed

lemma fetch_outcome:
  assumes s: "searching_in A st" and m: "fresh_memory env" and sane: "sane_replies env (remote_in st)"
    and url: "length url < MAX_URL_LENGTH"
  shows "outcome (fetch env hostname url buffer st) (left_over A st)"
proof -
  have dl: "downloading A url None [] (log_cache (Release SearchCreateMutex) st)" if "searching_in A st" for st
    using searching_release[OF that] .
  have lo: "left_over A (log_cache (Release SearchCreateMutex) st1) x \<Longrightarrow> left_over A st x"
    if "same_sockets st st1" for st1 x
    using left_over_same[of st "log_cache (Release SearchCreateMutex) st1"] that by simp
  have "outcome (bindR (send_remote buffer st) (\<lambda>(r, st).
      if r = -1 then
        ret ((disconnect Client (disconnect Remote (log_cache (Release SearchCreateMutex) st)))\<lparr>sock_fd := -1\<rparr>)
      else bindR (recv_headers [] (remote_in st)) (\<lambda>(h, rs).
        let st = st\<lparr>remote_in := rs\<rparr> in
        case h of
          None \<Rightarrow> ret (close_both (log_cache (Release SearchCreateMutex) st))
        | Some (buf, hlen) \<Rightarrow> handle_response env url buf hlen st))) (left_over A st)"
  proof (rule outcome_bind[where P = "\<lambda>(r, st1). searching_in A st1 \<and> same_sockets st st1 \<and> remote_in st1 = remote_in st"])
    show "outcome (send_remote buffer st)
        (\<lambda>(r, st1). searching_in A st1 \<and> same_sockets st st1 \<and> remote_in st1 = remote_in st)"
      unfolding send_remote_def send_buffer_def
      by (rule outcome_bind[OF send_loop_outcome]) (use s in \<open>auto simp: searching_in_def same_sockets_def\<close>)
  next
    fix x :: "int \<times> conn_st"
    assume x: "case x of (r, st1) \<Rightarrow> searching_in A st1 \<and> same_sockets st st1 \<and> remote_in st1 = remote_in st"
    obtain r st1 where xr: "x = (r, st1)" by (cases x)
    with x have s1: "searching_in A st1" "same_sockets st st1" "remote_in st1 = remote_in st" by simp_all
    have "outcome (bindR (recv_headers [] (remote_in st1)) (\<lambda>(h, rs).
        let st = st1\<lparr>remote_in := rs\<rparr> in
        case h of
          None \<Rightarrow> ret (close_both (log_cache (Release SearchCreateMutex) st))
        | Some (buf, hlen) \<Rightarrow> handle_response env url buf hlen st)) (left_over A st)"
    proof (rule outcome_bind[OF outcome_eq[OF recv_headers_outcome]], clarify)
      fix h :: "(string \<times> nat) option" and rs
      assume hr: "recv_headers [] (remote_in st1) = ret (h, rs)"
        and h: "\<forall>b n. h = Some (b, n) \<longrightarrow> length b < BUFFER_SIZE \<and> n \<le> length b"
      let ?st = "st1\<lparr>remote_in := rs\<rparr>"
      have s2: "searching_in A ?st" "same_sockets st ?st" using s1 by simp_all
      show "outcome (let st = ?st in case h of
          None \<Rightarrow> ret (close_both (log_cache (Release SearchCreateMutex) st))
        | Some (buf, hlen) \<Rightarrow> handle_response env url buf hlen st) (left_over A st)"
      proof (cases h)
        case None
        then show ?thesis using lo[OF s2(2) close_left_over(1)[OF dl[OF s2(1)]]] by simp
      next
        case (Some bn)
        obtain b n where bn: "bn = (b, n)" by (cases bn)
        with h Some have len: "length b < 2 ^ 13" "n \<le> length b" by (simp_all add: BUFFER_SIZE_def)
        have "sane_reply env b n" using sane hr Some bn s1(3) unfolding sane_replies_def by auto
        from outcome_mono[OF handle_response_outcome[OF s2(1) m this len url] left_over_same[OF s2(2)]]
        show ?thesis using Some bn by simp
      qed
    qed
    then show "outcome (case x of (r, st) \<Rightarrow> if r = -1 then
        ret ((disconnect Client (disconnect Remote (log_cache (Release SearchCreateMutex) st)))\<lparr>sock_fd := -1\<rparr>)
      else bindR (recv_headers [] (remote_in st)) (\<lambda>(h, rs).
        let st = st\<lparr>remote_in := rs\<rparr> in
        case h of
          None \<Rightarrow> ret (close_both (log_cache (Release SearchCreateMutex) st))
        | Some (buf, hlen) \<Rightarrow> handle_response env url buf hlen st)) (left_over A st)"
      using lo[OF s1(2) close_left_over(3)[OF dl[OF s1(1)]]] by (simp add: xr)
  qed
  then show ?thesis
    using lo[OF same_sockets_refl close_left_over(2)[OF dl[OF s]]] by (simp add: fetch_def)
qed

subsection \<open>The whole request\<close>

text \<open>
  What the code relies on without a check: a request that is accepted has a \<open>Host\<close> header shorter than
  1024 bytes and a path shorter than 2048.
\<close>

definition sane_request :: "request \<Rightarrow> bool" where
  "sane_request req \<longleftrightarrow> length (rq_path req) < 2048 \<and>
     (\<exists>h. findHeader (rq_headers req) ''Host'' = Some h \<and> length (h_value h) < 1024)"

definition sane_requests :: "recv_result list \<Rightarrow> bool" where
  "sane_requests rs \<longleftrightarrow> (\<forall>buf req rest. recv_request parse_req [] rs = ret (Some (buf, req), rest) \<longrightarrow> sane_request req)"

lemma recv_request_outcome: "outcome (recv_request parse_req buf rs) (\<lambda>_. True)"
proof (induction rs arbitrary: buf)
  case (Cons r rs)
  show ?case
  proof (cases r)
    case (Received d)
    let ?b = "buf @ take (BUFFER_SIZE - length buf) d"
    obtain n q where "parse_req ?b (length buf) = ret (n, q)"
      "q = None \<and> (n = -1 \<or> n = -2) \<or> (\<exists>x. q = Some x \<and> 0 < n)"
      using parse_req_answer[of "length buf" ?b] by auto
    then show ?thesis using Cons[of ?b] Received by (auto simp: Let_def)
  qed (use Cons in simp_all)
qed simp

lemma check_request_outcome:
  assumes "sane_request req"
  shows "outcome (check_request req) (\<lambda>r. \<forall>hn url. r = Some (hn, url) \<longrightarrow> length url < MAX_URL_LENGTH)"
  using assms length_takeWhile_le[of "\<lambda>ch. ch \<noteq> CHR 0x00" "rq_path req"]
  by (auto simp: check_request_def c_str_def MAX_URL_LENGTH_def sane_request_def)

text \<open>A hit: the reference that the lookup took is given back.\<close>

lemma serve_cached_outcome:
  assumes rep: "represents (p_cache st) (A(a \<mapsto> x\<lparr>a_refs := a_refs x + 1\<rparr>))" and x: "A a = Some x"
    and tr: "replay [] (c_trace (p_cache st)) = Some [SearchCreateMutex]" and w: "sane_waits (waits env)"
  shows "outcome (serve_cached env a st) (left_behind (waits env) A st)"
proof -
  let ?x = "x\<lparr>a_refs := a_refs x + 1\<rparr>"
  let ?c = "p_cache (log_cache (Release SearchCreateMutex) st)"
  have c: "represents ?c (A(a \<mapsto> ?x))" "disciplined [] (c_trace ?c)"
    using rep tr by (simp_all add: log_cache_def emit_logged disciplined_def replay_append)
  have Aa: "(A(a \<mapsto> ?x)) a = Some ?x" by simp
  have rel: "outcome (bindR (on_cache (cache_entry_release (Some a)) st1) (\<lambda>st. ret (close_client st)))
      (left_behind (waits env) A st)"
    if l: "later (waits env) (A(a \<mapsto> ?x)) (p_cache st1)" and d: "disciplined [] (c_trace (p_cache st1))"
      and dc: "disconnected st1 = disconnected st" for st1
  proof -
    from l obtain B where B: "evolves (A(a \<mapsto> ?x)) B" "waits env = [] \<Longrightarrow> B = A(a \<mapsto> ?x)"
        "represents (p_cache st1) B" by (auto simp: later_def)
    obtain y where y: "B a = Some y" "a_url y = a_url x" "a_refs y = a_refs x + 1"
      using evolves_entry[OF B(1) Aa] by auto
    let ?y = "y\<lparr>a_refs := a_refs y - 1\<rparr>"
    from B(3) y(1) have "represents (p_cache st1) (B(a \<mapsto> y))" by (simp add: fun_upd_idem)
    from on_cache_update[where f = "\<lambda>e. e\<lparr>refcount := refcount e - 1\<rparr>" and sf = "\<lambda>t. t" and
        rf = "\<lambda>n. n - 1" and b = False, OF this d]
    obtain c' where c': "on_cache (cache_entry_release (Some a)) st1 = ret (st1\<lparr>p_cache := c'\<rparr>)"
        "disciplined [] (c_trace c')" "represents c' (B(a \<mapsto> ?y))"
      by (auto simp: cache_entry_release_def shape_def)
    have dB: "dom B = insert a (dom A)" using evolves_dom[OF B(1)] by simp
    have "evolves A (B(a \<mapsto> ?y))"
    proof (rule evolvesI)
      show "dom (B(a \<mapsto> ?y)) = dom A" using dB x by auto
      fix b z z' assume z: "A b = Some z" "(B(a \<mapsto> ?y)) b = Some z'"
      show "a_url z' = a_url z \<and> a_refs z' = a_refs z"
      proof (cases "b = a")
        case True
        then show ?thesis using z x y by auto
      next
        case False
        then have "(A(a \<mapsto> ?x)) b = Some z" "B b = Some z'" using z by simp_all
        from evolvesD[OF B(1) this] show ?thesis by simp
      qed
    qed
    moreover have "B(a \<mapsto> ?y) = A" if "waits env = []"
      using B(2)[OF that] y(1) x by auto
    ultimately have "later (waits env) A c'" using c'(3) by (auto simp: later_def)
    then show ?thesis
      using c'(1,2) dc by (simp add: left_behind_def close_client_def disconnect_def)
  qed
  show ?thesis
    unfolding serve_cached_def Let_def
    by (rule outcome_bind[OF handle_cached_request_outcome[OF c(1) Aa c(2) w]], clarify)
      (rule rel, simp_all add: log_cache_def)
qed

lemma lookup_outcome:
  assumes rep: "represents (p_cache st) A" and tr: "disciplined [] (c_trace (p_cache st))"
    and env: "fresh_memory env" "sane_replies env (remote_in st)" "sane_waits (waits env)" and url: "length url < MAX_URL_LENGTH"
  shows "outcome (let st = log_cache (Acquire SearchCreateMutex) st in
      bindR (cache_lookup (clock env) url (p_cache st)) (\<lambda>(entry, c).
      let st = st\<lparr>p_cache := c\<rparr> in
      case entry of Some a \<Rightarrow> serve_cached env a st | None \<Rightarrow> fetch env hostname url buffer st))
    (left_behind (waits env) A st)"
proof -
  let ?st = "log_cache (Acquire SearchCreateMutex) st"
  have rep': "represents (p_cache ?st) A" using rep by (simp add: log_cache_def emit_logged)
  have tr': "replay [] (c_trace (p_cache ?st)) = Some [SearchCreateMutex]"
    using tr by (simp add: log_cache_def emit_logged disciplined_def replay_append)
  have keep: "replay [] (c_trace c') = Some [SearchCreateMutex]"
    if "lock_clean [SearchCreateMutex] (p_cache ?st) c'" for c'
    using that tr' by (auto simp: lock_clean_def disciplined_def replay_append)
  have lo: "left_behind ws A (?st\<lparr>p_cache := c'\<rparr>) y \<Longrightarrow> left_behind ws A st y" for ws :: "'w list" and c' y
    using left_behind_same[of st "?st\<lparr>p_cache := c'\<rparr>"] by simp
  from lookup_refines[OF rep', of "clock env" url] show ?thesis
  proof (elim disjE exE conjE, goal_cases)
    case (1 c')
    have "searching_in A (?st\<lparr>p_cache := c'\<rparr>)"
      using 1(2) keep[OF 1(4)] by (simp add: searching_in_def)
    moreover have "sane_replies env (remote_in (?st\<lparr>p_cache := c'\<rparr>))" using env(2) by (simp add: log_cache_def)
    ultimately have "outcome (fetch env hn url buffer (?st\<lparr>p_cache := c'\<rparr>)) (left_over A (?st\<lparr>p_cache := c'\<rparr>))" for hn
      by (intro fetch_outcome[OF _ env(1) _ url])
    from outcome_mono[OF this lo[OF left_over_behind]] show ?case using 1(1) by simp
  next
    case (2 a x c')
    have "outcome (serve_cached env a (?st\<lparr>p_cache := c'\<rparr>))
        (left_behind (waits env) A (?st\<lparr>p_cache := c'\<rparr>))"
      by (rule serve_cached_outcome[where A = A and a = a and x = x]) (use 2(2) env(3) 2(4) keep[OF 2(6)] in simp_all)
    from outcome_mono[OF this lo] show ?case using 2(1) by simp
  qed
qed

lemma process_request_outcome:
  assumes rep: "represents (p_cache st) A" and tr: "disciplined [] (c_trace (p_cache st))"
    and env: "fresh_memory env" "sane_replies env (remote_in st)" "sane_requests (client_in st)" "sane_waits (waits env)"
  shows "outcome (process_request env st) (left_behind (waits env) A st)"
  unfolding process_request_def
proof (rule outcome_bind[OF outcome_eq[OF recv_request_outcome]], clarify)
  fix r :: "(string \<times> request) option" and rs
  assume r: "recv_request parse_req [] (client_in st) = ret (r, rs)"
  let ?st = "st\<lparr>client_in := rs\<rparr>"
  have st: "represents (p_cache ?st) A" "disciplined [] (c_trace (p_cache ?st))" "same_sockets st ?st"
    using rep tr by (simp_all add: same_sockets_def)
  have idle: "left_behind (waits env) A st (close_client ?st)"
    using rep tr later_now[OF rep, of "waits env"] by (simp add: left_behind_def close_client_def disconnect_def)
  show "outcome (let st = ?st in
      case r of None \<Rightarrow> ret (close_client st)
      | Some (buffer, req) \<Rightarrow> bindR (check_request req) (\<lambda>ok.
         case ok of None \<Rightarrow> ret (close_client st)
         | Some (hostname, url) \<Rightarrow>
           let st = log_cache (Acquire SearchCreateMutex) st in
           bindR (cache_lookup (clock env) url (p_cache st)) (\<lambda>(entry, c).
           let st = st\<lparr>p_cache := c\<rparr> in
           case entry of Some a \<Rightarrow> serve_cached env a st | None \<Rightarrow> fetch env hostname url buffer st)))
    (left_behind (waits env) A st)"
  proof (cases r)
    case None
    then show ?thesis using idle by simp
  next
    case (Some br)
    obtain buffer req where br: "br = (buffer, req)" by (cases br)
    with r Some env(3) have h: "sane_request req" unfolding sane_requests_def by blast
    have "outcome (bindR (check_request req) (\<lambda>ok.
         case ok of None \<Rightarrow> ret (close_client ?st)
         | Some (hostname, url) \<Rightarrow>
           let st = log_cache (Acquire SearchCreateMutex) ?st in
           bindR (cache_lookup (clock env) url (p_cache st)) (\<lambda>(entry, c).
           let st = st\<lparr>p_cache := c\<rparr> in
           case entry of Some a \<Rightarrow> serve_cached env a st | None \<Rightarrow> fetch env hostname url buffer st)))
      (left_behind (waits env) A st)"
    proof (rule outcome_bind[OF check_request_outcome[OF h]], goal_cases)
      case (1 ok)
      show ?case
      proof (cases ok)
        case None
        then show ?thesis using idle by simp
      next
        case (Some hu)
        obtain hn url where hu: "hu = (hn, url)" by (cases hu)
        with 1 Some have url: "length url < MAX_URL_LENGTH" by simp
        have "sane_replies env (remote_in ?st)" using env(2) by simp
        from outcome_mono[OF lookup_outcome[OF st(1,2) env(1) this env(4) url, of hn buffer] left_behind_same[OF st(3)]]
        show ?thesis using Some hu by simp
      qed
    qed
    then show ?thesis unfolding Some br Let_def by simp
  qed
qed

end
