(* ===== verification/ProxyReturns.thy ===== *)
theory ProxyReturns
  imports ProxyOutcome
begin

section \<open>Every request ends\<close>

text \<open>
  When neither peer leaves a call blocked for ever and no entry of the cache is still being filled by
  somebody else, \<open>process_request\<close> returns. A list of outcomes of \<open>recv\<close> closes when the peer closes
  the connection or fails at some point; a list of outcomes of \<open>send\<close> breaks when the connection fails
  at some point. How many calls come before that does not matter.
\<close>

definition closing :: "recv_result list \<Rightarrow> bool" where
  "closing rs \<longleftrightarrow> RecvErr \<in> set rs \<or> Received [] \<in> set rs"

definition breaking :: "send_result list \<Rightarrow> bool" where
  "breaking rs \<longleftrightarrow> SendErr \<in> set rs \<or> Sent 0 \<in> set rs"

lemma closing_simps [simp]:
  "\<not> closing []" "closing (RecvErr # rs)" "closing (RecvIntr # rs) = closing rs"
  "closing (Received d # rs) \<longleftrightarrow> d = [] \<or> closing rs"
  by (auto simp: closing_def)

lemma breaking_simps [simp]:
  "\<not> breaking []" "breaking (SendErr # rs)" "breaking (SendIntr # rs) = breaking rs"
  "breaking (Sent n # rs) \<longleftrightarrow> n = 0 \<or> breaking rs"
  by (auto simp: breaking_def)

text \<open>A run that comes to an end.\<close>

definition returns :: "'a run \<Rightarrow> bool" where
  "returns m \<longleftrightarrow> m \<noteq> None"

lemma returns_simps [simp]: "returns (ret x)" "returns (crashed e)" "\<not> returns None"
  by (simp_all add: returns_def)

lemma returns_ret: "\<exists>x. m = ret x \<and> P x \<Longrightarrow> returns m"
  by auto

lemma outcome_returns:
  assumes "returns m" "outcome m P" "\<And>x. m = ret x \<Longrightarrow> P x \<Longrightarrow> returns (f x)"
  shows "returns (bindR m f)"
  using assms by (auto simp: outcome_def)

subsection \<open>Sending\<close>

lemma send_loop_returns:
  "breaking rs \<Longrightarrow> tot \<le> length buf \<Longrightarrow> \<exists>r out rs'. send_loop buf tot rs = ret (r, out, rs') \<and> (r = -1 \<or> breaking rs')"
proof (induction buf tot rs rule: send_loop.induct)
  case (1 buf tot rs)
  show ?case
  proof (cases "tot < length buf")
    case False
    then show ?thesis using 1(3) by (subst send_loop.simps) simp
  next
    case True
    show ?thesis
    proof (cases rs)
      case (Cons r rs')
      show ?thesis
      proof (cases r)
        case (Sent n)
        show ?thesis
        proof (cases "n = 0")
          case False
          with 1(3) Cons Sent have "breaking rs'" by simp
          then show ?thesis using 1(1)[OF True Cons Sent refl] Cons True Sent False
            by (subst send_loop.simps) (auto simp: Let_def)
        qed (use Cons Sent True in \<open>subst send_loop.simps, simp\<close>)
      next
        case SendIntr
        then show ?thesis using 1(2)[OF True Cons SendIntr] 1(3,4) Cons True
          by (subst send_loop.simps) simp
      next
        case SendErr
        then show ?thesis using Cons True by (subst send_loop.simps) simp
      qed
    qed (use 1(3) in simp)
  qed
qed

lemma send_client_returns:
  assumes "breaking (client_tx st)"
  obtains r st' where "send_client data st = ret (r, st')" "r = -1 \<or> breaking (client_tx st')"
  using send_loop_returns[OF assms, of 0 data] that by (auto simp: send_client_def send_buffer_def)

lemma send_remote_returns: "breaking (remote_tx st) \<Longrightarrow> returns (send_remote data st)"
  using send_loop_returns[of "remote_tx st" 0 data] by (auto simp: send_remote_def send_buffer_def)

subsection \<open>Forwarding\<close>

lemma download_ends_returns:
  assumes "downloading A url entry D st"
  shows "returns (release_cancel entry (st\<lparr>remote_in := rs\<rparr>))" "returns (cancel_release entry (st\<lparr>remote_in := rs\<rparr>))"
    "returns (complete_release entry (st\<lparr>remote_in := rs\<rparr>))" "returns (release_cancel entry st)"
proof -
  have "downloading A url entry D (st\<lparr>remote_in := rs\<rparr>)" using assms by simp
  from download_ends[OF this] download_ends(1)[OF assms]
  show "returns (release_cancel entry (st\<lparr>remote_in := rs\<rparr>))" "returns (cancel_release entry (st\<lparr>remote_in := rs\<rparr>))"
    "returns (complete_release entry (st\<lparr>remote_in := rs\<rparr>))" "returns (release_cancel entry st)"
    by (blast intro: returns_ret)+
qed

lemma forward_known_returns:
  assumes "downloading A url entry D st" "fresh_memory env" "closing rs" "breaking (client_tx st)"
  shows "returns (forward_known env entry remaining rs st)"
  using assms
proof (induction rs arbitrary: remaining st D)
  case (Cons r rs)
  note ends = download_ends_returns[OF Cons.prems(1)]
  show ?case
  proof (cases "0 < remaining")
    case True
    show ?thesis
    proof (cases r)
      case (Received d)
      let ?got = "take BUFFER_SIZE d"
      have len: "length ?got < 2 ^ 63" by (simp add: BUFFER_SIZE_def)
      from store_chunk_downloading[OF Cons.prems(1,2) len] obtain st1 D1 where
          s1: "store_chunk env entry ?got st = ret st1" "downloading A url entry D1 st1" "client_tx st1 = client_tx st"
        by blast
      from Cons.prems(4) s1(3) have "breaking (client_tx st1)" by simp
      then obtain q st2 where s2: "send_client ?got st1 = ret (q, st2)" "q = -1 \<or> breaking (client_tx st2)"
        by (rule send_client_returns)
      have c: "p_cache st2 = p_cache st1" using outcome_retD[OF send_client_outcome s2(1)] by simp
      have dl: "downloading A url entry D1 st2" using s1(2) downloading_cache[OF c] by simp
      have "?got = [] \<longleftrightarrow> d = []" by (simp add: BUFFER_SIZE_def)
      then show ?thesis
        using True Received s1(1) s2 Cons.IH[OF dl Cons.prems(2)] Cons.prems(3) ends download_ends_returns[OF dl]
        by (subst forward_known.simps) (auto simp: Let_def)
    qed (use True ends in \<open>subst forward_known.simps, simp\<close>)+
  qed (use ends in \<open>subst forward_known.simps, simp\<close>)
qed simp

lemma forward_eof_returns:
  assumes "downloading A url entry D st" "closing rs" "breaking (client_tx st)"
  shows "returns (forward_eof entry rs st)"
  using assms
proof (induction rs arbitrary: st D)
  case (Cons r rs)
  note ends = download_ends_returns[OF Cons.prems(1)]
  show ?case
  proof (cases r)
    case (Received d)
    let ?got = "take BUFFER_SIZE d"
    from Cons.prems(3) obtain q st2 where
        s2: "send_client ?got st = ret (q, st2)" "q = -1 \<or> breaking (client_tx st2)"
      by (rule send_client_returns)
    have c: "p_cache st2 = p_cache st" using outcome_retD[OF send_client_outcome s2(1)] by simp
    have dl: "downloading A url entry D st2" using Cons.prems(1) downloading_cache[OF c] by simp
    have "?got = [] \<longleftrightarrow> d = []" by (simp add: BUFFER_SIZE_def)
    then show ?thesis
      using Received s2 Cons.IH[OF dl] Cons.prems(2) ends download_ends_returns[OF dl]
      by (auto simp: Let_def)
  qed (use ends in simp_all)
qed simp

lemma forward_response_returns:
  assumes dl: "downloading A url entry D st" and m: "fresh_memory env" and len: "length buf < 2 ^ 13"
    and peers: "closing (remote_in st)" "breaking (client_tx st)"
  shows "returns (forward_response env entry buf hlen content_len st)"
proof -
  have "length buf < 2 ^ 63" using len by simp
  from store_chunk_downloading[OF dl m this] obtain st1 D1 where
      s1: "store_chunk env entry buf st = ret st1" "downloading A url entry D1 st1"
        "client_tx st1 = client_tx st" "remote_in st1 = remote_in st" by blast
  from peers(2) s1(3) have "breaking (client_tx st1)" by simp
  then obtain q st2 where s2: "send_client buf st1 = ret (q, st2)" "q = -1 \<or> breaking (client_tx st2)"
    by (rule send_client_returns)
  have same: "p_cache st2 = p_cache st1" "remote_in st2 = remote_in st"
    using outcome_retD[OF send_client_outcome s2(1)] s1(4) by simp_all
  have "downloading A url entry D1 st2" using s1(2) downloading_cache[OF same(1)] by simp
  from forward_known_returns[OF this m] forward_eof_returns[OF this] download_ends_returns(4)[OF this]
  show ?thesis using s1(1) s2 peers(1) same(2) by (auto simp: forward_response_def)
qed

lemma handle_response_returns:
  assumes s: "searching_in A st" and m: "fresh_memory env"
    and len: "length buf < 2 ^ 13" and url: "length url < MAX_URL_LENGTH"
    and peers: "closing (remote_in st)" "breaking (client_tx st)"
  shows "returns (handle_response env url buf hlen st)"
proof -
  obtain err q where pr: "phr_parse_response False MAX_HEADERS (take hlen buf) 0 = ret (err, q)"
    by (rule phr_parse_response_answer)
  let ?r = "log_cache (Release SearchCreateMutex) st"
  have plain: "returns (forward_response env None buf hlen cl ?r)" for cl
    using forward_response_returns[OF searching_release[OF s] m len] peers by (simp add: log_cache_def)
  have "returns (bindR (cache_insert (entry_mem env (p_cache st)) (clock env) url (p_cache st)) (\<lambda>(entry, c).
      let st = log_cache (Release SearchCreateMutex) (st\<lparr>p_cache := c\<rparr>) in
      if entry = None then ret (close_both st)
      else forward_response env entry buf hlen cl st))" for cl
  proof (cases "entry_mem env (p_cache st)")
    case (Some a)
    from s have rep: "represents (p_cache st) A" "replay [] (c_trace (p_cache st)) = Some [SearchCreateMutex]"
      by (simp_all add: searching_in_def)
    have "a \<notin> dom A" using m Some represents_dom[OF rep(1)] by (simp add: fresh_memory_def)
    from insert_refines[OF rep(1) this url, of "clock env"] obtain c' where
        c': "cache_insert (Some a) (clock env) url (p_cache st) = ret (Some a, c')"
          "represents c' (A(a \<mapsto> \<lparr>a_url = url, a_state = ENTRY_INCOMPLETE, a_refs = 1, a_data = []\<rparr>))"
          "lock_clean [SearchCreateMutex] (p_cache st) c'" by blast
    let ?st = "log_cache (Release SearchCreateMutex) (st\<lparr>p_cache := c'\<rparr>)"
    have "downloading A url (Some a) [] ?st"
      using c'(2,3) rep(2) \<open>a \<notin> dom A\<close>
      by (auto simp: downloading_def log_cache_def emit_logged lock_clean_def disciplined_def replay_append)
    from forward_response_returns[OF this m len] show ?thesis
      using Some c'(1) peers by (simp add: Let_def log_cache_def)
  qed (simp add: cache_insert_def)
  then show ?thesis
    using plain by (simp add: handle_response_def pr Let_def cong: if_cong)
qed

lemma recv_headers_returns:
  "closing rs \<Longrightarrow> \<exists>h rs'. recv_headers buf rs = ret (h, rs') \<and> (h = None \<or> closing rs')"
proof (induction rs arbitrary: buf)
  case (Cons r rs)
  show ?case
  proof (cases r)
    case (Received d)
    let ?got = "take (BUFFER_SIZE - length buf - 1) d"
    have "d = [] \<Longrightarrow> ?got = []" by simp
    then show ?thesis
      using Received Cons by (subst recv_headers.simps) (auto simp: Let_def split: option.split)
  qed (subst recv_headers.simps, simp)+
qed simp

lemma fetch_returns:
  assumes s: "searching_in A st" and m: "fresh_memory env" and url: "length url < MAX_URL_LENGTH"
    and peers: "closing (remote_in st)" "breaking (client_tx st)" "breaking (remote_tx st)"
  shows "returns (fetch env hostname url buffer st)"
proof -
  have "outcome (send_remote buffer st)
      (\<lambda>(r, st1). searching_in A st1 \<and> client_tx st1 = client_tx st \<and> remote_in st1 = remote_in st)"
    unfolding send_remote_def send_buffer_def
    by (rule outcome_bind[OF send_loop_outcome]) (use s in \<open>auto simp: searching_in_def\<close>)
  then have "returns (bindR (send_remote buffer st) (\<lambda>(r, st).
      if r = -1 then
        ret ((disconnect Client (disconnect Remote (log_cache (Release SearchCreateMutex) st)))\<lparr>sock_fd := -1\<rparr>)
      else bindR (recv_headers [] (remote_in st)) (\<lambda>(h, rs).
        let st = st\<lparr>remote_in := rs\<rparr> in
        case h of
          None \<Rightarrow> ret (close_both (log_cache (Release SearchCreateMutex) st))
        | Some (buf, hlen) \<Rightarrow> handle_response env url buf hlen st)))"
  proof (rule outcome_returns[OF send_remote_returns[OF peers(3)]], clarify)
    fix r st1
    assume s1: "searching_in A st1" "client_tx st1 = client_tx st" "remote_in st1 = remote_in st"
    from recv_headers_returns[of "remote_in st1" "[]"] peers(1) s1(3) obtain h rs where
        h: "recv_headers [] (remote_in st1) = ret (h, rs)" "h = None \<or> closing rs" by auto
    have "length b < 2 ^ 13" if "h = Some (b, n)" for b n
      using outcome_retD[OF recv_headers_outcome h(1)] that by (simp add: BUFFER_SIZE_def)
    then show "returns (if r = -1 then
        ret ((disconnect Client (disconnect Remote (log_cache (Release SearchCreateMutex) st1)))\<lparr>sock_fd := -1\<rparr>)
      else bindR (recv_headers [] (remote_in st1)) (\<lambda>(h, rs).
        let st = st1\<lparr>remote_in := rs\<rparr> in
        case h of
          None \<Rightarrow> ret (close_both (log_cache (Release SearchCreateMutex) st))
        | Some (buf, hlen) \<Rightarrow> handle_response env url buf hlen st))"
      using h s1 peers handle_response_returns[of A "st1\<lparr>remote_in := rs\<rparr>" env _ url] m url
      by (auto simp: Let_def split: option.split)
  qed
  then show ?thesis by (simp add: fetch_def)
qed

subsection \<open>Serving from the cache\<close>

context byte_source
begin

text \<open>Every round sends a positive number of the bytes, or the loop ends.\<close>

lemma copy_out_returns:
  assumes "holds s D" "off \<le> length D" "breaking rs"
  shows "returns (copy_out rd (int off) rs s out)"
  using assms
proof (induction "length D - off" arbitrary: off rs s out rule: less_induct)
  case less
  let ?buf = "take BUFFER_SIZE (drop off D)"
  from rd_slice[OF less.prems(1,2), of "int BUFFER_SIZE"] obtain s1 where
      rd: "rd (int off) (int BUFFER_SIZE) s = ret (int (length ?buf), ?buf, s1)" "holds s1 D" by auto
  show ?case
  proof (cases "?buf = []")
    case True
    then show ?thesis using rd(1) by (auto simp: copy_out.simps[of rd])
  next
    case False
    obtain r out' rs' where sent: "send_loop ?buf 0 rs = ret (r, out', rs')" "r = -1 \<or> breaking rs'"
      using send_loop_returns[OF less.prems(3), of 0 ?buf] by auto
    have r: "r = -1 \<or> r = int (length ?buf)"
      using outcome_retD[OF send_loop_outcome sent(1)] by auto
    have "returns (copy_out rd (int (off + length ?buf)) rs' s1 (out @ out'))" if "r \<noteq> -1"
      by (rule less.hyps[OF _ rd(2)]) (use False sent(2) that less.prems(2) in \<open>auto simp: min_def BUFFER_SIZE_def\<close>)
    then show ?thesis
      using rd(1) sent r False by (subst copy_out.simps) (auto simp: send_buffer_def)
  qed
qed

end

text \<open>
  A request that waits for an entry another worker is still filling: every read gives up within its
  time limit, and there are at most as many reads as \<open>send\<close> calls and one more.
\<close>

definition waits_end :: "(bool \<times> (http_cache \<Rightarrow> http_cache)) list list \<Rightarrow> send_result list \<Rightarrow> bool" where
  "waits_end ws rs \<longleftrightarrow> length rs < length ws \<and> (\<forall>w \<in> set ws. times_out w)"

lemma send_loop_consumes:
  "send_loop buf tot rs = ret (r, out, rs') \<Longrightarrow> length rs' \<le> length rs \<and> (tot < length buf \<longrightarrow> length rs' < length rs)"
proof (induction buf tot rs arbitrary: r out rs' rule: send_loop.induct)
  case (1 buf tot rs)
  show ?case
  proof (cases "tot < length buf")
    case False
    then show ?thesis using 1(3) by (subst (asm) send_loop.simps) simp
  next
    case True
    show ?thesis
    proof (cases rs)
      case Nil
      then show ?thesis using 1(3) True by (subst (asm) send_loop.simps) (simp add: ret_def)
    next
      case (Cons x rs1)
      have run: "send_loop buf tot (x # rs1) = ret (r, out, rs')" using 1(3) Cons by simp
      show ?thesis
      proof (cases x)
        case (Sent n)
        let ?s = "min n (length buf - tot)"
        show ?thesis
        proof (cases "?s = 0")
          case True
          then show ?thesis using run \<open>tot < length buf\<close> Sent Cons
            by (subst (asm) send_loop.simps) (auto simp: Let_def)
        next
          case False
          have "send_loop buf (tot + ?s) rs1 = ret (r, out, rs')"
            using run \<open>tot < length buf\<close> Sent False
            by (subst (asm) send_loop.simps) (simp add: Let_def)
          from 1(1)[OF True Cons Sent refl False this] Cons show ?thesis by auto
        qed
      next
        case SendIntr
        have "send_loop buf tot rs1 = ret (r, out, rs')"
          using run True SendIntr by (subst (asm) send_loop.simps) simp
        from 1(2)[OF True Cons SendIntr this] Cons True show ?thesis by auto
      next
        case SendErr
        then show ?thesis using run True Cons by (subst (asm) send_loop.simps) auto
      qed
    qed
  qed
qed

lemma waiting_copy_returns:
  assumes "A a = Some x" and "served ws A s" and "0 \<le> off" and "breaking rs" and "waits_end (fst s) rs"
  shows "returns (copy_out (entry_source a) off rs s out)"
  using assms(2-5)
proof (induction "length rs" arbitrary: off rs s out rule: less_induct)
  case less
  have first: "fst s \<noteq> []" "times_out (hd (fst s))" using less.prems(4) by (cases "fst s"; simp add: waits_end_def)+
  obtain r buf s1 where rd: "entry_source a off (int BUFFER_SIZE) s = ret (r, buf, s1)"
      "served ws A s1" "fst s1 = tl (fst s)" "r = -1 \<or> r = int (length buf)"
    using entry_source_outcome[OF assms(1) less.prems(2,1), of "int BUFFER_SIZE"] first
    by (auto simp: outcome_def)
  show ?case
  proof (cases "0 < r")
    case False
    then show ?thesis using rd(1) by (subst copy_out.simps) auto
  next
    case True
    then have buf: "0 < length buf" using rd(4) by auto
    obtain n out' rs' where sent: "send_loop buf 0 rs = ret (n, out', rs')" "n = -1 \<or> breaking rs'"
      using send_loop_returns[OF less.prems(3), of 0 buf] by auto
    have len: "length rs' < length rs" using send_loop_consumes[OF sent(1)] buf by simp
    have n: "n = -1 \<or> n = int (length buf)"
      using outcome_retD[OF send_loop_outcome sent(1)] by auto
    have "waits_end (fst s1) rs'"
      using less.prems(4) len rd(3) first(1) by (cases "fst s") (auto simp: waits_end_def)
    then have "returns (copy_out (entry_source a) (off + n) rs' s1 (out @ out'))" if "n \<noteq> -1"
      by (intro less.hyps[OF len rd(2)]) (use sent(2) that n less.prems(2) in auto)
    then show ?thesis
      using rd(1) sent(1) n True by (subst copy_out.simps) (auto simp: send_buffer_def)
  qed
qed

lemma serve_cached_returns:
  assumes rep: "represents (p_cache st) (A(a \<mapsto> x\<lparr>a_refs := a_refs x + 1\<rparr>))" and x: "A a = Some x"
    and tr: "replay [] (c_trace (p_cache st)) = Some [SearchCreateMutex]" and w: "sane_waits (waits env)"
    and whole: "a_state x = ENTRY_COMPLETE \<and> length (a_data x) < 2 ^ 63 \<or> waits_end (waits env) (client_tx st)"
    and peer: "breaking (client_tx st)"
  shows "returns (serve_cached env a st)"
proof -
  let ?x = "x\<lparr>a_refs := a_refs x + 1\<rparr>"
  let ?A = "A(a \<mapsto> ?x)"
  let ?c = "p_cache (log_cache (Release SearchCreateMutex) st)"
  have c: "represents ?c ?A" "disciplined [] (c_trace ?c)"
    using rep tr by (simp_all add: log_cache_def emit_logged disciplined_def replay_append)
  have Aa: "?A a = Some ?x" by simp
  have "returns (copy_out (entry_source a) 0 (client_tx st) (waits env, ?c) [])"
    using whole
  proof
    assume "a_state x = ENTRY_COMPLETE \<and> length (a_data x) < 2 ^ 63"
    then have "complete_entry a (waits env, ?c) (a_data x)"
      using c(1) by (auto simp: complete_entry_def intro!: exI[of _ "?A"])
    from entry.copy_out_returns[OF this _ peer, of 0 "[]"] show ?thesis by simp
  next
    assume e: "waits_end (waits env) (client_tx st)"
    have "served (waits env) ?A (waits env, ?c)"
      using c w later_now[OF c(1), of "waits env"] by (auto simp: served_def sane_waits_def peaceful_wakes_def)
    from waiting_copy_returns[OF Aa this _ peer, of 0] e show ?thesis by simp
  qed
  then have handled: "returns (handle_cached_request a (waits env) (client_tx st) ?c)"
    by (auto simp: handle_cached_request_def returns_def bindR_def ret_def split: sum.split)
  have rel: "returns (bindR (on_cache (cache_entry_release (Some a)) st1) (\<lambda>st. ret (close_client st)))"
    if l: "later (waits env) ?A (p_cache st1)" and d: "disciplined [] (c_trace (p_cache st1))" for st1
  proof -
    from l obtain B where B: "evolves ?A B" "represents (p_cache st1) B" by (auto simp: later_def)
    obtain y where y: "B a = Some y" using evolves_entry[OF B(1) Aa] by auto
    from B(2) y have "represents (p_cache st1) (B(a \<mapsto> y))" by (simp add: fun_upd_idem)
    from on_cache_update[where f = "\<lambda>e. e\<lparr>refcount := refcount e - 1\<rparr>" and sf = "\<lambda>t. t" and
        rf = "\<lambda>n. n - 1" and b = False, OF this d]
    obtain c' where "on_cache (cache_entry_release (Some a)) st1 = ret (st1\<lparr>p_cache := c'\<rparr>)"
      by (auto simp: cache_entry_release_def shape_def)
    then show ?thesis by simp
  qed
  have tx: "client_tx (log_cache (Release SearchCreateMutex) st) = client_tx st" by (simp add: log_cache_def)
  show ?thesis
    unfolding serve_cached_def Let_def tx
    by (rule outcome_returns[OF handled handle_cached_request_outcome[OF c(1) Aa c(2) w]], clarify)
      (rule rel, simp_all)
qed

subsection \<open>The whole request\<close>

text \<open>No entry is being filled by somebody else: all entries that can be found are complete.\<close>

definition all_complete :: "acache \<Rightarrow> bool" where
  "all_complete A \<longleftrightarrow> (\<forall>a x. A a = Some x \<longrightarrow> a_state x \<noteq> ENTRY_INCOMPLETE \<and> length (a_data x) < 2 ^ 63)"

text \<open>No call of the request blocks for ever.\<close>

definition peers_end :: "conn_st \<Rightarrow> bool" where
  "peers_end st \<longleftrightarrow> closing (client_in st) \<and> closing (remote_in st) \<and> breaking (client_tx st) \<and> breaking (remote_tx st)"

lemma recv_request_returns: "closing rs \<Longrightarrow> returns (recv_request parse_req buf rs)"
proof (induction rs arbitrary: buf)
  case (Cons r rs)
  show ?case
  proof (cases r)
    case (Received d)
    let ?b = "buf @ take (BUFFER_SIZE - length buf) d"
    obtain n q where "parse_req ?b (length buf) = ret (n, q)"
      "q = None \<and> (n = -1 \<or> n = -2) \<or> (\<exists>x. q = Some x \<and> 0 < n)"
      using parse_req_answer[of "length buf" ?b] by auto
    then show ?thesis using Cons Received by (auto simp: Let_def)
  qed (use Cons in simp_all)
qed simp

lemma lookup_returns:
  assumes rep: "represents (p_cache st) A" and tr: "disciplined [] (c_trace (p_cache st))"
    and env: "fresh_memory env" "sane_waits (waits env)" and url: "length url < MAX_URL_LENGTH"
    and whole: "all_complete A \<or> waits_end (waits env) (client_tx st)"
    and peers: "closing (remote_in st)" "breaking (client_tx st)" "breaking (remote_tx st)"
  shows "returns (let st = log_cache (Acquire SearchCreateMutex) st in
      bindR (cache_lookup (clock env) url (p_cache st)) (\<lambda>(entry, c).
      let st = st\<lparr>p_cache := c\<rparr> in
      case entry of Some a \<Rightarrow> serve_cached env a st | None \<Rightarrow> fetch env hostname url buffer st))"
proof -
  let ?st = "log_cache (Acquire SearchCreateMutex) st"
  have rep': "represents (p_cache ?st) A" using rep by (simp add: log_cache_def emit_logged)
  have tr': "replay [] (c_trace (p_cache ?st)) = Some [SearchCreateMutex]"
    using tr by (simp add: log_cache_def emit_logged disciplined_def replay_append)
  have keep: "replay [] (c_trace c') = Some [SearchCreateMutex]"
    if "lock_clean [SearchCreateMutex] (p_cache ?st) c'" for c'
    using that tr' by (auto simp: lock_clean_def disciplined_def replay_append)
  from lookup_refines[OF rep', of "clock env" url] show ?thesis
  proof (elim disjE exE conjE, goal_cases)
    case (1 c')
    have "searching_in A (?st\<lparr>p_cache := c'\<rparr>)"
      using 1(2) keep[OF 1(4)] by (simp add: searching_in_def)
    then have "returns (fetch env hostname url buffer (?st\<lparr>p_cache := c'\<rparr>))"
      by (rule fetch_returns) (use env(1) url peers in \<open>simp_all add: log_cache_def\<close>)
    then show ?case using 1(1) by simp
  next
    case (2 a x c')
    have "a_state x = ENTRY_COMPLETE \<and> length (a_data x) < 2 ^ 63 \<or> waits_end (waits env) (client_tx st)"
      using whole 2(2,3) unfolding all_complete_def serves_def by (metis entry_state_t.exhaust)
    then have "returns (serve_cached env a (?st\<lparr>p_cache := c'\<rparr>))"
      by (intro serve_cached_returns[where A = A and a = a and x = x])
        (use 2(2) env(2) 2(4) keep[OF 2(6)] peers in \<open>simp_all add: log_cache_def\<close>)
    then show ?case using 2(1) by simp
  qed
qed

lemma process_request_returns:
  assumes rep: "represents (p_cache st) A" and tr: "disciplined [] (c_trace (p_cache st))"
    and env: "fresh_memory env" "sane_requests (client_in st)" "sane_waits (waits env)"
    and whole: "all_complete A \<or> waits_end (waits env) (client_tx st)" and peers: "peers_end st"
  shows "returns (process_request env st)"
  unfolding process_request_def
proof (rule outcome_returns[OF _ outcome_eq[OF recv_request_outcome]], goal_cases)
  case 1
  show ?case using peers recv_request_returns by (simp add: peers_end_def)
next
  case (2 p)
  obtain r rs where p: "p = (r, rs)" by (cases p)
  let ?st = "st\<lparr>client_in := rs\<rparr>"
  show ?case
  proof (cases r)
    case (Some br)
    obtain buffer req where br: "br = (buffer, req)" by (cases br)
    with 2(1) p Some env(2) have h: "sane_request req" unfolding sane_requests_def by blast
    have found: "returns (let st = log_cache (Acquire SearchCreateMutex) ?st in
        bindR (cache_lookup (clock env) url (p_cache st)) (\<lambda>(entry, c).
        let st = st\<lparr>p_cache := c\<rparr> in
        case entry of Some a \<Rightarrow> serve_cached env a st | None \<Rightarrow> fetch env hn url buffer st))"
      if "length url < MAX_URL_LENGTH" for hn url
      by (rule lookup_returns[where A = A]) (use that rep tr env whole peers in \<open>simp_all add: peers_end_def\<close>)
    have "returns (bindR (check_request req) (\<lambda>ok.
         case ok of None \<Rightarrow> ret (close_client ?st)
         | Some (hostname, url) \<Rightarrow>
           let st = log_cache (Acquire SearchCreateMutex) ?st in
           bindR (cache_lookup (clock env) url (p_cache st)) (\<lambda>(entry, c).
           let st = st\<lparr>p_cache := c\<rparr> in
           case entry of Some a \<Rightarrow> serve_cached env a st | None \<Rightarrow> fetch env hostname url buffer st)))"
    proof (rule outcome_returns[OF _ check_request_outcome[OF h]], goal_cases)
      case 1
      show ?case using h by (auto simp: check_request_def sane_request_def)
    next
      case (2 ok)
      then show ?case using found by (cases ok) (auto simp: Let_def)
    qed
    then show ?thesis unfolding p Some br Let_def by simp
  qed (simp add: p)
qed

end
