(* ===== verification/ProxyProps.thy ===== *)
theory ProxyProps
  imports ProxyReturns
begin

section \<open>Properties of a request\<close>

text \<open>
  How every request ends, what the client receives and what is cached.
\<close>

subsection \<open>Successful downloads\<close>

lemma send_client_all:
  assumes "client_tx st = Sent BUFFER_SIZE # rs" and "0 < length data" "length data \<le> BUFFER_SIZE"
  shows "send_client data st = ret (int (length data),
    st\<lparr>client_tx := rs, client_got := client_got st @ data\<rparr>)"
  using assms by (simp add: send_client_def send_buffer_def send_loop.simps Let_def)

definition piece :: "string \<Rightarrow> bool" where
  "piece d \<longleftrightarrow> 0 < length d \<and> length d \<le> BUFFER_SIZE"

text \<open>All pieces of the body reach the client and the cache, in order.\<close>

lemma forward_known_all:
  assumes "downloading A url entry D st" and "fresh_memory env" "ample_memory env"
    and "\<forall>d \<in> set body. piece d" and "client_tx st = replicate (length body) (Sent BUFFER_SIZE) @ tx"
  shows "\<exists>st'. forward_known env entry (int (length (concat body))) (map Received body @ rest) st = ret st' \<and>
    settled A url entry ENTRY_COMPLETE (D @ concat body) st' \<and> closed_both st st' \<and>
    client_got st' = client_got st @ concat body"
  using assms
proof (induction body arbitrary: st D)
  case Nil
  from download_ends(3)[of A url entry D "st\<lparr>remote_in := rest\<rparr>"] Nil(1)
  show ?case by (auto simp: forward_known.simps closed_both_def)
next
  case (Cons d body)
  then have d: "0 < length d" "length d \<le> BUFFER_SIZE" "take BUFFER_SIZE d = d" by (auto simp: piece_def)
  have len: "length d < 2 ^ 63" using d(2) by (simp add: BUFFER_SIZE_def)
  from store_chunk_downloading[OF Cons.prems(1,2) len] obtain st1 D1 where
      "ample_memory env \<longrightarrow> D1 = D @ d" "downloading A url entry D1 st1"
      and s1: "store_chunk env entry d st = ret st1" "same_sockets st st1"
        "client_tx st1 = client_tx st" "client_got st1 = client_got st"
    by blast
  then have dl1: "downloading A url entry (D @ d) st1" using Cons.prems(3) by simp
  let ?tx = "replicate (length body) (Sent BUFFER_SIZE) @ tx"
  let ?st = "st1\<lparr>client_tx := ?tx, client_got := client_got st1 @ d\<rparr>"
  have tx1: "client_tx st1 = Sent BUFFER_SIZE # ?tx" using s1(3) Cons.prems(5) by simp
  have dl: "downloading A url entry (D @ d) ?st" using downloading_cache[of ?st st1] dl1 by simp
  have "\<exists>st'. forward_known env entry (int (length (concat body))) (map Received body @ rest) ?st = ret st' \<and>
    settled A url entry ENTRY_COMPLETE ((D @ d) @ concat body) st' \<and> closed_both ?st st' \<and>
    client_got st' = client_got ?st @ concat body"
    by (rule Cons.IH[OF dl Cons.prems(2,3)]) (use Cons.prems(4) in simp_all)
  then obtain st' where
      st': "forward_known env entry (int (length (concat body))) (map Received body @ rest) ?st = ret st'"
        "settled A url entry ENTRY_COMPLETE (D @ concat (d # body)) st'" "closed_both ?st st'"
        "client_got st' = client_got st @ concat (d # body)" using s1(4) by auto
  have pos: "0 < int (length d) + int (length (concat body))" using d(1) by linarith
  have "forward_known env entry (int (length (concat (d # body)))) (map Received (d # body) @ rest) st =
      forward_known env entry (int (length (concat body))) (map Received body @ rest) ?st"
    using d pos s1(1) send_client_all[OF tx1 d(1,2)] by (subst forward_known.simps) (simp add: Let_def)
  moreover have "closed_both st st'" using st'(3) s1(2) by (simp add: closed_both_def same_sockets_def)
  ultimately show ?case using st' by auto
qed

lemma forward_eof_all:
  assumes "downloading A url entry D st"
    and "\<forall>d \<in> set body. piece d" and "client_tx st = replicate (length body) (Sent BUFFER_SIZE) @ tx"
  shows "\<exists>st'. forward_eof entry (map Received body @ Received [] # rest) st = ret st' \<and>
    settled A url entry ENTRY_COMPLETE D st' \<and> closed_both st st' \<and>
    client_got st' = client_got st @ concat body"
  using assms
proof (induction body arbitrary: st)
  case Nil
  from download_ends(3)[of A url entry D "st\<lparr>remote_in := rest\<rparr>"] Nil(1)
  show ?case by (auto simp: closed_both_def)
next
  case (Cons d body)
  then have d: "0 < length d" "length d \<le> BUFFER_SIZE" "take BUFFER_SIZE d = d" by (auto simp: piece_def)
  let ?tx = "replicate (length body) (Sent BUFFER_SIZE) @ tx"
  let ?st = "st\<lparr>client_tx := ?tx, client_got := client_got st @ d\<rparr>"
  have tx: "client_tx st = Sent BUFFER_SIZE # ?tx" using Cons.prems(3) by simp
  have dl: "downloading A url entry D ?st" using downloading_cache[of ?st st] Cons.prems(1) by simp
  have "\<exists>st'. forward_eof entry (map Received body @ Received [] # rest) ?st = ret st' \<and>
    settled A url entry ENTRY_COMPLETE D st' \<and> closed_both ?st st' \<and>
    client_got st' = client_got ?st @ concat body"
    by (rule Cons.IH[OF dl]) (use Cons.prems(2) in simp_all)
  moreover have "forward_eof entry (map Received (d # body) @ Received [] # rest) st =
      forward_eof entry (map Received body @ Received [] # rest) ?st"
    using d send_client_all[OF tx d(1,2)] by (simp add: Let_def)
  ultimately show ?case by (auto simp: closed_both_def)
qed

text \<open>
  A well-behaved miss: the request is accepted, nothing live is cached under its URL, the origin is
  reached and takes the request, and the head of its response, \<open>hlen\<close> bytes within the first
  bytes \<open>buf\<close>, is parsed and asks for caching.
\<close>

definition good_miss ::
  "proxy_env \<Rightarrow> conn_st \<Rightarrow> acache \<Rightarrow> string \<Rightarrow> string \<Rightarrow> nat \<Rightarrow> response \<Rightarrow> recv_result list \<Rightarrow> bool" where
  "good_miss env st A url buf hlen resp body \<longleftrightarrow>
     represents (p_cache st) A \<and> disciplined [] (c_trace (p_cache st)) \<and>
     fresh_memory env \<and> ample_memory env \<and> (\<forall>c. finite (dom (ents c)) \<longrightarrow> entry_mem env c \<noteq> None) \<and>
     absent url A \<and> length url < MAX_URL_LENGTH \<and>
     (\<exists>buffer req rs0 hn. recv_request parse_req [] (client_in st) = ret (Some (buffer, req), rs0) \<and>
        check_request req = ret (Some (hn, url)) \<and>
        fst (resolve_and_connect (addresses env hn)) \<noteq> -1 \<and>
        (\<exists>rtx. send_buffer buffer (remote_tx st) = ret (int (length buffer), buffer, rtx))) \<and>
     recv_headers [] (remote_in st) = ret (Some (buf, hlen), body) \<and>
     (\<exists>n. phr_parse_response False MAX_HEADERS (take hlen buf) 0 = ret (n, Some resp)) \<and>
     (rs_status resp = 200 \<or> rs_status resp = 304) \<and> piece buf \<and> hlen \<le> length buf"

text \<open>Such a request creates an entry and gets to \<open>forward_response\<close> with all mutexes released.\<close>

lemma good_miss_forwards:
  assumes g: "good_miss env st A url buf hlen resp body"
  obtains a st1 where
    "process_request env st = forward_response env (Some a) buf hlen
       (get_content_len (stale_errno env) buf (rs_headers resp)) st1"
    "downloading A url (Some a) [] st1" "same_sockets st st1" "remote_in st1 = body"
    "client_tx st1 = client_tx st" "client_got st1 = client_got st"
proof -
  note g = g[unfolded good_miss_def]
  from g obtain buffer req rs0 hn rtx where
      rq: "recv_request parse_req [] (client_in st) = ret (Some (buffer, req), rs0)"
        "check_request req = ret (Some (hn, url))" "fst (resolve_and_connect (addresses env hn)) \<noteq> -1"
        "send_buffer buffer (remote_tx st) = ret (int (length buffer), buffer, rtx)" by blast
  from g have rep: "represents (p_cache st) A" "disciplined [] (c_trace (p_cache st))" "fresh_memory env"
      "\<forall>c. finite (dom (ents c)) \<longrightarrow> entry_mem env c \<noteq> None" "absent url A" "length url < MAX_URL_LENGTH"
      "recv_headers [] (remote_in st) = ret (Some (buf, hlen), body)"
      "\<exists>n. phr_parse_response False MAX_HEADERS (take hlen buf) 0 = ret (n, Some resp)"
      "rs_status resp = 200 \<or> rs_status resp = 304" by blast+
  let ?c0 = "emit (Acquire SearchCreateMutex) (p_cache st)"
  have c0: "represents ?c0 A" "replay [] (c_trace ?c0) = Some [SearchCreateMutex]"
    using rep(1,2) by (simp_all add: emit_logged disciplined_def replay_append)
  from lookup_refines[OF c0(1), of "clock env" url] rep(5) obtain c1 where
      c1: "cache_lookup (clock env) url ?c0 = ret (None, c1)" "represents c1 A"
        "lock_clean [SearchCreateMutex] ?c0 c1"
    unfolding absent_def by blast
  have "finite (dom (ents c1))" using c1(2) represents_finite by blast
  then obtain a where a: "entry_mem env c1 = Some a" "a \<notin> dom (ents c1)"
    using rep(3,4) unfolding fresh_memory_def by blast
  then have aA: "a \<notin> dom A" using represents_dom[OF c1(2)] by simp
  from insert_refines[OF c1(2) aA rep(6), of "clock env"] obtain c2 where
      c2: "cache_insert (Some a) (clock env) url c1 = ret (Some a, c2)"
        "represents c2 (A(a \<mapsto> \<lparr>a_url = url, a_state = ENTRY_INCOMPLETE, a_refs = 1, a_data = []\<rparr>))"
        "lock_clean [SearchCreateMutex] c1 c2" by blast
  have tr: "replay [] (c_trace c2) = Some [SearchCreateMutex]"
    using still_held[OF c2(3) still_held[OF c1(3) c0(2)]] .
  obtain err where pr: "phr_parse_response False MAX_HEADERS (take hlen buf) 0 = ret (err, Some resp)" "0 < err"
    using rep(8) phr_parse_response_answer[of False MAX_HEADERS "take hlen buf"] by (metis Inr_inject option.inject option.distinct(1) prod.inject ret_eq_iff)
  let ?st = "st\<lparr>client_in := rs0, remote_tx := rtx, remote_got := remote_got st @ buffer, remote_in := body,
    p_cache := emit (Release SearchCreateMutex) c2\<rparr>"
  show thesis
  proof (rule that[of a ?st])
    show "process_request env st = forward_response env (Some a) buf hlen
        (get_content_len (stale_errno env) buf (rs_headers resp)) ?st"
      using rq c1(1) c2(1) a(1) pr rep(7,9)
      by (auto simp: process_request_def fetch_def handle_response_def log_cache_def send_remote_def Let_def)
    show "downloading A url (Some a) [] ?st"
      using c2(2) tr aA by (simp add: downloading_def emit_logged disciplined_def replay_append)
  qed (simp_all add: same_sockets_def)
qed

subsection \<open>Concrete environments for the witnesses\<close>

definition demo_env :: proxy_env where
  "demo_env = \<lparr>clock = 5, waits = [],
     addresses = (\<lambda>_. Some [ConnectFails 4, Connects 5]),
     entry_mem = (\<lambda>c. if finite (dom (ents c)) then Some (LEAST a. a \<notin> dom (ents c)) else None),
     chunk_mem = (\<lambda>c. if finite (dom (chunks c)) then (Some (LEAST k. k \<notin> dom (chunks c)), True) else (None, False)),
     stale_errno = False\<rparr>"

text \<open>The head of a reply, without and with a length.\<close>

definition demo_head :: "(string \<times> string) list \<Rightarrow> string" where
  "demo_head fs = print_response 1 200 ''OK'' fs"

definition length_field :: "(string \<times> string) list" where
  "length_field = [(''content-length'', ''5'')]"

definition demo_conn :: "string \<Rightarrow> recv_result list \<Rightarrow> conn_st" where
  "demo_conn head body = \<lparr>p_cache = empty_cache 0, client_in = [Received demo_text],
     remote_in = Received (head @ ''ab'') # body,
     client_tx = replicate 4 (Sent BUFFER_SIZE), remote_tx = [Sent 28],
     client_got = [], remote_got = [], disconnected = [], sock_fd = 3\<rparr>"

lemma least_fresh: "finite (A :: nat set) \<Longrightarrow> (LEAST a. a \<notin> A) \<notin> A"
  using ex_new_if_finite[OF infinite_UNIV_nat] by (metis LeastI_ex)

lemma demo_memory: "fresh_memory demo_env" "ample_memory demo_env"
    "\<forall>c. finite (dom (ents c)) \<longrightarrow> entry_mem demo_env c \<noteq> None"
  by (auto simp: fresh_memory_def ample_memory_def demo_env_def dest: least_fresh split: if_splits)

lemma empty_represents: "represents (empty_cache mx) Map.empty"
  by (rule representsI[OF empty_cache_inv]) (simp_all add: empty_cache_def)

lemma demo_host: "findHeader (rq_headers demo_request) ''Host'' = Some \<lparr>h_name = Some ''hOSt'', h_value = ''h'', h_off = 23\<rparr>"
  by code_simp

lemma demo_received: "recv_request parse_req [] (Received demo_text # rs) = ret (Some (demo_text, demo_request), rs)"
proof -
  have "phr_parse_request False 128 demo_text 0 = ret (28, Some demo_request)"
    using requests.answer_of_parsed[OF demo_parsed[of "[]"]] by (simp add: phr_parse_request_def demo_text_length)
  moreover have "demo_text \<noteq> []" using demo_text_length by auto
  ultimately show ?thesis by (simp add: BUFFER_SIZE_def demo_text_length parse_req_def MAX_HEADERS_def)
qed

lemma demo_head_length: "length (demo_head []) = 19" "length (demo_head length_field) = 38"
  by (simp_all add: demo_head_def print_response_def print_headers_def length_field_def)

lemma demo_head_end:
  "header_end (demo_head [] @ ''ab'') = Some 19" "header_end (demo_head length_field @ ''ab'') = Some 38"
  by (code_simp, code_simp)

definition demo_response :: "(string \<times> string) list \<Rightarrow> response" where
  "demo_response fs = \<lparr>rs_minor = 1, rs_status = 200, rs_msg = ''OK'', rs_headers = placed 17 fs\<rparr>"

lemma demo_answered:
  assumes "fs = [] \<or> fs = length_field"
  shows "phr_parse_response False MAX_HEADERS (demo_head fs) 0 = ret (int (length (demo_head fs)), Some (demo_response fs))"
proof -
  have "list_all field_ok fs" "length fs \<le> MAX_HEADERS" "message_ok ''OK''"
    using assms by (auto simp: length_field_def field_ok_def token_char_iff ctl_code blank_def message_ok_def MAX_HEADERS_def)
  then have "parse_response False MAX_HEADERS (print_response 1 200 ''OK'' fs @ []) = Inr (demo_response fs, [])"
    using parse_response_printed[of 1 200 "''OK''" fs MAX_HEADERS False "[]"] by (simp add: demo_response_def)
  from responses.answer_of_parsed[OF this] show ?thesis by (simp add: phr_parse_response_def demo_head_def)
qed

lemma demo_good_miss:
  assumes fs: "fs = [] \<or> fs = length_field"
  shows "good_miss demo_env (demo_conn (demo_head fs) body) Map.empty ''/a'' (demo_head fs @ ''ab'') (length (demo_head fs))
    (demo_response fs) body"
proof -
  let ?st = "demo_conn (demo_head fs) body"
  have len: "length (demo_head fs) \<le> 38" "header_end (demo_head fs @ ''ab'') = Some (length (demo_head fs))"
    using fs demo_head_length demo_head_end by auto
  have "recv_request parse_req [] (client_in ?st) = ret (Some (demo_text, demo_request), [])"
    using demo_received by (simp add: demo_conn_def)
  moreover have "check_request demo_request = ret (Some (''h'', ''/a''))"
    using demo_host by (simp add: check_request_def c_str_def) (simp add: demo_request_def)
  moreover have "fst (resolve_and_connect (addresses demo_env ''h'')) \<noteq> -1"
    by (simp add: demo_env_def resolve_and_connect_def)
  moreover have "send_buffer demo_text (remote_tx ?st) = ret (int (length demo_text), demo_text, [])"
    by (simp add: demo_conn_def send_buffer_def send_loop.simps demo_text_length Let_def)
  moreover have "recv_headers [] (remote_in ?st) = ret (Some (demo_head fs @ ''ab'', length (demo_head fs)), body)"
    using len by (simp add: demo_conn_def recv_headers.simps BUFFER_SIZE_def)
  moreover have "represents (p_cache ?st) Map.empty" using empty_represents by (simp add: demo_conn_def)
  moreover have "c_trace (p_cache ?st) = []" by (simp add: demo_conn_def empty_cache_def)
  moreover have "piece (demo_head fs @ ''ab'')" using len(1) by (simp add: piece_def BUFFER_SIZE_def)
  ultimately show ?thesis
    unfolding good_miss_def using demo_memory demo_answered[OF fs]
    by (auto simp: absent_def MAX_URL_LENGTH_def demo_response_def)
qed

subsection \<open>The properties\<close>









text \<open>C5: A download whose length the origin announces runs to its end when nothing fails: the client
  receives the head and the whole body, and the cache holds the very same bytes in a complete
  entry without references.\<close>

theorem process_request_downloads:
  assumes "good_miss env st A url buf hlen resp (map Received body @ rest)"
    and "get_content_len (stale_errno env) buf (rs_headers resp) = int n"
    and "length buf + length (concat body) = hlen + n" and "hlen + n < 2 ^ 63"
    and "\<forall>d \<in> set body. piece d"
    and "client_tx st = Sent BUFFER_SIZE # replicate (length body) (Sent BUFFER_SIZE) @ tx"
  shows "\<exists>st' a. process_request env st = ret st' \<and> client_got st' = client_got st @ buf @ concat body \<and>
    a \<notin> dom A \<and> represents (p_cache st') (A(a \<mapsto>
      \<lparr>a_url = url, a_state = ENTRY_COMPLETE, a_refs = 0, a_data = buf @ concat body\<rparr>))"
proof -
  have env: "fresh_memory env" "ample_memory env" and buf: "0 < length buf" "length buf \<le> BUFFER_SIZE" "length buf < 2 ^ 63"
    using assms(1) by (simp_all add: good_miss_def piece_def BUFFER_SIZE_def)
  obtain a st1 where pr: "process_request env st = forward_response env (Some a) buf hlen (int n) st1"
      "downloading A url (Some a) [] st1" "same_sockets st st1" "remote_in st1 = map Received body @ rest"
      "client_tx st1 = client_tx st" "client_got st1 = client_got st"
    using good_miss_forwards[OF assms(1)] assms(2) by auto
  from store_chunk_downloading[OF pr(2) env(1) buf(3)] obtain st2 D2 where
      "ample_memory env \<longrightarrow> D2 = [] @ buf" "downloading A url (Some a) D2 st2"
      and s2: "store_chunk env (Some a) buf st1 = ret st2" "client_tx st2 = client_tx st1"
        "remote_in st2 = remote_in st1" "client_got st2 = client_got st1" by blast
  then have dl2: "downloading A url (Some a) buf st2" using env(2) by simp
  let ?tx = "replicate (length body) (Sent BUFFER_SIZE) @ tx"
  let ?st = "st2\<lparr>client_tx := ?tx, client_got := client_got st2 @ buf\<rparr>"
  have tx2: "client_tx st2 = Sent BUFFER_SIZE # ?tx" using s2(2) pr(5) assms(6) by simp
  have dl: "downloading A url (Some a) buf ?st" using downloading_cache[of ?st st2] dl2 by simp
  have rem: "int hlen + int n - int (length buf) = int (length (concat body))" using assms(3) by linarith
  have "\<exists>st'. forward_known env (Some a) (int (length (concat body))) (map Received body @ rest) ?st = ret st' \<and>
    settled A url (Some a) ENTRY_COMPLETE (buf @ concat body) st' \<and> closed_both ?st st' \<and>
    client_got st' = client_got ?st @ concat body"
    by (rule forward_known_all[OF dl env assms(5)]) simp
  then obtain st' where st': "forward_known env (Some a) (int (length (concat body))) (map Received body @ rest) ?st = ret st'"
      "settled A url (Some a) ENTRY_COMPLETE (buf @ concat body) st'"
      "client_got st' = client_got st @ buf @ concat body" using s2(4) pr(6) by auto
  have "process_request env st = ret st'"
    using pr(1,4) s2(1,3) send_client_all[OF tx2 buf(1,2)] assms(4) rem st'(1)
    by (simp add: forward_response_def)
  then show ?thesis using st'(2,3) by (auto simp: settled_def)
qed

lemma demo_length: "get_content_len False (demo_head length_field @ ''ab'') (placed 17 length_field) = 5"
  by code_simp

theorem process_request_downloads_witness:
  "\<exists>st' a. process_request demo_env (demo_conn (demo_head length_field) [Received ''cde'']) = ret st' \<and>
    client_got st' = demo_head length_field @ ''abcde'' \<and>
    represents (p_cache st') [a \<mapsto>
      \<lparr>a_url = ''/a'', a_state = ENTRY_COMPLETE, a_refs = 0, a_data = demo_head length_field @ ''abcde''\<rparr>]"
proof -
  let ?st = "demo_conn (demo_head length_field) (map Received [''cde''] @ [])" and ?b = "demo_head length_field @ ''ab''"
  note g = demo_good_miss[of length_field "map Received [''cde''] @ []", simplified demo_head_length, OF disjI2[OF refl]]
  have len: "get_content_len (stale_errno demo_env) ?b (rs_headers (demo_response length_field)) = int 5"
    using demo_length by (simp add: demo_env_def demo_response_def)
  have sz: "length ?b + length (concat [''cde'']) = 38 + 5" "38 + 5 < (2::nat) ^ 63"
    by (simp_all add: demo_head_length)
  have pc: "\<forall>d \<in> set [''cde'']. piece d" by (simp add: piece_def BUFFER_SIZE_def)
  have tx: "client_tx ?st = Sent BUFFER_SIZE # replicate (length [''cde'']) (Sent BUFFER_SIZE) @
      [Sent BUFFER_SIZE, Sent BUFFER_SIZE]" by (simp add: demo_conn_def numeral_eq_Suc)
  show ?thesis using process_request_downloads[OF g len sz pc tx] by (auto simp: demo_conn_def)
qed

text \<open>C40: A response without a content length is forwarded to the client whole, but only the bytes that
  came with its head are stored: the entry is marked complete all the same, so later clients get
  a truncated copy.\<close>

theorem process_request_truncates_cached_copy:
  assumes "good_miss env st A url buf hlen resp (map Received body @ Received [] # rest)"
    and "get_content_len (stale_errno env) buf (rs_headers resp) = -1"
    and "\<forall>d \<in> set body. piece d"
    and "client_tx st = Sent BUFFER_SIZE # replicate (length body) (Sent BUFFER_SIZE) @ tx"
  shows "\<exists>st' a. process_request env st = ret st' \<and> client_got st' = client_got st @ buf @ concat body \<and>
    a \<notin> dom A \<and> represents (p_cache st') (A(a \<mapsto>
      \<lparr>a_url = url, a_state = ENTRY_COMPLETE, a_refs = 0, a_data = buf\<rparr>))"
proof -
  have env: "fresh_memory env" "ample_memory env" and buf: "0 < length buf" "length buf \<le> BUFFER_SIZE" "length buf < 2 ^ 63"
    using assms(1) by (simp_all add: good_miss_def piece_def BUFFER_SIZE_def)
  obtain a st1 where pr: "process_request env st = forward_response env (Some a) buf hlen (-1) st1"
      "downloading A url (Some a) [] st1" "same_sockets st st1"
      "remote_in st1 = map Received body @ Received [] # rest"
      "client_tx st1 = client_tx st" "client_got st1 = client_got st"
    using good_miss_forwards[OF assms(1)] assms(2) by auto
  from store_chunk_downloading[OF pr(2) env(1) buf(3)] obtain st2 D2 where
      "ample_memory env \<longrightarrow> D2 = [] @ buf" "downloading A url (Some a) D2 st2"
      and s2: "store_chunk env (Some a) buf st1 = ret st2" "client_tx st2 = client_tx st1"
        "remote_in st2 = remote_in st1" "client_got st2 = client_got st1" by blast
  then have dl2: "downloading A url (Some a) buf st2" using env(2) by simp
  let ?tx = "replicate (length body) (Sent BUFFER_SIZE) @ tx"
  let ?st = "st2\<lparr>client_tx := ?tx, client_got := client_got st2 @ buf\<rparr>"
  have tx2: "client_tx st2 = Sent BUFFER_SIZE # ?tx" using s2(2) pr(5) assms(4) by simp
  have dl: "downloading A url (Some a) buf ?st" using downloading_cache[of ?st st2] dl2 by simp
  have "\<exists>st'. forward_eof (Some a) (map Received body @ Received [] # rest) ?st = ret st' \<and>
    settled A url (Some a) ENTRY_COMPLETE buf st' \<and> closed_both ?st st' \<and>
    client_got st' = client_got ?st @ concat body"
    by (rule forward_eof_all[OF dl assms(3)]) simp
  then obtain st' where st': "forward_eof (Some a) (map Received body @ Received [] # rest) ?st = ret st'"
      "settled A url (Some a) ENTRY_COMPLETE buf st'"
      "client_got st' = client_got st @ buf @ concat body" using s2(4) pr(6) by auto
  have "process_request env st = ret st'"
    using pr(1,4) s2(1,3) send_client_all[OF tx2 buf(1,2)] st'(1) by (simp add: forward_response_def)
  then show ?thesis using st'(2,3) by (auto simp: settled_def)
qed

theorem process_request_truncates_cached_copy_witness:
  "\<exists>st' a. process_request demo_env (demo_conn (demo_head []) [Received ''cde'', Received []]) = ret st' \<and>
    client_got st' = demo_head [] @ ''abcde'' \<and>
    represents (p_cache st') [a \<mapsto>
      \<lparr>a_url = ''/a'', a_state = ENTRY_COMPLETE, a_refs = 0, a_data = demo_head [] @ ''ab''\<rparr>]"
proof -
  let ?st = "demo_conn (demo_head []) (map Received [''cde''] @ Received [] # [])" and ?b = "demo_head [] @ ''ab''"
  note g = demo_good_miss[of "[]" "map Received [''cde''] @ Received [] # []", OF disjI1[OF refl]]
  have len: "get_content_len (stale_errno demo_env) ?b (rs_headers (demo_response [])) = -1"
    by (simp add: get_content_len_def findHeader_def demo_response_def)
  have pc: "\<forall>d \<in> set [''cde'']. piece d" by (simp add: piece_def BUFFER_SIZE_def)
  have tx: "client_tx ?st = Sent BUFFER_SIZE # replicate (length [''cde'']) (Sent BUFFER_SIZE) @
      [Sent BUFFER_SIZE, Sent BUFFER_SIZE]" by (simp add: demo_conn_def numeral_eq_Suc)
  show ?thesis using process_request_truncates_cached_copy[OF g len pc tx] by (auto simp: demo_conn_def)
qed

text \<open>A request with no \<open>Host\<close> header, which HTTP/1.0 allows, makes the worker dereference
  \<open>NULL\<close>: the result of \<open>findHeader\<close> is used without a check.\<close>

theorem process_request_needs_host:
  assumes "recv_request parse_req [] (client_in st) = ret (Some (buffer, req), rs)"
    and "take 3 (rq_method req) = ''GET''" and "rq_minor req = 0 \<or> rq_minor req = 1"
    and "\<forall>h \<in> set (rq_headers req). map_option (map to_lower) (h_name h) \<noteq> Some ''host''"
  shows "process_request env st = crashed NullDeref"
proof -
  have "map to_lower ''Host'' = ''host''" by code_simp
  then have "findHeader (rq_headers req) ''Host'' = None"
    using assms(4) by (auto simp: findHeader_def find_None_iff split: option.splits)
  then show ?thesis using assms(1-3) by (auto simp: process_request_def check_request_def)
qed

theorem process_request_needs_host_witness:
  "process_request demo_env ((demo_conn [] [])\<lparr>client_in := [Received (print_request ''GET'' ''/a'' 0 [])]\<rparr>) =
     crashed NullDeref"
proof -
  let ?req = "\<lparr>rq_method = ''GET'', rq_path = ''/a'', rq_minor = 0, rq_headers = []\<rparr>" and ?t = "print_request ''GET'' ''/a'' 0 []"
  have l: "length ?t = 19" by (simp add: print_request_def print_headers_def)
  have "list_all token_char ''GET''" "list_all path_char ''/a''" by (simp_all add: token_char_iff path_char_def)
  then have "parse_request False MAX_HEADERS (?t @ []) = Inr (?req, [])"
    using parse_request_printed[of "''GET''" "''/a''" 0 "[]" MAX_HEADERS False "[]"] by simp
  from requests.answer_of_parsed[OF this] l have "parse_req ?t 0 = ret (19, Some ?req)"
    by (simp add: parse_req_def phr_parse_request_def)
  moreover have "?t \<noteq> []" using l by auto
  ultimately have "recv_request parse_req [] [Received ?t] = ret (Some (?t, ?req), [])"
    using l by (simp add: BUFFER_SIZE_def)
  then show ?thesis by (intro process_request_needs_host[of _ ?t ?req "[]"]) simp_all
qed

subsection \<open>The helpers\<close>

text \<open>\<open>send_buffer\<close> copes with partial sends and interruptions: it either sends the whole buffer and
  returns its length, or fails with \<open>-1\<close> after a proper prefix of it; it ends when the kernel
  answers often enough.\<close>

theorem send_buffer_all_or_prefix:
  assumes "length buf \<le> sends rs"
  shows "\<exists>rs'. send_buffer buf rs = ret (int (length buf), buf, rs') \<or>
    (\<exists>m. m < length buf \<and> send_buffer buf rs = ret (-1, take m buf, rs'))"
  using send_loop_spec[of 0 buf rs] assms by (auto simp: send_buffer_def)

theorem send_buffer_all_or_prefix_witness:
  "\<exists>rs'. send_buffer ''abc'' [Sent 2, SendIntr, Sent 9, SendErr] = ret (3, ''abc'', rs')"
proof -
  have "length ''abc'' \<le> sends [Sent 2, SendIntr, Sent 9, SendErr]" by simp
  from send_buffer_all_or_prefix[OF this] show ?thesis
    by (simp add: send_buffer_def send_loop.simps)
qed

text \<open>Serving a complete entry sends the client a prefix of its bytes, all of them when the function
  returns 0, and fewer only when a send failed; the loop ends however the bytes are cut into chunks
  and sends.\<close>

theorem handle_cached_request_serves_entry:
  assumes "represents c A" and "A a = Some x" and "a_state x = ENTRY_COMPLETE"
    and "length (a_data x) < 2 ^ 63" and "length (a_data x) \<le> sends rs"
  shows "\<exists>r m rs' c'. handle_cached_request a ws rs c = ret (r, take m (a_data x), rs', c') \<and>
    (r = 0 \<and> m = length (a_data x) \<or> r = -1 \<and> m < length (a_data x))"
proof -
  have "complete_entry a (ws, c) (a_data x)" using assms by (auto simp: complete_entry_def)
  from entry.copy_out_prefix[OF this, of 0 rs "[]"] assms(5) obtain r m rs' s' where
      "copy_out (entry_source a) 0 rs (ws, c) [] = ret (r, take m (a_data x), rs', s')"
      "r = 0 \<and> m = length (a_data x) \<or> r = -1 \<and> m < length (a_data x)" by auto
  then show ?thesis by (auto simp: handle_cached_request_def split: prod.split)
qed

theorem handle_cached_request_serves_entry_witness:
  "\<exists>c rs' c'. handle_cached_request 7 [] [SendIntr] c = ret (0, [], rs', c')"
proof -
  obtain c where c: "represents c [7 \<mapsto> demo_entry]" using demo_reachable by blast
  let ?y = "demo_entry\<lparr>a_state := ENTRY_COMPLETE\<rparr>"
  have x: "[7 \<mapsto> demo_entry] 7 = Some demo_entry" by simp
  have f: "shape (e\<lparr>e_state := ENTRY_COMPLETE\<rparr>) = shape e"
    "lru_prev (e\<lparr>e_state := ENTRY_COMPLETE\<rparr>) = lru_prev e" "lru_next (e\<lparr>e_state := ENTRY_COMPLETE\<rparr>) = lru_next e"
    "e_state (e\<lparr>e_state := ENTRY_COMPLETE\<rparr>) = ENTRY_COMPLETE"
    "refcount (e\<lparr>e_state := ENTRY_COMPLETE\<rparr>) = refcount e" for e by (simp_all add: shape_def)
  from locked_update_refines[where b = True and st = "\<lambda>_. ENTRY_COMPLETE" and rc = "\<lambda>n. n", OF c x f]
  obtain c1 where "represents c1 ([7 \<mapsto> demo_entry](7 \<mapsto>
      demo_entry\<lparr>a_state := ENTRY_COMPLETE, a_refs := a_refs demo_entry\<rparr>))" by blast
  moreover have "demo_entry\<lparr>a_state := ENTRY_COMPLETE, a_refs := a_refs demo_entry\<rparr> = ?y"
    by (simp add: demo_entry_def)
  ultimately have c1: "represents c1 ([7 \<mapsto> demo_entry](7 \<mapsto> ?y))" by metis
  have y: "([7 \<mapsto> demo_entry](7 \<mapsto> ?y)) 7 = Some ?y" "a_state ?y = ENTRY_COMPLETE" "a_data ?y = []"
    by (simp_all add: demo_entry_def)
  have "length (a_data ?y) < 2 ^ 63" "length (a_data ?y) \<le> sends [SendIntr]" using y(3) by simp_all
  from handle_cached_request_serves_entry[OF c1 y(1,2) this, of "[]"] y(3) show ?thesis by auto
qed

text \<open>Decimal numbers, as an HTTP server prints a length.\<close>

fun dec :: "nat \<Rightarrow> string" where
  "dec n = (if n < 10 then [char_of (48 + n)] else dec (n div 10) @ [char_of (48 + n mod 10)])"

declare dec.simps [simp del]

lemma of_char_digit: "n < 10 \<Longrightarrow> (of_char (char_of (48 + n :: nat) :: char) :: int) = 48 + int n"
proof -
  have "(of_char ch :: int) = int (of_char ch)" for ch :: char
    using of_nat_of_char[of ch, where 'a = int] by (rule sym)
  then show ?thesis if "n < 10" using that by (simp only: of_char_of) simp
qed

lemma dec_digits: "\<forall>ch \<in> set (dec n). is_digit ch"
proof (induction n rule: dec.induct)
  case (1 n)
  show ?case
  proof (cases "n < 10")
    case True
    then show ?thesis by (simp add: dec.simps[of n] is_digit_def)
  next
    case False
    then show ?thesis using 1 by (simp add: dec.simps[of n] is_digit_def)
  qed
qed

lemma digits_value_snoc: "digits_value (ds @ [d]) = 10 * digits_value ds + (of_char d - 48)"
  by (simp add: digits_value_def)

lemma digits_value_dec: "digits_value (dec n) = int n"
proof (induction n rule: dec.induct)
  case (1 n)
  show ?case
  proof (cases "n < 10")
    case True
    then show ?thesis by (simp add: dec.simps[of n] digits_value_def of_char_digit)
  next
    case False
    then have "digits_value (dec n) = 10 * int (n div 10) + int (n mod 10)"
      using 1 by (simp add: dec.simps[of n] digits_value_snoc of_char_digit)
    then show ?thesis using div_mult_mod_eq[of n 10] by linarith
  qed
qed

lemma dec_nonempty: "dec n \<noteq> []"
  by (simp add: dec.simps[of n])

lemma is_digit_other: "is_digit ch \<Longrightarrow> \<not> is_blank ch \<and> ch \<noteq> CHR ''-'' \<and> ch \<noteq> CHR ''+''"
  by (auto simp: is_digit_def is_blank_def)

lemma strtoll_dec:
  assumes "n < 2 ^ 63" and "\<not> is_digit t"
  shows "strtoll (dec n @ t # ts) = (int n, t # ts, False)"
proof -
  obtain d ds where dn: "dec n = d # ds" using dec_nonempty by (cases "dec n") auto
  then have d: "is_digit d" using dec_digits[of n] by simp
  note o = is_digit_other[OF d]
  have s1: "dropWhile is_blank (dec n @ t # ts) = dec n @ t # ts" using dn o by simp
  have tk: "takeWhile is_digit (dec n @ t # ts) = dec n" "dropWhile is_digit (dec n @ t # ts) = t # ts"
    using dec_digits[of n] assms(2) by (simp_all add: takeWhile_append dropWhile_append)
  have hd: "hd (dec n @ t # ts) \<noteq> CHR ''-''" "hd (dec n @ t # ts) \<noteq> CHR ''+''" using dn o by simp_all
  have "int n \<le> 2 ^ 63 - 1" "\<not> int n < - (2 ^ 63)" using assms(1) by auto
  then show ?thesis
    using hd by (simp add: strtoll_def s1 tk digits_value_dec dec_nonempty Let_def)
qed

lemma placed_append: "placed i (fs @ gs) = placed i fs @ placed (i + length (concat (map print_header fs))) gs"
proof (induction i fs rule: placed.induct)
  case (2 i name v fs)
  have "i + length name + length v + 4 + length (concat (map print_header fs)) =
      i + length (concat (map print_header ((name, v) # fs)))" by simp
  with 2 show ?case by (simp only: placed.simps append_Cons)
qed simp

lemma findHeader_placed_None:
  "\<forall>f \<in> set fs. map to_lower (fst f) \<noteq> map to_lower name \<Longrightarrow> findHeader (placed i fs) name = None"
  by (induction i fs rule: placed.induct) (auto simp: findHeader_def)

lemma findHeader_placed:
  assumes "\<forall>f \<in> set fs. map to_lower (fst f) \<noteq> map to_lower key" and "map to_lower name = map to_lower key"
  shows "findHeader (placed i (fs @ (name, v) # gs)) key = Some \<lparr>h_name = Some name, h_value = v,
    h_off = i + length (concat (map print_header fs)) + length name + 2\<rparr>"
proof -
  have "find P (before @ h # after) = Some h" if "find P before = None" "P h" for P :: "phr_header \<Rightarrow> bool" and before h after
    using that by (induction before) (auto split: if_splits)
  from this[OF findHeader_placed_None[OF assms(1), of i, unfolded findHeader_def]] show ?thesis
    using assms(2) map_eq_imp_length_eq[OF assms(2)] by (simp add: findHeader_def placed_append)
qed

text \<open>The proxy reads back the length an origin prints: when the head of a reply is parsed and its first
  header named \<open>Content-Length\<close>, in any case, has the decimal number \<open>n\<close>, \<open>get_content_len\<close> gives
  \<open>n\<close>, whatever follows the head in the buffer; with a stale \<open>errno\<close> it gives \<open>-1\<close>, and so it does without
  such a header.\<close>

theorem get_content_len_roundtrip:
  assumes "n < 2 ^ 63" "map to_lower name = ''content-length''"
    and "minor \<le> 9" "status \<le> 999" "message_ok msg"
    and "list_all field_ok (fs @ (name, dec n) # gs)" "length fs + length gs < MAX_HEADERS"
    and "\<forall>f \<in> set fs. map to_lower (fst f) \<noteq> ''content-length''"
    and "buf = print_response minor status msg (fs @ (name, dec n) # gs) @ body"
  shows "\<exists>k resp. phr_parse_response False MAX_HEADERS buf 0 = ret (k, Some resp) \<and>
    get_content_len False buf (rs_headers resp) = int n \<and> get_content_len True buf (rs_headers resp) = -1 \<and>
    get_content_len stale buf (placed i fs) = -1"
proof -
  have key: "''content-length'' = map to_lower ''Content-Length''" by code_simp
  let ?fs = "fs @ (name, dec n) # gs" and ?i = "length msg + 15"
  have "parse_response False MAX_HEADERS buf = Inr (\<lparr>rs_minor = int minor, rs_status = int status, rs_msg = msg,
      rs_headers = placed ?i ?fs\<rparr>, body)"
    unfolding assms(9) by (rule parse_response_printed[OF assms(3-6)]) (use assms(7) in simp)
  note answer = responses.answer_of_parsed[OF this]
  let ?off = "?i + length (concat (map print_header fs)) + length name + 2"
  have f: "findHeader (placed ?i ?fs) ''Content-Length'' = Some \<lparr>h_name = Some name, h_value = dec n, h_off = ?off\<rparr>"
    by (rule findHeader_placed) (use assms(2,8) key in auto)
  let ?before = "''HTTP/1.'' @ [char_of (48 + minor)] @ '' '' @
     [char_of (48 + status div 100), char_of (48 + status div 10 mod 10), char_of (48 + status mod 10)] @ '' '' @
     msg @ [CR, LF] @ concat (map print_header fs) @ name @ '': ''"
  have "buf = ?before @ dec n @ CR # LF # print_headers gs @ body"
    by (simp add: assms(9) print_response_def print_headers_def)
  moreover have "length ?before = ?off" by simp
  ultimately have "drop ?off buf = dec n @ CR # LF # print_headers gs @ body"
    by (metis append_eq_conv_conj)
  moreover have "\<not> is_digit CR" by simp
  ultimately have "strtoll (drop ?off buf) = (int n, CR # LF # print_headers gs @ body, False)"
    using strtoll_dec[OF assms(1)] by simp
  moreover have "findHeader (placed i fs) ''Content-Length'' = None"
    by (rule findHeader_placed_None) (use assms(8) key in auto)
  ultimately show ?thesis
    using answer f by (simp add: phr_parse_response_def get_content_len_def)
qed

theorem get_content_len_roundtrip_witness:
  "\<exists>k resp. phr_parse_response False MAX_HEADERS (demo_head [(''Server'', ''x''), (''CONTENT-length'', dec 1048576)]) 0 =
      ret (k, Some resp) \<and>
    get_content_len False (demo_head [(''Server'', ''x''), (''CONTENT-length'', dec 1048576)]) (rs_headers resp) = 1048576"
proof -
  let ?fs = "[(''Server'', ''x'')]" and ?name = "''CONTENT-length''"
  have c: "map to_lower ?name = ''content-length''" "map to_lower ''Server'' = ''server''" by (code_simp, code_simp)
  have "dec 1048576 = ''1048576''" by (simp add: dec.simps flip: of_char_eq_iff[where 'a = nat])
  then have ok: "message_ok ''OK''" "list_all field_ok (?fs @ (?name, dec 1048576) # [])"
    by (simp_all add: field_ok_def token_char_iff ctl_code blank_def message_ok_def)
  have s: "\<forall>f \<in> set ?fs. map to_lower (fst f) \<noteq> ''content-length''" using c(2) by simp
  have b: "demo_head (?fs @ (?name, dec 1048576) # []) = print_response 1 200 ''OK'' (?fs @ (?name, dec 1048576) # []) @ []"
    by (simp add: demo_head_def)
  have n: "(1048576::nat) < 2 ^ 63" "(1::nat) \<le> 9" "(200::nat) \<le> 999" "length ?fs + length [] < MAX_HEADERS"
    by (simp_all add: MAX_HEADERS_def)
  from get_content_len_roundtrip[OF n(1) c(1) n(2,3) ok n(4) s b] show ?thesis by simp blast
qed

text \<open>\<open>resolve_and_connect\<close> returns the first address that takes the connection and closes each
  socket that did not connect; but when every address fails, the socket of the last failed
  \<open>connect\<close> is closed a second time.\<close>

theorem resolve_and_connect_closes:
  "resolve_and_connect (Some (map ConnectFails fds @ Connects fd # rps)) = (fd, fds) \<and>
   resolve_and_connect (Some (map ConnectFails (fds @ [fd]))) = (-1, fds @ [fd, fd]) \<and>
   resolve_and_connect None = (-1, [])"
proof -
  have "try_addrs (map ConnectFails fds @ rps) s =
      (case try_addrs rps (if fds = [] then s else last fds) of (r, closed, b) \<Rightarrow> (r, fds @ closed, b))"
    for rps s and fds :: "int list"
    by (induction fds arbitrary: s) (auto split: prod.splits)
  from this[of fds "Connects fd # rps" "-1"] this[of "fds @ [fd]" "[]" "-1"] show ?thesis
    by (simp add: resolve_and_connect_def)
qed

end
