(* ===== verification/Threadpool.thy ===== *)
theory Threadpool
  imports Prelude "HOL-Library.Multiset"
begin

section \<open>The thread pool\<close>

text \<open>
  \<^verbatim>\<open>threading/threadpool.c\<close>: the choice of a worker, adding a client to it, and what a worker
  does in one round of its loop. The arrays of a worker are lists of the length the struct
  declares; the connection contexts live in a heap. What \<open>poll\<close> reports, what the allocator
  returns and what \<open>process_request\<close> does are arguments. Where it returns it leaves the descriptor closed
  and marked \<open>-1\<close> (\<open>process_request_cleans_up\<close>), which is all the pool sees of it; but it may
  crash, and it may wait for its peers for ever.
\<close>

definition MAX_WORKER_THREADS :: nat where
  "MAX_WORKER_THREADS = 8"

definition MAX_CLIENTS_PER_THREAD :: nat where
  "MAX_CLIENTS_PER_THREAD = 64"

record pollfd =
  pfd_fd :: int
  pollin :: bool
  pollerr :: bool
  pollnval :: bool
  pollhup :: bool

record connection_ctx =
  cx_sock_fd :: int

record worker_data =
  fds :: "pollfd list"
  connections :: "ptr list"
  nfds :: nat
  is_shutdown :: bool

text \<open>The heap of contexts, and the descriptors that have been closed, oldest first.\<close>

record pool_mem =
  ctxs :: "addr \<rightharpoonup> connection_ctx"
  closed_fds :: "int list"

subsection \<open>Choosing a worker\<close>

fun pick_loop :: "worker_data list \<Rightarrow> nat \<Rightarrow> nat list \<Rightarrow> int \<Rightarrow> nat \<Rightarrow> int" where
  "pick_loop ws start [] best min_load = best"
| "pick_loop ws start (i # is) best min_load =
     (let current = (start + i) mod MAX_WORKER_THREADS; w = ws ! current in
      if nfds w < min_load then pick_loop ws start is (int current) (nfds w)
      else pick_loop ws start is best min_load)"

text \<open>\<open>last_worker\<close> is the static variable; the result is also its new value.\<close>

definition pick_worker :: "worker_data list \<Rightarrow> nat \<Rightarrow> int" where
  "pick_worker ws last_worker =
     pick_loop ws ((last_worker + 1) mod MAX_WORKER_THREADS) [0..<MAX_WORKER_THREADS] (-1) (2 ^ 32 - 1)"

subsection \<open>Adding a client\<close>

definition add_client_to_worker ::
  "ptr \<Rightarrow> int \<Rightarrow> worker_data \<Rightarrow> pool_mem \<Rightarrow> int \<times> worker_data \<times> pool_mem" where
  "add_client_to_worker mc client_fd w mem =
     (if MAX_CLIENTS_PER_THREAD \<le> nfds w then (-1, w, mem)
      else
        let idx = nfds w;
            w1 = w\<lparr>nfds := nfds w + 1, fds := (fds w)[idx :=
              \<lparr>pfd_fd = client_fd, pollin = False, pollerr = False, pollnval = False, pollhup = False\<rparr>]\<rparr> in
        case mc of
          None \<Rightarrow> (-1, w1\<lparr>fds := (fds w1)[idx := (fds w1 ! idx)\<lparr>pfd_fd := -1\<rparr>], nfds := nfds w1 - 1\<rparr>, mem)
        | Some a \<Rightarrow> (0, w1\<lparr>connections := (connections w1)[idx := Some a]\<rparr>,
            mem\<lparr>ctxs := (ctxs mem)(a \<mapsto> \<lparr>cx_sock_fd = client_fd\<rparr>)\<rparr>))"

definition threadpool_add_client ::
  "ptr \<Rightarrow> int \<Rightarrow> nat \<Rightarrow> worker_data list \<Rightarrow> pool_mem \<Rightarrow> int \<times> nat \<times> worker_data list \<times> pool_mem" where
  "threadpool_add_client mc client_fd last_worker ws mem =
     (let b = nat (pick_worker ws last_worker) in
      case add_client_to_worker mc client_fd (ws ! b) mem of
        (r, w, mem) \<Rightarrow> (r, b, ws[b := w], mem))"

subsection \<open>One round of a worker\<close>

text \<open>What the events of a descriptor do to its connection.\<close>

definition set_ctx :: "ptr \<Rightarrow> (connection_ctx \<Rightarrow> connection_ctx) \<Rightarrow> pool_mem \<Rightarrow> pool_mem run" where
  "set_ctx p f mem = bindR (deref (ctxs mem) p) (\<lambda>x. ret (mem\<lparr>ctxs := (ctxs mem)(the p \<mapsto> f x)\<rparr>))"

definition close_ctx :: "ptr \<Rightarrow> pool_mem \<Rightarrow> pool_mem run" where
  "close_ctx p mem = bindR (deref (ctxs mem) p) (\<lambda>x.
     ret (mem\<lparr>closed_fds := closed_fds mem @ [cx_sock_fd x]\<rparr>))"

datatype request_result = Request_done | Request_blocks | Request_crashes crash

definition call_process_request :: "request_result \<Rightarrow> ptr \<Rightarrow> pool_mem \<Rightarrow> pool_mem run" where
  "call_process_request r conn mem =
     (case r of
        Request_done \<Rightarrow> bindR (close_ctx conn mem) (set_ctx conn (\<lambda>x. x\<lparr>cx_sock_fd := -1\<rparr>))
      | Request_blocks \<Rightarrow> None
      | Request_crashes e \<Rightarrow> crashed e)"

text \<open>\<open>req\<close> tells what \<open>process_request\<close> does for each connection.\<close>

definition handle_events :: "(ptr \<Rightarrow> request_result) \<Rightarrow> pollfd \<Rightarrow> ptr \<Rightarrow> pool_mem \<Rightarrow> pool_mem run" where
  "handle_events req p conn mem =
     (if pollerr p \<or> pollnval p then
        bindR (if pollerr p then close_ctx conn mem else ret mem)
          (set_ctx conn (\<lambda>x. x\<lparr>cx_sock_fd := -1\<rparr>))
      else if pollin p then call_process_request (req conn) conn mem
      else if pollhup p then
        bindR (close_ctx conn mem) (set_ctx conn (\<lambda>x. x\<lparr>cx_sock_fd := -1\<rparr>))
      else ret mem)"

fun handle_all :: "(ptr \<Rightarrow> request_result) \<Rightarrow> (pollfd \<times> ptr) list \<Rightarrow> pool_mem \<Rightarrow> pool_mem run" where
  "handle_all req [] mem = ret mem"
| "handle_all req ((p, conn) # rest) mem = bindR (handle_events req p conn mem) (handle_all req rest)"

text \<open>Copying the local arrays back under the mutex: clients added meanwhile are behind them.\<close>

definition copy_back :: "pollfd list \<Rightarrow> ptr list \<Rightarrow> worker_data \<Rightarrow> worker_data" where
  "copy_back fds_local conn_local w = w\<lparr>fds := fds_local @ drop (length fds_local) (fds w),
     connections := conn_local @ drop (length conn_local) (connections w)\<rparr>"

text \<open>\<open>memmove\<close> of the tail of an array of which \<open>n\<close> elements are in use, over position \<open>i\<close>.\<close>

definition shift_left :: "nat \<Rightarrow> nat \<Rightarrow> 'e list \<Rightarrow> 'e list" where
  "shift_left n i xs = take i xs @ take (n - 1 - i) (drop (Suc i) xs) @ drop (n - 1) xs"

text \<open>The loop that drops closed connections; \<open>i--\<close> then \<open>i++\<close> looks at the same index again.\<close>

function compact_loop :: "nat \<Rightarrow> worker_data \<Rightarrow> pool_mem \<Rightarrow> (worker_data \<times> pool_mem) run" where
  "compact_loop i w mem =
     (if i < nfds w then
        bindR (deref (ctxs mem) (connections w ! i)) (\<lambda>x.
        if cx_sock_fd x < 0 then
          compact_loop i
            (w\<lparr>fds := shift_left (nfds w) i (fds w),
               connections := shift_left (nfds w) i (connections w), nfds := nfds w - 1\<rparr>)
            (mem\<lparr>ctxs := (ctxs mem)(the (connections w ! i) := None)\<rparr>)
        else compact_loop (i + 1) w mem)
      else ret (w, mem))"
  by pat_completeness auto
termination
  by (relation "measure (\<lambda>(i, w, mem). nfds w - i)") auto

declare compact_loop.simps [simp del]

text \<open>The end of a worker: every remaining connection is closed and freed.\<close>

fun free_loop :: "nat list \<Rightarrow> worker_data \<Rightarrow> pool_mem \<Rightarrow> (worker_data \<times> pool_mem) run" where
  "free_loop [] w mem = ret (w\<lparr>nfds := 0\<rparr>, mem)"
| "free_loop (i # is) w mem =
     (case connections w ! i of
        None \<Rightarrow> free_loop is w mem
      | Some a \<Rightarrow>
        bindR (deref (ctxs mem) (Some a)) (\<lambda>x.
        free_loop is (w\<lparr>connections := (connections w)[i := None]\<rparr>)
          (mem\<lparr>closed_fds := closed_fds mem @ (if 0 \<le> cx_sock_fd x then [cx_sock_fd x] else []),
             ctxs := (ctxs mem)(a := None)\<rparr>)))"

definition free_connections :: "worker_data \<Rightarrow> pool_mem \<Rightarrow> (worker_data \<times> pool_mem) run" where
  "free_connections w mem = free_loop [0..<nfds w] w mem"

subsection \<open>A worker and the clients it is given\<close>

text \<open>
  \<open>client_worker_main\<close> between its critical sections, and \<open>add_client_to_worker\<close>, which the
  acceptor runs at any of those points. \<open>Polled\<close> is the point after the local copies, \<open>Processed\<close>
  the point before the second lock, both with the local arrays.
\<close>

datatype phase =
    Waiting
  | Polled "pollfd list" "ptr list"
  | Processed "pollfd list" "ptr list"
  | Ended

record wstate =
  the_worker :: worker_data
  the_mem :: pool_mem
  the_phase :: phase
  accepted :: "int list"

definition start_state :: wstate where
  "start_state = \<lparr>the_worker = \<lparr>fds = replicate MAX_CLIENTS_PER_THREAD
       \<lparr>pfd_fd = 0, pollin = False, pollerr = False, pollnval = False, pollhup = False\<rparr>,
     connections = replicate MAX_CLIENTS_PER_THREAD None, nfds = 0, is_shutdown = False\<rparr>,
     the_mem = \<lparr>ctxs = Map.empty, closed_fds = []\<rparr>, the_phase = Waiting, accepted = []\<rparr>"

text \<open>What \<open>poll\<close> does to the local array: only events change, and none says a descriptor is not open.\<close>

definition polled :: "pollfd list \<Rightarrow> pollfd list \<Rightarrow> bool" where
  "polled fl fl' \<longleftrightarrow> map pfd_fd fl' = map pfd_fd fl \<and> list_all (\<lambda>p. \<not> pollnval p) fl'"

inductive worker_step :: "wstate \<Rightarrow> wstate \<Rightarrow> bool" where
  Add: "worker_step s (s\<lparr>the_worker := w, the_mem := mem, accepted := accepted s @ (if r = 0 then [fd] else [])\<rparr>)"
  if "\<not> is_shutdown (the_worker s)" "0 \<le> fd" "\<forall>a. mc = Some a \<longrightarrow> a \<notin> dom (ctxs (the_mem s))"
    "add_client_to_worker mc fd (the_worker s) (the_mem s) = (r, w, mem)"
| Snapshot: "worker_step s (s\<lparr>the_phase := Polled (take (nfds (the_worker s)) (fds (the_worker s)))
      (take (nfds (the_worker s)) (connections (the_worker s)))\<rparr>)"
  if "the_phase s = Waiting" "nfds (the_worker s) \<noteq> 0" "\<not> is_shutdown (the_worker s)"
| Timeout: "worker_step s (s\<lparr>the_phase := Waiting\<rparr>)"
  if "the_phase s = Polled fl cl"
| Process: "worker_step s (s\<lparr>the_mem := mem, the_phase := Processed fl' cl\<rparr>)"
  if "the_phase s = Polled fl cl" "polled fl fl'" "handle_all req (zip fl' cl) (the_mem s) = ret mem"
| Compact: "worker_step s (s\<lparr>the_worker := w, the_mem := mem, the_phase := Waiting\<rparr>)"
  if "the_phase s = Processed fl cl"
    "compact_loop 0 (copy_back fl cl (the_worker s)) (the_mem s) = ret (w, mem)"
| Shutdown: "worker_step s (s\<lparr>the_worker := (the_worker s)\<lparr>is_shutdown := True\<rparr>\<rparr>)"
| Leave: "worker_step s (s\<lparr>the_worker := w, the_mem := mem, the_phase := Ended\<rparr>)"
  if "the_phase s = Waiting" "is_shutdown (the_worker s)"
    "free_connections (the_worker s) (the_mem s) = ret (w, mem)"

inductive_cases worker_stepE: "worker_step s t"

inductive worker_reachable :: "wstate \<Rightarrow> bool" where
  Start: "worker_reachable start_state"
| Step: "worker_reachable s \<Longrightarrow> worker_step s t \<Longrightarrow> worker_reachable t"

subsection \<open>Starting and stopping the pool\<close>

text \<open>
  \<open>threadpool_init\<close>: \<open>creates\<close> is what each \<open>pthread_create\<close> does. The state is the array of
  workers, \<open>None\<close> once it is freed, and the indices of the threads that run.
\<close>

record pool_state =
  pool_workers :: "worker_data list option"
  running :: "nat list"

fun create_workers :: "(nat \<Rightarrow> bool) \<Rightarrow> nat list \<Rightarrow> pool_state \<Rightarrow> bool \<times> pool_state" where
  "create_workers creates [] st = (True, st)"
| "create_workers creates (i # is) st =
     (let st = st\<lparr>pool_workers := map_option (\<lambda>ws. ws[i := (ws ! i)\<lparr>nfds := 0, is_shutdown := False\<rparr>]) (pool_workers st)\<rparr> in
      if creates i then create_workers creates is (st\<lparr>running := running st @ [i]\<rparr>)
      else (False, st\<lparr>pool_workers := None\<rparr>))"

definition threadpool_init :: "bool \<Rightarrow> bool \<Rightarrow> bool \<Rightarrow> (nat \<Rightarrow> bool) \<Rightarrow> bool \<times> pool_state" where
  "threadpool_init worker_function alloc_pool alloc_data creates =
     (if \<not> worker_function \<or> \<not> alloc_pool \<or> \<not> alloc_data then (False, \<lparr>pool_workers = None, running = []\<rparr>)
      else create_workers creates [0..<MAX_WORKER_THREADS]
        \<lparr>pool_workers = Some (replicate MAX_WORKER_THREADS (the_worker start_state)), running = []\<rparr>)"

text \<open>
  \<open>threadpool_shutdown\<close> against the workers, instruction by instruction; no client is added any more. A worker
  holds its mutex at \<open>Testing\<close>, where the conditions of its wait loop and of the \<open>break\<close> are evaluated, and at
  \<open>Entering\<close>, where it has found neither a client nor the flag and \<open>pthread_cond_wait\<close> is called. From there
  it sleeps until it is signalled (spurious wake-ups are left out). With clients it polls, may serve requests, and
  drops those that are closed under the mutex; a request may keep it for ever. Shutdown takes no mutex.
\<close>

datatype worker_pc = Locking | Testing | Entering | Blocked | Polling | Serving | Hung | Finished
datatype main_pc = Setting nat | Signalling nat | Joining nat | Joined

record stop_state =
  wpc :: "nat \<Rightarrow> worker_pc"
  clients_of :: "nat \<Rightarrow> nat"
  flag :: "nat \<Rightarrow> bool"
  mpc :: main_pc

definition worker_at :: "nat \<Rightarrow> worker_pc \<Rightarrow> stop_state \<Rightarrow> stop_state" where
  "worker_at i pc s = s\<lparr>wpc := (wpc s)(i := pc)\<rparr>"

definition next_worker :: "(nat \<Rightarrow> main_pc) \<Rightarrow> main_pc \<Rightarrow> nat \<Rightarrow> main_pc" where
  "next_worker again after i = (if i + 1 < MAX_WORKER_THREADS then again (i + 1) else after)"

inductive stop_step :: "stop_state \<Rightarrow> stop_state \<Rightarrow> bool" where
  Lock: "stop_step s (worker_at i Testing s)" if "i < MAX_WORKER_THREADS" "wpc s i = Locking"
| Test: "stop_step s (worker_at i (if flag s i then Finished else if clients_of s i = 0 then Entering else Polling) s)"
  if "i < MAX_WORKER_THREADS" "wpc s i = Testing"
| Wait: "stop_step s (worker_at i Blocked s)" if "i < MAX_WORKER_THREADS" "wpc s i = Entering"
| Poll: "stop_step s (worker_at i (if events then Serving else Locking) s)" if "i < MAX_WORKER_THREADS" "wpc s i = Polling"
| Serve: "stop_step s (worker_at i Locking (s\<lparr>clients_of := (clients_of s)(i := k)\<rparr>))"
  if "i < MAX_WORKER_THREADS" "wpc s i = Serving" "k \<le> clients_of s i"
| Hang: "stop_step s (worker_at i Hung s)" if "i < MAX_WORKER_THREADS" "wpc s i = Serving"
| Set_flag: "stop_step s (s\<lparr>flag := (flag s)(i := True), mpc := Signalling i\<rparr>)" if "mpc s = Setting i"
| Signal: "stop_step s (worker_at i (if wpc s i = Blocked then Locking else wpc s i)
      (s\<lparr>mpc := next_worker Setting (Joining 0) i\<rparr>))" if "mpc s = Signalling i"
| Join: "stop_step s (s\<lparr>mpc := next_worker Joining Joined i\<rparr>)" if "mpc s = Joining i" "wpc s i = Finished"

inductive_cases stop_stepE: "stop_step s t"
inductive_simps stop_step_iff: "stop_step s t"

text \<open>The workers may be anywhere in their loops when the shutdown begins; only those without clients wait.\<close>

definition stop_start :: "stop_state \<Rightarrow> bool" where
  "stop_start s \<longleftrightarrow> mpc s = Setting 0 \<and> (\<forall>i. \<not> flag s i \<and> wpc s i \<noteq> Finished \<and>
     (wpc s i \<in> {Entering, Blocked} \<longrightarrow> clients_of s i = 0))"

inductive stop_reachable :: "stop_state \<Rightarrow> bool" where
  Begin: "stop_start s \<Longrightarrow> stop_reachable s"
| Next: "stop_reachable s \<Longrightarrow> stop_step s t \<Longrightarrow> stop_reachable t"

end
