(* ===== verification/ProxyMain.thy ===== *)
theory ProxyMain
  imports Threadpool CacheTable
begin

section \<open>The main thread of the proxy\<close>

text \<open>
  \<^verbatim>\<open>proxy_start\<close> of \<^verbatim>\<open>proxy/proxy.c\<close> with the handler of \<open>SIGINT\<close>, and \<open>threadpool_shutdown\<close> of
  \<^verbatim>\<open>threading/threadpool.c\<close> as it uses it. The workers and the collector share the pool and the cache
  with this thread: what they do before an \<open>accept\<close> returns, and until they are joined, are
  arguments. The state records what the thread did, and in \<open>stray\<close> the threads of a pool whose start failed: they
  run on, on memory that was freed, and nobody joins them.
\<close>

datatype main_event =
    SocketOpened
  | SocketClosed
  | PoolStarted
  | PoolStopped
  | CacheCreated
  | CacheFreed
  | Handed int nat
  | ClientClosed int

type_synonym world = "worker_data list \<times> pool_mem \<times> http_cache"

record main_st =
  tp_client :: "worker_data list option"
  last_worker :: nat
  contexts :: pool_mem
  m_cache :: "http_cache option"
  stray :: "nat list"
  m_events :: "main_event list"

definition note_event :: "main_event \<Rightarrow> main_st \<Rightarrow> main_st" where
  "note_event ev st = st\<lparr>m_events := m_events st @ [ev]\<rparr>"

text \<open>
  The outcomes of the calls that set the proxy up. \<open>joined\<close> is what the workers, told to stop, make
  of the shared memory until all of them have ended, or \<open>None\<close> when one of them never ends.
\<close>

record main_env =
  sigaction_ok :: bool
  socket_result :: int
  bind_ok :: bool
  listen_ok :: bool
  pool_memory :: "bool \<times> bool"
  thread_created :: "nat \<Rightarrow> bool"
  cache_memory :: "bool \<times> bool"
  collector_created :: bool
  context_memory :: "pool_mem \<Rightarrow> ptr"
  joined :: "worker_data list \<Rightarrow> pool_mem \<Rightarrow> http_cache option \<Rightarrow> (pool_mem \<times> http_cache option) option"

subsection \<open>Accepting clients\<close>

datatype accept_result = Accepted int | AcceptIntr | AcceptErr

text \<open>
  One round: what \<open>accept\<close> returns, whether the handler of the signal runs in this round, before
  \<open>keep_running\<close> is tested, and what the other threads do before \<open>accept\<close> returns.
\<close>

type_synonym accept_round = "accept_result \<times> bool \<times> (world \<Rightarrow> world)"

definition sigterm_handler :: "bool \<Rightarrow> bool" where
  "sigterm_handler keep_running = False"

definition interleave :: "(world \<Rightarrow> world) \<Rightarrow> main_st \<Rightarrow> main_st" where
  "interleave others st = (case (tp_client st, m_cache st) of
      (Some ws, Some c) \<Rightarrow> (case others (ws, contexts st, c) of (ws, mem, c) \<Rightarrow>
        st\<lparr>tp_client := Some ws, contexts := mem, m_cache := Some c\<rparr>)
    | _ \<Rightarrow> st)"

text \<open>A client that no worker takes is closed by this thread.\<close>

definition place_client :: "main_env \<Rightarrow> int \<Rightarrow> main_st \<Rightarrow> main_st run" where
  "place_client env client_fd st = (case tp_client st of
      None \<Rightarrow> crashed UseAfterFree
    | Some ws \<Rightarrow> (case threadpool_add_client (context_memory env (contexts st)) client_fd (last_worker st) ws (contexts st) of
        (r, b, ws, mem) \<Rightarrow>
          let st = st\<lparr>tp_client := Some ws, last_worker := b, contexts := mem\<rparr> in
          ret (if r < 0
               then note_event (ClientClosed client_fd) (st\<lparr>contexts := mem\<lparr>closed_fds := closed_fds mem @ [client_fd]\<rparr>\<rparr>)
               else note_event (Handed client_fd b) st)))"

text \<open>The result also has the rounds left. \<open>continue\<close> after an error skips the test of \<open>keep_running\<close>.\<close>

fun accept_loop :: "main_env \<Rightarrow> bool \<Rightarrow> accept_round list \<Rightarrow> main_st \<Rightarrow> (main_st \<times> accept_round list) run" where
  "accept_loop env keep_running [] st = None"
| "accept_loop env keep_running ((r, signalled, others) # rounds) st =
     (let st = interleave others st;
          keep_running = (if signalled then sigterm_handler keep_running else keep_running) in
      case r of
        AcceptErr \<Rightarrow> accept_loop env keep_running rounds st
      | AcceptIntr \<Rightarrow> if \<not> keep_running then ret (st, rounds) else accept_loop env keep_running rounds st
      | Accepted client_fd \<Rightarrow>
          bindR (place_client env client_fd st) (\<lambda>st.
          if \<not> keep_running then ret (st, rounds) else accept_loop env keep_running rounds st))"

subsection \<open>Stopping\<close>

definition threadpool_shutdown :: "main_env \<Rightarrow> main_st \<Rightarrow> main_st run" where
  "threadpool_shutdown env st = (case tp_client st of
      None \<Rightarrow> ret st
    | Some ws \<Rightarrow>
        let ws = map (\<lambda>w. w\<lparr>is_shutdown := True\<rparr>) ws in
        (case joined env ws (contexts st) (m_cache st) of
          None \<Rightarrow> None
        | Some (mem, cache) \<Rightarrow>
            ret (note_event PoolStopped (st\<lparr>tp_client := None, contexts := mem, m_cache := cache\<rparr>))))"

text \<open>The label \<open>end\<close>.\<close>

definition proxy_end :: "main_env \<Rightarrow> main_st \<Rightarrow> main_st run" where
  "proxy_end env st =
     bindR (threadpool_shutdown env st) (\<lambda>st.
     bindR (http_cache_shutdown (m_cache st)) (\<lambda>(cache, freed).
     let st = (if freed = None then st else note_event CacheFreed st)\<lparr>m_cache := cache\<rparr> in
     ret (if 0 \<le> socket_result env then note_event SocketClosed st else st)))"

definition CACHE_SIZE :: "64 word" where
  "CACHE_SIZE = 1000 * 1024 * 1024"

subsection \<open>The whole thread\<close>

definition main_start :: main_st where
  "main_start = \<lparr>tp_client = None, last_worker = 0, contexts = \<lparr>ctxs = Map.empty, closed_fds = []\<rparr>,
     m_cache = None, stray = [], m_events = []\<rparr>"

definition proxy_start :: "main_env \<Rightarrow> accept_round list \<Rightarrow> main_st run" where
  "proxy_start env rounds =
     (let st = main_start in
      if \<not> sigaction_ok env then ret st
      else if socket_result env < 0 then ret st
      else let st = note_event SocketOpened st in
      if \<not> bind_ok env then ret (note_event SocketClosed st)
      else if \<not> listen_ok env then ret (note_event SocketClosed st)
      else case threadpool_init True (fst (pool_memory env)) (snd (pool_memory env)) (thread_created env) of
        (False, pool) \<Rightarrow> proxy_end env (st\<lparr>stray := running pool\<rparr>)
      | (True, pool) \<Rightarrow>
        let st = note_event PoolStarted (st\<lparr>tp_client := pool_workers pool\<rparr>) in
        bindR (http_cache_init (fst (cache_memory env)) (snd (cache_memory env)) (collector_created env) CACHE_SIZE)
          (\<lambda>cache. case cache of
            None \<Rightarrow> proxy_end env st
          | Some c \<Rightarrow>
            bindR (accept_loop env True rounds (note_event CacheCreated (st\<lparr>m_cache := Some c\<rparr>)))
              (\<lambda>(st, _). proxy_end env st)))"

text \<open>\<open>main\<close> of \<^verbatim>\<open>main.c\<close>: its exit status does not tell how \<open>proxy_start\<close> ended.\<close>

definition proxy_main :: "main_env \<Rightarrow> accept_round list \<Rightarrow> int run" where
  "proxy_main env rounds = bindR (proxy_start env rounds) (\<lambda>st. ret 0)"

end
