(* ===== verification/ThreadpoolProps.thy ===== *)
theory ThreadpoolProps
  imports Threadpool
begin

section \<open>Properties of the thread pool\<close>

text \<open>
  The chosen worker has least load, the arrays of a worker stay consistent and within bounds, no
  accepted descriptor is lost or closed twice, and the two executions of start and shutdown that
  go wrong.
\<close>

subsection \<open>Choosing a worker\<close>

text \<open>The load of the \<open>i\<close>-th worker that is looked at.\<close>

abbreviation load :: "worker_data list \<Rightarrow> nat \<Rightarrow> nat \<Rightarrow> nat" where
  "load ws start i \<equiv> nfds (ws ! ((start + i) mod MAX_WORKER_THREADS))"

lemma pick_loop_spec:
  "(pick_loop ws start is best m = best \<and> (\<forall>i \<in> set is. m \<le> load ws start i)) \<or>
    (\<exists>us i vs. is = us @ i # vs \<and> pick_loop ws start is best m = int ((start + i) mod MAX_WORKER_THREADS) \<and>
       load ws start i < m \<and> (\<forall>j \<in> set us. load ws start i < load ws start j) \<and>
       (\<forall>j \<in> set vs. load ws start i \<le> load ws start j))"
proof (induction "is" arbitrary: best m)
  case (Cons k ks)
  show ?case
  proof (cases "load ws start k < m")
    case True
    then have step: "pick_loop ws start (k # ks) best m =
        pick_loop ws start ks (int ((start + k) mod MAX_WORKER_THREADS)) (load ws start k)"
      by (simp add: Let_def)
    from Cons[of "int ((start + k) mod MAX_WORKER_THREADS)" "load ws start k"] show ?thesis
    proof (elim disjE exE conjE)
      assume "\<forall>i \<in> set ks. load ws start k \<le> load ws start i"
        "pick_loop ws start ks (int ((start + k) mod MAX_WORKER_THREADS)) (load ws start k) =
          int ((start + k) mod MAX_WORKER_THREADS)"
      then show ?thesis using step True by (intro disjI2 exI[of _ "[]"] exI[of _ k] exI[of _ ks]) simp
    next
      fix us i vs
      assume "ks = us @ i # vs" "load ws start i < load ws start k"
        "pick_loop ws start ks (int ((start + k) mod MAX_WORKER_THREADS)) (load ws start k) =
          int ((start + i) mod MAX_WORKER_THREADS)"
        "\<forall>j \<in> set us. load ws start i < load ws start j" "\<forall>j \<in> set vs. load ws start i \<le> load ws start j"
      then show ?thesis using step True
        by (intro disjI2 exI[of _ "k # us"] exI[of _ i] exI[of _ vs]) auto
    qed
  next
    case False
    then have step: "pick_loop ws start (k # ks) best m = pick_loop ws start ks best m" by (simp add: Let_def)
    from Cons[of best m] show ?thesis
    proof (elim disjE exE conjE)
      fix us i vs
      assume "ks = us @ i # vs" "load ws start i < m"
        "pick_loop ws start ks best m = int ((start + i) mod MAX_WORKER_THREADS)"
        "\<forall>j \<in> set us. load ws start i < load ws start j" "\<forall>j \<in> set vs. load ws start i \<le> load ws start j"
      then show ?thesis using step False
        by (intro disjI2 exI[of _ "k # us"] exI[of _ i] exI[of _ vs]) auto
    qed (use step False in simp)
  qed
qed simp

subsection \<open>The arrays of a worker\<close>

definition slots :: "worker_data \<Rightarrow> (pollfd \<times> ptr) list" where
  "slots w = take (nfds w) (zip (fds w) (connections w))"

definition worker_ok :: "worker_data \<Rightarrow> pool_mem \<Rightarrow> bool" where
  "worker_ok w mem \<longleftrightarrow> length (fds w) = MAX_CLIENTS_PER_THREAD \<and>
     length (connections w) = MAX_CLIENTS_PER_THREAD \<and> nfds w \<le> MAX_CLIENTS_PER_THREAD \<and>
     distinct (map snd (slots w)) \<and> (\<forall>p \<in> set (map snd (slots w)). \<exists>a x. p = Some a \<and> ctxs mem a = Some x)"

text \<open>The descriptor of a connection, \<open>-1\<close> for one that is not there.\<close>

definition sock_of :: "pool_mem \<Rightarrow> ptr \<Rightarrow> int" where
  "sock_of mem p = (case p of None \<Rightarrow> -1 | Some a \<Rightarrow> (case ctxs mem a of None \<Rightarrow> -1 | Some x \<Rightarrow> cx_sock_fd x))"

lemma shift_left_length: "i < n \<Longrightarrow> n \<le> length xs \<Longrightarrow> length (shift_left n i xs) = length xs"
  by (simp add: shift_left_def)

lemma take_shift_left:
  assumes "i < n" "n \<le> length xs"
  shows "take (n - 1) (shift_left n i xs) = take i (take n xs) @ drop (Suc i) (take n xs)"
proof -
  have "take (n - 1 - i) (drop (Suc i) xs) = drop (Suc i) (take n xs)"
    using assms by (simp add: drop_take Suc_diff_Suc)
  then show ?thesis using assms by (simp add: shift_left_def)
qed

lemma slots_shift:
  assumes "i < nfds w" "nfds w \<le> length (fds w)" "length (connections w) = length (fds w)"
  shows "slots (w\<lparr>fds := shift_left (nfds w) i (fds w),
      connections := shift_left (nfds w) i (connections w), nfds := nfds w - 1\<rparr>) =
    take i (slots w) @ drop (Suc i) (slots w)"
proof -
  let ?n = "nfds w"
  have z: "take m (zip xs ys) = zip (take m xs) (take m ys)" for m and xs :: "pollfd list" and ys :: "ptr list"
    by (rule take_zip)
  have "slots (w\<lparr>fds := shift_left ?n i (fds w), connections := shift_left ?n i (connections w), nfds := ?n - 1\<rparr>) =
      zip (take i (take ?n (fds w)) @ drop (Suc i) (take ?n (fds w)))
        (take i (take ?n (connections w)) @ drop (Suc i) (take ?n (connections w)))"
    using assms take_shift_left[of i ?n "fds w"] take_shift_left[of i ?n "connections w"]
    by (simp add: slots_def z)
  also have "\<dots> = zip (take i (take ?n (fds w))) (take i (take ?n (connections w))) @
      zip (drop (Suc i) (take ?n (fds w))) (drop (Suc i) (take ?n (connections w)))"
    using assms by (subst zip_append) simp_all
  also have "\<dots> = take i (slots w) @ drop (Suc i) (slots w)"
    unfolding slots_def z take_zip drop_zip ..
  finally show ?thesis .
qed

text \<open>What the compaction does to the contexts: those of the dropped slots are freed.\<close>

definition open_slot :: "pool_mem \<Rightarrow> pollfd \<times> ptr \<Rightarrow> bool" where
  "open_slot mem s \<longleftrightarrow> 0 \<le> sock_of mem (snd s)"

definition free_slots :: "(pollfd \<times> ptr) list \<Rightarrow> pool_mem \<Rightarrow> pool_mem" where
  "free_slots ss mem = mem\<lparr>ctxs := ctxs mem |` (- {a. Some a \<in> snd ` set ss})\<rparr>"

lemma free_slots_Nil [simp]: "free_slots [] mem = mem"
  by (simp add: free_slots_def restrict_map_def)

lemma open_slot_frame:
  assumes "snd s \<noteq> Some a"
  shows "open_slot (mem\<lparr>ctxs := (ctxs mem)(a := y)\<rparr>) s = open_slot mem s"
  using assms by (auto simp: open_slot_def sock_of_def split: option.split)

text \<open>Dropping the closed slot \<open>i\<close>, with its context, leaves the worker consistent.\<close>

lemma drop_slot_others:
  assumes "worker_ok w mem" and "i < nfds w" and "snd (slots w ! i) = Some a"
  shows "\<forall>s \<in> set (take i (slots w) @ drop (Suc i) (slots w)). snd s \<noteq> Some a"
    and "distinct (map snd (take i (slots w) @ drop (Suc i) (slots w)))"
proof -
  have "length (slots w) = nfds w" using assms(1) by (simp add: worker_ok_def slots_def)
  then have "drop i (slots w) = slots w ! i # drop (Suc i) (slots w)" using assms(2) by (simp add: Cons_nth_drop_Suc)
  then have d: "distinct (map snd (take i (slots w) @ slots w ! i # drop (Suc i) (slots w)))"
    using assms(1) append_take_drop_id[of i "slots w"] by (simp add: worker_ok_def)
  then show "\<forall>s \<in> set (take i (slots w) @ drop (Suc i) (slots w)). snd s \<noteq> Some a"
    using assms(3) by (force simp: image_iff)
  from d show "distinct (map snd (take i (slots w) @ drop (Suc i) (slots w)))" by auto
qed

lemma drop_slot_ok:
  assumes "worker_ok w mem" and "i < nfds w" and "snd (slots w ! i) = Some a"
    and "slots v = take i (slots w) @ drop (Suc i) (slots w)" and "nfds v = nfds w - 1"
    and "length (fds v) = length (fds w)" "length (connections v) = length (connections w)"
  shows "worker_ok v (mem\<lparr>ctxs := (ctxs mem)(a := None)\<rparr>)"
  unfolding worker_ok_def assms(4)
proof (intro conjI ballI)
  fix p assume p: "p \<in> set (map snd (take i (slots w) @ drop (Suc i) (slots w)))"
  then have "p \<in> set (map snd (slots w))" by (auto dest: in_set_takeD in_set_dropD)
  moreover have "p \<noteq> Some a" using p drop_slot_others(1)[OF assms(1-3)] by force
  moreover from calculation(1) obtain b x where "p = Some b" "ctxs mem b = Some x"
    using assms(1) unfolding worker_ok_def by blast
  ultimately show "\<exists>b x. p = Some b \<and> ctxs (mem\<lparr>ctxs := (ctxs mem)(a := None)\<rparr>) b = Some x" by auto
qed (use assms(1,2,5-7) drop_slot_others(2)[OF assms(1-3)] in \<open>auto simp: worker_ok_def\<close>)

lemma compact_loop_spec:
  assumes "worker_ok w mem" and "i \<le> nfds w"
  shows "\<exists>w'. compact_loop i w mem = ret (w', free_slots (filter (\<lambda>s. \<not> open_slot mem s) (drop i (slots w))) mem) \<and>
    slots w' = take i (slots w) @ filter (open_slot mem) (drop i (slots w)) \<and>
    length (fds w') = length (fds w) \<and> length (connections w') = length (connections w) \<and>
    nfds w' \<le> nfds w \<and> is_shutdown w' = is_shutdown w"
  using assms
proof (induction i w mem rule: compact_loop.induct)
  case (1 i w mem)
  have len: "length (slots w) = nfds w" using 1(3) by (simp add: worker_ok_def slots_def)
  show ?case
  proof (cases "i < nfds w")
    case False
    then have "compact_loop i w mem = ret (w, mem)" by (subst compact_loop.simps) simp
    then show ?thesis using False 1(4) len by (intro exI[of _ w]) simp
  next
    case True
    let ?s = "slots w ! i"
    have sl: "drop i (slots w) = ?s # drop (Suc i) (slots w)" using True len by (simp add: Cons_nth_drop_Suc)
    have ci: "connections w ! i = snd ?s"
      using 1(3) True by (simp add: slots_def worker_ok_def)
    have "snd ?s \<in> set (map snd (slots w))" using True len by simp
    with 1(3) obtain a x where a: "snd ?s = Some a" "ctxs mem a = Some x" by (auto simp: worker_ok_def)
    have op: "open_slot mem ?s \<longleftrightarrow> 0 \<le> cx_sock_fd x" using a by (simp add: open_slot_def sock_of_def)
    have rest: "\<forall>s \<in> set (take i (slots w) @ drop (Suc i) (slots w)). snd s \<noteq> Some a"
      by (rule drop_slot_others(1)) (use 1(3) True a in auto)
    show ?thesis
    proof (cases "cx_sock_fd x < 0")
      case False
      let ?k = "filter (\<lambda>s. \<not> open_slot mem s) (drop (Suc i) (slots w))"
      from 1(2)[OF True, of x] False 1(3) True obtain w' where
          IH: "compact_loop (i + 1) w mem = ret (w', free_slots ?k mem)"
            "slots w' = take (i + 1) (slots w) @ filter (open_slot mem) (drop (i + 1) (slots w))"
            "length (fds w') = length (fds w)" "length (connections w') = length (connections w)"
            "nfds w' \<le> nfds w" "is_shutdown w' = is_shutdown w" by auto
      have "take (i + 1) (slots w) = take i (slots w) @ [?s]" using True len by (simp add: take_Suc_conv_app_nth)
      then show ?thesis
        using IH False True a ci op sl by (simp add: compact_loop.simps[of i w])
    next
      case neg: True
      let ?w = "w\<lparr>fds := shift_left (nfds w) i (fds w),
         connections := shift_left (nfds w) i (connections w), nfds := nfds w - 1\<rparr>"
      let ?m = "mem\<lparr>ctxs := (ctxs mem)(a := None)\<rparr>"
      have sw: "slots ?w = take i (slots w) @ drop (Suc i) (slots w)"
        by (rule slots_shift) (use True 1(3) in \<open>simp_all add: worker_ok_def\<close>)
      have okw: "worker_ok ?w ?m"
        by (rule drop_slot_ok[OF 1(3) True a(1) sw]) (use 1(3) True in \<open>simp_all add: worker_ok_def shift_left_length\<close>)
      let ?k = "filter (\<lambda>s. \<not> open_slot ?m s) (drop i (slots ?w))"
      have d: "drop i (slots ?w) = drop (Suc i) (slots w)" "take i (slots ?w) = take i (slots w)"
        using True len unfolding sw by simp_all
      have mm: "mem\<lparr>ctxs := (ctxs mem)(the (connections w ! i) := None)\<rparr> = ?m" using ci a by simp
      have le: "i \<le> nfds ?w" using True by simp
      from 1(1)[OF True neg, unfolded mm, OF okw le] obtain w' where
          IH: "compact_loop i ?w ?m = ret (w', free_slots ?k ?m)"
            "slots w' = take i (slots ?w) @ filter (open_slot ?m) (drop i (slots ?w))"
            "length (fds w') = length (fds ?w)" "length (connections w') = length (connections ?w)"
            "nfds w' \<le> nfds ?w" "is_shutdown w' = is_shutdown ?w" by blast
      have fr: "open_slot ?m s = open_slot mem s" if "s \<in> set (drop (Suc i) (slots w))" for s
        using rest that by (intro open_slot_frame) auto
      have f1: "filter (open_slot ?m) (drop i (slots ?w)) = filter (open_slot mem) (drop (Suc i) (slots w))"
        unfolding d by (rule filter_cong) (use fr in simp_all)
      have f2: "?k = filter (\<lambda>s. \<not> open_slot mem s) (drop (Suc i) (slots w))"
        unfolding d by (rule filter_cong) (use fr in simp_all)
      have f3: "free_slots ks ?m = free_slots (?s # ks) mem" for ks
        using a by (auto simp: free_slots_def restrict_map_def fun_eq_iff)
      have st: "compact_loop i w mem = compact_loop i ?w ?m"
        using True neg ci a by (subst compact_loop.simps) simp
      show ?thesis
        unfolding st IH(1) f2 f3 sl using IH(2-) f1 d op neg True 1(3)
        by (auto simp: worker_ok_def shift_left_length)
    qed
  qed
qed

subsection \<open>The events of a round\<close>

definition has_event :: "pollfd \<Rightarrow> bool" where
  "has_event p \<longleftrightarrow> pollerr p \<or> pollnval p \<or> pollin p \<or> pollhup p"

definition closes :: "pollfd \<Rightarrow> bool" where
  "closes p \<longleftrightarrow> pollerr p \<or> (\<not> pollnval p \<and> (pollin p \<or> pollhup p))"

definition mark_closed :: "addr \<Rightarrow> pool_mem \<Rightarrow> pool_mem" where
  "mark_closed a mem = mem\<lparr>ctxs := (ctxs mem)(a \<mapsto> (the (ctxs mem a))\<lparr>cx_sock_fd := -1\<rparr>)\<rparr>"

lemma sock_of_closed_fds [simp]: "sock_of (mem\<lparr>closed_fds := x\<rparr>) q = sock_of mem q"
  by (simp add: sock_of_def split: option.split)

lemma sock_of_mark:
  assumes "a \<in> dom (ctxs mem)"
  shows "sock_of (mark_closed a mem) q = (if q = Some a then -1 else sock_of mem q)"
  using assms by (auto simp: sock_of_def mark_closed_def split: option.split)

text \<open>The entry for which \<open>process_request\<close> is called, and does not return.\<close>

definition stays :: "(ptr \<Rightarrow> request_result) \<Rightarrow> pollfd \<times> ptr \<Rightarrow> bool" where
  "stays req s \<longleftrightarrow> pollin (fst s) \<and> \<not> pollerr (fst s) \<and> \<not> pollnval (fst s) \<and> req (snd s) \<noteq> Request_done"

lemma handle_events_spec:
  assumes "a \<in> dom (ctxs mem)" and "\<not> stays req (p, Some a)"
  shows "handle_events req p (Some a) mem = ret
    ((if has_event p then mark_closed a mem else mem)\<lparr>closed_fds := closed_fds mem @
       (if closes p then [sock_of mem (Some a)] else [])\<rparr>)"
  using assms by (auto simp: handle_events_def call_process_request_def stays_def close_ctx_def set_ctx_def
      has_event_def closes_def mark_closed_def sock_of_def)

lemma handle_all_spec:
  assumes "distinct (map snd ps)" and "\<forall>q \<in> set (map snd ps). \<exists>a. q = Some a \<and> a \<in> dom (ctxs mem)"
    and "\<forall>s \<in> set ps. \<not> stays req s"
  shows "\<exists>mem'. handle_all req ps mem = ret mem' \<and> dom (ctxs mem') = dom (ctxs mem) \<and>
    (\<forall>q. sock_of mem' q = (if \<exists>p. (p, q) \<in> set ps \<and> has_event p then -1 else sock_of mem q)) \<and>
    closed_fds mem' = closed_fds mem @ map (\<lambda>s. sock_of mem (snd s)) (filter (\<lambda>s. closes (fst s)) ps)"
  using assms
proof (induction ps arbitrary: mem)
  case (Cons pq ps)
  obtain p q where pq: "pq = (p, q)" by (cases pq)
  with Cons.prems obtain a where a: "q = Some a" "a \<in> dom (ctxs mem)" by auto
  let ?m = "(if has_event p then mark_closed a mem else mem)\<lparr>closed_fds := closed_fds mem @
       (if closes p then [sock_of mem (Some a)] else [])\<rparr>"
  have dom: "dom (ctxs ?m) = dom (ctxs mem)" using a(2) by (auto simp: mark_closed_def)
  have sk: "sock_of ?m r = (if r = Some a \<and> has_event p then -1 else sock_of mem r)" for r
    using sock_of_mark[OF a(2)] by simp
  have "\<exists>mem'. handle_all req ps ?m = ret mem' \<and> dom (ctxs mem') = dom (ctxs ?m) \<and>
    (\<forall>q. sock_of mem' q = (if \<exists>p. (p, q) \<in> set ps \<and> has_event p then -1 else sock_of ?m q)) \<and>
    closed_fds mem' = closed_fds ?m @ map (\<lambda>s. sock_of ?m (snd s)) (filter (\<lambda>s. closes (fst s)) ps)"
    by (rule Cons.IH) (use Cons.prems pq dom in auto)
  then obtain mem' where m: "handle_all req ps ?m = ret mem'" "dom (ctxs mem') = dom (ctxs mem)"
      "\<forall>q. sock_of mem' q = (if \<exists>p. (p, q) \<in> set ps \<and> has_event p then -1 else sock_of ?m q)"
      "closed_fds mem' = closed_fds ?m @ map (\<lambda>s. sock_of ?m (snd s)) (filter (\<lambda>s. closes (fst s)) ps)"
    unfolding dom by blast
  have ne: "snd s \<noteq> Some a" if "s \<in> set ps" for s using Cons.prems(1) pq a(1) that by force
  have "map (\<lambda>s. sock_of ?m (snd s)) (filter (\<lambda>s. closes (fst s)) ps) =
      map (\<lambda>s. sock_of mem (snd s)) (filter (\<lambda>s. closes (fst s)) ps)"
    unfolding sk using ne by (intro map_cong) auto
  then have cl: "closed_fds mem' = closed_fds mem @
      map (\<lambda>s. sock_of mem (snd s)) (filter (\<lambda>s. closes (fst s)) (pq # ps))"
    using m(4) pq a(1) by simp
  have "sock_of mem' r = (if \<exists>p. (p, r) \<in> set (pq # ps) \<and> has_event p then -1 else sock_of mem r)" for r
    using m(3) sk[of r] pq a(1) by auto
  moreover have "handle_all req (pq # ps) mem = ret mem'"
    using m(1) handle_events_spec[OF a(2), of req p] Cons.prems(3) pq a(1) by simp
  ultimately show ?case using m(2) cl by blast
qed simp

text \<open>A round in which a request does not return ends with the first such.\<close>

lemma handle_all_stays:
  assumes "distinct (map snd ps)" and "\<forall>q \<in> set (map snd ps). \<exists>a. q = Some a \<and> a \<in> dom (ctxs mem)"
    and "find (stays req) ps = Some (p, q)"
  shows "handle_all req ps mem = (case req q of Request_crashes e \<Rightarrow> crashed e | _ \<Rightarrow> None)"
proof -
  obtain us vs where us: "ps = us @ (p, q) # vs" "\<forall>s \<in> set us. \<not> stays req s" "stays req (p, q)"
  proof -
    from assms(3) obtain i where i: "i < length ps" "stays req (p, q)" "(p, q) = ps ! i" "\<forall>j < i. \<not> stays req (ps ! j)"
      unfolding find_Some_iff by auto
    have "ps = take i ps @ (p, q) # drop (Suc i) ps" using i(1,3) by (simp add: id_take_nth_drop)
    moreover have "\<forall>s \<in> set (take i ps). \<not> stays req s" unfolding all_set_conv_all_nth using i(1,4) by simp
    ultimately show thesis using that i(2) by blast
  qed
  have app: "handle_all req (us @ ws) = (\<lambda>m. bindR (handle_all req us m) (handle_all req ws))" for ws
  proof (induction us)
    case (Cons x us)
    then show ?case by (cases x) (simp add: bindR_assoc)
  qed (simp add: fun_eq_iff)
  have "\<exists>mem'. handle_all req us mem = ret mem'"
    using handle_all_spec[of us mem req] assms(1,2) us(1,2) by auto
  moreover have "handle_events req p q m = (case req q of Request_crashes e \<Rightarrow> crashed e | _ \<Rightarrow> None)" for m
    using us(3) by (auto simp: handle_events_def call_process_request_def stays_def split: request_result.split)
  ultimately show ?thesis unfolding us(1) app by (auto split: request_result.split)
qed

lemma handle_all_returns:
  assumes "distinct (map snd ps)" and "\<forall>q \<in> set (map snd ps). \<exists>a. q = Some a \<and> a \<in> dom (ctxs mem)"
    and "handle_all req ps mem = ret mem'"
  shows "\<forall>s \<in> set ps. \<not> stays req s"
proof (cases "find (stays req) ps")
  case (Some x)
  obtain p q where x: "x = (p, q)" by (cases x)
  show ?thesis using handle_all_stays[OF assms(1,2)] Some x assms(3) by (auto split: request_result.splits)
qed (auto simp: find_None_iff)

subsection \<open>Conservation of descriptors\<close>

abbreviation conns :: "worker_data \<Rightarrow> ptr list" where
  "conns w \<equiv> map snd (slots w)"

definition socks :: "pool_mem \<Rightarrow> ptr list \<Rightarrow> int list" where
  "socks mem qs = filter (\<lambda>f. 0 \<le> f) (map (sock_of mem) qs)"

lemma conns_take: "worker_ok w mem \<Longrightarrow> conns w = take (nfds w) (connections w)"
  by (simp add: slots_def worker_ok_def take_map[symmetric] map_snd_zip)

lemma length_slots: "worker_ok w mem \<Longrightarrow> length (slots w) = nfds w"
  by (simp add: slots_def worker_ok_def)

definition all_open :: "wstate \<Rightarrow> bool" where
  "all_open s \<longleftrightarrow> (\<forall>q \<in> set (conns (the_worker s)). 0 \<le> sock_of (the_mem s) q)"

text \<open>The poll entry of a slot watches the descriptor of its connection, while that is open.\<close>

definition watched :: "wstate \<Rightarrow> bool" where
  "watched s \<longleftrightarrow> (\<forall>(p, q) \<in> set (slots (the_worker s)). sock_of (the_mem s) q \<in> {-1, pfd_fd p})"

definition local_copy :: "pollfd list \<Rightarrow> ptr list \<Rightarrow> worker_data \<Rightarrow> bool" where
  "local_copy fl cl w \<longleftrightarrow> length fl \<le> nfds w \<and> cl = take (length fl) (connections w) \<and>
     map pfd_fd fl = take (length fl) (map pfd_fd (fds w))"

definition conserved :: "wstate \<Rightarrow> bool" where
  "conserved s \<longleftrightarrow> mset (accepted s) =
     mset (closed_fds (the_mem s)) + mset (socks (the_mem s) (conns (the_worker s)))"

definition worker_inv :: "wstate \<Rightarrow> bool" where
  "worker_inv s \<longleftrightarrow> worker_ok (the_worker s) (the_mem s) \<and>
     dom (ctxs (the_mem s)) = {a. Some a \<in> set (conns (the_worker s))} \<and> conserved s \<and> watched s \<and>
     (case the_phase s of
        Polled fl cl \<Rightarrow> local_copy fl cl (the_worker s) \<and> all_open s
      | Processed fl cl \<Rightarrow> local_copy fl cl (the_worker s)
      | Waiting \<Rightarrow> all_open s
      | Ended \<Rightarrow> nfds (the_worker s) = 0 \<and> is_shutdown (the_worker s))"

lemma start_inv: "worker_inv start_state"
  by (simp add: worker_inv_def start_state_def worker_ok_def slots_def conserved_def socks_def watched_def
      all_open_def)

text \<open>Adding a client.\<close>

lemma add_client_cases:
  assumes "worker_ok w mem" and "\<forall>a. mc = Some a \<longrightarrow> a \<notin> dom (ctxs mem)"
    and "add_client_to_worker mc fd w mem = (r, w', mem')"
  shows "(r = -1 \<and> mem' = mem \<and> slots w' = slots w \<and> nfds w' = nfds w \<and> connections w' = connections w \<and>
      length (fds w') = length (fds w) \<and> take (nfds w) (fds w') = take (nfds w) (fds w) \<and>
      is_shutdown w' = is_shutdown w) \<or>
    (\<exists>a p. r = 0 \<and> mc = Some a \<and> mem' = mem\<lparr>ctxs := (ctxs mem)(a \<mapsto> \<lparr>cx_sock_fd = fd\<rparr>)\<rparr> \<and>
      slots w' = slots w @ [(p, Some a)] \<and> pfd_fd p = fd \<and> nfds w < MAX_CLIENTS_PER_THREAD \<and>
      nfds w' = nfds w + 1 \<and> fds w' = (fds w)[nfds w := p] \<and>
      connections w' = (connections w)[nfds w := Some a] \<and> is_shutdown w' = is_shutdown w)"
proof (cases "MAX_CLIENTS_PER_THREAD \<le> nfds w")
  case True
  then show ?thesis using assms(3) by (simp add: add_client_to_worker_def)
next
  case False
  have len: "nfds w < length (fds w)" "nfds w < length (connections w)"
    using False assms(1) by (simp_all add: worker_ok_def)
  show ?thesis
  proof (cases mc)
    case None
    then show ?thesis using assms(3) False len
      by (auto simp: add_client_to_worker_def Let_def slots_def take_zip)
  next
    case (Some a)
    then show ?thesis using assms(3) False len
      by (auto simp: add_client_to_worker_def Let_def slots_def take_zip take_Suc_conv_app_nth)
  qed
qed

lemma sock_of_add:
  "sock_of (mem\<lparr>ctxs := (ctxs mem)(a \<mapsto> \<lparr>cx_sock_fd = fd\<rparr>)\<rparr>) q = (if q = Some a then fd else sock_of mem q)"
  by (auto simp: sock_of_def split: option.split)

lemma add_inv:
  assumes "worker_inv s" and "0 \<le> fd" and "\<forall>a. mc = Some a \<longrightarrow> a \<notin> dom (ctxs (the_mem s))"
    and "\<not> is_shutdown (the_worker s)"
    and "add_client_to_worker mc fd (the_worker s) (the_mem s) = (r, w, mem)"
  shows "worker_inv (s\<lparr>the_worker := w, the_mem := mem, accepted := accepted s @ (if r = 0 then [fd] else [])\<rparr>)"
    (is "worker_inv ?t")
proof -
  let ?w = "the_worker s" and ?m = "the_mem s"
  have ok: "worker_ok ?w ?m" using assms(1) by (simp add: worker_inv_def)
  have lc: "local_copy fl cl w" if "local_copy fl cl ?w" "nfds ?w \<le> nfds w"
    "take (nfds ?w) (connections w) = take (nfds ?w) (connections ?w)"
    "take (nfds ?w) (fds w) = take (nfds ?w) (fds ?w)" for fl cl
  proof -
    have "take (length fl) (connections w) = take (length fl) (connections ?w)"
      "take (length fl) (fds w) = take (length fl) (fds ?w)"
      using that by (metis local_copy_def min.absorb1 take_take)+
    then show ?thesis using that(1,2) by (simp add: local_copy_def take_map)
  qed
  from add_client_cases[OF ok assms(3,5)] show ?thesis
  proof (elim disjE exE conjE)
    assume r: "r = -1" "mem = ?m" "slots w = slots ?w" "nfds w = nfds ?w" "connections w = connections ?w"
      "length (fds w) = length (fds ?w)" "take (nfds ?w) (fds w) = take (nfds ?w) (fds ?w)"
      "is_shutdown w = is_shutdown ?w"
    have "worker_ok w mem" using ok r by (simp add: worker_ok_def)
    then show ?thesis using assms(1,4) r lc
      by (auto simp: worker_inv_def conserved_def watched_def all_open_def split: phase.splits)
  next
    fix a p
    assume r: "r = 0" "mc = Some a" "mem = ?m\<lparr>ctxs := (ctxs ?m)(a \<mapsto> \<lparr>cx_sock_fd = fd\<rparr>)\<rparr>"
      "slots w = slots ?w @ [(p, Some a)]" "pfd_fd p = fd" "nfds ?w < MAX_CLIENTS_PER_THREAD"
      "nfds w = nfds ?w + 1" "fds w = (fds ?w)[nfds ?w := p]"
      "connections w = (connections ?w)[nfds ?w := Some a]" "is_shutdown w = is_shutdown ?w"
    have fresh: "a \<notin> dom (ctxs ?m)" using assms(3) r(2) by simp
    have na: "Some a \<notin> set (conns ?w)" using fresh assms(1) by (auto simp: worker_inv_def)
    then have na': "(p', Some a) \<notin> set (slots ?w)" for p' by force
    have so: "sock_of mem q = (if q = Some a then fd else sock_of ?m q)" for q
      unfolding r(3) by (rule sock_of_add)
    have same: "map (sock_of mem) (conns ?w) = map (sock_of ?m) (conns ?w)"
      using na' by (intro map_cong) (auto simp: so)
    have okw: "worker_ok w mem"
      unfolding worker_ok_def
    proof (intro conjI ballI)
      fix q assume "q \<in> set (conns w)"
      then consider "q = Some a" | "q \<in> set (conns ?w)" using r(4) by auto
      then show "\<exists>b x. q = Some b \<and> ctxs mem b = Some x"
      proof cases
        case 2
        then obtain b x where "q = Some b" "ctxs ?m b = Some x" using ok unfolding worker_ok_def by blast
        then show ?thesis using r(3) by auto
      qed (use r(3) in simp)
    qed (use ok r na in \<open>auto simp: worker_ok_def\<close>)
    have dom: "dom (ctxs mem) = {b. Some b \<in> set (conns w)}"
      using assms(1) r(3,4) by (auto simp: worker_inv_def)
    have sc: "socks mem (conns w) = socks ?m (conns ?w) @ [fd]"
      unfolding socks_def r(4) map_append same using assms(2) so by simp
    have cons: "conserved ?t"
      using assms(1) r(1,3) sc by (simp add: worker_inv_def conserved_def)
    have wat: "watched ?t"
      using assms(1) r(4,5) na' by (auto simp: worker_inv_def watched_def so)
    have op: "all_open s \<Longrightarrow> all_open ?t"
      using assms(2) r(4) na' by (auto simp: all_open_def so)
    have lc': "local_copy fl cl ?w \<Longrightarrow> local_copy fl cl w" for fl cl
      using lc r(7,8,9) by simp
    show ?thesis using okw dom cons wat op lc' assms(1,4)
      by (auto simp: worker_inv_def split: phase.splits)
  qed
qed

text \<open>Handling the events of a round.\<close>

lemma snd_key_unique:
  assumes "distinct (map snd xs)" and "(p, q) \<in> set xs" "(p', q) \<in> set xs"
  shows "p = p'"
  using assms inj_onD[of snd "set xs" "(p, q)" "(p', q)"] by (simp add: distinct_map)

text \<open>No descriptor is invalid, so those that are closed are those with an event.\<close>

lemma closes_iff_event:
  assumes "distinct (map snd ps)" and "\<forall>x \<in> set ps. \<not> pollnval (fst x)" and "x \<in> set ps"
  shows "closes (fst x) = (\<exists>p. (p, snd x) \<in> set ps \<and> has_event p)"
proof -
  obtain p q where x: "x = (p, q)" by (cases x)
  have "p' = p" if "(p', q) \<in> set ps" for p' using snd_key_unique[OF assms(1) that] assms(3) x by simp
  then have "(\<exists>p'. (p', q) \<in> set ps \<and> has_event p') = has_event p" using assms(3) x by blast
  then show ?thesis using assms(2,3) x by (auto simp: closes_def has_event_def)
qed

lemma filter_prefix_keys:
  assumes "ks = take n cs" and "distinct cs" and "\<And>q. E q \<Longrightarrow> q \<in> set ks"
  shows "filter E ks = filter E cs"
proof -
  have "\<not> E q" if "q \<in> set (drop n cs)" for q
    using that assms set_take_disj_set_drop_if_distinct[OF assms(2), of n n] by blast
  then have "filter E (drop n cs) = []" by (simp add: filter_empty_conv)
  moreover have "filter E cs = filter E (take n cs) @ filter E (drop n cs)" by (metis append_take_drop_id filter_append)
  ultimately show ?thesis using assms(1) by simp
qed

lemma map_partition: "mset (map f xs) = mset (map f (filter P xs)) + mset (map f (filter (\<lambda>x. \<not> P x) xs))"
  by (metis image_mset_union mset_filter mset_map multiset_partition)

lemma local_keys:
  assumes "worker_inv s" and "the_phase s = Polled fl cl" and "polled fl fl'"
  shows "cl = take (length fl) (conns (the_worker s))" "map snd (zip fl' cl) = cl" "length fl' = length fl"
    "distinct (map snd (zip fl' cl))" "\<forall>q \<in> set (map snd (zip fl' cl)). \<exists>a. q = Some a \<and> a \<in> dom (ctxs (the_mem s))"
proof -
  have ok: "worker_ok (the_worker s) (the_mem s)" and lc: "local_copy fl cl (the_worker s)"
    using assms(1,2) by (simp_all add: worker_inv_def)
  show len: "length fl' = length fl" using assms(3) by (metis polled_def length_map)
  have lcl: "length cl = length fl" using lc ok by (auto simp: local_copy_def worker_ok_def)
  show cl: "cl = take (length fl) (conns (the_worker s))"
    using lc conns_take[OF ok] by (simp add: local_copy_def min_absorb1)
  show snds: "map snd (zip fl' cl) = cl" using len lcl by simp
  show "distinct (map snd (zip fl' cl))" using snds cl ok by (simp add: worker_ok_def)
  show "\<forall>q \<in> set (map snd (zip fl' cl)). \<exists>a. q = Some a \<and> a \<in> dom (ctxs (the_mem s))"
  proof
    fix q assume "q \<in> set (map snd (zip fl' cl))"
    then have "q \<in> set cl" unfolding snds .
    then have "q \<in> set (conns (the_worker s))" using cl by (metis in_set_takeD)
    then show "\<exists>a. q = Some a \<and> a \<in> dom (ctxs (the_mem s))" using ok unfolding worker_ok_def by blast
  qed
qed

lemma process_inv:
  assumes "worker_inv s" and "the_phase s = Polled fl cl" and "polled fl fl'" and "\<forall>x \<in> set (zip fl' cl). \<not> stays req x"
  shows "\<exists>mem. handle_all req (zip fl' cl) (the_mem s) = ret mem \<and>
    worker_inv (s\<lparr>the_mem := mem, the_phase := Processed fl' cl\<rparr>)"
proof -
  let ?w = "the_worker s" and ?m = "the_mem s" and ?ps = "zip fl' cl"
  have ok: "worker_ok ?w ?m" and lc: "local_copy fl cl ?w" and op: "all_open s"
    using assms(1,2) by (simp_all add: worker_inv_def)
  note keys = local_keys[OF assms(1-3)]
  note cl = keys(1) and snds = keys(2) and len = keys(3) and d = keys(4) and e = keys(5)
  have dist: "distinct (conns ?w)" using ok by (simp add: worker_ok_def)
  define E where "E q \<longleftrightarrow> (\<exists>p. (p, q) \<in> set ?ps \<and> has_event p)" for q
  obtain mem where mem: "handle_all req ?ps ?m = ret mem" "dom (ctxs mem) = dom (ctxs ?m)"
      "\<forall>q. sock_of mem q = (if E q then -1 else sock_of ?m q)"
      "closed_fds mem = closed_fds ?m @ map (\<lambda>s. sock_of ?m (snd s)) (filter (\<lambda>s. closes (fst s)) ?ps)"
    using handle_all_spec[OF d e assms(4)] unfolding E_def by blast
  have nval: "\<forall>x \<in> set ?ps. \<not> pollnval (fst x)"
    using assms(3) by (auto simp: polled_def list_all_iff dest: set_zip_leftD)
  note ev = closes_iff_event[OF d nval, folded E_def]
  have "map (\<lambda>s. sock_of ?m (snd s)) (filter (\<lambda>s. closes (fst s)) ?ps) =
      map (sock_of ?m) (filter E (map snd ?ps))"
    using ev by (simp add: filter_map comp_def cong: filter_cong)
  also have "filter E (map snd ?ps) = filter E (conns ?w)"
    unfolding snds by (rule filter_prefix_keys[OF cl dist]) (use snds in \<open>auto simp: E_def dest: set_zip_rightD\<close>)
  finally have cf: "closed_fds mem = closed_fds ?m @ map (sock_of ?m) (filter E (conns ?w))" using mem(4) by simp
  have sk: "socks mem (conns ?w) = map (sock_of ?m) (filter (\<lambda>q. \<not> E q) (conns ?w))"
    using op mem(3) unfolding socks_def all_open_def
    by (induction "conns ?w" rule: rev_induct) (auto simp: filter_map comp_def cong: filter_cong)
  have all: "socks ?m (conns ?w) = map (sock_of ?m) (conns ?w)"
    using op by (simp add: socks_def all_open_def filter_id_conv)
  have cons: "conserved (s\<lparr>the_mem := mem, the_phase := Processed fl' cl\<rparr>)"
    using assms(1) all cf sk map_partition[of "sock_of ?m" "conns ?w" E]
    by (simp add: worker_inv_def conserved_def del: mset_map)
  have "worker_ok ?w mem"
    unfolding worker_ok_def
  proof (intro conjI ballI)
    fix q assume "q \<in> set (conns ?w)"
    then obtain a where "q = Some a" "a \<in> dom (ctxs ?m)" using ok unfolding worker_ok_def by blast
    then show "\<exists>a x. q = Some a \<and> ctxs mem a = Some x" using mem(2) by auto
  qed (use ok in \<open>auto simp: worker_ok_def\<close>)
  moreover have "watched (s\<lparr>the_mem := mem, the_phase := Processed fl' cl\<rparr>)"
    using assms(1) mem(3) by (auto simp: worker_inv_def watched_def)
  moreover have "local_copy fl' cl ?w"
    using lc assms(3) len by (simp add: local_copy_def polled_def)
  ultimately show ?thesis using mem(1,2) assms(1) cons by (simp add: worker_inv_def)
qed

text \<open>Copying back and dropping the closed connections.\<close>

lemma copy_back_ok:
  assumes "worker_ok w mem" and "local_copy fl cl w"
  shows "length (fds (copy_back fl cl w)) = length (fds w)" "connections (copy_back fl cl w) = connections w"
    "conns (copy_back fl cl w) = conns w" "map (pfd_fd \<circ> fst) (slots (copy_back fl cl w)) = map (pfd_fd \<circ> fst) (slots w)"
proof -
  have l: "length fl \<le> length (fds w)" "length fl \<le> length (connections w)"
    using assms by (auto simp: worker_ok_def local_copy_def)
  show len: "length (fds (copy_back fl cl w)) = length (fds w)" using l by (simp add: copy_back_def)
  have lcl: "length cl = length fl" using assms(2) l by (simp add: local_copy_def)
  show con: "connections (copy_back fl cl w) = connections w"
    using assms(2) lcl by (simp add: copy_back_def local_copy_def)
  have nf: "nfds (copy_back fl cl w) = nfds w" by (simp add: copy_back_def)
  show "conns (copy_back fl cl w) = conns w"
    using assms(1) len con nf by (simp add: slots_def worker_ok_def take_map[symmetric] map_snd_zip)
  have "map pfd_fd (fds (copy_back fl cl w)) = map pfd_fd (fds w)"
    using assms(2) by (simp add: copy_back_def local_copy_def drop_map[symmetric])
  moreover have "map (pfd_fd \<circ> fst) (slots v) = take (nfds v) (map pfd_fd (fds v))"
    if "length (fds v) = length (connections v)" for v
    using that by (simp add: slots_def take_map[symmetric] map_map[symmetric] map_fst_zip del: map_map)
  ultimately show "map (pfd_fd \<circ> fst) (slots (copy_back fl cl w)) = map (pfd_fd \<circ> fst) (slots w)"
    using assms(1) len con nf by (simp add: worker_ok_def)
qed

lemma ctxs_free_slots: "ctxs (free_slots ks mem) a = (if Some a \<in> snd ` set ks then None else ctxs mem a)"
  by (auto simp: free_slots_def restrict_map_def)

lemma sock_of_free_slots: "q \<notin> snd ` set ks \<Longrightarrow> sock_of (free_slots ks mem) q = sock_of mem q"
  by (auto simp: sock_of_def ctxs_free_slots split: option.split)

lemma closed_fds_free_slots [simp]: "closed_fds (free_slots ks mem) = closed_fds mem"
  by (simp add: free_slots_def)

text \<open>What the compaction, with the closed slots of \<open>v\<close> freed, keeps.\<close>

abbreviation closed_slots :: "pool_mem \<Rightarrow> worker_data \<Rightarrow> (pollfd \<times> ptr) list" where
  "closed_slots m v \<equiv> filter (\<lambda>s. \<not> open_slot m s) (slots v)"

lemma kept_slot:
  assumes "worker_ok v m" and "slots w = filter (open_slot m) (slots v)" and "x \<in> set (slots w)"
  shows "snd x \<notin> snd ` set (closed_slots m v)"
    and "sock_of (free_slots (closed_slots m v) m) (snd x) = sock_of m (snd x)"
proof -
  have dist: "distinct (map snd (slots v))" using assms(1) by (simp add: worker_ok_def)
  show no: "snd x \<notin> snd ` set (closed_slots m v)"
  proof
    assume "snd x \<in> snd ` set (closed_slots m v)"
    then obtain y where y: "y \<in> set (slots v)" "\<not> open_slot m y" "snd x = snd y" by auto
    moreover have "x \<in> set (slots v)" "open_slot m x" using assms(2,3) by simp_all
    ultimately have "x = y" using dist by (metis distinct_map inj_onD)
    then show False using y(2) \<open>open_slot m x\<close> by simp
  qed
  then show "sock_of (free_slots (closed_slots m v) m) (snd x) = sock_of m (snd x)" by (rule sock_of_free_slots)
qed

lemma compacted_ok:
  assumes "worker_ok v m" and "slots w = filter (open_slot m) (slots v)"
    and "length (fds w) = length (fds v)" "length (connections w) = length (connections v)" "nfds w \<le> nfds v"
  shows "worker_ok w (free_slots (closed_slots m v) m)"
  unfolding worker_ok_def
proof (intro conjI ballI)
  show "distinct (conns w)" using assms(1) unfolding assms(2) by (simp add: distinct_map_filter worker_ok_def)
  fix q assume "q \<in> set (conns w)"
  then obtain x where x: "x \<in> set (slots w)" "q = snd x" by auto
  then have "q \<in> set (conns v)" using assms(2) by auto
  then obtain a c where a: "q = Some a" "ctxs m a = Some c" using assms(1) unfolding worker_ok_def by blast
  then show "\<exists>a c. q = Some a \<and> ctxs (free_slots (closed_slots m v) m) a = Some c"
    using kept_slot(1)[OF assms(1,2) x(1)] x(2) by (simp add: ctxs_free_slots)
qed (use assms in \<open>auto simp: worker_ok_def\<close>)

lemma compacted_dom:
  assumes "worker_ok v m" and "slots w = filter (open_slot m) (slots v)" and "dom (ctxs m) = {a. Some a \<in> set (conns v)}"
  shows "dom (ctxs (free_slots (closed_slots m v) m)) = {a. Some a \<in> set (conns w)}"
proof -
  have "Some a \<in> set (conns w) \<longleftrightarrow> Some a \<in> set (conns v) \<and> Some a \<notin> snd ` set (closed_slots m v)" for a
  proof
    assume l: "Some a \<in> set (conns w)"
    then obtain x where x: "x \<in> set (slots w)" "Some a = snd x" by auto
    then show "Some a \<in> set (conns v) \<and> Some a \<notin> snd ` set (closed_slots m v)"
      using kept_slot(1)[OF assms(1,2) x(1)] assms(2) by auto
  qed (use assms(2) in force)
  with assms(3) show ?thesis by (auto simp: dom_def ctxs_free_slots)
qed

text \<open>Every slot still polls the descriptor of its context, or its context is closed.\<close>

lemma copied_back_watched:
  assumes "conns v = conns w" and "map (pfd_fd \<circ> fst) (slots v) = map (pfd_fd \<circ> fst) (slots w)"
    and "list_all (\<lambda>(p, q). sock_of m q \<in> {-1, pfd_fd p}) (slots w)"
  shows "list_all (\<lambda>x. sock_of m (snd x) \<in> {-1, pfd_fd (fst x)}) (slots v)"
  unfolding list_all_length
proof (intro allI impI)
  fix n assume n: "n < length (slots v)"
  have l: "length (slots v) = length (slots w)" using assms(1) by (metis length_map)
  then have "slots w ! n \<in> set (slots w)" using n by simp
  then have "sock_of m (snd (slots w ! n)) \<in> {-1, pfd_fd (fst (slots w ! n))}"
    using assms(3) by (simp add: list_all_iff case_prod_unfold)
  moreover have "snd (slots v ! n) = snd (slots w ! n)" using assms(1) n l by (metis nth_map)
  moreover have "pfd_fd (fst (slots v ! n)) = pfd_fd (fst (slots w ! n))"
    using assms(2) n l by (metis (no_types) comp_apply nth_map)
  ultimately show "sock_of m (snd (slots v ! n)) \<in> {-1, pfd_fd (fst (slots v ! n))}" by simp
qed

lemma compact_inv:
  assumes "worker_inv s" and "the_phase s = Processed fl cl"
  shows "\<exists>w mem. compact_loop 0 (copy_back fl cl (the_worker s)) (the_mem s) = ret (w, mem) \<and>
    slots w = filter (open_slot (the_mem s)) (slots (copy_back fl cl (the_worker s))) \<and>
    worker_inv (s\<lparr>the_worker := w, the_mem := mem, the_phase := Waiting\<rparr>)"
proof -
  let ?m = "the_mem s"
  define w1 where "w1 = copy_back fl cl (the_worker s)"
  have ok0: "worker_ok (the_worker s) ?m" and lc: "local_copy fl cl (the_worker s)"
    using assms by (simp_all add: worker_inv_def)
  note cb = copy_back_ok[OF ok0 lc, folded w1_def]
  have nf: "nfds w1 = nfds (the_worker s)" "is_shutdown w1 = is_shutdown (the_worker s)"
    by (simp_all add: w1_def copy_back_def)
  have ok: "worker_ok w1 ?m" using ok0 cb(1,2,3) nf unfolding worker_ok_def by metis
  let ?m' = "free_slots (closed_slots ?m w1) ?m"
  obtain w where w: "compact_loop 0 w1 ?m = ret (w, ?m')" "slots w = filter (open_slot ?m) (slots w1)"
      "length (fds w) = length (fds w1)" "length (connections w) = length (connections w1)"
      "nfds w \<le> nfds w1" "is_shutdown w = is_shutdown w1"
    using compact_loop_spec[OF ok, of 0] by (simp only: drop_0 take_0 append_Nil) blast
  let ?t = "s\<lparr>the_worker := w, the_mem := ?m', the_phase := Waiting\<rparr>"
  note so = kept_slot(2)[OF ok w(2)]
  have "conserved ?t"
  proof -
    have eq: "map (sock_of ?m') (conns w) = map (sock_of ?m) (conns w)" using so by simp
    have "socks ?m' (conns w) = filter (\<lambda>f. 0 \<le> f) (map (sock_of ?m) (conns w))"
      by (simp only: socks_def eq)
    also have "\<dots> = socks ?m (conns w1)"
      unfolding socks_def w(2) by (simp add: filter_map comp_def open_slot_def)
    finally show ?thesis using assms(1) cb(3) by (simp add: worker_inv_def conserved_def)
  qed
  moreover have "list_all (\<lambda>x. sock_of ?m (snd x) \<in> {-1, pfd_fd (fst x)}) (slots w1)"
    by (rule copied_back_watched[OF cb(3,4)]) (use assms(1) in \<open>simp add: worker_inv_def watched_def list_all_iff\<close>)
  then have "watched ?t" using so unfolding watched_def w(2) by (force simp: list_all_iff w(2))
  moreover have "all_open ?t"
    using so w(2) by (force simp: all_open_def open_slot_def)
  moreover have "dom (ctxs ?m) = {a. Some a \<in> set (conns w1)}" using assms(1) cb(3) by (simp add: worker_inv_def)
  ultimately show ?thesis
    using w(1,2) compacted_ok[OF ok w(2-5)] compacted_dom[OF ok w(2)] unfolding w1_def[symmetric] by (auto simp: worker_inv_def)
qed

text \<open>Leaving the loop closes and frees every connection.\<close>

lemma free_loop_spec:
  assumes "distinct (map (\<lambda>i. connections w ! i) is)" and "list_all (\<lambda>i. i < length (connections w)) is"
    and "\<forall>i \<in> set is. \<exists>a x. connections w ! i = Some a \<and> ctxs mem a = Some x"
  shows "\<exists>w' mem'. free_loop is w mem = ret (w', mem') \<and> nfds w' = 0 \<and> is_shutdown w' = is_shutdown w \<and>
    length (fds w') = length (fds w) \<and> length (connections w') = length (connections w) \<and>
    closed_fds mem' = closed_fds mem @ socks mem (map (\<lambda>i. connections w ! i) is) \<and>
    ctxs mem' = ctxs mem |` (- {a. \<exists>i \<in> set is. connections w ! i = Some a})"
  using assms
proof (induction "is" arbitrary: w mem)
  case (Cons i js)
  from Cons.prems(3) obtain a x where a: "connections w ! i = Some a" "ctxs mem a = Some x" by auto
  let ?w = "w\<lparr>connections := (connections w)[i := None]\<rparr>"
  let ?m = "mem\<lparr>closed_fds := closed_fds mem @ (if 0 \<le> cx_sock_fd x then [cx_sock_fd x] else []),
     ctxs := (ctxs mem)(a := None)\<rparr>"
  have ni: "i \<notin> set js" and na: "\<And>j. j \<in> set js \<Longrightarrow> connections w ! j \<noteq> Some a"
    using Cons.prems(1) a(1) by (auto simp: image_iff)
  have same: "connections ?w ! j = connections w ! j" if "j \<in> set js" for j
    using ni that by (cases "j = i") simp_all
  have m: "map (\<lambda>i. connections ?w ! i) js = map (\<lambda>i. connections w ! i) js" using same by (intro map_cong) auto
  have so: "sock_of ?m (connections w ! j) = sock_of mem (connections w ! j)" if "j \<in> set js" for j
    using na[OF that] by (auto simp: sock_of_def split: option.split)
  have sk: "socks ?m (map (\<lambda>i. connections w ! i) js) = socks mem (map (\<lambda>i. connections w ! i) js)"
  proof -
    have "map (sock_of ?m) (map (\<lambda>i. connections w ! i) js) = map (sock_of mem) (map (\<lambda>i. connections w ! i) js)"
      using so by simp
    then show ?thesis by (simp only: socks_def)
  qed
  have "\<exists>w' mem'. free_loop js ?w ?m = ret (w', mem') \<and> nfds w' = 0 \<and> is_shutdown w' = is_shutdown ?w \<and>
    length (fds w') = length (fds ?w) \<and> length (connections w') = length (connections ?w) \<and>
    closed_fds mem' = closed_fds ?m @ socks ?m (map (\<lambda>i. connections ?w ! i) js) \<and>
    ctxs mem' = ctxs ?m |` (- {a. \<exists>i \<in> set js. connections ?w ! i = Some a})"
  proof (rule Cons.IH)
    show "distinct (map (\<lambda>i. connections ?w ! i) js)" unfolding m using Cons.prems(1) by simp
    show "list_all (\<lambda>i. i < length (connections ?w)) js" using Cons.prems(2) by simp
    show "\<forall>j \<in> set js. \<exists>b y. connections ?w ! j = Some b \<and> ctxs ?m b = Some y"
    proof
      fix j assume j: "j \<in> set js"
      with Cons.prems(3) obtain b y where "connections w ! j = Some b" "ctxs mem b = Some y" by auto
      then show "\<exists>b y. connections ?w ! j = Some b \<and> ctxs ?m b = Some y"
        using na[OF j] same[OF j] by auto
    qed
  qed
  then obtain w' mem' where r: "free_loop js ?w ?m = ret (w', mem')" "nfds w' = 0" "is_shutdown w' = is_shutdown w"
      "length (fds w') = length (fds w)" "length (connections w') = length (connections w)"
      "closed_fds mem' = closed_fds ?m @ socks mem (map (\<lambda>i. connections w ! i) js)"
      "ctxs mem' = ctxs ?m |` (- {a. \<exists>i \<in> set js. connections ?w ! i = Some a})"
    unfolding m sk by auto
  have "ctxs mem' = ctxs mem |` (- {a. \<exists>i \<in> set (i # js). connections w ! i = Some a})"
    unfolding r(7) using same a(1) by (auto simp: restrict_map_def fun_eq_iff)
  moreover have "closed_fds mem' = closed_fds mem @ socks mem (map (\<lambda>i. connections w ! i) (i # js))"
    using r(6) a by (simp add: socks_def sock_of_def)
  ultimately show ?case using r(1-5) a by (intro exI[of _ w'] exI[of _ mem']) simp
qed (auto simp: socks_def restrict_map_def)

lemma leave_inv:
  assumes "worker_inv s" and "the_phase s = Waiting" and "is_shutdown (the_worker s)"
  shows "\<exists>w mem. free_connections (the_worker s) (the_mem s) = ret (w, mem) \<and> ctxs mem = Map.empty \<and>
    closed_fds mem = closed_fds (the_mem s) @ socks (the_mem s) (conns (the_worker s)) \<and>
    worker_inv (s\<lparr>the_worker := w, the_mem := mem, the_phase := Ended\<rparr>)"
proof -
  let ?w = "the_worker s" and ?m = "the_mem s"
  have ok: "worker_ok ?w ?m" using assms(1) by (simp add: worker_inv_def)
  have n: "nfds ?w \<le> length (connections ?w)" using ok by (simp add: worker_ok_def)
  then have c: "map (\<lambda>i. connections ?w ! i) [0..<nfds ?w] = conns ?w"
    unfolding conns_take[OF ok] by (intro nth_equalityI) simp_all
  have "\<exists>w' mem'. free_loop [0..<nfds ?w] ?w ?m = ret (w', mem') \<and> nfds w' = 0 \<and> is_shutdown w' = is_shutdown ?w \<and>
    length (fds w') = length (fds ?w) \<and> length (connections w') = length (connections ?w) \<and>
    closed_fds mem' = closed_fds ?m @ socks ?m (map (\<lambda>i. connections ?w ! i) [0..<nfds ?w]) \<and>
    ctxs mem' = ctxs ?m |` (- {a. \<exists>i \<in> set [0..<nfds ?w]. connections ?w ! i = Some a})"
  proof (rule free_loop_spec)
    show "distinct (map (\<lambda>i. connections ?w ! i) [0..<nfds ?w])"
      using ok unfolding c by (simp add: worker_ok_def)
    show "list_all (\<lambda>i. i < length (connections ?w)) [0..<nfds ?w]" using n by (simp add: list_all_iff)
    show "\<forall>i \<in> set [0..<nfds ?w]. \<exists>a x. connections ?w ! i = Some a \<and> ctxs ?m a = Some x"
    proof
      fix i assume "i \<in> set [0..<nfds ?w]"
      then have "connections ?w ! i \<in> set (conns ?w)" unfolding c[symmetric] by (simp only: set_map) blast
      then show "\<exists>a x. connections ?w ! i = Some a \<and> ctxs ?m a = Some x" using ok unfolding worker_ok_def by blast
    qed
  qed
  then obtain w mem where r: "free_connections ?w ?m = ret (w, mem)" "nfds w = 0" "is_shutdown w"
      "length (fds w) = length (fds ?w)" "length (connections w) = length (connections ?w)"
      "closed_fds mem = closed_fds ?m @ socks ?m (conns ?w)"
      "ctxs mem = ctxs ?m |` (- {a. \<exists>i \<in> set [0..<nfds ?w]. connections ?w ! i = Some a})"
    using assms(3) unfolding c free_connections_def by blast
  have "{a. \<exists>i \<in> set [0..<nfds ?w]. connections ?w ! i = Some a} = {a. Some a \<in> set (conns ?w)}"
    unfolding c[symmetric] set_map by (auto simp: image_iff intro: bexI[rotated] dest: sym)
  also have "\<dots> = dom (ctxs ?m)" using assms(1) by (simp add: worker_inv_def)
  finally have e: "ctxs mem = Map.empty" unfolding r(7) by (auto simp: restrict_map_def fun_eq_iff)
  have sl: "slots w = []" using r(2) by (simp add: slots_def)
  have "worker_inv (s\<lparr>the_worker := w, the_mem := mem, the_phase := Ended\<rparr>)"
    using assms(1) r(2-6) e sl
    by (simp add: worker_inv_def worker_ok_def conserved_def watched_def socks_def[of _ "[]"])
  then show ?thesis using r(1,6) e by blast
qed

lemma worker_step_inv:
  assumes "worker_step s t" and "worker_inv s"
  shows "worker_inv t"
  using assms
proof (cases rule: worker_step.cases)
  case (Add fd mc r w mem)
  then show ?thesis using add_inv[OF assms(2)] by simp
next
  case Snapshot
  let ?n = "nfds (the_worker s)"
  have "local_copy (take ?n (fds (the_worker s))) (take ?n (connections (the_worker s))) (the_worker s)"
    using assms(2) by (simp add: worker_inv_def worker_ok_def local_copy_def take_map min_def)
  then show ?thesis using assms(2) Snapshot
    by (auto simp: worker_inv_def conserved_def watched_def all_open_def)
next
  case (Timeout fl cl)
  then show ?thesis using assms(2) by (auto simp: worker_inv_def conserved_def watched_def all_open_def)
next
  case (Process fl cl fl' req mem)
  note keys = local_keys[OF assms(2) Process(2,3)]
  from handle_all_returns[OF keys(4,5) Process(4)] process_inv[OF assms(2) Process(2,3)] Process show ?thesis by fastforce
next
  case (Compact fl cl w mem)
  then show ?thesis using compact_inv[OF assms(2) Compact(2)] by auto
next
  case Shutdown
  have "slots ((the_worker s)\<lparr>is_shutdown := True\<rparr>) = slots (the_worker s)" by (simp add: slots_def)
  then show ?thesis using assms(2) Shutdown
    by (auto simp: worker_inv_def worker_ok_def conserved_def watched_def all_open_def local_copy_def
        split: phase.splits)
next
  case (Leave w mem)
  then show ?thesis using leave_inv[OF assms(2)] by auto
qed

lemma worker_reachable_inv: "worker_reachable s \<Longrightarrow> worker_inv s"
  by (induction rule: worker_reachable.induct) (auto intro: start_inv worker_step_inv)

lemma socks_open: "all_open s \<Longrightarrow> socks (the_mem s) (conns (the_worker s)) = map (sock_of (the_mem s)) (conns (the_worker s))"
  by (simp add: socks_def all_open_def filter_id_conv)

subsection \<open>The properties\<close>

text \<open>C10:
  Whatever the interleaving of a worker with the acceptor that gives it clients, and whatever
  \<open>poll\<close> reports, the worker holds at most 64 clients, each has its own context and no other
  context is allocated, each poll entry watches the descriptor of its connection, and the
  descriptors accepted are, with their multiplicities, those closed and those still open: none is
  lost or closed twice. When the worker has left its loop all are closed and no context is left.
\<close>

theorem worker_conserves_clients:
  assumes "worker_reachable s"
  shows "nfds (the_worker s) \<le> MAX_CLIENTS_PER_THREAD \<and> distinct (conns (the_worker s)) \<and>
    dom (ctxs (the_mem s)) = {a. Some a \<in> set (conns (the_worker s))} \<and>
    (\<forall>x \<in> set (slots (the_worker s)). sock_of (the_mem s) (snd x) \<in> {-1, pfd_fd (fst x)}) \<and>
    mset (accepted s) = mset (closed_fds (the_mem s)) + mset (socks (the_mem s) (conns (the_worker s))) \<and>
    (the_phase s = Ended \<longrightarrow> mset (accepted s) = mset (closed_fds (the_mem s)) \<and> ctxs (the_mem s) = Map.empty)"
proof -
  have i: "worker_inv s" using assms by (rule worker_reachable_inv)
  moreover have "slots (the_worker s) = []" if "the_phase s = Ended"
    using i that by (simp add: worker_inv_def slots_def)
  ultimately show ?thesis
    by (auto simp: worker_inv_def worker_ok_def watched_def conserved_def case_prod_unfold socks_def)
qed

text \<open>A run with one client that is added, hangs up and is dropped.\<close>

abbreviation hup :: "int \<Rightarrow> pollfd" where
  "hup f \<equiv> \<lparr>pfd_fd = f, pollin = False, pollerr = False, pollnval = False, pollhup = True\<rparr>"

definition one_client :: wstate where
  "one_client = start_state\<lparr>the_worker := (the_worker start_state)\<lparr>nfds := 1,
      fds := (fds (the_worker start_state))[0 := (hup 5)\<lparr>pollhup := False\<rparr>],
      connections := (connections (the_worker start_state))[0 := Some 7]\<rparr>,
    the_mem := \<lparr>ctxs = [7 \<mapsto> \<lparr>cx_sock_fd = 5\<rparr>], closed_fds = []\<rparr>, accepted := [5]\<rparr>"

lemma one_client_step: "worker_step start_state one_client"
proof -
  let ?w = "the_worker one_client" and ?m = "the_mem one_client"
  have a: "add_client_to_worker (Some 7) 5 (the_worker start_state) (the_mem start_state) = (0, ?w, ?m)"
    by (simp add: one_client_def start_state_def add_client_to_worker_def Let_def MAX_CLIENTS_PER_THREAD_def)
  have "worker_step start_state (start_state\<lparr>the_worker := ?w, the_mem := ?m,
      accepted := accepted start_state @ (if (0::int) = 0 then [5] else [])\<rparr>)"
    by (rule worker_step.Add[OF _ _ _ a]) (simp_all add: start_state_def)
  also have "start_state\<lparr>the_worker := ?w, the_mem := ?m,
      accepted := accepted start_state @ (if (0::int) = 0 then [5] else [])\<rparr> = one_client"
    by (simp add: one_client_def start_state_def)
  finally show ?thesis .
qed

lemma one_client_reachable: "worker_reachable one_client"
  by (rule worker_reachable.Step[OF worker_reachable.Start one_client_step])

lemma take_first_upd [simp]: "xs \<noteq> [] \<Longrightarrow> take (Suc 0) (xs[0 := x]) = [x]"
  by (cases xs) simp_all

lemma slots_one_client: "slots (the_worker one_client) = [((hup 5)\<lparr>pollhup := False\<rparr>, Some 7)]"
  by (simp add: slots_def one_client_def start_state_def MAX_CLIENTS_PER_THREAD_def take_zip)

theorem worker_conserves_clients_witness:
  "mset [5] = mset (closed_fds (the_mem one_client)) + mset (socks (the_mem one_client) (conns (the_worker one_client))) \<and>
    accepted one_client = [5] \<and> socks (the_mem one_client) (conns (the_worker one_client)) = [5]"
  using worker_conserves_clients[OF one_client_reachable]
  by (simp add: slots_one_client socks_def sock_of_def) (simp add: one_client_def)

text \<open>C13:
  A worker does not crash or hang by itself: from every reachable state the handling of any events \<open>poll\<close> may
  report (but that a descriptor is not open) returns, unless a \<open>process_request\<close> that it calls crashes or never
  returns, and then it ends as the first such call in the order of the array does; the compaction and the final cleanup
  return (no access to a freed or missing context), and the compaction keeps exactly the slots whose connection is
  open, in their order.
\<close>

theorem worker_rounds_return:
  assumes "worker_reachable s"
  shows "(\<forall>fl cl fl' req. the_phase s = Polled fl cl \<and> polled fl fl' \<longrightarrow>
      (case find (\<lambda>(p, q). pollin p \<and> \<not> pollerr p \<and> req q \<noteq> Request_done) (zip fl' cl) of
         None \<Rightarrow> \<exists>mem. handle_all req (zip fl' cl) (the_mem s) = ret mem
       | Some (p, q) \<Rightarrow> handle_all req (zip fl' cl) (the_mem s) = (case req q of Request_crashes e \<Rightarrow> crashed e | _ \<Rightarrow> None))) \<and>
    (\<forall>fl cl. the_phase s = Processed fl cl \<longrightarrow>
      (\<exists>w mem. compact_loop 0 (copy_back fl cl (the_worker s)) (the_mem s) = ret (w, mem) \<and>
        slots w = filter (open_slot (the_mem s)) (slots (copy_back fl cl (the_worker s))))) \<and>
    (the_phase s = Waiting \<and> is_shutdown (the_worker s) \<longrightarrow>
      (\<exists>w mem. free_connections (the_worker s) (the_mem s) = ret (w, mem) \<and> ctxs mem = Map.empty \<and>
        closed_fds mem = closed_fds (the_mem s) @ map (sock_of (the_mem s)) (conns (the_worker s))))"
proof (intro conjI allI impI)
  have i: "worker_inv s" using assms by (rule worker_reachable_inv)
  fix fl cl
  show "case find (\<lambda>(p, q). pollin p \<and> \<not> pollerr p \<and> req q \<noteq> Request_done) (zip fl' cl) of
      None \<Rightarrow> \<exists>mem. handle_all req (zip fl' cl) (the_mem s) = ret mem
    | Some (p, q) \<Rightarrow> handle_all req (zip fl' cl) (the_mem s) = (case req q of Request_crashes e \<Rightarrow> crashed e | _ \<Rightarrow> None)"
    if "the_phase s = Polled fl cl \<and> polled fl fl'" for fl' req
  proof -
    from that have at: "the_phase s = Polled fl cl" and fl: "polled fl fl'" by blast+
    note keys = local_keys[OF i at fl]
    have "find (\<lambda>(p, q). pollin p \<and> \<not> pollerr p \<and> req q \<noteq> Request_done) (zip fl' cl) = find (stays req) (zip fl' cl)"
      using fl by (intro find_cong) (auto simp: stays_def polled_def list_all_iff dest: set_zip_leftD)
    moreover have "\<exists>mem. handle_all req (zip fl' cl) (the_mem s) = ret mem" if "find (stays req) (zip fl' cl) = None"
    proof -
      have "\<forall>x \<in> set (zip fl' cl). \<not> stays req x" using that by (auto simp: find_None_iff)
      from process_inv[OF i at fl this] show ?thesis by blast
    qed
    ultimately show ?thesis using handle_all_stays[OF keys(4,5), of req]
      by (auto split: option.split)
  qed
  show "\<exists>w mem. compact_loop 0 (copy_back fl cl (the_worker s)) (the_mem s) = ret (w, mem) \<and>
      slots w = filter (open_slot (the_mem s)) (slots (copy_back fl cl (the_worker s)))"
    if "the_phase s = Processed fl cl"
    using compact_inv[OF i that] by blast
  show "\<exists>w mem. free_connections (the_worker s) (the_mem s) = ret (w, mem) \<and> ctxs mem = Map.empty \<and>
      closed_fds mem = closed_fds (the_mem s) @ map (sock_of (the_mem s)) (conns (the_worker s))"
    if "the_phase s = Waiting \<and> is_shutdown (the_worker s)"
  proof -
    have "all_open s" using i that by (simp add: worker_inv_def)
    from leave_inv[OF i] that socks_open[OF this] show ?thesis by auto
  qed
qed

text \<open>The state after the one client has hung up.\<close>

definition hung_up :: wstate where
  "hung_up = one_client\<lparr>the_mem := \<lparr>ctxs = [7 \<mapsto> \<lparr>cx_sock_fd = -1\<rparr>], closed_fds = [5]\<rparr>,
    the_phase := Processed [hup 5] [Some 7]\<rparr>"

lemma hung_up_reachable: "worker_reachable hung_up"
proof -
  let ?s = "one_client\<lparr>the_phase := Polled (take (nfds (the_worker one_client)) (fds (the_worker one_client)))
      (take (nfds (the_worker one_client)) (connections (the_worker one_client)))\<rparr>"
  have p: "the_phase ?s = Polled [(hup 5)\<lparr>pollhup := False\<rparr>] [Some 7]"
    by (simp add: one_client_def start_state_def MAX_CLIENTS_PER_THREAD_def)
  have "worker_step one_client ?s"
    by (rule worker_step.Snapshot) (simp_all add: one_client_def start_state_def)
  then have r: "worker_reachable ?s" by (rule worker_reachable.Step[OF one_client_reachable])
  have h: "handle_all (\<lambda>_. Request_blocks) (zip [hup 5] [Some 7]) (the_mem ?s) = ret \<lparr>ctxs = [7 \<mapsto> \<lparr>cx_sock_fd = -1\<rparr>], closed_fds = [5]\<rparr>"
    by (simp add: handle_events_def close_ctx_def set_ctx_def one_client_def)
  have "polled [(hup 5)\<lparr>pollhup := False\<rparr>] [hup 5]" by (simp add: polled_def)
  from worker_reachable.Step[OF r worker_step.Process[OF p this h]] show ?thesis
    by (simp add: hung_up_def)
qed

theorem worker_rounds_return_witness:
  "\<exists>w mem. compact_loop 0 (copy_back [hup 5] [Some 7] (the_worker hung_up)) (the_mem hung_up) = ret (w, mem) \<and>
    slots w = []"
proof -
  have "the_phase hung_up = Processed [hup 5] [Some 7]" by (simp add: hung_up_def)
  then obtain w mem where
      "compact_loop 0 (copy_back [hup 5] [Some 7] (the_worker hung_up)) (the_mem hung_up) = ret (w, mem)"
      "slots w = filter (open_slot (the_mem hung_up)) (slots (copy_back [hup 5] [Some 7] (the_worker hung_up)))"
    using worker_rounds_return[OF hung_up_reachable] by blast
  moreover have "slots (copy_back [hup 5] [Some 7] (the_worker hung_up)) = [(hup 5, Some 7)]"
    by (simp add: slots_def copy_back_def hung_up_def one_client_def start_state_def MAX_CLIENTS_PER_THREAD_def take_zip)
  ultimately show ?thesis by (auto simp: open_slot_def sock_of_def hung_up_def)
qed

lemma pick_worker_cases:
  assumes "length ws = MAX_WORKER_THREADS" and "\<forall>w \<in> set ws. nfds w \<le> MAX_CLIENTS_PER_THREAD"
  shows "\<exists>i < MAX_WORKER_THREADS. pick_worker ws lw = int ((lw + 1 + i) mod MAX_WORKER_THREADS) \<and>
    (\<forall>j < i. load ws (lw + 1) i < load ws (lw + 1) j) \<and>
    (\<forall>j < MAX_WORKER_THREADS. load ws (lw + 1) i \<le> load ws (lw + 1) j)"
proof -
  let ?st = "(lw + 1) mod MAX_WORKER_THREADS"
  have ld: "load ws ?st i = load ws (lw + 1) i" for i by (simp add: mod_simps)
  have small: "load ws ?st i \<le> MAX_CLIENTS_PER_THREAD" for i
    using assms by (simp add: MAX_WORKER_THREADS_def)
  have "\<not> (2 ^ 32 - 1 \<le> load ws ?st 0)" using small[of 0] by (simp add: MAX_CLIENTS_PER_THREAD_def)
  moreover have "0 \<in> set [0..<MAX_WORKER_THREADS]" by (simp add: MAX_WORKER_THREADS_def)
  ultimately obtain us i vs where r: "[0..<MAX_WORKER_THREADS] = us @ i # vs"
      "pick_worker ws lw = int ((?st + i) mod MAX_WORKER_THREADS)"
      "\<forall>j \<in> set us. load ws ?st i < load ws ?st j" "\<forall>j \<in> set vs. load ws ?st i \<le> load ws ?st j"
    unfolding pick_worker_def using pick_loop_spec[of ws ?st "[0..<MAX_WORKER_THREADS]" "-1" "2 ^ 32 - 1"] by blast
  have n: "length us < MAX_WORKER_THREADS"
    using arg_cong[OF r(1), of length] by simp
  then have i: "i = length us" using arg_cong[OF r(1), of "\<lambda>xs. xs ! length us"] by (simp add: nth_append)
  have "us = take (length us) [0..<MAX_WORKER_THREADS]" unfolding r(1) by simp
  then have us: "us = [0..<i]" using n unfolding i by (simp add: take_upt)
  have "load ws ?st i \<le> load ws ?st j" if "j < MAX_WORKER_THREADS" for j
  proof -
    have "j \<in> set (us @ i # vs)" using that unfolding r(1)[symmetric] by simp
    then show ?thesis using r(3,4) by (auto simp: less_imp_le)
  qed
  moreover have "(?st + i) mod MAX_WORKER_THREADS = (lw + 1 + i) mod MAX_WORKER_THREADS" by (simp add: mod_simps)
  ultimately show ?thesis using r(2,3) n unfolding i[symmetric] us ld by (intro exI[of _ i]) auto
qed

lemma rotation_index:
  assumes "j < MAX_WORKER_THREADS"
  shows "(k + (j + (MAX_WORKER_THREADS - k mod MAX_WORKER_THREADS)) mod MAX_WORKER_THREADS) mod MAX_WORKER_THREADS = j"
    and "(j + (MAX_WORKER_THREADS - k mod MAX_WORKER_THREADS)) mod MAX_WORKER_THREADS < MAX_WORKER_THREADS"
proof -
  have m: "k mod MAX_WORKER_THREADS < MAX_WORKER_THREADS" by (simp add: MAX_WORKER_THREADS_def)
  have "(k + (j + (MAX_WORKER_THREADS - k mod MAX_WORKER_THREADS)) mod MAX_WORKER_THREADS) mod MAX_WORKER_THREADS =
      (k mod MAX_WORKER_THREADS + (j + (MAX_WORKER_THREADS - k mod MAX_WORKER_THREADS))) mod MAX_WORKER_THREADS"
    by (simp only: mod_simps)
  also have "\<dots> = (j + MAX_WORKER_THREADS) mod MAX_WORKER_THREADS" using m by (intro arg_cong2[where f = "(mod)"]) auto
  finally show "(k + (j + (MAX_WORKER_THREADS - k mod MAX_WORKER_THREADS)) mod MAX_WORKER_THREADS) mod MAX_WORKER_THREADS = j"
    using assms by simp
qed (use assms in simp)

lemma pick_worker_min:
  assumes "length ws = MAX_WORKER_THREADS" and "\<forall>w \<in> set ws. nfds w \<le> MAX_CLIENTS_PER_THREAD"
  shows "\<exists>i b. i < MAX_WORKER_THREADS \<and> b = (lw + 1 + i) mod MAX_WORKER_THREADS \<and> pick_worker ws lw = int b \<and>
    (\<forall>j < length ws. nfds (ws ! b) \<le> nfds (ws ! j)) \<and>
    (\<forall>k < i. nfds (ws ! b) < nfds (ws ! ((lw + 1 + k) mod MAX_WORKER_THREADS)))"
proof -
  from pick_worker_cases[OF assms, of lw] obtain i where i: "i < MAX_WORKER_THREADS"
      "pick_worker ws lw = int ((lw + 1 + i) mod MAX_WORKER_THREADS)"
      "\<forall>j < i. load ws (lw + 1) i < load ws (lw + 1) j"
      "\<forall>j < MAX_WORKER_THREADS. load ws (lw + 1) i \<le> load ws (lw + 1) j" by blast
  have "nfds (ws ! ((lw + 1 + i) mod MAX_WORKER_THREADS)) \<le> nfds (ws ! j)" if "j < length ws" for j
  proof -
    let ?r = "(j + (MAX_WORKER_THREADS - (lw + 1) mod MAX_WORKER_THREADS)) mod MAX_WORKER_THREADS"
    have "(lw + 1 + ?r) mod MAX_WORKER_THREADS = j" and "?r < MAX_WORKER_THREADS"
      using rotation_index[of j "lw + 1"] that assms(1) by simp_all
    then show ?thesis using i(4) by metis
  qed
  then show ?thesis using i by blast
qed

text \<open>
  \<open>pick_worker\<close> returns a worker of least load, and among those the first in the rotation that
  starts behind the worker chosen before.
\<close>

theorem pick_worker_least_load:
  assumes "length ws = MAX_WORKER_THREADS" and "\<forall>w \<in> set ws. nfds w \<le> MAX_CLIENTS_PER_THREAD"
  shows "\<exists>i b. i < MAX_WORKER_THREADS \<and> b = (lw + 1 + i) mod MAX_WORKER_THREADS \<and> pick_worker ws lw = int b \<and>
    (\<forall>j < length ws. nfds (ws ! b) \<le> nfds (ws ! j)) \<and>
    (\<forall>k < i. nfds (ws ! b) < nfds (ws ! ((lw + 1 + k) mod MAX_WORKER_THREADS)))"
  using assms by (rule pick_worker_min)

theorem pick_worker_least_load_witness:
  "pick_worker (replicate 8 (the_worker start_state)) 3 = 4 \<and> nfds (the_worker start_state) = 0"
proof -
  let ?ws = "replicate 8 (the_worker start_state)"
  have n: "nfds (the_worker start_state) = 0" by (simp add: start_state_def)
  obtain i b where "i < MAX_WORKER_THREADS" "b = (3 + 1 + i) mod MAX_WORKER_THREADS" "pick_worker ?ws 3 = int b"
      "\<forall>k < i. nfds (?ws ! b) < nfds (?ws ! ((3 + 1 + k) mod MAX_WORKER_THREADS))"
    using pick_worker_least_load[of ?ws 3] n
    by (auto simp: MAX_WORKER_THREADS_def MAX_CLIENTS_PER_THREAD_def)
  moreover from this n have "i = 0" by (cases i) (auto simp: MAX_WORKER_THREADS_def)
  ultimately show ?thesis using n by (simp add: MAX_WORKER_THREADS_def)
qed

text \<open>\<open>threadpool_add_client\<close> fails exactly when the allocation fails or all eight workers have 64
  clients, and then gives no worker a client; otherwise the client is appended to a worker of
  least load and the other workers are untouched.
\<close>

theorem threadpool_add_client_spec:
  assumes "length ws = MAX_WORKER_THREADS"
    and "\<forall>w \<in> set ws. worker_ok w mem" and "\<forall>a. mc = Some a \<longrightarrow> a \<notin> dom (ctxs mem)"
  shows "\<exists>b r ws' mem' w'. threadpool_add_client mc fd lw ws mem = (r, b, ws', mem') \<and>
    b < length ws \<and> ws' = ws[b := w'] \<and> (\<forall>w \<in> set ws. nfds (ws ! b) \<le> nfds w) \<and>
    (if mc = None \<or> (\<forall>w \<in> set ws. nfds w = MAX_CLIENTS_PER_THREAD)
     then r = -1 \<and> mem' = mem \<and> slots w' = slots (ws ! b) \<and> nfds w' = nfds (ws ! b)
     else r = 0 \<and> nfds w' = nfds (ws ! b) + 1 \<and> nfds w' \<le> MAX_CLIENTS_PER_THREAD \<and>
       mem' = mem\<lparr>ctxs := (ctxs mem)(the mc \<mapsto> \<lparr>cx_sock_fd = fd\<rparr>)\<rparr> \<and>
       slots w' = slots (ws ! b) @ [(\<lparr>pfd_fd = fd, pollin = False, pollerr = False, pollnval = False,
         pollhup = False\<rparr>, mc)])"
proof -
  have le: "\<forall>w \<in> set ws. nfds w \<le> MAX_CLIENTS_PER_THREAD" using assms(2) by (simp add: worker_ok_def)
  obtain b where b: "b < length ws" "pick_worker ws lw = int b" "\<forall>j < length ws. nfds (ws ! b) \<le> nfds (ws ! j)"
  proof -
    from pick_worker_min[OF assms(1) le, of lw] obtain i b where
      "b = (lw + 1 + i) mod MAX_WORKER_THREADS" "pick_worker ws lw = int b" "\<forall>j < length ws. nfds (ws ! b) \<le> nfds (ws ! j)"
      by blast
    then show ?thesis using that[of b] assms(1) by (simp add: MAX_WORKER_THREADS_def)
  qed
  have ok: "worker_ok (ws ! b) mem" using assms(2) b(1) by simp
  have min: "\<forall>w \<in> set ws. nfds (ws ! b) \<le> nfds w" using b(3) by (auto simp: in_set_conv_nth)
  have full: "(\<forall>w \<in> set ws. nfds w = MAX_CLIENTS_PER_THREAD) \<longleftrightarrow> nfds (ws ! b) = MAX_CLIENTS_PER_THREAD"
    using min le b(1) by (metis nth_mem order_antisym)
  obtain r w' mem' where e: "add_client_to_worker mc fd (ws ! b) mem = (r, w', mem')"
    by (cases "add_client_to_worker mc fd (ws ! b) mem") auto
  have t: "threadpool_add_client mc fd lw ws mem = (r, b, ws[b := w'], mem')"
    using b(2) e by (simp add: threadpool_add_client_def)
  have rr: "r = (if mc = None \<or> MAX_CLIENTS_PER_THREAD \<le> nfds (ws ! b) then -1 else 0)"
    using e by (auto simp: add_client_to_worker_def Let_def split: option.splits if_splits)
  have "nfds (ws ! b) < length (fds (ws ! b)) \<and> nfds (ws ! b) < length (connections (ws ! b))"
    if "\<not> MAX_CLIENTS_PER_THREAD \<le> nfds (ws ! b)"
    using ok that by (simp add: worker_ok_def)
  then have sl: "r = 0 \<Longrightarrow> slots w' = slots (ws ! b) @ [(\<lparr>pfd_fd = fd, pollin = False, pollerr = False,
      pollnval = False, pollhup = False\<rparr>, mc)]"
    using e rr by (auto simp: add_client_to_worker_def Let_def slots_def take_zip take_Suc_conv_app_nth
        split: option.splits if_splits)
  have le': "nfds (ws ! b) \<le> MAX_CLIENTS_PER_THREAD" using le b(1) by simp
  from add_client_cases[OF ok assms(3) e] show ?thesis
    using t b(1) min full rr sl le' by (auto intro!: exI[of _ b] exI[of _ w'])
qed

theorem threadpool_add_client_spec_witness:
  "\<exists>b ws' mem'. threadpool_add_client (Some 7) 5 0 (replicate 8 (the_worker start_state)) (the_mem start_state) =
     (0, b, ws', mem') \<and> slots (ws' ! b) = [(\<lparr>pfd_fd = 5, pollin = False, pollerr = False, pollnval = False,
       pollhup = False\<rparr>, Some 7)]"
proof -
  let ?ws = "replicate 8 (the_worker start_state)" and ?m = "the_mem start_state"
  have e: "slots (the_worker start_state) = []" "nfds (the_worker start_state) = 0"
    by (simp_all add: slots_def start_state_def)
  have ok: "worker_ok (the_worker start_state) ?m" using start_inv by (simp add: worker_inv_def)
  have "\<not> (Some 7 = None \<or> (\<forall>w \<in> set ?ws. nfds w = MAX_CLIENTS_PER_THREAD))"
    using e by (simp add: MAX_CLIENTS_PER_THREAD_def)
  then obtain b ws' mem' w' where "threadpool_add_client (Some 7) 5 0 ?ws ?m = (0, b, ws', mem')" "b < length ?ws"
      "ws' = ?ws[b := w']" "slots w' = slots (?ws ! b) @ [(\<lparr>pfd_fd = 5, pollin = False, pollerr = False,
        pollnval = False, pollhup = False\<rparr>, Some 7)]"
    using threadpool_add_client_spec[of ?ws ?m "Some 7" 5 0] ok
    by (auto simp: MAX_WORKER_THREADS_def start_state_def)
  then show ?thesis using e by (intro exI[of _ b] exI[of _ ws'] exI[of _ mem']) simp
qed

subsection \<open>Starting and stopping\<close>

lemma create_workers_spec:
  "create_workers creates is st =
    (case find (\<lambda>i. \<not> creates i) is of
       None \<Rightarrow> (True, st\<lparr>pool_workers := map_option (\<lambda>ws. foldl (\<lambda>ws i. ws[i := (ws ! i)\<lparr>nfds := 0, is_shutdown := False\<rparr>]) ws is)
           (pool_workers st), running := running st @ is\<rparr>)
     | Some _ \<Rightarrow> (False, st\<lparr>pool_workers := None, running := running st @ takeWhile creates is\<rparr>))"
  by (induction "is" arbitrary: st) (auto simp: Let_def option.map_comp comp_def option.map_ident split: option.split)

lemma foldl_upd_same:
  "\<forall>w \<in> set ws. f w = w \<Longrightarrow> list_all (\<lambda>i. i < length ws) is \<Longrightarrow> foldl (\<lambda>ws i. ws[i := f (ws ! i)]) ws is = ws"
  by (induction "is") simp_all

text \<open>
  \<open>threadpool_init\<close> returns a pool with eight empty workers and eight threads when everything it
  asks for is granted. When a \<open>pthread_create\<close> fails it reports failure and frees the array of
  workers, although the threads created before it run and use their element of that array.
\<close>

theorem threadpool_init_outcomes:
  "threadpool_init f p d creates =
    (if \<not> f \<or> \<not> p \<or> \<not> d then (False, \<lparr>pool_workers = None, running = []\<rparr>)
     else if list_all creates [0..<MAX_WORKER_THREADS]
     then (True, \<lparr>pool_workers = Some (replicate MAX_WORKER_THREADS (the_worker start_state)),
       running = [0..<MAX_WORKER_THREADS]\<rparr>)
     else (False, \<lparr>pool_workers = None, running = takeWhile creates [0..<MAX_WORKER_THREADS]\<rparr>))"
proof -
  have "foldl (\<lambda>ws i. ws[i := (ws ! i)\<lparr>nfds := 0, is_shutdown := False\<rparr>])
      (replicate MAX_WORKER_THREADS (the_worker start_state)) [0..<MAX_WORKER_THREADS] =
    replicate MAX_WORKER_THREADS (the_worker start_state)"
    by (rule foldl_upd_same) (auto simp: start_state_def list_all_iff)
  then show ?thesis
    by (auto simp: threadpool_init_def create_workers_spec find_None_iff list_all_iff find_Some_iff
        split: option.split)
qed

lemma threadpool_init_outcomes_witness:
  "threadpool_init True True True (\<lambda>i. i < 2) = (False, \<lparr>pool_workers = None, running = [0, 1]\<rparr>) \<and>
   fst (threadpool_init True True True (\<lambda>i. True)) \<and>
   \<not> fst (threadpool_init True True False (\<lambda>i. True))"
  by (simp add: threadpool_init_outcomes list_all_iff MAX_WORKER_THREADS_def upt_rec numeral_eq_Suc)

subsection \<open>Shutdown against the workers\<close>

text \<open>Which workers main has told to stop, and which it has joined.\<close>

definition told :: "main_pc \<Rightarrow> nat \<Rightarrow> bool" where
  "told m i = (case m of Setting k \<Rightarrow> i < k | Signalling k \<Rightarrow> i \<le> k | _ \<Rightarrow> True)"

definition was_joined :: "main_pc \<Rightarrow> nat \<Rightarrow> bool" where
  "was_joined m i = (case m of Joining k \<Rightarrow> i < k | Joined \<Rightarrow> True | _ \<Rightarrow> False)"

definition at_index :: "main_pc \<Rightarrow> bool" where
  "at_index m = (case m of Joined \<Rightarrow> True | Setting k \<Rightarrow> k < MAX_WORKER_THREADS | Signalling k \<Rightarrow> k < MAX_WORKER_THREADS
     | Joining k \<Rightarrow> k < MAX_WORKER_THREADS)"

definition stop_inv :: "stop_state \<Rightarrow> bool" where
  "stop_inv s \<longleftrightarrow> at_index (mpc s) \<and> (\<forall>i < MAX_WORKER_THREADS. (flag s i \<longleftrightarrow> told (mpc s) i) \<and>
     (wpc s i = Finished \<longrightarrow> flag s i) \<and> (was_joined (mpc s) i \<longrightarrow> wpc s i = Finished))"

lemma worker_at_simps [simp]:
  "wpc (worker_at i pc s) = (wpc s)(i := pc)" "clients_of (worker_at i pc s) = clients_of s"
  "flag (worker_at i pc s) = flag s" "mpc (worker_at i pc s) = mpc s"
  by (simp_all add: worker_at_def)

lemma next_worker_cases:
  "i < MAX_WORKER_THREADS \<Longrightarrow> (i + 1 < MAX_WORKER_THREADS \<and> next_worker again after i = again (i + 1)) \<or>
    (i + 1 = MAX_WORKER_THREADS \<and> next_worker again after i = after)"
  by (auto simp: next_worker_def)

lemma stop_step_inv: "stop_step s t \<Longrightarrow> stop_inv s \<Longrightarrow> stop_inv t"
proof (induction rule: stop_step.induct)
  case (Signal s i)
  then have "i < MAX_WORKER_THREADS" by (simp add: stop_inv_def at_index_def)
  from next_worker_cases[OF this, of Setting "Joining 0"] Signal show ?case
    by (auto simp: stop_inv_def at_index_def told_def was_joined_def less_Suc_eq_le)
next
  case (Join s i)
  then have "i < MAX_WORKER_THREADS" by (simp add: stop_inv_def at_index_def)
  from next_worker_cases[OF this, of Joining Joined] Join show ?case
    by (auto simp: stop_inv_def at_index_def told_def was_joined_def less_Suc_eq) (metis less_Suc_eq)
qed (auto simp: stop_inv_def at_index_def told_def was_joined_def split: main_pc.splits)

lemma stop_reachable_inv: "stop_reachable s \<Longrightarrow> stop_inv s"
proof (induction rule: stop_reachable.induct)
  case (Begin s)
  then show ?case by (simp add: stop_inv_def stop_start_def at_index_def told_def was_joined_def MAX_WORKER_THREADS_def)
qed (rule stop_step_inv)

text \<open>The steps left to a worker that has been told, and to main when it joins.\<close>

definition worker_left :: "worker_pc \<Rightarrow> nat" where
  "worker_left pc = (case pc of Polling \<Rightarrow> 4 | Serving \<Rightarrow> 3 | Locking \<Rightarrow> 2 | Testing \<Rightarrow> 1 | Entering \<Rightarrow> 1 | _ \<Rightarrow> 0)"

definition main_left :: "main_pc \<Rightarrow> nat" where
  "main_left m = (case m of Joining k \<Rightarrow> MAX_WORKER_THREADS - k | _ \<Rightarrow> 0)"

definition steps_left :: "stop_state \<Rightarrow> nat" where
  "steps_left s = (\<Sum>i < MAX_WORKER_THREADS. worker_left (wpc s i)) + main_left (mpc s)"

definition joins :: "stop_state \<Rightarrow> bool" where
  "joins s \<longleftrightarrow> stop_inv s \<and> (mpc s = Joined \<or> (\<exists>i. mpc s = Joining i))"

lemma worker_left_less:
  assumes "i < MAX_WORKER_THREADS" "worker_left pc < worker_left (wpc s i)"
  shows "steps_left (worker_at i pc s) < steps_left s" "steps_left (worker_at i pc (s\<lparr>clients_of := c\<rparr>)) < steps_left s"
proof -
  have "(\<Sum>j < MAX_WORKER_THREADS. worker_left (((wpc s)(i := pc)) j)) < (\<Sum>j < MAX_WORKER_THREADS. worker_left (wpc s j))"
    by (rule sum_strict_mono_ex1) (use assms in auto)
  then show "steps_left (worker_at i pc s) < steps_left s" "steps_left (worker_at i pc (s\<lparr>clients_of := c\<rparr>)) < steps_left s"
    by (simp_all add: steps_left_def)
qed

lemma joins_step:
  assumes "stop_step s t" "joins s"
  shows "joins t \<and> steps_left t < steps_left s"
proof
  have told: "\<forall>i < MAX_WORKER_THREADS. flag s i" and inv: "stop_inv s"
    using assms(2) by (auto simp: joins_def stop_inv_def told_def)
  have "mpc t = Joined \<or> (\<exists>i. mpc t = Joining i)"
    using assms by (cases rule: stop_step.cases) (auto simp: joins_def next_worker_def)
  then show "joins t" using stop_step_inv[OF assms(1) inv] by (simp add: joins_def)
  show "steps_left t < steps_left s"
    using assms(1)
  proof (cases rule: stop_step.cases)
    case (Join i)
    then have "i < MAX_WORKER_THREADS" using inv by (simp add: stop_inv_def at_index_def)
    with Join show ?thesis by (auto simp: steps_left_def main_left_def next_worker_def)
  qed (use assms(2) told in \<open>auto simp: joins_def intro!: worker_left_less simp: worker_left_def[abs_def]\<close>)
qed

lemma joins_end: "(stop_step ^^ n) s t \<Longrightarrow> joins s \<Longrightarrow> n + steps_left t \<le> steps_left s"
proof (induction n arbitrary: t)
  case (Suc n)
  then obtain u where u: "(stop_step ^^ n) s u" "stop_step u t" by auto
  have "joins u" using u(1) Suc.prems(2)
    by (induction n arbitrary: u) (auto dest: joins_step)
  from joins_step[OF u(2) this] Suc.IH[OF u(1) Suc.prems(2)] show ?case by simp
qed simp

lemma steps_left_bound:
  assumes "joins s"
  shows "steps_left s \<le> 5 * MAX_WORKER_THREADS"
proof -
  have "(\<Sum>i < MAX_WORKER_THREADS. worker_left (wpc s i)) \<le> (\<Sum>i < MAX_WORKER_THREADS. 4)"
    by (rule sum_mono) (simp add: worker_left_def split: worker_pc.split)
  moreover have "main_left (mpc s) \<le> MAX_WORKER_THREADS" by (simp add: main_left_def split: main_pc.split)
  ultimately show ?thesis by (simp add: steps_left_def)
qed

text \<open>Main runs through while the workers stand still at a place where no signal reaches them.\<close>

definition passing :: "worker_pc \<Rightarrow> nat \<Rightarrow> stop_state" where
  "passing pc k = \<lparr>wpc = (\<lambda>_. pc), clients_of = (\<lambda>_. 0), flag = (\<lambda>i. i < k),
     mpc = (if k < MAX_WORKER_THREADS then Setting k else Joining 0)\<rparr>"

lemma passing_reachable:
  assumes "pc \<notin> {Blocked, Finished}" and "k \<le> MAX_WORKER_THREADS"
  shows "stop_reachable (passing pc k)"
  using assms(2)
proof (induction k)
  case 0
  show ?case by (rule Begin) (use assms(1) in \<open>auto simp: passing_def stop_start_def MAX_WORKER_THREADS_def\<close>)
next
  case (Suc k)
  let ?s = "passing pc k" and ?u = "(passing pc k)\<lparr>flag := (\<lambda>i. i < Suc k), mpc := Signalling k\<rparr>"
  have "stop_step ?s (?s\<lparr>flag := (flag ?s)(k := True), mpc := Signalling k\<rparr>)"
    by (rule Set_flag) (use Suc in \<open>simp add: passing_def\<close>)
  moreover have "?s\<lparr>flag := (flag ?s)(k := True), mpc := Signalling k\<rparr> = ?u" by (auto simp: passing_def less_Suc_eq)
  ultimately have "stop_reachable ?u" using Next[OF Suc.IH] Suc.prems by simp
  moreover have "stop_step ?u (worker_at k (if wpc ?u k = Blocked then Locking else wpc ?u k)
      (?u\<lparr>mpc := next_worker Setting (Joining 0) k\<rparr>))" by (rule Signal) simp
  moreover have "worker_at k (if wpc ?u k = Blocked then Locking else wpc ?u k) (?u\<lparr>mpc := next_worker Setting (Joining 0) k\<rparr>) =
      passing pc (Suc k)"
    using assms(1) by (auto simp: worker_at_def passing_def next_worker_def fun_eq_iff)
  ultimately show ?case by (metis Next)
qed

text \<open>All workers have gone to sleep behind the signal.\<close>

definition missed :: "nat \<Rightarrow> stop_state" where
  "missed k = (passing Entering MAX_WORKER_THREADS)\<lparr>wpc := (\<lambda>i. if i < k then Blocked else Entering)\<rparr>"

lemma missed_reachable: "k \<le> MAX_WORKER_THREADS \<Longrightarrow> stop_reachable (missed k)"
proof (induction k)
  case 0
  show ?case using passing_reachable[of Entering MAX_WORKER_THREADS] by (simp add: missed_def passing_def)
next
  case (Suc k)
  have "stop_step (missed k) (worker_at k Blocked (missed k))" by (rule Wait) (use Suc in \<open>simp_all add: missed_def\<close>)
  moreover have "worker_at k Blocked (missed k) = missed (Suc k)"
    by (auto simp: missed_def worker_at_def fun_eq_iff less_Suc_eq)
  ultimately show ?case using Next[OF Suc.IH] Suc.prems by simp
qed

text \<open>C33:
  \<open>threadpool_shutdown\<close> can hang in two ways, and in no other. It sets the flag and signals without the mutex of the
  worker, so one that has just found neither a client nor the flag goes to sleep after its signal; and a worker
  may be kept for ever by the request it serves. The join then waits for it for ever. Wherever the eight workers and
  their clients are when it begins, every state it can get into in which nothing can go on is either its end, with all
  workers finished, or a join of a worker of one of these kinds; and once it joins, at most 40 steps are left. Spurious
  wake-ups, which would end the first kind, and crashing requests are left out.
\<close>

theorem threadpool_shutdown_lost_wakeup:
  "(\<exists>s. stop_reachable s \<and> (\<forall>t. \<not> stop_step s t) \<and> mpc s = Joining 0 \<and> wpc s 0 = Blocked \<and> flag s 0) \<and>
   (\<exists>s. stop_reachable s \<and> (\<forall>t. \<not> stop_step s t) \<and> mpc s = Joining 0 \<and> wpc s 0 = Hung) \<and>
   (\<forall>s. stop_reachable s \<and> (\<forall>t. \<not> stop_step s t) \<longrightarrow>
      (mpc s = Joined \<and> (\<forall>i < MAX_WORKER_THREADS. wpc s i = Finished)) \<or>
      (\<exists>i < MAX_WORKER_THREADS. mpc s = Joining i \<and> flag s i \<and> wpc s i \<in> {Blocked, Hung} \<and>
        (\<forall>j < MAX_WORKER_THREADS. wpc s j \<in> {Blocked, Hung, Finished}))) \<and>
   (\<forall>s i n t. stop_reachable s \<and> mpc s = Joining i \<and> (stop_step ^^ n) s t \<longrightarrow> n \<le> 40)"
proof (intro conjI allI impI)
  have "stop_reachable (missed MAX_WORKER_THREADS)" by (rule missed_reachable) simp
  moreover have "\<not> stop_step (missed MAX_WORKER_THREADS) t" for t
    by (auto simp: stop_step_iff missed_def passing_def MAX_WORKER_THREADS_def)
  ultimately show "\<exists>s. stop_reachable s \<and> (\<forall>t. \<not> stop_step s t) \<and> mpc s = Joining 0 \<and> wpc s 0 = Blocked \<and> flag s 0"
    by (intro exI[of _ "missed MAX_WORKER_THREADS"]) (simp add: missed_def passing_def MAX_WORKER_THREADS_def)
  have "stop_reachable (passing Hung MAX_WORKER_THREADS)" by (rule passing_reachable) simp_all
  moreover have "\<not> stop_step (passing Hung MAX_WORKER_THREADS) t" for t
    by (auto simp: stop_step_iff passing_def MAX_WORKER_THREADS_def)
  ultimately show "\<exists>s. stop_reachable s \<and> (\<forall>t. \<not> stop_step s t) \<and> mpc s = Joining 0 \<and> wpc s 0 = Hung"
    by (intro exI[of _ "passing Hung MAX_WORKER_THREADS"]) (simp add: passing_def)
next
  fix s assume "stop_reachable s \<and> (\<forall>t. \<not> stop_step s t)"
  then have inv: "stop_inv s" and stuck: "\<not> stop_step s t" for t using stop_reachable_inv by blast+
  have w: "wpc s i \<in> {Blocked, Hung, Finished}" if "i < MAX_WORKER_THREADS" for i
    using stop_step.intros(1-4,6)[of i s] that stuck by (cases "wpc s i") auto
  have m: "mpc s = Joined \<or> (\<exists>i. mpc s = Joining i \<and> wpc s i \<noteq> Finished)"
    using stop_step.intros(7-9)[of s] stuck by (cases "mpc s") auto
  then show "(mpc s = Joined \<and> (\<forall>i < MAX_WORKER_THREADS. wpc s i = Finished)) \<or>
      (\<exists>i < MAX_WORKER_THREADS. mpc s = Joining i \<and> flag s i \<and> wpc s i \<in> {Blocked, Hung} \<and>
        (\<forall>j < MAX_WORKER_THREADS. wpc s j \<in> {Blocked, Hung, Finished}))"
  proof (elim disjE exE conjE)
    fix i assume i: "mpc s = Joining i" "wpc s i \<noteq> Finished"
    then have "i < MAX_WORKER_THREADS" using inv by (simp add: stop_inv_def at_index_def)
    moreover from this i inv have "flag s i" by (simp add: stop_inv_def told_def)
    ultimately show ?thesis using i w by blast
  qed (use inv in \<open>simp add: stop_inv_def was_joined_def\<close>)
next
  fix s i n t assume "stop_reachable s \<and> mpc s = Joining i \<and> (stop_step ^^ n) s t"
  then have "joins s" "(stop_step ^^ n) s t" using stop_reachable_inv by (auto simp: joins_def)
  then show "n \<le> 40" using joins_end[of n s t] steps_left_bound[of s] by (simp add: MAX_WORKER_THREADS_def)
qed

theorem threadpool_shutdown_lost_wakeup_witness:
  "\<exists>s. stop_reachable s \<and> (\<forall>t. \<not> stop_step s t) \<and>
    (\<exists>i < MAX_WORKER_THREADS. mpc s = Joining i \<and> wpc s i \<in> {Blocked, Hung})"
  using threadpool_shutdown_lost_wakeup by (metis main_pc.distinct(11))

end
