(* ===== verification/ProxyMainProps.thy ===== *)
theory ProxyMainProps
  imports ProxyMain ThreadpoolProps CacheProps
begin

section \<open>Properties of the main thread\<close>

text \<open>
  Where the accept loop ends, where every accepted client goes, and that each way out of
  \<open>proxy_start\<close> gives back what it took, in the right order.
\<close>

subsection \<open>The pool that main shares\<close>

text \<open>Eight workers that are each in order and share no context, and all their descriptors, closed and open.\<close>

definition pool_ok :: "worker_data list \<Rightarrow> pool_mem \<Rightarrow> bool" where
  "pool_ok ws mem \<longleftrightarrow> length ws = MAX_WORKER_THREADS \<and> (\<forall>w \<in> set ws. worker_ok w mem) \<and>
     (\<forall>i < length ws. \<forall>j < length ws. i \<noteq> j \<longrightarrow> set (conns (ws ! i)) \<inter> set (conns (ws ! j)) = {})"

definition pool_fds :: "worker_data list \<Rightarrow> pool_mem \<Rightarrow> int multiset" where
  "pool_fds ws mem = mset (closed_fds mem) + (\<Sum>w\<leftarrow>ws. mset (socks mem (conns w)))"

text \<open>
  What the other threads keep (\<open>worker_conserves_clients\<close> for each worker): the pool in order, the descriptors it
  has, what has been closed, and a cache that is one.
\<close>

definition polite :: "(world \<Rightarrow> world) \<Rightarrow> bool" where
  "polite others \<longleftrightarrow> (\<forall>ws mem c ws' mem' c'. pool_ok ws mem \<longrightarrow> cache_ok c \<longrightarrow> others (ws, mem, c) = (ws', mem', c') \<longrightarrow>
     pool_ok ws' mem' \<and> cache_ok c' \<and> pool_fds ws' mem' = pool_fds ws mem \<and> (\<exists>more. closed_fds mem' = closed_fds mem @ more))"

text \<open>\<open>calloc\<close> returns a context that is not in use, if it returns one.\<close>

definition fresh_contexts :: "main_env \<Rightarrow> bool" where
  "fresh_contexts env \<longleftrightarrow> (\<forall>mem a. context_memory env mem = Some a \<longrightarrow> a \<notin> dom (ctxs mem))"

definition ends_well :: "main_env \<Rightarrow> bool" where
  "ends_well env \<longleftrightarrow> (\<forall>ws mem c mem' c'. joined env ws mem c = Some (mem', c') \<longrightarrow> pred_option cache_ok c \<longrightarrow>
     (c' = None \<longleftrightarrow> c = None) \<and> pred_option cache_ok c')"

definition serving :: "main_st \<Rightarrow> bool" where
  "serving st \<longleftrightarrow> (\<exists>ws c. tp_client st = Some ws \<and> pool_ok ws (contexts st) \<and> m_cache st = Some c \<and> cache_ok c)"

definition main_fds :: "main_st \<Rightarrow> int multiset" where
  "main_fds st = pool_fds (the (tp_client st)) (contexts st)"

text \<open>The state has changed, and no descriptor that was closed is open again.\<close>

definition moves :: "main_st \<Rightarrow> main_st \<Rightarrow> bool" where
  "moves st st' \<longleftrightarrow> serving st' \<and> stray st' = stray st \<and> (\<exists>more. closed_fds (contexts st') = closed_fds (contexts st) @ more)"

lemma moves_trans: "moves a b \<Longrightarrow> moves b c \<Longrightarrow> moves a c"
  by (auto simp: moves_def)

lemma interleave_serving:
  assumes "serving st" "polite others"
  shows "moves st (interleave others st) \<and> m_events (interleave others st) = m_events st \<and>
    main_fds (interleave others st) = main_fds st"
proof -
  from assms(1) obtain ws c where s: "tp_client st = Some ws" "pool_ok ws (contexts st)" "m_cache st = Some c" "cache_ok c"
    unfolding serving_def by blast
  obtain ws' mem' c' where o: "others (ws, contexts st, c) = (ws', mem', c')" by (cases "others (ws, contexts st, c)")
  with assms(2) s have "pool_ok ws' mem'" "cache_ok c'" "pool_fds ws' mem' = pool_fds ws (contexts st)"
    "\<exists>more. closed_fds mem' = closed_fds (contexts st) @ more" unfolding polite_def by blast+
  with o s show ?thesis by (simp add: interleave_def serving_def main_fds_def moves_def)
qed

subsection \<open>Placing a client\<close>

text \<open>
  The event of a client and what it means: it is the last connection of the worker named, and the others are as before;
  or it is closed, because there was no memory or all workers were full, and all workers are as before.
\<close>

definition placed :: "main_env \<Rightarrow> main_event \<Rightarrow> int \<Rightarrow> main_st \<Rightarrow> main_st \<Rightarrow> bool" where
  "placed env ev fd st st' \<longleftrightarrow> (\<exists>ws ws'. tp_client st = Some ws \<and> tp_client st' = Some ws' \<and>
     (if context_memory env (contexts st) = None \<or> (\<forall>w \<in> set ws. nfds w = MAX_CLIENTS_PER_THREAD)
      then ev = ClientClosed fd \<and> map conns ws' = map conns ws \<and> ctxs (contexts st') = ctxs (contexts st) \<and>
        closed_fds (contexts st') = closed_fds (contexts st) @ [fd]
      else \<exists>b a. ev = Handed fd b \<and> b < MAX_WORKER_THREADS \<and> a \<notin> dom (ctxs (contexts st)) \<and>
        conns (ws' ! b) = conns (ws ! b) @ [Some a] \<and> (\<forall>j < MAX_WORKER_THREADS. j \<noteq> b \<longrightarrow> ws' ! j = ws ! j) \<and>
        ctxs (contexts st') = (ctxs (contexts st))(a \<mapsto> \<lparr>cx_sock_fd = fd\<rparr>) \<and>
        closed_fds (contexts st') = closed_fds (contexts st)))"

definition client_event :: "main_event \<Rightarrow> int \<Rightarrow> bool" where
  "client_event ev fd \<longleftrightarrow> ev = ClientClosed fd \<or> (\<exists>b < MAX_WORKER_THREADS. ev = Handed fd b)"

lemma sum_list_one:
  fixes f :: "'a \<Rightarrow> 'b :: comm_monoid_add"
  assumes "b < length xs" "\<And>j. j < length xs \<Longrightarrow> j \<noteq> b \<Longrightarrow> f (ys ! j) = g (xs ! j)" "f (ys ! b) = g (xs ! b) + d" "length ys = length xs"
  shows "(\<Sum>y\<leftarrow>ys. f y) = (\<Sum>x\<leftarrow>xs. g x) + d"
proof -
  have "(\<Sum>y\<leftarrow>ys. f y) = (\<Sum>i<length xs. f (ys ! i))" using assms(4) by (simp add: sum_list_sum_nth atLeast0LessThan)
  also have "\<dots> = f (ys ! b) + (\<Sum>i \<in> {..<length xs} - {b}. f (ys ! i))" using assms(1) by (simp add: sum.remove)
  also have "(\<Sum>i \<in> {..<length xs} - {b}. f (ys ! i)) = (\<Sum>i \<in> {..<length xs} - {b}. g (xs ! i))"
    by (rule sum.cong) (use assms(2) in auto)
  also have "f (ys ! b) + \<dots> = (g (xs ! b) + (\<Sum>i \<in> {..<length xs} - {b}. g (xs ! i))) + d" using assms(3) by (simp add: ac_simps)
  also have "g (xs ! b) + (\<Sum>i \<in> {..<length xs} - {b}. g (xs ! i)) = (\<Sum>x\<leftarrow>xs. g x)"
    using assms(1) by (simp add: sum_list_sum_nth atLeast0LessThan sum.remove)
  finally show ?thesis .
qed

lemma socks_frame:
  "Some a \<notin> set qs \<Longrightarrow> socks (mem\<lparr>ctxs := (ctxs mem)(a \<mapsto> x)\<rparr>) qs = socks mem qs"
proof -
  assume n: "Some a \<notin> set qs"
  have "map (sock_of (mem\<lparr>ctxs := (ctxs mem)(a \<mapsto> x)\<rparr>)) qs = map (sock_of mem) qs"
    by (rule map_cong) (use n in \<open>auto simp: sock_of_def split: option.split\<close>)
  then show ?thesis by (simp only: socks_def)
qed

lemma socks_closed_fds [simp]: "socks (mem\<lparr>closed_fds := x\<rparr>) qs = socks mem qs"
proof -
  have "sock_of (mem\<lparr>closed_fds := x\<rparr>) = sock_of mem" by (rule ext) simp
  then show ?thesis by (simp add: socks_def)
qed

lemma worker_ok_grown:
  assumes "worker_ok w mem" shows "worker_ok w (mem\<lparr>ctxs := (ctxs mem)(a \<mapsto> x)\<rparr>)"
  unfolding worker_ok_def
proof (intro conjI ballI)
  fix q assume "q \<in> set (conns w)"
  then obtain b y where "q = Some b" "ctxs mem b = Some y" using assms unfolding worker_ok_def by blast
  then show "\<exists>b y. q = Some b \<and> ctxs (mem\<lparr>ctxs := (ctxs mem)(a \<mapsto> x)\<rparr>) b = Some y" by auto
qed (use assms in \<open>simp_all add: worker_ok_def\<close>)

lemma conns_unused: "worker_ok w mem \<Longrightarrow> a \<notin> dom (ctxs mem) \<Longrightarrow> Some a \<notin> set (conns w)"
  unfolding worker_ok_def by blast

lemma worker_ok_closed_fds [simp]: "worker_ok w (mem\<lparr>closed_fds := x\<rparr>) = worker_ok w mem"
  by (simp add: worker_ok_def)

text \<open>The two outcomes of \<open>threadpool_add_client\<close> for a pool in order.\<close>

lemma refused_pool:
  assumes ok: "pool_ok ws mem" and b: "b < length ws" and w: "slots w = slots (ws ! b)" "nfds w = nfds (ws ! b)"
    "connections w = connections (ws ! b)" "length (fds w) = length (fds (ws ! b))"
  shows "map conns (ws[b := w]) = map conns ws" and "pool_ok (ws[b := w]) mem" and "pool_fds (ws[b := w]) mem = pool_fds ws mem"
proof -
  show m: "map conns (ws[b := w]) = map conns ws" using w(1) b by (simp add: map_update list_update_same_conv)
  then have c: "conns (ws[b := w] ! i) = conns (ws ! i)" if "i < length ws" for i
    using that by (metis length_list_update nth_map)
  have "worker_ok (ws ! b) mem" using ok b by (simp add: pool_ok_def)
  then have "worker_ok w mem" using w by (simp add: worker_ok_def)
  then have "\<forall>v \<in> set (ws[b := w]). worker_ok v mem"
    using ok by (auto simp: pool_ok_def dest!: set_update_subset_insert[THEN subsetD])
  then show "pool_ok (ws[b := w]) mem" using ok c unfolding pool_ok_def length_list_update by metis
  have "map (\<lambda>w. mset (socks mem (conns w))) ws' = map (\<lambda>qs. mset (socks mem qs)) (map conns ws')" for ws' by simp
  then show "pool_fds (ws[b := w]) mem = pool_fds ws mem" unfolding pool_fds_def by (metis m)
qed

lemma handed_pool:
  assumes ok: "pool_ok ws mem" and b: "b < length ws" and fd: "0 \<le> fd" and a: "a \<notin> dom (ctxs mem)"
    and mem': "mem' = mem\<lparr>ctxs := (ctxs mem)(a \<mapsto> \<lparr>cx_sock_fd = fd\<rparr>)\<rparr>"
    and w: "slots w = slots (ws ! b) @ [(p, Some a)]" "nfds (ws ! b) < MAX_CLIENTS_PER_THREAD" "nfds w = nfds (ws ! b) + 1"
      "fds w = (fds (ws ! b))[nfds (ws ! b) := p]" "connections w = (connections (ws ! b))[nfds (ws ! b) := Some a]"
  shows "pool_ok (ws[b := w]) mem'" and "pool_fds (ws[b := w]) mem' = pool_fds ws mem + {#fd#}"
proof -
  have okb: "worker_ok (ws ! b) mem" using ok b by (simp add: pool_ok_def)
  have free: "Some a \<notin> set (conns (ws ! i))" if "i < length ws" for i
    using conns_unused[OF _ a] ok that by (simp add: pool_ok_def)
  have okw: "worker_ok w mem'"
    unfolding worker_ok_def
  proof (intro conjI ballI)
    fix q assume "q \<in> set (conns w)"
    then consider "q = Some a" | "q \<in> set (conns (ws ! b))" using w(1) by auto
    then show "\<exists>c x. q = Some c \<and> ctxs mem' c = Some x"
    proof cases
      case 2
      then show ?thesis using worker_ok_grown[OF okb, of a "\<lparr>cx_sock_fd = fd\<rparr>"] unfolding mem' worker_ok_def by blast
    qed (simp add: mem')
  qed (use okb w free[OF b] in \<open>auto simp: worker_ok_def\<close>)
  have oks: "worker_ok (ws[b := w] ! i) mem'" if "i < length ws" for i
    using that okw worker_ok_grown[of "ws ! i" mem a] ok mem' by (cases "i = b") (simp_all add: pool_ok_def)
  have disj: "set (conns (ws[b := w] ! i)) \<inter> set (conns (ws[b := w] ! j)) = {}" if "i < length ws" "j < length ws" "i \<noteq> j" for i j
  proof -
    have "set (conns (ws ! i)) \<inter> set (conns (ws ! j)) = {}" using ok that unfolding pool_ok_def by blast
    then show ?thesis using that free[of i] free[of j] w(1) b by (cases "i = b"; cases "j = b") auto
  qed
  show "pool_ok (ws[b := w]) mem'"
    using ok oks disj unfolding pool_ok_def length_list_update all_set_conv_all_nth by blast
  have "(\<Sum>v\<leftarrow>ws[b := w]. mset (socks mem' (conns v))) = (\<Sum>v\<leftarrow>ws. mset (socks mem (conns v))) + {#fd#}"
  proof (rule sum_list_one[OF b])
    show "mset (socks mem' (conns (ws[b := w] ! j))) = mset (socks mem (conns (ws ! j)))" if "j < length ws" "j \<noteq> b" for j
      using that socks_frame[OF free[of j]] mem' by simp
    have "socks mem' (conns w) = socks mem' (conns (ws ! b)) @ [fd]"
      using w(1) fd mem' by (simp add: socks_def sock_of_add)
    then show "mset (socks mem' (conns (ws[b := w] ! b))) = mset (socks mem (conns (ws ! b))) + {#fd#}"
      using b socks_frame[OF free[OF b]] mem' by simp
  qed simp
  then show "pool_fds (ws[b := w]) mem' = pool_fds ws mem + {#fd#}" using mem' by (simp add: pool_fds_def)
qed

lemma place_client_serving:
  assumes "serving st" and "fresh_contexts env" and fd: "0 \<le> fd"
  shows "\<exists>st' ev. place_client env fd st = ret st' \<and> m_events st' = m_events st @ [ev] \<and> placed env ev fd st st' \<and>
    client_event ev fd \<and> moves st st' \<and> main_fds st' = main_fds st + {#fd#} \<and>
    (ev = ClientClosed fd \<longrightarrow> fd \<in> set (closed_fds (contexts st')))"
proof -
  let ?mem = "contexts st" and ?mc = "context_memory env (contexts st)"
  from assms(1) obtain ws c where s: "tp_client st = Some ws" "pool_ok ws ?mem" "m_cache st = Some c" "cache_ok c"
    unfolding serving_def by blast
  have len: "length ws = MAX_WORKER_THREADS" and le: "\<forall>w \<in> set ws. nfds w \<le> MAX_CLIENTS_PER_THREAD"
    using s(2) by (auto simp: pool_ok_def worker_ok_def)
  from pick_worker_min[OF len le, of "last_worker st"] obtain b where b: "pick_worker ws (last_worker st) = int b"
      "b < MAX_WORKER_THREADS" "\<forall>j < length ws. nfds (ws ! b) \<le> nfds (ws ! j)"
    by (auto simp: MAX_WORKER_THREADS_def)
  then have bl: "b < length ws" "ws ! b \<in> set ws" using len by simp_all
  have full: "(\<forall>w \<in> set ws. nfds w = MAX_CLIENTS_PER_THREAD) \<longleftrightarrow> MAX_CLIENTS_PER_THREAD \<le> nfds (ws ! b)"
    using le b(3) bl by (metis in_set_conv_nth order_antisym le_trans)
  obtain r w mem where e: "add_client_to_worker ?mc fd (ws ! b) ?mem = (r, w, mem)"
    by (cases "add_client_to_worker ?mc fd (ws ! b) ?mem") auto
  have rr: "r = (if ?mc = None \<or> MAX_CLIENTS_PER_THREAD \<le> nfds (ws ! b) then -1 else 0)"
    using e by (auto simp: add_client_to_worker_def Let_def split: option.splits if_splits)
  have run: "threadpool_add_client ?mc fd (last_worker st) ws ?mem = (r, b, ws[b := w], mem)"
    using b(1) e by (simp add: threadpool_add_client_def)
  have okb: "worker_ok (ws ! b) ?mem" using s(2) bl by (simp add: pool_ok_def)
  have fresh: "\<forall>a. ?mc = Some a \<longrightarrow> a \<notin> dom (ctxs ?mem)" using assms(2) by (simp add: fresh_contexts_def)
  from add_client_cases[OF okb fresh e] show ?thesis
  proof (elim disjE exE conjE)
    assume r: "r = -1" "mem = ?mem" "slots w = slots (ws ! b)" "nfds w = nfds (ws ! b)"
      "connections w = connections (ws ! b)" "length (fds w) = length (fds (ws ! b))"
    let ?st = "note_event (ClientClosed fd) (st\<lparr>tp_client := Some (ws[b := w]), last_worker := b,
      contexts := ?mem\<lparr>closed_fds := closed_fds ?mem @ [fd]\<rparr>\<rparr>)"
    note same = refused_pool[OF s(2) bl(1) r(3-6)]
    have "pool_ok (ws[b := w]) (?mem\<lparr>closed_fds := closed_fds ?mem @ [fd]\<rparr>)" using same(2) by (simp add: pool_ok_def)
    then have "moves st ?st" using s(3,4) by (simp add: moves_def serving_def note_event_def)
    moreover have "main_fds ?st = main_fds st + {#fd#}"
      using same(3) s(1) by (simp add: main_fds_def pool_fds_def note_event_def)
    moreover have "placed env (ClientClosed fd) fd st ?st"
      using same(1) s(1) rr r(1) full by (simp add: placed_def note_event_def split: if_splits)
    moreover have "place_client env fd st = ret ?st" using s(1) run r(1,2) by (simp add: place_client_def note_event_def)
    ultimately show ?thesis
      by (intro exI[of _ ?st] exI[of _ "ClientClosed fd"]) (simp add: client_event_def note_event_def)
  next
    fix a p
    assume r: "r = 0" "?mc = Some a" "mem = ?mem\<lparr>ctxs := (ctxs ?mem)(a \<mapsto> \<lparr>cx_sock_fd = fd\<rparr>)\<rparr>"
      "slots w = slots (ws ! b) @ [(p, Some a)]" "nfds (ws ! b) < MAX_CLIENTS_PER_THREAD" "nfds w = nfds (ws ! b) + 1"
      "fds w = (fds (ws ! b))[nfds (ws ! b) := p]" "connections w = (connections (ws ! b))[nfds (ws ! b) := Some a]"
    let ?st = "note_event (Handed fd b) (st\<lparr>tp_client := Some (ws[b := w]), last_worker := b, contexts := mem\<rparr>)"
    have a: "a \<notin> dom (ctxs ?mem)" using fresh r(2) by blast
    note new = handed_pool[OF s(2) bl(1) fd a r(3-8)]
    have "moves st ?st" using new(1) s(3,4) r(3) by (simp add: moves_def serving_def note_event_def)
    moreover have "main_fds ?st = main_fds st + {#fd#}" using new(2) s(1) by (simp add: main_fds_def note_event_def)
    moreover have "placed env (Handed fd b) fd st ?st"
      using s(1) bl len a r full by (auto simp: placed_def note_event_def)
    moreover have "place_client env fd st = ret ?st" using s(1) run r(1) by (simp add: place_client_def)
    ultimately show ?thesis
      using b(2) by (intro exI[of _ ?st] exI[of _ "Handed fd b"]) (simp add: client_event_def note_event_def)
  qed
qed

fun accepted_fds :: "accept_round list \<Rightarrow> int list" where
  "accepted_fds [] = []"
| "accepted_fds ((Accepted fd, _) # rounds) = fd # accepted_fds rounds"
| "accepted_fds (_ # rounds) = accepted_fds rounds"

text \<open>The loop ends with a round that is not an error when the signal has been handled.\<close>

definition stops_at :: "bool \<Rightarrow> accept_round list \<Rightarrow> nat \<Rightarrow> bool" where
  "stops_at keep rounds i \<longleftrightarrow> i < length rounds \<and> fst (rounds ! i) \<noteq> AcceptErr \<and>
     (\<not> keep \<or> (\<exists>j \<le> i. fst (snd (rounds ! j))))"

lemma stops_at_0: "stops_at keep (r # rounds) 0 \<longleftrightarrow> fst r \<noteq> AcceptErr \<and> (\<not> keep \<or> fst (snd r))"
  by (auto simp: stops_at_def)

lemma stops_at_Suc: "stops_at keep (r # rounds) (Suc i) \<longleftrightarrow> stops_at (keep \<and> \<not> fst (snd r)) rounds i"
  by (auto simp: stops_at_def Ex_less_Suc2 less_Suc_eq_le[symmetric])

lemma accept_loop_runs:
  assumes "serving st" "\<forall>(r, g, others) \<in> set rounds. polite others" "fresh_contexts env" "\<forall>fd \<in> set (accepted_fds rounds). 0 \<le> fd"
  shows "(accept_loop env keep rounds st = None \<and> (\<forall>i. \<not> stops_at keep rounds i)) \<or>
    (\<exists>n st' evs. accept_loop env keep rounds st = ret (st', drop (Suc n) rounds) \<and> stops_at keep rounds n \<and>
       (\<forall>i < n. \<not> stops_at keep rounds i) \<and> moves st st' \<and> m_events st' = m_events st @ evs \<and>
       list_all2 client_event evs (accepted_fds (take (Suc n) rounds)) \<and>
       main_fds st' = main_fds st + mset (accepted_fds (take (Suc n) rounds)) \<and>
       (\<forall>fd. ClientClosed fd \<in> set evs \<longrightarrow> fd \<in> set (closed_fds (contexts st'))))"
  using assms(1,2,4)
proof (induction rounds arbitrary: keep st)
  case Nil
  then show ?case by (simp add: stops_at_def)
next
  case (Cons x rounds)
  obtain r g others where x: "x = (r, g, others)" by (cases x)
  let ?st = "interleave others st" and ?keep = "keep \<and> \<not> g"
  have st: "moves st ?st" "m_events ?st = m_events st" "main_fds ?st = main_fds st"
    and ok: "\<forall>(r, g, others) \<in> set rounds. polite others" "\<forall>fd \<in> set (accepted_fds rounds). 0 \<le> fd"
    using interleave_serving[of st others] Cons.prems x by (auto simp: x split: accept_result.splits) (cases r; simp)
  have serve: "serving ?st" using st(1) by (simp add: moves_def)
  obtain st1 ev1 where one: "moves st st1" "m_events st1 = m_events st @ ev1"
      "list_all2 client_event ev1 (accepted_fds [x])" "main_fds st1 = main_fds st + mset (accepted_fds [x])"
      "\<forall>fd. ClientClosed fd \<in> set ev1 \<longrightarrow> fd \<in> set (closed_fds (contexts st1))"
      "accept_loop env keep (x # rounds) st =
        (if r \<noteq> AcceptErr \<and> \<not> ?keep then ret (st1, rounds) else accept_loop env ?keep rounds st1)"
  proof (cases r)
    case (Accepted fd)
    then have "0 \<le> fd" using Cons.prems(3) x by simp
    from place_client_serving[OF serve assms(3) this] obtain st' ev where
      p: "place_client env fd ?st = ret st'" "m_events st' = m_events ?st @ [ev]" "client_event ev fd" "moves ?st st'"
      "main_fds st' = main_fds ?st + {#fd#}" "ev = ClientClosed fd \<longrightarrow> fd \<in> set (closed_fds (contexts st'))" by blast
    then show thesis using that[of st' "[ev]"] st moves_trans[OF st(1)]
      by (auto simp: x Accepted sigterm_handler_def client_event_def)
  qed (use that[of ?st "[]"] st in \<open>auto simp: x sigterm_handler_def\<close>)
  have serve1: "serving st1" using one(1) by (simp add: moves_def)
  show ?case
  proof (cases "r \<noteq> AcceptErr \<and> \<not> ?keep")
    case True
    then have "stops_at keep (x # rounds) 0" by (auto simp: stops_at_0 x)
    then show ?thesis using one True by (intro disjI2 exI[of _ 0]) auto
  next
    case False
    then have zero: "\<not> stops_at keep (x # rounds) 0" by (auto simp: stops_at_0 x)
    have suc: "stops_at keep (x # rounds) (Suc i) \<longleftrightarrow> stops_at ?keep rounds i" for i by (simp add: stops_at_Suc x)
    from Cons.IH[OF serve1 ok, of ?keep] show ?thesis
    proof (elim disjE exE conjE)
      assume "accept_loop env ?keep rounds st1 = None" "\<forall>i. \<not> stops_at ?keep rounds i"
      then show ?thesis using one(6) False zero suc by (intro disjI1) (metis not0_implies_Suc)
    next
      fix n st' evs
      assume IH: "accept_loop env ?keep rounds st1 = ret (st', drop (Suc n) rounds)" "stops_at ?keep rounds n"
        "\<forall>i < n. \<not> stops_at ?keep rounds i" "moves st1 st'" "m_events st' = m_events st1 @ evs"
        "list_all2 client_event evs (accepted_fds (take (Suc n) rounds))"
        "main_fds st' = main_fds st1 + mset (accepted_fds (take (Suc n) rounds))"
        "\<forall>fd. ClientClosed fd \<in> set evs \<longrightarrow> fd \<in> set (closed_fds (contexts st'))"
      have "accepted_fds (take (Suc (Suc n)) (x # rounds)) = accepted_fds [x] @ accepted_fds (take (Suc n) rounds)"
        by (cases r) (simp_all add: x)
      moreover have "set (closed_fds (contexts st1)) \<subseteq> set (closed_fds (contexts st'))" using IH(4) by (auto simp: moves_def)
      ultimately show ?thesis using IH one False zero suc moves_trans[OF one(1) IH(4)]
        by (intro disjI2 exI[of _ "Suc n"] exI[of _ st'] exI[of _ "ev1 @ evs"])
          (auto simp: less_Suc_eq_0_disj intro: list_all2_appendI)
    qed
  qed
qed

text \<open>C12: The accept loop ends exactly when \<open>SIGINT\<close> has been handled and an \<open>accept\<close> then does not fail:
  after a failure it goes on without looking at \<open>keep_running\<close>, so a signal during failing calls
  is only noticed later, and with nothing but failures never. It ends with the first such round. By
  then every accepted descriptor, in order, has been given to one of the eight workers, behind its other connections and
  with a context of its own, or, exactly when there is no memory for a context or all are full, closed. The
  descriptors of the pool, closed and open, are those it had before and the accepted ones, each as often as it was
  accepted; nothing crashes. The other threads may do between the rounds whatever keeps the pool in order and loses
  no descriptor, as the workers do.\<close>

theorem accept_loop_places_clients:
  assumes "tp_client st = Some ws" "pool_ok ws (contexts st)" "m_cache st = Some c" "cache_ok c"
    and "\<forall>(r, g, others) \<in> set rounds. polite others"
    and "fresh_contexts env" "\<forall>fd \<in> set (accepted_fds rounds). 0 \<le> fd"
  shows "((accept_loop env True rounds st = None \<and> (\<forall>i. \<not> stops_at True rounds i)) \<or>
    (\<exists>n st' evs ws'. accept_loop env True rounds st = ret (st', drop (Suc n) rounds) \<and>
       stops_at True rounds n \<and> (\<forall>i < n. \<not> stops_at True rounds i) \<and>
       m_events st' = m_events st @ evs \<and> list_all2 client_event evs (accepted_fds (take (Suc n) rounds)) \<and>
       tp_client st' = Some ws' \<and> pool_ok ws' (contexts st') \<and>
       pool_fds ws' (contexts st') = pool_fds ws (contexts st) + mset (accepted_fds (take (Suc n) rounds)) \<and>
       (\<forall>fd. ClientClosed fd \<in> set evs \<longrightarrow> fd \<in> set (closed_fds (contexts st'))))) \<and>
    (\<forall>st fd. serving st \<and> 0 \<le> fd \<longrightarrow> (\<exists>st' ev. place_client env fd st = ret st' \<and>
       m_events st' = m_events st @ [ev] \<and> placed env ev fd st st'))"
proof (intro conjI allI impI)
  have s: "serving st" using assms(1-4) by (simp add: serving_def)
  from accept_loop_runs[OF s assms(5,6,7), of True]
  show "(accept_loop env True rounds st = None \<and> (\<forall>i. \<not> stops_at True rounds i)) \<or>
    (\<exists>n st' evs ws'. accept_loop env True rounds st = ret (st', drop (Suc n) rounds) \<and>
       stops_at True rounds n \<and> (\<forall>i < n. \<not> stops_at True rounds i) \<and>
       m_events st' = m_events st @ evs \<and> list_all2 client_event evs (accepted_fds (take (Suc n) rounds)) \<and>
       tp_client st' = Some ws' \<and> pool_ok ws' (contexts st') \<and>
       pool_fds ws' (contexts st') = pool_fds ws (contexts st) + mset (accepted_fds (take (Suc n) rounds)) \<and>
       (\<forall>fd. ClientClosed fd \<in> set evs \<longrightarrow> fd \<in> set (closed_fds (contexts st'))))"
  proof (elim disjE exE conjE)
    fix n st' evs
    assume r: "accept_loop env True rounds st = ret (st', drop (Suc n) rounds)" "stops_at True rounds n"
      "\<forall>i < n. \<not> stops_at True rounds i" "moves st st'" "m_events st' = m_events st @ evs"
      "list_all2 client_event evs (accepted_fds (take (Suc n) rounds))"
      "main_fds st' = main_fds st + mset (accepted_fds (take (Suc n) rounds))"
      "\<forall>fd. ClientClosed fd \<in> set evs \<longrightarrow> fd \<in> set (closed_fds (contexts st'))"
    from r(4) obtain ws' where "tp_client st' = Some ws'" "pool_ok ws' (contexts st')" by (auto simp: moves_def serving_def)
    then show ?thesis using r assms(1) by (auto simp: main_fds_def)
  qed simp
next
  fix st and fd :: int assume "serving st \<and> 0 \<le> fd"
  then show "\<exists>st' ev. place_client env fd st = ret st' \<and> m_events st' = m_events st @ [ev] \<and> placed env ev fd st st'"
    using place_client_serving[OF _ assms(6), of st fd] by blast
qed

text \<open>Everything is granted, there is memory for one context, and the workers end.\<close>

definition demo_main :: main_env where
  "demo_main = \<lparr>sigaction_ok = True, socket_result = 3, bind_ok = True, listen_ok = True,
     pool_memory = (True, True), thread_created = (\<lambda>_. True), cache_memory = (True, True),
     collector_created = True, context_memory = (\<lambda>mem. if ctxs mem 9 = None then Some 9 else None), joined = (\<lambda>ws mem c. Some (mem, c))\<rparr>"

text \<open>Three rounds: a client, the signal during a failing call, and an interrupted call.\<close>

definition demo_rounds :: "accept_round list" where
  "demo_rounds = [(Accepted 7, False, id), (AcceptErr, True, id), (AcceptIntr, False, id), (Accepted 8, False, id)]"

lemma demo_polite: "\<forall>(r, g, others) \<in> set demo_rounds. polite others"
  by (simp add: demo_rounds_def polite_def)

lemma demo_fresh: "fresh_contexts demo_main"
  by (auto simp: fresh_contexts_def demo_main_def)

lemma demo_fds: "\<forall>fd \<in> set (accepted_fds demo_rounds). 0 \<le> fd"
  by (simp add: demo_rounds_def)

lemma demo_stops: "stops_at True demo_rounds i \<longleftrightarrow> 2 \<le> i \<and> i < 4"
  by (cases i; cases "i - 1"; cases "i - 2"; cases "i - 3")
    (auto simp: demo_rounds_def stops_at_def less_Suc_eq le_Suc_eq nth_Cons')

lemma fresh_pool: "pool_ok (replicate MAX_WORKER_THREADS (the_worker start_state)) mem"
  by (simp add: pool_ok_def worker_ok_def start_state_def slots_def)

lemma empty_cache_ok: "cache_ok (empty_cache mx)"
  using empty_cache_inv unfolding cache_ok_def by blast

theorem accept_loop_places_clients_witness:
  "\<exists>st' ev ws'. accept_loop demo_main True demo_rounds (main_start\<lparr>tp_client := Some (replicate MAX_WORKER_THREADS
      (the_worker start_state)), m_cache := Some (empty_cache 0)\<rparr>) = ret (st', [(Accepted 8, False, id)]) \<and>
    m_events st' = [ev] \<and> client_event ev 7 \<and> tp_client st' = Some ws' \<and> pool_fds ws' (contexts st') = {#7#}"
proof -
  let ?ws = "replicate MAX_WORKER_THREADS (the_worker start_state)"
  let ?st = "main_start\<lparr>tp_client := Some ?ws, m_cache := Some (empty_cache 0)\<rparr>"
  have "tp_client ?st = Some ?ws" "m_cache ?st = Some (empty_cache 0)" by simp_all
  note facts = conjunct1[OF accept_loop_places_clients[OF this(1) fresh_pool this(2) empty_cache_ok demo_polite demo_fresh demo_fds]]
  have "stops_at True demo_rounds 2" by (simp add: demo_stops)
  with facts obtain n st' evs ws' where n: "accept_loop demo_main True demo_rounds ?st = ret (st', drop (Suc n) demo_rounds)"
      "2 \<le> n" "\<forall>i < n. \<not> stops_at True demo_rounds i" "m_events st' = m_events ?st @ evs"
      "list_all2 client_event evs (accepted_fds (take (Suc n) demo_rounds))" "tp_client st' = Some ws'"
      "pool_fds ws' (contexts st') = pool_fds ?ws (contexts ?st) + mset (accepted_fds (take (Suc n) demo_rounds))"
    unfolding demo_stops by blast
  have "\<not> 2 < n" using n(3) \<open>stops_at True demo_rounds 2\<close> by blast
  with n(2) have "n = 2" by simp
  moreover have "pool_fds ?ws (contexts ?st) = {#}"
    by (simp add: pool_fds_def main_start_def slots_def start_state_def socks_def MAX_WORKER_THREADS_def numeral_eq_Suc)
  ultimately show ?thesis using n by (auto simp: demo_rounds_def main_start_def list_all2_Cons2)
qed

subsection \<open>Starting and stopping\<close>

lemma threadpool_init_bounds:
  assumes "threadpool_init True p d creates = (True, pool)"
  shows "\<exists>ws. pool_workers pool = Some ws \<and> pool_ok ws mem"
  using assms fresh_pool by (auto simp: threadpool_init_outcomes split: if_splits)

lemma http_cache_init_cases:
  "http_cache_init m b t mx = ret None \<or> http_cache_init m b t mx = ret (Some (empty_cache mx)) \<or>
     \<not> t \<and> http_cache_init m b t mx = crashed NullDeref"
proof -
  obtain r where "http_cache_shutdown_no_collector (Some (empty_cache mx)) = ret (None, Some r)"
    using http_cache_shutdown_no_collector_spec[OF empty_cache_inv] by blast
  then show ?thesis by (simp add: http_cache_init_def)
qed

text \<open>The end of the thread, with or without a pool and a cache.\<close>

lemma proxy_end_idle:
  assumes "tp_client st = None" "m_cache st = None" "0 \<le> socket_result env"
  shows "proxy_end env st = ret (note_event SocketClosed st)"
  using assms by (cases st) (simp add: proxy_end_def threadpool_shutdown_def http_cache_shutdown_def note_event_def)

lemma proxy_end_releases:
  assumes ws: "tp_client st = Some ws" and c: "pred_option cache_ok (m_cache st)"
    and env: "ends_well env" "0 \<le> socket_result env"
  shows "outcome (proxy_end env st) (\<lambda>st'. tp_client st' = None \<and> m_cache st' = None \<and> stray st' = stray st \<and>
    m_events st' = m_events st @ PoolStopped # (if m_cache st = None then [] else [CacheFreed]) @ [SocketClosed])"
proof (cases "joined env (map (\<lambda>w. w\<lparr>is_shutdown := True\<rparr>) ws) (contexts st) (m_cache st)")
  case None
  then show ?thesis using ws by (simp add: proxy_end_def threadpool_shutdown_def)
next
  case (Some r)
  obtain mem c' where r: "r = (mem, c')" by (cases r)
  have c': "c' = None \<longleftrightarrow> m_cache st = None" "pred_option cache_ok c'"
    using env(1) Some r c unfolding ends_well_def by blast+
  have stop: "threadpool_shutdown env st = ret (note_event PoolStopped (st\<lparr>tp_client := None, contexts := mem, m_cache := c'\<rparr>))"
    using ws Some r by (simp add: threadpool_shutdown_def)
  show ?thesis
  proof (cases c')
    case None
    then show ?thesis using stop c' env(2)
      by (simp add: proxy_end_def http_cache_shutdown_def note_event_def)
  next
    case (Some x)
    with c'(2) obtain bk es ck where "cache_inv x bk es ck" by (auto simp: cache_ok_def)
    from http_cache_shutdown_spec[OF this] obtain m where "http_cache_shutdown (Some x) = ret (None, Some m)" .
    then show ?thesis using stop Some c' env(2)
      by (simp add: proxy_end_def note_event_def)
  qed
qed

text \<open>The events between the creation of the cache and the end of the workers.\<close>

definition is_client :: "main_event \<Rightarrow> bool" where
  "is_client ev \<longleftrightarrow> (\<exists>fd. client_event ev fd)"

text \<open>What the thread took it has given back, in the right order.\<close>

definition all_released :: "main_st \<Rightarrow> bool" where
  "all_released st \<longleftrightarrow> tp_client st = None \<and> m_cache st = None \<and>
     (m_events st \<in> {[], [SocketOpened, SocketClosed], [SocketOpened, PoolStarted, PoolStopped, SocketClosed]} \<or>
      (\<exists>clients. list_all is_client clients \<and> m_events st =
         [SocketOpened, PoolStarted, CacheCreated] @ clients @ [PoolStopped, CacheFreed, SocketClosed]))"

text \<open>What the accept loop relies on.\<close>

definition good_rounds :: "main_env \<Rightarrow> accept_round list \<Rightarrow> bool" where
  "good_rounds env rounds \<longleftrightarrow> (\<forall>(r, g, others) \<in> set rounds. polite others) \<and> fresh_contexts env \<and>
     (\<forall>fd \<in> set (accepted_fds rounds). 0 \<le> fd)"

lemma serve_and_end:
  assumes "serving st" "m_events st = [SocketOpened, PoolStarted, CacheCreated]"
    and "good_rounds env rounds" "ends_well env" "0 \<le> socket_result env"
  shows "outcome (bindR (accept_loop env True rounds st) (\<lambda>(st, _). proxy_end env st)) (\<lambda>st'. all_released st' \<and> stray st' = stray st)"
proof -
  have g: "\<forall>(r, g, others) \<in> set rounds. polite others" "fresh_contexts env" "\<forall>fd \<in> set (accepted_fds rounds). 0 \<le> fd"
    using assms(3) by (simp_all add: good_rounds_def)
  show ?thesis using accept_loop_runs[OF assms(1) g, of True]
  proof (elim disjE exE conjE)
    fix n st' evs
    assume run: "accept_loop env True rounds st = ret (st', drop (Suc n) rounds)" "moves st st'"
      "m_events st' = m_events st @ evs" "list_all2 client_event evs (accepted_fds (take (Suc n) rounds))"
    have "list_all is_client evs"
      using run(4) by (auto simp: list_all_length list_all2_conv_all_nth is_client_def)
    moreover from run(2) obtain ws c where st': "tp_client st' = Some ws" "m_cache st' = Some c" "cache_ok c" "stray st' = stray st"
      unfolding serving_def moves_def by blast
    from st'(2,3) have "outcome (proxy_end env st') (\<lambda>st''. tp_client st'' = None \<and> m_cache st'' = None \<and> stray st'' = stray st' \<and>
        m_events st'' = m_events st' @ [PoolStopped, CacheFreed, SocketClosed])"
      using proxy_end_releases[OF st'(1) _ assms(4,5)] by simp
    ultimately show ?thesis
      using run(1,3) assms(2) st'(4) by (auto simp: all_released_def elim!: outcome_mono)
  qed simp_all
qed

text \<open>What follows the start of the pool.\<close>

definition with_pool :: "main_env \<Rightarrow> accept_round list \<Rightarrow> pool_state \<Rightarrow> http_cache option \<Rightarrow> main_st run" where
  "with_pool env rounds pool cache =
     (let st = note_event PoolStarted ((note_event SocketOpened main_start)\<lparr>tp_client := pool_workers pool\<rparr>) in
      case cache of None \<Rightarrow> proxy_end env st
      | Some c \<Rightarrow> bindR (accept_loop env True rounds (note_event CacheCreated (st\<lparr>m_cache := Some c\<rparr>)))
          (\<lambda>(st, _). proxy_end env st))"

lemma with_pool_releases:
  assumes polite: "good_rounds env rounds" "ends_well env" and sock: "0 \<le> socket_result env"
    and pool: "threadpool_init True (fst (pool_memory env)) (snd (pool_memory env)) (thread_created env) = (True, pool)"
  shows "(\<forall>e. bindR (http_cache_init m1 m2 coll CACHE_SIZE) (with_pool env rounds pool) = crashed e \<longrightarrow> \<not> coll) \<and>
    (\<forall>st. bindR (http_cache_init m1 m2 coll CACHE_SIZE) (with_pool env rounds pool) = ret st \<longrightarrow> all_released st \<and> stray st = [])"
proof -
  let ?pooled = "note_event PoolStarted ((note_event SocketOpened main_start)\<lparr>tp_client := pool_workers pool\<rparr>)"
  from threadpool_init_bounds[OF pool] obtain ws where ws: "pool_workers pool = Some ws" "pool_ok ws (contexts main_start)" by blast
  have p: "tp_client ?pooled = Some ws" "m_cache ?pooled = None" "m_events ?pooled = [SocketOpened, PoolStarted]"
    "stray ?pooled = []" using ws by (simp_all add: note_event_def main_start_def)
  have without: "outcome (with_pool env rounds pool None) (\<lambda>st. all_released st \<and> stray st = [])"
    using proxy_end_releases[OF p(1) _ polite(2) sock] p by (auto simp: all_released_def with_pool_def elim!: outcome_mono)
  have filled: "outcome (with_pool env rounds pool (Some (empty_cache CACHE_SIZE))) (\<lambda>st. all_released st \<and> stray st = [])"
    using serve_and_end[OF _ _ polite sock, of "note_event CacheCreated (?pooled\<lparr>m_cache := Some (empty_cache CACHE_SIZE)\<rparr>)"]
      p ws(2) empty_cache_ok by (simp add: serving_def note_event_def with_pool_def Let_def)
  from http_cache_init_cases[of m1 m2 coll CACHE_SIZE] show ?thesis
    using outcome_not_crashed[OF without] outcome_retD[OF without] outcome_not_crashed[OF filled] outcome_retD[OF filled]
    by auto
qed

text \<open>The workers that had been created when the creation of the next one failed.\<close>

definition lost_workers :: "main_env \<Rightarrow> nat list" where
  "lost_workers env =
     (if sigaction_ok env \<and> 0 \<le> socket_result env \<and> bind_ok env \<and> listen_ok env \<and> fst (pool_memory env) \<and>
         snd (pool_memory env) \<and> \<not> list_all (thread_created env) [0..<MAX_WORKER_THREADS]
      then takeWhile (thread_created env) [0..<MAX_WORKER_THREADS] else [])"

text \<open>C11: Whichever call of \<open>proxy_start\<close> fails, and when it is stopped by the signal, what it took it
  gives back, in the right order, with one exception: the workers of a complete pool are told to stop and joined before
  the cache they use is freed, the listening socket is closed last, and no client is accepted before both exist or after
  the workers were stopped. The pointers to the pool and the cache are \<open>NULL\<close> at the end. The exception:
  when the creation of a worker fails, those created before it are neither stopped nor joined and run on, on memory
  that was freed; in every other case no thread is left. It crashes only when the collector thread cannot be created.\<close>

theorem proxy_start_releases_all:
  assumes "good_rounds env rounds" and "ends_well env"
  shows "(\<forall>e. proxy_start env rounds = crashed e \<longrightarrow> \<not> collector_created env) \<and>
    (\<forall>st. proxy_start env rounds = ret st \<longrightarrow> all_released st \<and> stray st = lost_workers env)"
proof (cases "\<not> sigaction_ok env \<or> socket_result env < 0 \<or> \<not> bind_ok env \<or> \<not> listen_ok env")
  case True
  then show ?thesis by (auto simp: proxy_start_def main_start_def note_event_def Let_def all_released_def lost_workers_def)
next
  case False
  then have sock: "0 \<le> socket_result env" by simp
  show ?thesis
  proof (cases "threadpool_init True (fst (pool_memory env)) (snd (pool_memory env)) (thread_created env)")
    case (Pair ok pool)
    show ?thesis
    proof (cases ok)
      case no_pool: False
      let ?opened = "(note_event SocketOpened main_start)\<lparr>stray := running pool\<rparr>"
      have none: "tp_client ?opened = None" "m_cache ?opened = None" by (simp_all add: note_event_def main_start_def)
      have "proxy_start env rounds = proxy_end env ?opened"
        using False no_pool Pair by (simp add: proxy_start_def Let_def)
      moreover have "running pool = lost_workers env"
        using False no_pool Pair by (auto simp: threadpool_init_outcomes lost_workers_def split: if_splits)
      ultimately show ?thesis
        using proxy_end_idle[OF none sock] by (auto simp: note_event_def main_start_def all_released_def)
    next
      case True
      have "proxy_start env rounds =
          bindR (http_cache_init (fst (cache_memory env)) (snd (cache_memory env)) (collector_created env) CACHE_SIZE)
            (with_pool env rounds pool)"
        using False True Pair unfolding proxy_start_def by (simp add: with_pool_def[abs_def] Let_def)
      moreover have "threadpool_init True (fst (pool_memory env)) (snd (pool_memory env)) (thread_created env) = (True, pool)"
        using Pair True by simp
      note with_pool_releases[OF assms sock this]
      moreover have "lost_workers env = []"
        using Pair True by (auto simp: threadpool_init_outcomes lost_workers_def split: if_splits)
      ultimately show ?thesis by metis
    qed
  qed
qed

lemma demo_main_ends:
  assumes "serving st" shows "proxy_end demo_main st \<noteq> None"
proof -
  from assms obtain ws c where st: "tp_client st = Some ws" "m_cache st = Some c" "cache_ok c"
    unfolding serving_def by blast
  from st(3) obtain bk es ck where "cache_inv c bk es ck" unfolding cache_ok_def by blast
  from http_cache_shutdown_spec[OF this] obtain m where "http_cache_shutdown (Some c) = ret (None, Some m)" .
  with st show ?thesis
    by (simp add: proxy_end_def threadpool_shutdown_def demo_main_def note_event_def ret_def bindR_def)
qed

lemma demo_good: "good_rounds demo_main demo_rounds"
  using demo_polite demo_fresh demo_fds by (simp add: good_rounds_def)

lemma demo_main_returns: "proxy_start demo_main demo_rounds \<noteq> None"
proof -
  let ?ws = "replicate MAX_WORKER_THREADS (the_worker start_state)"
  have pool: "threadpool_init True True True (\<lambda>_. True) = (True, \<lparr>pool_workers = Some ?ws, running = [0..<MAX_WORKER_THREADS]\<rparr>)"
    by (simp add: threadpool_init_outcomes list_all_iff)
  let ?st = "note_event CacheCreated ((note_event PoolStarted ((note_event SocketOpened main_start)
    \<lparr>tp_client := Some ?ws\<rparr>))\<lparr>m_cache := Some (empty_cache CACHE_SIZE)\<rparr>)"
  have "serving ?st" using fresh_pool empty_cache_ok by (simp add: serving_def note_event_def)
  moreover have "stops_at True demo_rounds 2" by (simp add: demo_stops)
  ultimately obtain x rest where x: "accept_loop demo_main True demo_rounds ?st = ret (x, rest)" "moves ?st x"
    using accept_loop_runs[OF _ demo_polite demo_fresh demo_fds, of ?st True] by blast
  then have "proxy_start demo_main demo_rounds = proxy_end demo_main x"
    using pool by (simp add: proxy_start_def Let_def demo_main_def http_cache_init_def)
  moreover have "serving x" using x(2) by (simp add: moves_def)
  ultimately show ?thesis using demo_main_ends by simp
qed

theorem proxy_start_releases_all_witness:
  "\<exists>st. proxy_start demo_main demo_rounds = ret st \<and> all_released st \<and> stray st = []"
proof -
  have e: "ends_well demo_main" by (simp add: ends_well_def demo_main_def)
  have l: "lost_workers demo_main = []" by (simp add: lost_workers_def demo_main_def list_all_iff)
  from proxy_start_releases_all[OF demo_good e] demo_main_returns l show ?thesis
    by (cases "proxy_start demo_main demo_rounds") (auto simp: demo_main_def ret_def crashed_def split: sum.splits, metis sumE)
qed

end
