(* ===== verification/Logging.thy ===== *)
theory Logging
  imports Prelude
begin

section \<open>The log library\<close>

text \<open>
  \<^verbatim>\<open>third_party/log.c\<close>: a level, a quiet flag, an optional lock function and a table of callbacks. A
  function pointer is a number; what a call does to the outside is a list of effects. The formatted text itself
  and the time are left to the C library.
\<close>

definition MAX_CALLBACKS :: nat where
  "MAX_CALLBACKS = 32"

record log_callback =
  cb_fn :: nat
  cb_udata :: nat
  cb_level :: int

record log_state =
  log_udata :: nat
  log_lock :: "nat option"
  log_level :: int
  log_quiet :: bool
  log_callbacks :: "log_callback option list"

definition log_start :: log_state where
  "log_start = \<lparr>log_udata = 0, log_lock = None, log_level = 0, log_quiet = False,
     log_callbacks = replicate MAX_CALLBACKS None\<rparr>"

definition level_strings :: "string list" where
  "level_strings = [''TRACE'', ''DEBUG'', ''INFO'', ''WARN'', ''ERROR'', ''FATAL'']"

definition log_level_string :: "int \<Rightarrow> string run" where
  "log_level_string level = (if 0 \<le> level \<and> nat level < length level_strings then ret (level_strings ! nat level)
     else crashed OutOfBounds)"

text \<open>
  The effects: the lock function called with a flag, a line with its level on the standard error stream, and a
  callback called with its data and the event.
\<close>

datatype log_effect =
    Lock_call nat bool nat
  | Line string
  | Callback_call nat nat int

definition lock_effect :: "bool \<Rightarrow> log_state \<Rightarrow> log_effect list" where
  "lock_effect b L = (case log_lock L of None \<Rightarrow> [] | Some f \<Rightarrow> [Lock_call f b (log_udata L)])"

definition stdout_callback :: "int \<Rightarrow> log_effect list \<Rightarrow> log_effect list run" where
  "stdout_callback level es = bindR (log_level_string level) (\<lambda>str. ret (es @ [Line str]))"

definition log_set_lock :: "nat option \<Rightarrow> nat \<Rightarrow> log_state \<Rightarrow> log_state" where
  "log_set_lock f u L = L\<lparr>log_lock := f, log_udata := u\<rparr>"

definition log_set_level :: "int \<Rightarrow> log_state \<Rightarrow> log_state" where
  "log_set_level level L = L\<lparr>log_level := level\<rparr>"

definition log_set_quiet :: "bool \<Rightarrow> log_state \<Rightarrow> log_state" where
  "log_set_quiet q L = L\<lparr>log_quiet := q\<rparr>"

text \<open>The first free element of the table, by the index \<open>i\<close> of the loop.\<close>

function add_callback_from :: "nat \<Rightarrow> log_callback \<Rightarrow> log_state \<Rightarrow> int \<times> log_state" where
  "add_callback_from i cb L =
     (if i < MAX_CALLBACKS then
        if log_callbacks L ! i = None then (0, L\<lparr>log_callbacks := (log_callbacks L)[i := Some cb]\<rparr>)
        else add_callback_from (i + 1) cb L
      else (-1, L))"
  by pat_completeness auto
termination by (relation "measure (\<lambda>(i, _). MAX_CALLBACKS - i)") auto

definition log_add_callback :: "nat \<Rightarrow> nat \<Rightarrow> int \<Rightarrow> log_state \<Rightarrow> int \<times> log_state" where
  "log_add_callback f u level L = add_callback_from 0 \<lparr>cb_fn = f, cb_udata = u, cb_level = level\<rparr> L"

text \<open>\<open>file_callback\<close> is the number of the function of that name.\<close>

definition log_add_fp :: "nat \<Rightarrow> nat \<Rightarrow> int \<Rightarrow> log_state \<Rightarrow> int \<times> log_state" where
  "log_add_fp file_callback fp level L = log_add_callback file_callback fp level L"

text \<open>The loop over the callbacks stops at the first free element.\<close>

function call_callbacks_from :: "nat \<Rightarrow> int \<Rightarrow> log_state \<Rightarrow> log_effect list \<Rightarrow> log_effect list" where
  "call_callbacks_from i level L es =
     (if i < MAX_CALLBACKS then
        case log_callbacks L ! i of None \<Rightarrow> es
        | Some cb \<Rightarrow> call_callbacks_from (i + 1) level L
            (if cb_level cb \<le> level then es @ [Callback_call (cb_fn cb) (cb_udata cb) level] else es)
      else es)"
  by pat_completeness auto
termination by (relation "measure (\<lambda>(i, _). MAX_CALLBACKS - i)") auto

declare add_callback_from.simps [simp del] call_callbacks_from.simps [simp del]

definition log_log :: "int \<Rightarrow> log_state \<Rightarrow> log_effect list run" where
  "log_log level L = bindR
     (if \<not> log_quiet L \<and> log_level L \<le> level then stdout_callback level (lock_effect True L) else ret (lock_effect True L))
     (\<lambda>es. ret (call_callbacks_from 0 level L es @ lock_effect False L))"

end
