(* ===== verification/LoggingProps.thy ===== *)
theory LoggingProps
  imports Logging
begin

section \<open>Properties of the log library\<close>

text \<open>Every callback registered is called, in the order of registration, for the events at or above its level.\<close>

subsection \<open>The table\<close>

text \<open>The registered callbacks fill the table from the front.\<close>

definition registered :: "log_state \<Rightarrow> log_callback list \<Rightarrow> bool" where
  "registered L cbs \<longleftrightarrow> length cbs \<le> MAX_CALLBACKS \<and>
     log_callbacks L = map Some cbs @ replicate (MAX_CALLBACKS - length cbs) None"

lemma registered_nth: "registered L cbs \<Longrightarrow> i < MAX_CALLBACKS \<Longrightarrow> log_callbacks L ! i = (if i < length cbs then Some (cbs ! i) else None)"
  by (auto simp: registered_def nth_append)

lemma add_callback_from_spec:
  assumes "registered L cbs" "i \<le> length cbs"
  shows "add_callback_from i cb L =
    (if length cbs < MAX_CALLBACKS then (0, L\<lparr>log_callbacks := (log_callbacks L)[length cbs := Some cb]\<rparr>) else (-1, L))"
  using assms
proof (induction "length cbs - i" arbitrary: i)
  case 0
  then show ?case
    using registered_nth[OF assms(1), of i] by (subst add_callback_from.simps) (auto simp: registered_def)
next
  case (Suc k)
  then have "i < length cbs" "i < MAX_CALLBACKS" using assms(1) by (auto simp: registered_def)
  then show ?case
    using Suc registered_nth[OF assms(1), of i] by (subst add_callback_from.simps) simp
qed

lemma registered_add:
  assumes "registered L cbs" "length cbs < MAX_CALLBACKS"
  shows "registered (L\<lparr>log_callbacks := (log_callbacks L)[length cbs := Some cb]\<rparr>) (cbs @ [cb])"
proof -
  have "replicate (MAX_CALLBACKS - length cbs) (None :: log_callback option) = None # replicate (MAX_CALLBACKS - Suc (length cbs)) None"
    using assms(2) by (metis Suc_diff_Suc replicate_Suc)
  then show ?thesis using assms by (simp add: registered_def list_update_append)
qed

lemma call_callbacks_from_spec:
  assumes "registered L cbs" "i \<le> length cbs"
  shows "call_callbacks_from i level L es =
    es @ map (\<lambda>cb. Callback_call (cb_fn cb) (cb_udata cb) level) (filter (\<lambda>cb. cb_level cb \<le> level) (drop i cbs))"
  using assms(2)
proof (induction "length cbs - i" arbitrary: i es)
  case 0
  then show ?case
    using registered_nth[OF assms(1), of i] by (subst call_callbacks_from.simps) simp
next
  case (Suc k)
  then have i: "i < length cbs" "i < MAX_CALLBACKS" using assms(1) by (auto simp: registered_def)
  then have "drop i cbs = cbs ! i # drop (i + 1) cbs" by (simp add: Cons_nth_drop_Suc)
  then show ?case
    using Suc i registered_nth[OF assms(1), of i] by (subst call_callbacks_from.simps) simp
qed

text \<open>Registrations one after the other, with the results they return.\<close>

fun add_all :: "log_callback list \<Rightarrow> log_state \<Rightarrow> int list \<times> log_state" where
  "add_all [] L = ([], L)"
| "add_all (cb # cbs) L = (let (r, L) = log_add_callback (cb_fn cb) (cb_udata cb) (cb_level cb) L; (rs, L) = add_all cbs L in (r # rs, L))"

definition same_settings :: "log_state \<Rightarrow> log_state \<Rightarrow> bool" where
  "same_settings L L' \<longleftrightarrow> log_quiet L' = log_quiet L \<and> log_level L' = log_level L \<and> log_lock L' = log_lock L \<and> log_udata L' = log_udata L"

lemma add_all_spec:
  "registered L cbs \<Longrightarrow> \<exists>rs L'. add_all new L = (rs, L') \<and> registered L' (take MAX_CALLBACKS (cbs @ new)) \<and>
     rs = map (\<lambda>k. if length cbs + k < MAX_CALLBACKS then 0 else -1) [0..<length new] \<and>
     same_settings L L'"
proof (induction new arbitrary: L cbs)
  case Nil
  then show ?case by (auto simp: registered_def same_settings_def)
next
  case (Cons cb new)
  have ups: "map (\<lambda>k. if length cbs + k < MAX_CALLBACKS then 0 else - 1) [0..<length (cb # new)] =
    (if length cbs < MAX_CALLBACKS then 0 else - 1 :: int) # map (\<lambda>k. if Suc (length cbs) + k < MAX_CALLBACKS then 0 else - 1) [0..<length new]"
    by (simp add: upt_conv_Cons map_Suc_upt[symmetric] del: upt_Suc)
  show ?case
  proof (cases "length cbs < MAX_CALLBACKS")
    case True
    let ?L = "L\<lparr>log_callbacks := (log_callbacks L)[length cbs := Some cb]\<rparr>"
    have "log_add_callback (cb_fn cb) (cb_udata cb) (cb_level cb) L = (0, ?L)"
      using add_callback_from_spec[OF Cons.prems, of 0 cb] True by (cases cb) (simp add: log_add_callback_def)
    moreover obtain rs L' where "add_all new ?L = (rs, L')" "registered L' (take MAX_CALLBACKS ((cbs @ [cb]) @ new))"
      "rs = map (\<lambda>k. if length (cbs @ [cb]) + k < MAX_CALLBACKS then 0 else -1) [0..<length new]"
      "same_settings ?L L'"
      using Cons.IH[OF registered_add[OF Cons.prems True]] by blast
    ultimately show ?thesis unfolding ups using True by (simp add: same_settings_def)
  next
    case False
    then have full: "length cbs = MAX_CALLBACKS" using Cons.prems by (simp add: registered_def)
    have "log_add_callback (cb_fn cb) (cb_udata cb) (cb_level cb) L = (-1, L)"
      using add_callback_from_spec[OF Cons.prems, of 0 cb] False by (cases cb) (simp add: log_add_callback_def)
    moreover obtain rs L' where "add_all new L = (rs, L')" "registered L' (take MAX_CALLBACKS (cbs @ new))"
      "rs = map (\<lambda>k. if length cbs + k < MAX_CALLBACKS then 0 else -1) [0..<length new]" "same_settings L L'"
      using Cons.IH[OF Cons.prems] by blast
    ultimately show ?thesis unfolding ups using full by simp
  qed
qed

text \<open>
  Logging. Of the callbacks registered one after the other, the first 32 are accepted and every further one is refused
  with -1. An event then calls exactly the accepted callbacks whose level it reaches, in the order of their
  registration and after the line on the standard error stream, which it gets when the log is not quiet
  and its level is reached; all of it between one call of the lock function and one call that unlocks. It crashes
  only when the level of a printed event is none of the six.
\<close>

theorem log_log_calls_registered:
  assumes "add_all cbs L = (rs, L')" "log_callbacks L = log_callbacks log_start"
  shows "rs = map (\<lambda>k. if k < MAX_CALLBACKS then 0 else -1) [0..<length cbs] \<and>
    log_log level L' =
      (if \<not> log_quiet L \<and> log_level L \<le> level \<and> (level < 0 \<or> 5 < level) then crashed OutOfBounds
       else ret (lock_effect True L @
         (if \<not> log_quiet L \<and> log_level L \<le> level then [Line (level_strings ! nat level)] else []) @
         map (\<lambda>cb. Callback_call (cb_fn cb) (cb_udata cb) level)
           (filter (\<lambda>cb. cb_level cb \<le> level) (take MAX_CALLBACKS cbs)) @
         lock_effect False L))"
proof -
  have "registered L []" using assms(2) by (simp add: registered_def log_start_def)
  from add_all_spec[OF this, of cbs] assms(1) have r: "registered L' (take MAX_CALLBACKS cbs)"
    "rs = map (\<lambda>k. if k < MAX_CALLBACKS then 0 else -1) [0..<length cbs]" "same_settings L L'" by auto
  moreover have "log_level_string level = (if level < 0 \<or> 5 < level then crashed OutOfBounds else ret (level_strings ! nat level))"
    by (auto simp: log_level_string_def level_strings_def)
  moreover have "lock_effect b L' = lock_effect b L" for b using r(3) by (simp add: lock_effect_def same_settings_def split: option.split)
  ultimately show ?thesis
    using call_callbacks_from_spec[OF r(1), of 0 level] by (simp add: log_log_def stdout_callback_def same_settings_def)
qed

theorem log_log_calls_registered_witness:
  "\<exists>L. log_log 2 L = ret [Line ''INFO'', Callback_call 7 0 2]"
proof -
  let ?cbs = "[\<lparr>cb_fn = 7, cb_udata = 0, cb_level = 1\<rparr>, \<lparr>cb_fn = 8, cb_udata = 0, cb_level = 4\<rparr>]"
  have "log_log 2 (snd (add_all ?cbs log_start)) = ret [Line ''INFO'', Callback_call 7 0 2]"
    using log_log_calls_registered[of ?cbs log_start "fst (add_all ?cbs log_start)" "snd (add_all ?cbs log_start)" 2]
    by (simp add: log_start_def lock_effect_def level_strings_def MAX_CALLBACKS_def take_Cons')
  then show ?thesis by blast
qed

end
