(* ===== verification/Chunked.thy ===== *)
theory Chunked
  imports Picohttp
begin

section \<open>The decoder of chunked bodies\<close>

text \<open>
  \<^verbatim>\<open>phr_decode_chunked\<close> of \<^verbatim>\<open>third_party/picohttpparser.c\<close>: a state machine that takes the chunk
  headers out of a buffer in place and keeps its place between calls in a decoder. \<open>size_t\<close> and
  \<open>uint64_t\<close> values that may wrap are words; \<open>src\<close> and \<open>dst\<close>, which stay below \<open>bufsz\<close>, are
  numbers.
\<close>

datatype chunked_state =
    CHUNKED_IN_CHUNK_SIZE
  | CHUNKED_IN_CHUNK_EXT
  | CHUNKED_IN_CHUNK_DATA
  | CHUNKED_IN_CHUNK_CRLF
  | CHUNKED_IN_TRAILERS_LINE_HEAD
  | CHUNKED_IN_TRAILERS_LINE_MIDDLE

record phr_chunked_decoder =
  bytes_left_in_chunk :: "64 word"
  consume_trailer :: bool
  hex_count :: nat
  chunked_state :: chunked_state
  total_read :: "64 word"
  total_overhead :: "64 word"

text \<open>The decoder filled with zeros, but for the flag of the caller.\<close>

definition fresh_decoder :: "bool \<Rightarrow> phr_chunked_decoder" where
  "fresh_decoder trailer = \<lparr>bytes_left_in_chunk = 0, consume_trailer = trailer, hex_count = 0,
     chunked_state = CHUNKED_IN_CHUNK_SIZE, total_read = 0, total_overhead = 0\<rparr>"

text \<open>The local variables, with the buffer.\<close>

record cursor =
  buf :: string
  src :: nat
  dst :: nat

text \<open>
  How a piece of the switch ends: by falling through to the next (\<open>None\<close>), with \<open>break\<close>, at the
  label \<open>Exit\<close> with \<open>ret = -2\<close> or \<open>ret = -1\<close>, or at the label \<open>Complete\<close>.
\<close>

datatype leave = Break | Incomplete | Invalid | Complete

type_synonym chunk_code = "phr_chunked_decoder \<times> cursor \<Rightarrow> (phr_chunked_decoder \<times> cursor) \<times> leave option"

text \<open>One piece of code falling through to the next.\<close>

definition fallthru :: "chunk_code \<Rightarrow> chunk_code \<Rightarrow> chunk_code" where
  "fallthru f g s = (case f s of (s', None) \<Rightarrow> g s' | (s', Some e) \<Rightarrow> (s', Some e))"

definition decode_hex :: "char \<Rightarrow> int" where
  "decode_hex ch =
     (if code CHR ''0'' \<le> code ch \<and> code ch \<le> code CHR ''9'' then int (code ch) - int (code CHR ''0'')
      else if code CHR ''A'' \<le> code ch \<and> code ch \<le> code CHR ''F'' then int (code ch) - int (code CHR ''A'') + 0xa
      else if code CHR ''a'' \<le> code ch \<and> code ch \<le> code CHR ''f'' then int (code ch) - int (code CHR ''a'') + 0xa
      else -1)"

definition after_size :: "char \<Rightarrow> bool" where
  "after_size ch \<longleftrightarrow> ch \<in> {CHR '' '', CHR 0x09, CHR '';'', LF, CR}"

text \<open>\<open>memmove(buf + dst, buf + src, n)\<close>\<close>

definition memmove :: "string \<Rightarrow> nat \<Rightarrow> nat \<Rightarrow> nat \<Rightarrow> string" where
  "memmove b to frm n =
     map (\<lambda>i. if to \<le> i \<and> i < to + n then b ! (frm + (i - to)) else b ! i) [0..<length b]"

text \<open>
  The loop over the digits of the size, on the bytes from \<open>src\<close> on: it gives the decoder, how far it
  came and how it ended.
\<close>

fun size_loop :: "phr_chunked_decoder \<Rightarrow> nat \<Rightarrow> string \<Rightarrow> phr_chunked_decoder \<times> nat \<times> leave option" where
  "size_loop d i [] = (d, i, Some Incomplete)"
| "size_loop d i (ch # s) =
     (let v = decode_hex ch in
      if v = -1 then
        (if hex_count d = 0 then (d, i, Some Invalid)
         else if after_size ch then (d, i, None)
         else (d, i, Some Invalid))
      else if hex_count d = 16 then (d, i, Some Invalid)
      else size_loop (d\<lparr>bytes_left_in_chunk := bytes_left_in_chunk d * 16 + word_of_int v,
                        hex_count := hex_count d + 1\<rparr>) (Suc i) s)"

text \<open>The loops that advance \<open>src\<close> to a byte or to the end of the buffer.\<close>

definition skip_until :: "(char \<Rightarrow> bool) \<Rightarrow> cursor \<Rightarrow> cursor" where
  "skip_until stop c = c\<lparr>src := src c + length (takeWhile (\<lambda>ch. \<not> stop ch) (drop (src c) (buf c)))\<rparr>"

abbreviation at_end :: "cursor \<Rightarrow> bool" where "at_end c \<equiv> length (buf c) \<le> src c"

abbreviation here :: "cursor \<Rightarrow> char" where "here c \<equiv> buf c ! src c"

abbreviation advance :: "nat \<Rightarrow> cursor \<Rightarrow> cursor" where "advance n c \<equiv> c\<lparr>src := src c + n\<rparr>"

definition in_chunk_size :: chunk_code where
  "in_chunk_size = (\<lambda>(d, c). case size_loop d (src c) (drop (src c) (buf c)) of
      (d', i, None) \<Rightarrow> ((d'\<lparr>hex_count := 0, chunked_state := CHUNKED_IN_CHUNK_EXT\<rparr>, c\<lparr>src := i\<rparr>), None)
    | (d', i, Some e) \<Rightarrow> ((d', c\<lparr>src := i\<rparr>), Some e))"

definition in_chunk_ext :: chunk_code where
  "in_chunk_ext = (\<lambda>(d, c). let c = skip_until (\<lambda>ch. ch = LF) c in
     if at_end c then ((d, c), Some Incomplete)
     else let c = advance 1 c in
       if bytes_left_in_chunk d = 0 then
         (if consume_trailer d
          then ((d\<lparr>chunked_state := CHUNKED_IN_TRAILERS_LINE_HEAD\<rparr>, c), Some Break)
          else ((d, c), Some Complete))
       else ((d\<lparr>chunked_state := CHUNKED_IN_CHUNK_DATA\<rparr>, c), None))"

definition in_chunk_data :: chunk_code where
  "in_chunk_data = (\<lambda>(d, c).
     let avail = length (buf c) - src c; left = unat (bytes_left_in_chunk d) in
     if avail < left then
       ((d\<lparr>bytes_left_in_chunk := bytes_left_in_chunk d - of_nat avail\<rparr>,
         c\<lparr>buf := (if dst c \<noteq> src c then memmove (buf c) (dst c) (src c) avail else buf c),
           src := src c + avail, dst := dst c + avail\<rparr>), Some Incomplete)
     else
       ((d\<lparr>bytes_left_in_chunk := 0, chunked_state := CHUNKED_IN_CHUNK_CRLF\<rparr>,
         c\<lparr>buf := (if dst c \<noteq> src c then memmove (buf c) (dst c) (src c) left else buf c),
           src := src c + left, dst := dst c + left\<rparr>), None))"

definition in_chunk_crlf :: chunk_code where
  "in_chunk_crlf = (\<lambda>(d, c). let c = skip_until (\<lambda>ch. ch \<noteq> CR) c in
     if at_end c then ((d, c), Some Incomplete)
     else if here c \<noteq> LF then ((d, c), Some Invalid)
     else ((d\<lparr>chunked_state := CHUNKED_IN_CHUNK_SIZE\<rparr>, advance 1 c), Some Break))"

definition in_trailers_line_head :: chunk_code where
  "in_trailers_line_head = (\<lambda>(d, c). let c = skip_until (\<lambda>ch. ch \<noteq> CR) c in
     if at_end c then ((d, c), Some Incomplete)
     else if here c = LF then ((d, advance 1 c), Some Complete)
     else ((d\<lparr>chunked_state := CHUNKED_IN_TRAILERS_LINE_MIDDLE\<rparr>, advance 1 c), None))"

definition in_trailers_line_middle :: chunk_code where
  "in_trailers_line_middle = (\<lambda>(d, c). let c = skip_until (\<lambda>ch. ch = LF) c in
     if at_end c then ((d, c), Some Incomplete)
     else ((d\<lparr>chunked_state := CHUNKED_IN_TRAILERS_LINE_HEAD\<rparr>, advance 1 c), Some Break))"

text \<open>The \<open>switch\<close>, entered at the state of the decoder.\<close>

definition from_data :: chunk_code where
  "from_data = fallthru in_chunk_data in_chunk_crlf"

definition from_ext :: chunk_code where
  "from_ext = fallthru in_chunk_ext from_data"

fun decode_switch :: "chunked_state \<Rightarrow> chunk_code" where
  "decode_switch CHUNKED_IN_CHUNK_SIZE = fallthru in_chunk_size from_ext"
| "decode_switch CHUNKED_IN_CHUNK_EXT = from_ext"
| "decode_switch CHUNKED_IN_CHUNK_DATA = from_data"
| "decode_switch CHUNKED_IN_CHUNK_CRLF = in_chunk_crlf"
| "decode_switch CHUNKED_IN_TRAILERS_LINE_HEAD = fallthru in_trailers_line_head in_trailers_line_middle"
| "decode_switch CHUNKED_IN_TRAILERS_LINE_MIDDLE = in_trailers_line_middle"

text \<open>
  Every round that stays in the loop has read a byte: \<open>moves_on f\<close> says that the piece \<open>f\<close> never goes
  back, and reads at least one byte inside the buffer when it ends with \<open>break\<close>.
\<close>

lemma skip_until_simps [simp]:
  "buf (skip_until P c) = buf c" "dst (skip_until P c) = dst c" "src c \<le> src (skip_until P c)"
  by (simp_all add: skip_until_def)

lemma length_memmove [simp]: "length (memmove b t s n) = length b"
  by (simp add: memmove_def)

definition moves_on :: "chunk_code \<Rightarrow> bool" where
  "moves_on f \<longleftrightarrow> (\<forall>d c d' c' e. f (d, c) = ((d', c'), e) \<longrightarrow>
     length (buf c') = length (buf c) \<and> src c \<le> src c' \<and>
     (e = Some Break \<longrightarrow> src c < src c' \<and> src c' \<le> length (buf c')))"

definition never_falls :: "chunk_code \<Rightarrow> bool" where
  "never_falls f \<longleftrightarrow> (\<forall>s. snd (f s) \<noteq> None)"

lemma moves_on_fallthru: "moves_on f \<Longrightarrow> moves_on g \<Longrightarrow> moves_on (fallthru f g)"
  unfolding moves_on_def fallthru_def
  by (auto split: prod.splits option.splits) (metis le_trans le_less_trans)+

lemma never_falls_fallthru: "never_falls g \<Longrightarrow> never_falls (fallthru f g)"
  by (auto simp: never_falls_def fallthru_def split: prod.splits option.splits)

lemma size_loop_moves: "size_loop d i s = (d', j, e) \<Longrightarrow> i \<le> j \<and> e \<noteq> Some Break"
  by (induction d i s rule: size_loop.induct) (auto simp: Let_def split: if_splits)

lemma moves_on_size: "moves_on in_chunk_size"
  unfolding moves_on_def in_chunk_size_def
  by (auto split: prod.splits option.splits dest: size_loop_moves)

lemma moves_on_pieces:
  "moves_on in_chunk_ext" "moves_on in_chunk_data" "moves_on in_chunk_crlf"
  "moves_on in_trailers_line_head" "moves_on in_trailers_line_middle"
  unfolding moves_on_def in_chunk_ext_def in_chunk_data_def in_chunk_crlf_def
    in_trailers_line_head_def in_trailers_line_middle_def Let_def
  by (auto split: if_splits simp: less_Suc_eq_le le_SucI)

lemma never_falls_pieces: "never_falls in_chunk_crlf" "never_falls in_trailers_line_middle"
  unfolding never_falls_def in_chunk_crlf_def in_trailers_line_middle_def Let_def
  by (auto split: if_splits)

lemma decode_switch_moves: "moves_on (decode_switch st)" "never_falls (decode_switch st)"
  by (cases st; simp add: from_data_def from_ext_def moves_on_fallthru never_falls_fallthru
        moves_on_size moves_on_pieces never_falls_pieces)+

lemma decode_switch_reads:
  assumes "decode_switch st (d, c) = ((d', c'), Some Break)"
  shows "length (buf c') - src c' < length (buf c) - src c"
proof -
  have "length (buf c') = length (buf c) \<and> src c < src c' \<and> src c' \<le> length (buf c')"
    using decode_switch_moves(1) [of st] assms unfolding moves_on_def by blast
  then show ?thesis by linarith
qed

function decode_loop :: "phr_chunked_decoder \<times> cursor \<Rightarrow> (phr_chunked_decoder \<times> cursor) \<times> leave" where
  "decode_loop s = (case decode_switch (chunked_state (fst s)) s of
      (s', Some Break) \<Rightarrow> decode_loop s'
    | (s', Some e) \<Rightarrow> (s', e)
    | (s', None) \<Rightarrow> (s', Break))"
  by pat_completeness auto
termination
  by (relation "measure (\<lambda>(d, c). length (buf c) - src c)") (auto dest: decode_switch_reads [OF sym])

declare decode_loop.simps [simp del]

text \<open>The function: what it returns, the decoder, the buffer and \<open>*bufsz\<close>.\<close>

definition phr_decode_chunked ::
    "phr_chunked_decoder \<Rightarrow> string \<Rightarrow> int \<times> phr_chunked_decoder \<times> string \<times> nat" where
  "phr_decode_chunked d b =
     (let bufsz = length b;
          d = d\<lparr>total_read := total_read d + of_nat bufsz\<rparr>;
          ((d, c), e) = decode_loop (d, \<lparr>buf = b, src = 0, dst = 0\<rparr>);
          r = (case e of Complete \<Rightarrow> int (bufsz - src c) | Invalid \<Rightarrow> -1 | _ \<Rightarrow> -2);
          b = (if dst c \<noteq> src c then memmove (buf c) (dst c) (src c) (bufsz - src c) else buf c)
      in if r = -2 then
           let d = d\<lparr>total_overhead := total_overhead d + of_nat (bufsz - dst c)\<rparr> in
           (if 100 * 1024 \<le> total_overhead d \<and>
               total_read d - total_overhead d < total_read d div 4
            then (-1, d, b, dst c) else (-2, d, b, dst c))
         else (r, d, b, dst c))"

definition phr_decode_chunked_is_in_data :: "phr_chunked_decoder \<Rightarrow> bool" where
  "phr_decode_chunked_is_in_data d \<longleftrightarrow> chunked_state d = CHUNKED_IN_CHUNK_DATA"

end
