(* ===== verification/ChunkedProps.thy ===== *)
theory ChunkedProps
  imports Chunked
begin

section \<open>The decoder of chunked bodies: an automaton over the bytes\<close>

text \<open>
  The reference is an automaton that reads one byte at a time and appends what it decodes; the code
  works on blocks, in place, with three cases falling through. \<open>simulates\<close> relates a piece of the
  code to runs of the automaton, and follows the structure of the code. Calls with consecutive
  pieces of the input are then one run.
\<close>

subsection \<open>The automaton\<close>

definition ext_step :: "phr_chunked_decoder \<Rightarrow> char \<Rightarrow> phr_chunked_decoder \<times> string \<times> leave option" where
  "ext_step d ch =
     (if ch \<noteq> LF then (d, [], None)
      else if bytes_left_in_chunk d = 0 then
        (if consume_trailer d then (d\<lparr>chunked_state := CHUNKED_IN_TRAILERS_LINE_HEAD\<rparr>, [], None)
         else (d, [], Some Complete))
      else (d\<lparr>chunked_state := CHUNKED_IN_CHUNK_DATA\<rparr>, [], None))"

definition size_step :: "phr_chunked_decoder \<Rightarrow> char \<Rightarrow> phr_chunked_decoder \<times> string \<times> leave option" where
  "size_step d ch =
     (if decode_hex ch = -1 then
        (if hex_count d = 0 \<or> \<not> after_size ch then (d, [], Some Invalid)
         else ext_step (d\<lparr>hex_count := 0, chunked_state := CHUNKED_IN_CHUNK_EXT\<rparr>) ch)
      else if hex_count d = 16 then (d, [], Some Invalid)
      else (d\<lparr>bytes_left_in_chunk := bytes_left_in_chunk d * 16 + word_of_int (decode_hex ch),
              hex_count := hex_count d + 1\<rparr>, [], None))"

definition chunk_step :: "phr_chunked_decoder \<Rightarrow> char \<Rightarrow> phr_chunked_decoder \<times> string \<times> leave option" where
  "chunk_step d ch = (case chunked_state d of
      CHUNKED_IN_CHUNK_SIZE \<Rightarrow> size_step d ch
    | CHUNKED_IN_CHUNK_EXT \<Rightarrow> ext_step d ch
    | CHUNKED_IN_CHUNK_DATA \<Rightarrow>
        (d\<lparr>bytes_left_in_chunk := bytes_left_in_chunk d - 1,
           chunked_state := (if bytes_left_in_chunk d = 1 then CHUNKED_IN_CHUNK_CRLF else CHUNKED_IN_CHUNK_DATA)\<rparr>,
         [ch], None)
    | CHUNKED_IN_CHUNK_CRLF \<Rightarrow>
        (if ch = CR then (d, [], None)
         else if ch = LF then (d\<lparr>chunked_state := CHUNKED_IN_CHUNK_SIZE\<rparr>, [], None)
         else (d, [], Some Invalid))
    | CHUNKED_IN_TRAILERS_LINE_HEAD \<Rightarrow>
        (if ch = CR then (d, [], None)
         else if ch = LF then (d, [], Some Complete)
         else (d\<lparr>chunked_state := CHUNKED_IN_TRAILERS_LINE_MIDDLE\<rparr>, [], None))
    | CHUNKED_IN_TRAILERS_LINE_MIDDLE \<Rightarrow>
        (if ch = LF then (d\<lparr>chunked_state := CHUNKED_IN_TRAILERS_LINE_HEAD\<rparr>, [], None)
         else (d, [], None)))"

lemma chunk_step_cases:
  "chunk_step d ch = (d', v, e) \<Longrightarrow>
     (e = None \<or> e = Some Invalid \<or> e = Some Complete) \<and> length v \<le> 1 \<and> (e \<noteq> None \<longrightarrow> v = [])"
  by (auto simp: chunk_step_def size_step_def ext_step_def split: chunked_state.splits if_splits)

text \<open>A run: the decoder at the end, what was decoded, how it ended, and the bytes left.\<close>

type_synonym chunk_result = "phr_chunked_decoder \<times> string \<times> leave \<times> string"

definition prepended :: "string \<Rightarrow> chunk_result \<Rightarrow> chunk_result" where
  "prepended u x = (case x of (d, v, e, r) \<Rightarrow> (d, u @ v, e, r))"

fun chunk_run :: "phr_chunked_decoder \<Rightarrow> string \<Rightarrow> chunk_result" where
  "chunk_run d [] = (d, [], Incomplete, [])"
| "chunk_run d (ch # s) = (case chunk_step d ch of
      (d', u, None) \<Rightarrow> prepended u (chunk_run d' s)
    | (d', u, Some e) \<Rightarrow> (d', u, e, (if e = Complete then s else ch # s)))"

lemma prepended_simps [simp]:
  "prepended u (d, v, e, r) = (d, u @ v, e, r)" "prepended [] x = x" "prepended u (prepended v x) = prepended (u @ v) x"
  by (simp_all add: prepended_def split: prod.splits)

lemma chunk_run_skip: "\<forall>ch\<in>set u. chunk_step d ch = (d, [], None) \<Longrightarrow> chunk_run d (u @ s) = chunk_run d s"
  by (induction u) auto

lemma chunk_run_append:
  "chunk_run d (u @ v) = (case chunk_run d u of (d', x, e, r) \<Rightarrow>
     if e = Incomplete then prepended x (chunk_run d' v) else (d', x, e, r @ v))"
proof (induction d u rule: chunk_run.induct)
  case (2 d ch s)
  then show ?case
    by (cases "chunk_step d ch") (auto split: prod.splits option.splits dest: chunk_step_cases)
qed simp

lemma chunk_run_length: "chunk_run d s = (d', u, e, r) \<Longrightarrow> length u + length r \<le> length s"
proof (induction s arbitrary: d d' u e r)
  case (Cons ch s)
  obtain d1 v x where st: "chunk_step d ch = (d1, v, x)" by (cases "chunk_step d ch")
  obtain d2 u2 e2 r2 where run: "chunk_run d1 s = (d2, u2, e2, r2)" by (cases "chunk_run d1 s")
  from Cons.IH [OF run] chunk_step_cases [OF st] Cons.prems show ?case
    by (auto simp: st run split: option.splits if_splits)
qed simp

lemma chunk_run_leaves: "chunk_run d s = (d', u, e, r) \<Longrightarrow> e \<noteq> Break"
proof (induction s arbitrary: d d' u e r)
  case (Cons ch s)
  obtain d1 v x where st: "chunk_step d ch = (d1, v, x)" by (cases "chunk_step d ch")
  obtain d2 u2 e2 r2 where run: "chunk_run d1 s = (d2, u2, e2, r2)" by (cases "chunk_run d1 s")
  from Cons.IH [OF run] chunk_step_cases [OF st] Cons.prems show ?case
    by (auto simp: st run split: option.splits)
qed simp

lemma chunk_run_incomplete: "chunk_run d s = (d', u, Incomplete, r) \<Longrightarrow> r = []"
proof (induction s arbitrary: d d' u r)
  case (Cons ch s)
  obtain d1 v x where st: "chunk_step d ch = (d1, v, x)" by (cases "chunk_step d ch")
  obtain d2 u2 e2 r2 where run: "chunk_run d1 s = (d2, u2, e2, r2)" by (cases "chunk_run d1 s")
  from Cons.IH [of d1 d2 u2 r2] chunk_step_cases [OF st] Cons.prems run show ?case
    by (auto simp: st split: option.splits)
qed simp

subsection \<open>The code follows the automaton\<close>

text \<open>
  What holds of the decoder between two pieces of the code. In the digits of a size at most 16 were
  read, so that \<open>bytes_left_in_chunk\<close> has not wrapped; inside the data something is left.
\<close>

definition decoder_ok :: "phr_chunked_decoder \<Rightarrow> bool" where
  "decoder_ok d \<longleftrightarrow>
     (chunked_state d = CHUNKED_IN_CHUNK_SIZE \<longrightarrow>
        hex_count d \<le> 16 \<and> unat (bytes_left_in_chunk d) < 16 ^ hex_count d) \<and>
     (chunked_state d \<noteq> CHUNKED_IN_CHUNK_SIZE \<longrightarrow> hex_count d = 0) \<and>
     (chunked_state d = CHUNKED_IN_CHUNK_DATA \<longrightarrow> bytes_left_in_chunk d \<noteq> 0) \<and>
     (chunked_state d \<in> {CHUNKED_IN_CHUNK_CRLF, CHUNKED_IN_TRAILERS_LINE_HEAD, CHUNKED_IN_TRAILERS_LINE_MIDDLE}
        \<longrightarrow> bytes_left_in_chunk d = 0)"

definition cursor_ok :: "cursor \<Rightarrow> bool" where
  "cursor_ok c \<longleftrightarrow> dst c \<le> src c \<and> src c \<le> length (buf c)"

abbreviation decoded :: "cursor \<Rightarrow> string" where "decoded c \<equiv> take (dst c) (buf c)"
abbreviation unread :: "cursor \<Rightarrow> string" where "unread c \<equiv> drop (src c) (buf c)"

text \<open>
  \<open>simulates st f st'\<close>: from the state \<open>st\<close> the piece \<open>f\<close> keeps the unread bytes and what was decoded
  before, and what it decodes is what the automaton decodes of the bytes it reads; it falls through
  only to the state \<open>st'\<close>.
\<close>

definition simulates :: "chunked_state \<Rightarrow> chunk_code \<Rightarrow> chunked_state \<Rightarrow> bool" where
  "simulates st f st' \<longleftrightarrow> (\<forall>d c d' c' e.
     chunked_state d = st \<and> decoder_ok d \<and> cursor_ok c \<and> f (d, c) = ((d', c'), e) \<longrightarrow>
     cursor_ok c' \<and> length (buf c') = length (buf c) \<and> (e = None \<longrightarrow> chunked_state d' = st') \<and> decoder_ok d' \<and>
     (\<exists>u. decoded c' = decoded c @ u \<and>
        chunk_run d (unread c) =
          (if e = None \<or> e = Some Break then prepended u (chunk_run d' (unread c'))
           else (d', u, the e, unread c'))))"

lemma simulatesD:
  assumes "simulates st f st'" "chunked_state d = st" "decoder_ok d" "cursor_ok c" "f (d, c) = ((d', c'), e)"
  obtains u where "cursor_ok c'" "length (buf c') = length (buf c)" "e = None \<Longrightarrow> chunked_state d' = st'"
    "decoder_ok d'" "decoded c' = decoded c @ u"
    "chunk_run d (unread c) = (if e = None \<or> e = Some Break then prepended u (chunk_run d' (unread c'))
       else (d', u, the e, unread c'))"
  using assms unfolding simulates_def by blast

lemma simulates_fallthru:
  assumes f: "simulates st f st'" and g: "simulates st' g st''"
  shows "simulates st (fallthru f g) st''"
  unfolding simulates_def
proof (intro allI impI, elim conjE)
  fix d c d' c' e
  assume d: "chunked_state d = st" "decoder_ok d" "cursor_ok c" and run: "fallthru f g (d, c) = ((d', c'), e)"
  obtain d1 c1 e1 where f1: "f (d, c) = ((d1, c1), e1)" by (metis surj_pair)
  from simulatesD [OF f d f1] obtain u where u: "cursor_ok c1" "length (buf c1) = length (buf c)"
    "e1 = None \<Longrightarrow> chunked_state d1 = st'" "decoder_ok d1" "decoded c1 = decoded c @ u"
    "chunk_run d (unread c) = (if e1 = None \<or> e1 = Some Break then prepended u (chunk_run d1 (unread c1))
       else (d1, u, the e1, unread c1))" by blast
  show "cursor_ok c' \<and> length (buf c') = length (buf c) \<and> (e = None \<longrightarrow> chunked_state d' = st'') \<and> decoder_ok d' \<and>
     (\<exists>u. decoded c' = decoded c @ u \<and>
        chunk_run d (unread c) =
          (if e = None \<or> e = Some Break then prepended u (chunk_run d' (unread c'))
           else (d', u, the e, unread c')))"
  proof (cases e1)
    case (Some x)
    with run f1 u show ?thesis by (auto simp: fallthru_def)
  next
    case None
    with run f1 have "g (d1, c1) = ((d', c'), e)" by (simp add: fallthru_def)
    from simulatesD [OF g u(3) [OF None] u(4,1) this] u None show ?thesis
      by (metis append_assoc prepended_simps(1,3))
  qed
qed

lemma decode_hex_range: "decode_hex ch = -1 \<or> 0 \<le> decode_hex ch \<and> decode_hex ch < 16"
proof -
  have codes: "code CHR ''0'' = 48" "code CHR ''9'' = 57" "code CHR ''A'' = 65" "code CHR ''F'' = 70"
    "code CHR ''a'' = 97" "code CHR ''f'' = 102"
    by simp_all
  show ?thesis
    unfolding decode_hex_def codes by presburger
qed

lemma unat_next_digit:
  assumes "unat (x :: 64 word) < 16 ^ n" "n < 16" "0 \<le> v" "v < 16"
  shows "unat (x * 16 + word_of_int v) = unat x * 16 + nat v" and "unat (x * 16 + word_of_int v) < 16 ^ Suc n"
proof -
  have "(16::nat) ^ n \<le> 16 ^ 15" using assms(2) by (intro power_increasing) auto
  with assms(1) have "unat x * 16 + nat v < 2 ^ 64" using assms(4) by simp
  moreover have "x * 16 + word_of_int v = word_of_nat (unat x * 16 + nat v)"
    by (simp add: of_nat_nat [OF assms(3)])
  moreover have "n < 2 ^ 64 \<Longrightarrow> unat (word_of_nat n :: 64 word) = n" for n
    by (simp add: unat_of_nat)
  ultimately show eq: "unat (x * 16 + word_of_int v) = unat x * 16 + nat v"
    by (simp only:)
  have "unat x + 1 \<le> 16 ^ n" using assms(1) by simp
  then have "(unat x + 1) * 16 \<le> 16 ^ n * 16" by (rule mult_le_mono1)
  with assms(4) show "unat (x * 16 + word_of_int v) < 16 ^ Suc n" by (simp add: eq)
qed

abbreviation next_digit :: "phr_chunked_decoder \<Rightarrow> char \<Rightarrow> phr_chunked_decoder" where
  "next_digit d ch \<equiv> d\<lparr>bytes_left_in_chunk := bytes_left_in_chunk d * 16 + word_of_int (decode_hex ch),
     hex_count := hex_count d + 1\<rparr>"

lemma decoder_ok_digit:
  assumes "chunked_state d = CHUNKED_IN_CHUNK_SIZE" "decoder_ok d" "hex_count d \<noteq> 16" "decode_hex ch \<noteq> -1"
  shows "decoder_ok (next_digit d ch)"
  using assms decode_hex_range [of ch] unat_next_digit(2) [of "bytes_left_in_chunk d" "hex_count d" "decode_hex ch"]
  by (auto simp: decoder_ok_def)

lemma size_loop_runs:
  assumes "chunked_state d = CHUNKED_IN_CHUNK_SIZE" "decoder_ok d" "size_loop d i s = (d', j, e)"
  shows "i \<le> j \<and> j \<le> i + length s \<and> chunked_state d' = CHUNKED_IN_CHUNK_SIZE \<and> decoder_ok d' \<and>
    chunk_run d s = (if e = None then chunk_run d' (drop (j - i) s) else (d', [], the e, drop (j - i) s)) \<and>
    e \<noteq> Some Break \<and>
    (e = None \<longrightarrow> (\<exists>ch w. drop (j - i) s = ch # w \<and> decode_hex ch = -1 \<and> after_size ch \<and> hex_count d' \<noteq> 0))"
  using assms
proof (induction d i s rule: size_loop.induct)
  case (2 d i ch s)
  show ?case
  proof (cases "decode_hex ch = -1 \<or> hex_count d = 16")
    case True
    with "2.prems" show ?thesis
      by (auto simp: Let_def chunk_step_def size_step_def split: if_splits)
  next
    case False
    with "2.prems"(3) have loop: "size_loop (next_digit d ch) (Suc i) s = (d', j, e)" by (simp add: Let_def)
    have ok: "decoder_ok (next_digit d ch)"
      using False decoder_ok_digit [OF "2.prems"(1,2), of ch] by simp
    have step: "chunk_step d ch = (next_digit d ch, [], None)"
      using False "2.prems"(1) by (simp add: chunk_step_def size_step_def)
    have "Suc i \<le> j \<Longrightarrow> drop (j - i) (ch # s) = drop (j - Suc i) s"
      by (simp add: drop_Cons' Suc_diff_le)
    with "2.IH" [OF refl, of ] False "2.prems"(1) ok loop step show ?thesis
      by (auto simp: Let_def)
  qed
qed auto

lemma simulates_size: "simulates CHUNKED_IN_CHUNK_SIZE in_chunk_size CHUNKED_IN_CHUNK_EXT"
  unfolding simulates_def
proof (intro allI impI, elim conjE)
  fix d c d' c' e
  assume d: "chunked_state d = CHUNKED_IN_CHUNK_SIZE" "decoder_ok d" and c: "cursor_ok c"
    and run: "in_chunk_size (d, c) = ((d', c'), e)"
  obtain d1 j e1 where loop: "size_loop d (src c) (unread c) = (d1, j, e1)" by (metis surj_pair)
  note facts = size_loop_runs [OF d loop]
  then have "drop (j - src c) (unread c) = drop j (buf c)" by simp
  moreover have "ch # w = drop j (buf c) \<Longrightarrow> decode_hex ch = -1 \<Longrightarrow> after_size ch \<Longrightarrow> hex_count d1 \<noteq> 0 \<Longrightarrow>
      chunked_state d1 = CHUNKED_IN_CHUNK_SIZE \<Longrightarrow>
      chunk_run d1 (drop j (buf c)) =
        chunk_run (d1\<lparr>hex_count := 0, chunked_state := CHUNKED_IN_CHUNK_EXT\<rparr>) (drop j (buf c))" for ch w
    by (drule sym) (simp add: chunk_step_def size_step_def)
  ultimately show "cursor_ok c' \<and> length (buf c') = length (buf c) \<and>
     (e = None \<longrightarrow> chunked_state d' = CHUNKED_IN_CHUNK_EXT) \<and> decoder_ok d' \<and>
     (\<exists>u. decoded c' = decoded c @ u \<and>
        chunk_run d (unread c) =
          (if e = None \<or> e = Some Break then prepended u (chunk_run d' (unread c'))
           else (d', u, the e, unread c')))"
    using run facts c
    by (auto simp: in_chunk_size_def loop cursor_ok_def decoder_ok_def split: option.splits)
qed

text \<open>The loops that skip bytes are steps of the automaton that change nothing.\<close>

lemma skip_cursor:
  assumes "cursor_ok c"
  shows "cursor_ok (skip_until P c)" and "decoded (skip_until P c) = decoded c"
    and "\<not> at_end (skip_until P c) \<Longrightarrow> P (here (skip_until P c))"
    and "\<not> at_end (skip_until P c) \<Longrightarrow> cursor_ok (advance 1 (skip_until P c))"
    and "\<not> at_end (skip_until P c) \<Longrightarrow>
           unread (skip_until P c) = here (skip_until P c) # unread (advance 1 (skip_until P c))"
proof -
  define n where "n = length (takeWhile (\<lambda>ch. \<not> P ch) (unread c))"
  have len: "n \<le> length (unread c)" unfolding n_def by (rule length_takeWhile_le)
  with assms show "cursor_ok (skip_until P c)"
    by (auto simp: skip_until_def cursor_ok_def simp flip: n_def)
  show "decoded (skip_until P c) = decoded c" by simp
  assume "\<not> at_end (skip_until P c)"
  then have less: "src c + n < length (buf c)" by (simp add: skip_until_def n_def)
  then have "n < length (unread c)" by simp
  then have "\<not> \<not> P (unread c ! n)" unfolding n_def by (rule nth_length_takeWhile)
  with less show "P (here (skip_until P c))" by (simp add: skip_until_def flip: n_def)
  from less assms show "cursor_ok (advance 1 (skip_until P c))"
    by (auto simp: skip_until_def cursor_ok_def simp flip: n_def)
  from less show "unread (skip_until P c) = here (skip_until P c) # unread (advance 1 (skip_until P c))"
    by (simp add: skip_until_def Cons_nth_drop_Suc flip: n_def)
qed

lemma skip_run:
  assumes "\<And>ch. \<not> P ch \<Longrightarrow> chunk_step d ch = (d, [], None)"
  shows "chunk_run d (unread c) = chunk_run d (unread (skip_until P c))"
proof -
  have "chunk_run d (takeWhile (\<lambda>ch. \<not> P ch) (unread c) @ dropWhile (\<lambda>ch. \<not> P ch) (unread c)) =
      chunk_run d (dropWhile (\<lambda>ch. \<not> P ch) (unread c))"
    by (rule chunk_run_skip) (use assms in \<open>auto dest: set_takeWhileD\<close>)
  moreover have "unread (skip_until P c) = dropWhile (\<lambda>ch. \<not> P ch) (unread c)"
    by (simp add: skip_until_def dropWhile_eq_drop add.commute)
  ultimately show ?thesis by simp
qed

lemma unread_at_end: "at_end c \<Longrightarrow> unread c = []"
  by simp

text \<open>A piece that skips to a byte and then takes the automaton's step on it.\<close>

lemma simulates_skip:
  assumes skip: "\<And>d ch. chunked_state d = st \<Longrightarrow> \<not> P ch \<Longrightarrow> chunk_step d ch = (d, [], None)"
    and code: "\<And>d c. f (d, c) = (let c = skip_until P c in
       if at_end c then ((d, c), Some Incomplete) else g d (here c) c)"
    and step: "\<And>d ch c d' c' e. chunked_state d = st \<Longrightarrow> decoder_ok d \<Longrightarrow> P ch \<Longrightarrow> g d ch c = ((d', c'), e) \<Longrightarrow>
       chunk_step d ch = (d', [], (if e = Some Break then None else e)) \<and> decoder_ok d' \<and>
       c' = (if e = Some Invalid then c else advance 1 c) \<and> (e = None \<longrightarrow> chunked_state d' = st')"
  shows "simulates st f st'"
  unfolding simulates_def
proof (intro allI impI, elim conjE)
  fix d c d' c' e
  assume d: "chunked_state d = st" "decoder_ok d" and c: "cursor_ok c" and run: "f (d, c) = ((d', c'), e)"
  define k where "k = skip_until P c"
  have jump: "chunk_run d (unread c) = chunk_run d (unread k)"
    unfolding k_def using skip [OF d(1)] by (rule skip_run)
  note k = skip_cursor [OF c, of P, folded k_def]
  have same: "buf k = buf c" by (simp add: k_def)
  show "cursor_ok c' \<and> length (buf c') = length (buf c) \<and> (e = None \<longrightarrow> chunked_state d' = st') \<and> decoder_ok d' \<and>
     (\<exists>u. decoded c' = decoded c @ u \<and>
        chunk_run d (unread c) =
          (if e = None \<or> e = Some Break then prepended u (chunk_run d' (unread c'))
           else (d', u, the e, unread c')))"
  proof (cases "at_end k")
    case True
    with run d k(1,2) jump same show ?thesis by (auto simp: code simp flip: k_def)
  next
    case False
    with run have g: "g d (here k) k = ((d', c'), e)" by (simp add: code flip: k_def)
    note next_step = step [OF d k(3) [OF False] g]
    have "e = None \<or> e = Some Break \<or> e = Some Invalid \<or> e = Some Complete"
      using chunk_step_cases [of d "here k" d' "[]"] next_step by (auto split: if_splits)
    with next_step k(1,2) k(4,5) [OF False] jump same show ?thesis
      by (auto split: if_splits option.splits leave.splits)
  qed
qed

lemma simulates_ext: "simulates CHUNKED_IN_CHUNK_EXT in_chunk_ext CHUNKED_IN_CHUNK_DATA"
  by (rule simulates_skip [where P = "\<lambda>ch. ch = LF" and g = "\<lambda>d ch c. let c = advance 1 c in
       if bytes_left_in_chunk d = 0 then
         (if consume_trailer d then ((d\<lparr>chunked_state := CHUNKED_IN_TRAILERS_LINE_HEAD\<rparr>, c), Some Break)
          else ((d, c), Some Complete))
       else ((d\<lparr>chunked_state := CHUNKED_IN_CHUNK_DATA\<rparr>, c), None)"])
    (auto simp: in_chunk_ext_def chunk_step_def ext_step_def decoder_ok_def Let_def split: if_splits)

lemma simulates_crlf: "simulates CHUNKED_IN_CHUNK_CRLF in_chunk_crlf CHUNKED_IN_CHUNK_SIZE"
  by (rule simulates_skip [where P = "\<lambda>ch. ch \<noteq> CR" and g = "\<lambda>d ch c. if ch \<noteq> LF then ((d, c), Some Invalid)
       else ((d\<lparr>chunked_state := CHUNKED_IN_CHUNK_SIZE\<rparr>, advance 1 c), Some Break)"])
    (auto simp: in_chunk_crlf_def chunk_step_def decoder_ok_def Let_def split: if_splits)

lemma simulates_line_head:
  "simulates CHUNKED_IN_TRAILERS_LINE_HEAD in_trailers_line_head CHUNKED_IN_TRAILERS_LINE_MIDDLE"
  by (rule simulates_skip [where P = "\<lambda>ch. ch \<noteq> CR" and g = "\<lambda>d ch c. if ch = LF then ((d, advance 1 c), Some Complete)
       else ((d\<lparr>chunked_state := CHUNKED_IN_TRAILERS_LINE_MIDDLE\<rparr>, advance 1 c), None)"])
    (auto simp: in_trailers_line_head_def chunk_step_def decoder_ok_def Let_def split: if_splits)

lemma simulates_line_middle:
  "simulates CHUNKED_IN_TRAILERS_LINE_MIDDLE in_trailers_line_middle CHUNKED_IN_TRAILERS_LINE_HEAD"
  by (rule simulates_skip [where P = "\<lambda>ch. ch = LF" and g = "\<lambda>d ch c.
       ((d\<lparr>chunked_state := CHUNKED_IN_TRAILERS_LINE_HEAD\<rparr>, advance 1 c), Some Break)"])
    (auto simp: in_trailers_line_middle_def chunk_step_def decoder_ok_def Let_def split: if_splits)

text \<open>The block move of the data is the automaton's copy of single bytes.\<close>

lemma memmove_down:
  assumes "t \<le> s" "s + n \<le> length b"
  shows "take (t + n) (memmove b t s n) = take t b @ take n (drop s b)"
    and "drop (s + n) (memmove b t s n) = drop (s + n) b"
  using assms by (auto intro!: nth_equalityI simp: memmove_def nth_append)

lemma chunk_run_data:
  assumes "chunked_state d = CHUNKED_IN_CHUNK_DATA" "length u \<le> unat (bytes_left_in_chunk d)"
    "bytes_left_in_chunk d \<noteq> 0"
  shows "chunk_run d (u @ s) = prepended u (chunk_run (d\<lparr>bytes_left_in_chunk := bytes_left_in_chunk d - of_nat (length u),
    chunked_state := (if length u = unat (bytes_left_in_chunk d) then CHUNKED_IN_CHUNK_CRLF
      else CHUNKED_IN_CHUNK_DATA)\<rparr>) s)"
  using assms
proof (induction u arbitrary: d)
  case (Cons ch u)
  let ?x = "bytes_left_in_chunk d"
  have x: "unat (?x - 1) = unat ?x - 1" using Cons.prems(3) by (rule unat_minus_one)
  have one: "?x = 1 \<longleftrightarrow> unat ?x = 1" by (simp add: word_unat_eq_iff)
  define d1 where "d1 = d\<lparr>bytes_left_in_chunk := ?x - 1,
      chunked_state := (if ?x = 1 then CHUNKED_IN_CHUNK_CRLF else CHUNKED_IN_CHUNK_DATA)\<rparr>"
  have step: "chunk_run d (ch # u @ s) = prepended [ch] (chunk_run d1 (u @ s))"
    using Cons.prems(1) by (simp add: chunk_step_def d1_def)
  show ?case
  proof (cases "?x = 1")
    case True
    with Cons.prems(2) have "u = []" by simp
    with step True show ?thesis by (simp add: d1_def)
  next
    case False
    then have "?x - 1 \<noteq> 0" by simp
    with Cons.IH [of d1] Cons.prems False step one show ?thesis
      by (auto simp: d1_def x algebra_simps)
  qed
qed (auto simp: unat_eq_0 intro: arg_cong [where f = "\<lambda>d. chunk_run d s"])

lemma simulates_data: "simulates CHUNKED_IN_CHUNK_DATA in_chunk_data CHUNKED_IN_CHUNK_CRLF"
  unfolding simulates_def
proof (intro allI impI, elim conjE)
  fix d c d' c' e
  assume d: "chunked_state d = CHUNKED_IN_CHUNK_DATA" "decoder_ok d" and c: "cursor_ok c"
    and run: "in_chunk_data (d, c) = ((d', c'), e)"
  define left where "left = unat (bytes_left_in_chunk d)"
  define n where "n = min left (length (unread c))"
  have nz: "bytes_left_in_chunk d \<noteq> 0" using d by (simp add: decoder_ok_def)
  have n: "n \<le> left" "src c + n \<le> length (buf c)" "dst c \<le> src c" using c by (auto simp: n_def cursor_ok_def)
  define b where "b = (if dst c \<noteq> src c then memmove (buf c) (dst c) (src c) n else buf c)"
  have b: "length b = length (buf c)" "drop (src c + n) b = drop (src c + n) (buf c)"
    "take (dst c + n) b = take (dst c) (buf c) @ take n (unread c)"
    using n memmove_down [OF n(3,2)] by (auto simp: b_def take_add)
  have c': "c' = c\<lparr>buf := b, src := src c + n, dst := dst c + n\<rparr>"
    and d': "d' = d\<lparr>bytes_left_in_chunk := bytes_left_in_chunk d - of_nat n,
      chunked_state := (if n = left then CHUNKED_IN_CHUNK_CRLF else CHUNKED_IN_CHUNK_DATA)\<rparr>"
    and e: "e = (if n = left then None else Some Incomplete)" and rest: "n \<noteq> left \<Longrightarrow> n = length (unread c)"
    using run d(1) by (auto simp: in_chunk_data_def Let_def n_def left_def b_def min_def split: if_splits)
  define w where "w = drop (src c + n) (buf c)"
  have parts: "take n (unread c) @ w = unread c" unfolding w_def by (metis add.commute append_take_drop_id drop_drop)
  have "chunk_run d (take n (unread c) @ w) = prepended (take n (unread c)) (chunk_run d' w)"
    using chunk_run_data [OF d(1) _ nz, of "take n (unread c)" w] n by (simp add: d' left_def n_def)
  then have "chunk_run d (unread c) = prepended (take n (unread c)) (chunk_run d' w)"
    unfolding parts .
  moreover have "decoder_ok d'"
    using d(2) n(1) le_unat_uoi [of n "bytes_left_in_chunk d"] unfolding d' decoder_ok_def
    by (auto simp: d(1) left_def)
  ultimately show "cursor_ok c' \<and> length (buf c') = length (buf c) \<and>
     (e = None \<longrightarrow> chunked_state d' = CHUNKED_IN_CHUNK_CRLF) \<and> decoder_ok d' \<and>
     (\<exists>u. decoded c' = decoded c @ u \<and>
        chunk_run d (unread c) =
          (if e = None \<or> e = Some Break then prepended u (chunk_run d' (unread c'))
           else (d', u, the e, unread c')))"
    using n b rest by (auto simp: c' e d' w_def cursor_ok_def)
qed

subsection \<open>The whole loop\<close>

lemma simulates_switch: "\<exists>st'. simulates st (decode_switch st) st'"
proof -
  have data: "simulates CHUNKED_IN_CHUNK_DATA from_data CHUNKED_IN_CHUNK_SIZE"
    unfolding from_data_def by (rule simulates_fallthru [OF simulates_data simulates_crlf])
  then have ext: "simulates CHUNKED_IN_CHUNK_EXT from_ext CHUNKED_IN_CHUNK_SIZE"
    unfolding from_ext_def by (rule simulates_fallthru [OF simulates_ext])
  show ?thesis
    by (cases st) (auto intro: data ext simulates_crlf simulates_line_middle
      simulates_fallthru [OF simulates_size] simulates_fallthru [OF simulates_line_head])
qed

lemma decode_loop_runs:
  assumes "decoder_ok (fst s)" "cursor_ok (snd s)" "decode_loop s = ((d', c'), e)"
  shows "cursor_ok c' \<and> length (buf c') = length (buf (snd s)) \<and> decoder_ok d' \<and> e \<noteq> Break \<and>
    (\<exists>u. decoded c' = decoded (snd s) @ u \<and> chunk_run (fst s) (unread (snd s)) = (d', u, e, unread c'))"
  using assms
proof (induction s rule: decode_loop.induct)
  case (1 s)
  obtain d c where s: "s = (d, c)" by (cases s)
  obtain d1 c1 e1 where sw: "decode_switch (chunked_state d) (d, c) = ((d1, c1), e1)" by (metis surj_pair)
  obtain st' where "simulates (chunked_state d) (decode_switch (chunked_state d)) st'"
    using simulates_switch by blast
  from simulatesD [OF this refl _ _ sw] "1.prems"(1,2) obtain u where u: "cursor_ok c1" "length (buf c1) = length (buf c)"
    "decoder_ok d1" "decoded c1 = decoded c @ u"
    "chunk_run d (unread c) = (if e1 = None \<or> e1 = Some Break then prepended u (chunk_run d1 (unread c1))
       else (d1, u, the e1, unread c1))" unfolding s by auto
  have e1: "e1 \<noteq> None" using decode_switch_moves(2) sw unfolding never_falls_def by (metis snd_conv)
  show ?case
  proof (cases "e1 = Some Break")
    case False
    with "1.prems"(3) u e1 sw show ?thesis by (auto simp: s decode_loop.simps [of "(d, c)"] split: option.splits leave.splits)
  next
    case True
    with "1.prems"(3) sw have "decode_loop (d1, c1) = ((d', c'), e)" by (simp add: s decode_loop.simps [of "(d, c)"])
    with "1.IH" [of "(d1, c1)" e1 Break] True u sw show ?thesis by (auto simp: s)
  qed
qed

text \<open>
  A call. The totals of the decoder only decide when an incomplete result is turned into an error.
\<close>

definition totals :: "64 word \<Rightarrow> 64 word \<Rightarrow> phr_chunked_decoder \<Rightarrow> phr_chunked_decoder" where
  "totals t v d = d\<lparr>total_read := t, total_overhead := v\<rparr>"

lemma totals_simps [simp]:
  "chunked_state (totals t v d) = chunked_state d" "hex_count (totals t v d) = hex_count d"
  "bytes_left_in_chunk (totals t v d) = bytes_left_in_chunk d" "consume_trailer (totals t v d) = consume_trailer d"
  "total_read (totals t v d) = t" "total_overhead (totals t v d) = v" "totals t v (totals t' v' d) = totals t v d"
  by (simp_all add: totals_def)

lemma totals_ok [simp]: "decoder_ok (totals t v d) \<longleftrightarrow> decoder_ok d"
  by (simp add: decoder_ok_def)

lemma chunk_step_totals:
  "chunk_step (totals t v d) ch = (case chunk_step d ch of (d', u, e) \<Rightarrow> (totals t v d', u, e))"
  by (cases "chunked_state d") (simp_all add: chunk_step_def size_step_def ext_step_def totals_def)

lemma chunk_run_totals:
  "chunk_run (totals t v d) s = (case chunk_run d s of (d', u, e, r) \<Rightarrow> (totals t v d', u, e, r))"
proof (induction s arbitrary: d)
  case (Cons ch s)
  then show ?case
    by (auto simp: chunk_step_totals prepended_def split: prod.splits option.splits)
qed simp

lemma phr_decode_chunked_runs:
  assumes ok: "decoder_ok d" and run: "chunk_run d b = (d1, u, e, r)"
    and t: "t = total_read d + of_nat (length b)"
    and v: "v = (if e = Incomplete then total_overhead d + of_nat (length b - length u) else total_overhead d)"
  shows "\<exists>b'. phr_decode_chunked d b =
      ((if e = Complete then int (length r)
        else if e = Invalid \<or> 100 * 1024 \<le> v \<and> t - v < t div 4 then -1 else -2), totals t v d1, b', length u) \<and>
    length b' = length b \<and> b' = u @ r @ drop (length u + length r) b' \<and> decoder_ok d1"
proof -
  define d0 where "d0 = d\<lparr>total_read := t\<rparr>"
  have d0: "d0 = totals t (total_overhead d) d" by (simp add: d0_def totals_def)
  define c0 where "c0 = \<lparr>buf = b, src = 0, dst = 0\<rparr>"
  obtain d' c' e' where loop: "decode_loop (d0, c0) = ((d', c'), e')" by (metis surj_pair)
  have "chunk_run d0 b = (totals t (total_overhead d) d1, u, e, r)" by (simp add: d0 chunk_run_totals run)
  with decode_loop_runs [OF _ _ loop] ok
  have c': "cursor_ok c'" "length (buf c') = length b" "decoder_ok d'" "decoded c' = u" "r = unread c'" "e' = e"
    "d' = totals t (total_overhead d) d1" "e \<noteq> Break"
    by (auto simp: d0 c0_def cursor_ok_def)
  define b' where "b' = (if dst c' \<noteq> src c' then memmove (buf c') (dst c') (src c') (length b - src c') else buf c')"
  have u: "dst c' = length u" "src c' + length r = length b" "dst c' \<le> src c'"
    using c'(1,2,4,5) by (auto simp: cursor_ok_def)
  have "take (dst c' + length r) b' = take (dst c') (buf c') @ take (length r) (unread c')"
    using memmove_down(1) [OF u(3), of "length r" "buf c'"] u(2) c'(2,5)
    by (auto simp: b'_def take_add)
  then have "take (length u + length r) b' = u @ r" using u(1) c'(4,5) by simp
  then have b': "b' = u @ r @ drop (length u + length r) b'" by (metis append_assoc append_take_drop_id)
  have "length b' = length b" using c'(2) by (simp add: b'_def)
  moreover have "phr_decode_chunked d b =
      ((if e = Complete then int (length r)
        else if e = Invalid \<or> 100 * 1024 \<le> v \<and> t - v < t div 4 then -1 else -2), totals t v d1, b', length u)"
  proof -
    have "d\<lparr>total_read := total_read d + of_nat (length b)\<rparr> = d0" by (simp add: d0_def t)
    moreover have "length b - src c' = length r" using u(2) by simp
    ultimately show ?thesis
      using c'(6-8) u(1) v loop b'_def
      by (cases e) (simp_all add: phr_decode_chunked_def Let_def totals_def flip: c0_def)
  qed
  ultimately show ?thesis using b' c'(3,7) by auto
qed

subsection \<open>A client that feeds pieces\<close>

text \<open>
  What \<^verbatim>\<open>picohttpparser.h\<close> asks of the caller: call again with the newly arrived data as long as the
  result is \<open>-2\<close>, keep the first \<open>*bufsz\<close> bytes of each call, and find the undecoded bytes behind
  them at the end.
\<close>

fun decode_pieces :: "phr_chunked_decoder \<Rightarrow> string list \<Rightarrow> leave \<times> string \<times> string" where
  "decode_pieces d [] = (Incomplete, [], [])"
| "decode_pieces d (p # ps) = (case phr_decode_chunked d p of (r, d', b, n) \<Rightarrow>
     if r = -2 then (case decode_pieces d' ps of (e, body, rest) \<Rightarrow> (e, take n b @ body, rest))
     else if r < 0 then (Invalid, take n b, [])
     else (Complete, take n b, take (nat r) (drop n b) @ concat ps))"

text \<open>The bytes of the encoding that are not data, below which no call gives up.\<close>

abbreviation overhead_limit :: nat where "overhead_limit \<equiv> 100 * 1024"

lemma small_overhead:
  assumes "unat (x :: 64 word) + n < overhead_limit"
  shows "unat (x + of_nat n) = unat x + n" and "\<not> 100 * 1024 \<le> x + of_nat n"
proof -
  have n: "n < 2 ^ 64" and sum: "unat x + n < 2 ^ 64" using assms by simp_all
  have "unat (x + of_nat n) = (unat x + n) mod 2 ^ 64"
    using n by (simp add: unat_word_ariths unat_of_nat)
  with sum show eq: "unat (x + of_nat n) = unat x + n" by (simp only: mod_less)
  with assms show "\<not> 100 * 1024 \<le> x + of_nat n" by (simp add: word_le_nat_alt)
qed

lemma decode_pieces_runs:
  assumes "decoder_ok d" "chunk_run d (concat ps) = (d1, u, e, r)"
    and "unat (total_overhead d) + (length (concat ps) - length u - length r) < overhead_limit"
  shows "decode_pieces d ps = (e, u, (if e = Complete then r else []))"
  using assms
proof (induction ps arbitrary: d d1 u r)
  case (Cons p ps)
  obtain d2 u2 e2 r2 where first: "chunk_run d p = (d2, u2, e2, r2)" by (metis prod.collapse)
  have len2: "length u2 + length r2 \<le> length p" using first by (rule chunk_run_length)
  define t where "t = total_read d + of_nat (length p)"
  define v where "v = (if e2 = Incomplete then total_overhead d + of_nat (length p - length u2) else total_overhead d)"
  from phr_decode_chunked_runs [OF Cons.prems(1) first t_def v_def] obtain b
    where call: "phr_decode_chunked d p = ((if e2 = Complete then int (length r2)
        else if e2 = Invalid \<or> 100 * 1024 \<le> v \<and> t - v < t div 4 then -1 else -2), totals t v d2, b, length u2)"
      and b: "b = u2 @ r2 @ drop (length u2 + length r2) b" and ok: "decoder_ok d2"
    by blast
  have out: "take (length u2) b = u2" "take (length r2) (drop (length u2) b) = r2"
    by (subst b, simp)+
  show ?case
  proof (cases "e2 = Incomplete")
    case False
    with Cons.prems(2) first have "u = u2" "e = e2" "r = r2 @ concat ps"
      by (auto simp: chunk_run_append)
    moreover have "e2 \<noteq> Break"
      using first by (rule chunk_run_leaves)
    ultimately show ?thesis using False out by (cases e2) (auto simp: call)
  next
    case True
    from first True have r2: "r2 = []" using chunk_run_incomplete by blast
    obtain u3 where rest: "chunk_run d2 (concat ps) = (d1, u3, e, r)" "u = u2 @ u3"
      using Cons.prems(2) first True by (auto simp: chunk_run_append prepended_def split: prod.splits)
    have len3: "length u3 + length r \<le> length (concat ps)" using rest(1) by (rule chunk_run_length)
    have "length (concat (p # ps)) - length u - length r
        = (length p - length u2) + (length (concat ps) - length u3 - length r)"
      using len2 len3 by (simp add: rest(2))
    with Cons.prems(3) have bound:
      "unat (total_overhead d) + (length p - length u2) + (length (concat ps) - length u3 - length r) < overhead_limit"
      by linarith
    then have v: "unat v = unat (total_overhead d) + (length p - length u2)" "\<not> 100 * 1024 \<le> v"
      using small_overhead [of "total_overhead d" "length p - length u2"] True by (auto simp: v_def)
    have "decode_pieces (totals t v d2) ps = (e, u3, (if e = Complete then r else []))"
      by (rule Cons.IH) (use ok rest(1) bound v in \<open>simp_all add: chunk_run_totals\<close>)
    with True v(2) out rest(2) show ?thesis by (simp add: call)
  qed
qed simp

lemma decode_once:
  assumes "decoder_ok d" "chunk_run d b = (d1, u, e, r)"
  obtains "decode_pieces d [b] = (e, u, (if e = Complete then r else []))"
    | "decode_pieces d [b] = (Invalid, u, [])" "e = Incomplete"
      "overhead_limit \<le> unat (total_overhead d) + (length b - length u)"
proof -
  from phr_decode_chunked_runs [OF assms refl refl] obtain rc d' b' where
    call: "phr_decode_chunked d b = (rc, d', b', length u)" "b' = u @ r @ drop (length u + length r) b'"
      "e = Complete \<Longrightarrow> rc = int (length r)" "e = Invalid \<Longrightarrow> rc = -1" "e = Incomplete \<Longrightarrow> rc = -1 \<or> rc = -2"
    by auto
  have out: "take (length u) b' = u" "take (length r) (drop (length u) b') = r"
    by (subst call(2), simp)+
  show thesis
  proof (cases "e = Incomplete \<and> overhead_limit \<le> unat (total_overhead d) + (length b - length u)")
    case True
    with that call(1,5) out show thesis by auto
  next
    case False
    show thesis
    proof (cases e)
      case Incomplete
      have "unat (total_overhead d) + (length (concat [b]) - length u - length r) < overhead_limit"
        using False Incomplete by simp
      then show thesis using that(1) assms decode_pieces_runs [of d "[b]" d1 u e r] by simp
    qed (use chunk_run_leaves [OF assms(2)] that(1) call out in auto)
  qed
qed

subsection \<open>Chunked messages\<close>

text \<open>
  The encoding of RFC 7230: chunks with the size in any hexadecimal digits and an extension, a last
  chunk of size zero, and trailer lines when the decoder is to read them.
\<close>

record chunk =
  size_text :: string
  extension :: string
  payload :: string

definition hex_value :: "string \<Rightarrow> nat" where
  "hex_value s = foldl (\<lambda>n ch. n * 16 + nat (decode_hex ch)) 0 s"

definition size_ok :: "string \<Rightarrow> bool" where
  "size_ok s \<longleftrightarrow> s \<noteq> [] \<and> length s \<le> 16 \<and> (\<forall>ch\<in>set s. decode_hex ch \<noteq> -1)"

definition extension_ok :: "string \<Rightarrow> bool" where
  "extension_ok x \<longleftrightarrow> LF \<notin> set x \<and> (x = [] \<or> after_size (hd x))"

definition chunk_ok :: "chunk \<Rightarrow> bool" where
  "chunk_ok c \<longleftrightarrow> size_ok (size_text c) \<and> extension_ok (extension c) \<and> payload c \<noteq> [] \<and>
     hex_value (size_text c) = length (payload c)"

definition chunk_text :: "chunk \<Rightarrow> string" where
  "chunk_text c = size_text c @ extension c @ [CR, LF] @ payload c @ [CR, LF]"

definition trailer_ok :: "string \<Rightarrow> bool" where
  "trailer_ok l \<longleftrightarrow> LF \<notin> set l \<and> (\<exists>ch\<in>set l. ch \<noteq> CR)"

definition chunked_ok :: "chunk list \<Rightarrow> string \<Rightarrow> string \<Rightarrow> string list \<Rightarrow> bool" where
  "chunked_ok cs zeros x trailers \<longleftrightarrow>
     (\<forall>c\<in>set cs. chunk_ok c) \<and> size_ok zeros \<and> hex_value zeros = 0 \<and> extension_ok x \<and>
     (\<forall>l\<in>set trailers. trailer_ok l)"

definition trailer_text :: "bool \<Rightarrow> string list \<Rightarrow> string" where
  "trailer_text t trailers = (if t then concat (map (\<lambda>l. l @ [CR, LF]) trailers) @ [CR, LF] else [])"

definition chunked_message :: "bool \<Rightarrow> chunk list \<Rightarrow> string \<Rightarrow> string \<Rightarrow> string list \<Rightarrow> string" where
  "chunked_message t cs zeros x trailers =
     concat (map chunk_text cs) @ zeros @ x @ [CR, LF] @ trailer_text t trailers"

definition ready :: "phr_chunked_decoder \<Rightarrow> bool" where
  "ready d \<longleftrightarrow> chunked_state d = CHUNKED_IN_CHUNK_SIZE \<and> hex_count d = 0 \<and> bytes_left_in_chunk d = 0"

lemma run_digits:
  assumes "chunked_state d = CHUNKED_IN_CHUNK_SIZE" "hex_count d + length s \<le> 16" "\<forall>ch\<in>set s. decode_hex ch \<noteq> -1"
  shows "chunk_run d (s @ w) = chunk_run (d\<lparr>bytes_left_in_chunk :=
      foldl (\<lambda>x ch. x * 16 + word_of_int (decode_hex ch)) (bytes_left_in_chunk d) s,
      hex_count := hex_count d + length s\<rparr>) w"
  using assms
proof (induction s arbitrary: d)
  case (Cons ch s)
  then have "chunk_step d ch = (next_digit d ch, [], None)" by (simp add: chunk_step_def size_step_def)
  then show ?case using Cons.IH [of "next_digit d ch"] Cons.prems by simp
qed simp

lemma foldl_hex:
  assumes "\<forall>ch\<in>set s. decode_hex ch \<noteq> -1"
  shows "foldl (\<lambda>x ch. x * 16 + word_of_int (decode_hex ch)) (of_nat n) s =
    (of_nat (foldl (\<lambda>n ch. n * 16 + nat (decode_hex ch)) n s) :: 64 word)"
  using assms
proof (induction s arbitrary: n)
  case (Cons ch s)
  then have "0 \<le> decode_hex ch" using decode_hex_range [of ch] by auto
  then have "(of_nat n :: 64 word) * 16 + word_of_int (decode_hex ch) = of_nat (n * 16 + nat (decode_hex ch))"
    by (simp add: of_nat_nat)
  then show ?case using Cons by (simp del: of_nat_add of_nat_mult)
qed simp

lemma hex_value_bound:
  assumes "\<forall>ch\<in>set s. decode_hex ch \<noteq> -1"
  shows "hex_value s < 16 ^ length s"
  using assms
proof (induction s rule: rev_induct)
  case (snoc ch s)
  then have "hex_value s + 1 \<le> 16 ^ length s" by simp
  then have "(hex_value s + 1) * 16 \<le> 16 ^ length s * 16" by (rule mult_le_mono1)
  moreover have "decode_hex ch < 16" using decode_hex_range [of ch] by auto
  then have "nat (decode_hex ch) < 16" by simp
  ultimately show ?case by (simp add: hex_value_def)
qed (simp add: hex_value_def)

lemma after_size_not_hex: "after_size ch \<Longrightarrow> decode_hex ch = -1"
  by (auto simp: after_size_def decode_hex_def)

lemma ext_skip:
  assumes "chunked_state d = CHUNKED_IN_CHUNK_EXT" "LF \<notin> set x"
  shows "chunk_run d (x @ w) = chunk_run d w"
  by (rule chunk_run_skip) (use assms in \<open>auto simp: chunk_step_def ext_step_def\<close>)

lemma run_size_line:
  assumes "ready d" "size_ok s" "extension_ok x"
  shows "chunk_run d (s @ x @ [CR, LF] @ w) = chunk_run (d\<lparr>chunked_state := CHUNKED_IN_CHUNK_EXT,
    bytes_left_in_chunk := of_nat (hex_value s)\<rparr>) (LF # w)"
proof -
  let ?d = "d\<lparr>bytes_left_in_chunk := of_nat (hex_value s), hex_count := length s\<rparr>"
  let ?e = "d\<lparr>chunked_state := CHUNKED_IN_CHUNK_EXT, bytes_left_in_chunk := of_nat (hex_value s)\<rparr>"
  have digits: "chunk_run d (s @ x @ [CR, LF] @ w) = chunk_run ?d (x @ [CR, LF] @ w)"
    using assms run_digits [of d s] foldl_hex [of s 0] by (simp add: ready_def size_ok_def hex_value_def)
  obtain ch y where y: "x @ [CR] = ch # y" by (cases x) auto
  then have ch: "after_size ch" "LF \<notin> set (ch # y)"
    using assms(3) by (cases x; auto simp: extension_ok_def after_size_def)+
  have e: "?d\<lparr>hex_count := 0, chunked_state := CHUNKED_IN_CHUNK_EXT\<rparr> = ?e"
    using assms(1) by (simp add: ready_def)
  have "chunk_step ?d ch = (?e, [], None)"
    using assms(1,2) ch after_size_not_hex [OF ch(1)] unfolding e [symmetric]
    by (auto simp: chunk_step_def size_step_def ext_step_def ready_def size_ok_def)
  then have first: "chunk_run ?d (ch # v) = chunk_run ?e v" for v by simp
  have "x @ [CR, LF] @ w = (x @ [CR]) @ LF # w" by simp
  then have split: "x @ [CR, LF] @ w = ch # y @ LF # w" unfolding y by simp
  have "chunk_run ?d (x @ [CR, LF] @ w) = chunk_run ?e (y @ LF # w)"
    unfolding split by (rule first)
  also have "\<dots> = chunk_run ?e (LF # w)"
    using ch by (intro ext_skip) auto
  finally show ?thesis using digits by simp
qed

lemma run_chunk:
  assumes "ready d" "chunk_ok c"
  shows "chunk_run d (chunk_text c @ w) = prepended (payload c) (chunk_run d w)"
proof -
  let ?n = "length (payload c)"
  have "?n < 16 ^ length (size_text c)"
    using assms(2) hex_value_bound [of "size_text c"] by (auto simp: chunk_ok_def size_ok_def)
  also have "(16::nat) ^ length (size_text c) \<le> 16 ^ 16"
    using assms(2) by (intro power_increasing) (auto simp: chunk_ok_def size_ok_def)
  finally have "?n < 2 ^ 64" by simp
  then have n: "unat (of_nat ?n :: 64 word) = ?n" by (simp add: unat_of_nat)
  have nz: "?n \<noteq> 0" "(of_nat ?n :: 64 word) \<noteq> 0" using assms(2) n by (auto simp: chunk_ok_def)
  let ?e = "d\<lparr>bytes_left_in_chunk := of_nat ?n, chunked_state := CHUNKED_IN_CHUNK_DATA\<rparr>"
  let ?c = "d\<lparr>bytes_left_in_chunk := 0, chunked_state := CHUNKED_IN_CHUNK_CRLF\<rparr>"
  have "chunk_run d (chunk_text c @ w) = chunk_run ?e (payload c @ CR # LF # w)"
    using run_size_line [OF assms(1), of "size_text c" "extension c" "payload c @ CR # LF # w"] assms(2) nz
    by (simp add: chunk_text_def chunk_ok_def chunk_step_def ext_step_def)
  also have "\<dots> = prepended (payload c) (chunk_run ?c (CR # LF # w))"
    using chunk_run_data [of ?e "payload c" "CR # LF # w"] n nz by simp
  also have "chunk_run ?c (CR # LF # w) = chunk_run (d\<lparr>bytes_left_in_chunk := 0, chunked_state := CHUNKED_IN_CHUNK_SIZE\<rparr>) w"
    by (simp add: chunk_step_def)
  also have "d\<lparr>bytes_left_in_chunk := 0, chunked_state := CHUNKED_IN_CHUNK_SIZE\<rparr> = d"
    using assms(1) by (cases d) (simp add: ready_def)
  finally show ?thesis .
qed

lemma run_chunks:
  "ready d \<Longrightarrow> \<forall>c\<in>set cs. chunk_ok c \<Longrightarrow>
     chunk_run d (concat (map chunk_text cs) @ w) = prepended (concat (map payload cs)) (chunk_run d w)"
  by (induction cs) (simp_all add: run_chunk)

lemma run_trailer_line:
  assumes "chunked_state d = CHUNKED_IN_TRAILERS_LINE_HEAD" "trailer_ok l"
  shows "chunk_run d (l @ [CR, LF] @ w) = chunk_run d w"
proof -
  let ?m = "d\<lparr>chunked_state := CHUNKED_IN_TRAILERS_LINE_MIDDLE\<rparr>"
  obtain u ch v where l: "l = u @ ch # v" "\<forall>x\<in>set u. x = CR" "ch \<noteq> CR"
  proof -
    have "\<exists>ch\<in>set l. ch \<noteq> CR" using assms(2) by (simp add: trailer_ok_def)
    then show thesis by (rule split_list_first_propE) (use that in auto)
  qed
  have lf: "LF \<notin> set v" "ch \<noteq> LF" using assms(2) l(1) by (auto simp: trailer_ok_def)
  have "chunk_run d (u @ ch # v @ [CR, LF] @ w) = chunk_run d (ch # v @ [CR, LF] @ w)"
    using assms(1) l(2) by (intro chunk_run_skip) (auto simp: chunk_step_def)
  also have "\<dots> = chunk_run ?m ((v @ [CR]) @ LF # w)"
    using assms(1) l(3) lf(2) by (simp add: chunk_step_def)
  also have "\<dots> = chunk_run ?m (LF # w)"
    using lf(1) by (intro chunk_run_skip) (auto simp: chunk_step_def)
  also have "\<dots> = chunk_run (d\<lparr>chunked_state := CHUNKED_IN_TRAILERS_LINE_HEAD\<rparr>) w"
    by (simp add: chunk_step_def)
  also have "d\<lparr>chunked_state := CHUNKED_IN_TRAILERS_LINE_HEAD\<rparr> = d"
    using assms(1) by (cases d) simp
  finally show ?thesis by (simp add: l(1))
qed

lemma run_trailer:
  assumes "chunked_state d = CHUNKED_IN_TRAILERS_LINE_HEAD" "\<forall>l\<in>set ls. trailer_ok l"
  shows "chunk_run d (concat (map (\<lambda>l. l @ [CR, LF]) ls) @ [CR, LF] @ w) = (d, [], Complete, w)"
  using assms
proof (induction ls)
  case (Cons l ls)
  let ?w = "concat (map (\<lambda>l. l @ [CR, LF]) ls) @ [CR, LF] @ w"
  have "chunk_run d (l @ [CR, LF] @ ?w) = chunk_run d ?w"
    using Cons.prems by (intro run_trailer_line) simp_all
  moreover have "chunk_run d ?w = (d, [], Complete, w)"
    using Cons.prems by (intro Cons.IH) simp_all
  moreover have "concat (map (\<lambda>l. l @ [CR, LF]) (l # ls)) @ [CR, LF] @ w = l @ [CR, LF] @ ?w"
    by simp
  ultimately show ?case by (simp only:)
qed (simp add: chunk_step_def)

lemma run_message:
  assumes "ready d" "chunked_ok cs zeros x trailers"
  shows "\<exists>d'. chunk_run d (chunked_message (consume_trailer d) cs zeros x trailers @ w) =
    (d', concat (map payload cs), Complete, w)"
proof -
  let ?tail = "trailer_text (consume_trailer d) trailers @ w"
  let ?e = "d\<lparr>chunked_state := CHUNKED_IN_CHUNK_EXT, bytes_left_in_chunk := 0\<rparr>"
  have ok: "size_ok zeros" "extension_ok x" "hex_value zeros = 0" "\<forall>c\<in>set cs. chunk_ok c" "\<forall>l\<in>set trailers. trailer_ok l"
    using assms(2) by (simp_all add: chunked_ok_def)
  have "\<exists>d'. chunk_run ?e (LF # ?tail) = (d', [], Complete, w)"
  proof (cases "consume_trailer d")
    case True
    then show ?thesis
      using run_trailer [OF _ ok(5), of "?e\<lparr>chunked_state := CHUNKED_IN_TRAILERS_LINE_HEAD\<rparr>" w]
      by (simp add: trailer_text_def chunk_step_def ext_step_def)
  qed (simp add: trailer_text_def chunk_step_def ext_step_def)
  then obtain d' where d': "chunk_run ?e (LF # ?tail) = (d', [], Complete, w)" by blast
  have "chunk_run d (zeros @ x @ [CR, LF] @ ?tail) = (d', [], Complete, w)"
    using run_size_line [OF assms(1) ok(1,2), of ?tail] d' ok(3) by simp
  then show ?thesis
    using run_chunks [OF assms(1) ok(4), of "zeros @ x @ [CR, LF] @ ?tail"]
    by (simp add: chunked_message_def)
qed

lemma fresh_decoder_ok: "decoder_ok (fresh_decoder t)" "ready (fresh_decoder t)" "total_overhead (fresh_decoder t) = 0"
  "consume_trailer (fresh_decoder t) = t"
  by (simp_all add: fresh_decoder_def decoder_ok_def ready_def)

subsection \<open>Properties\<close>

text \<open>A message with two chunks, an extension and a trailer line, and its pieces.\<close>

definition demo_chunks :: "chunk list" where
  "demo_chunks =
     [\<lparr>size_text = ''3'', extension = '' ;a=b'', payload = ''abc''\<rparr>,
      \<lparr>size_text = ''0a'', extension = [], payload = ''0123456789''\<rparr>]"

definition demo_chunked :: string where
  "demo_chunked = chunked_message True demo_chunks ''0'' [] [''X: y'']"

lemma demo_message_ok: "chunked_ok demo_chunks ''0'' [] [''X: y'']"
  by (simp add: chunked_ok_def demo_chunks_def chunk_ok_def size_ok_def extension_ok_def trailer_ok_def
    hex_value_def decode_hex_def after_size_def)

lemma demo_chunked_text:
  "demo_chunked = ''3 ;a=b'' @ [CR, LF] @ ''abc'' @ [CR, LF] @ ''0a'' @ [CR, LF] @ ''0123456789'' @ [CR, LF] @
     ''0'' @ [CR, LF] @ ''X: y'' @ [CR, LF, CR, LF]"
  by (simp add: demo_chunked_def demo_chunks_def chunked_message_def chunk_text_def trailer_text_def)

lemma demo_body: "concat (map payload demo_chunks) = ''abc0123456789''"
  by (simp add: demo_chunks_def)

text \<open>C32: The decoder of chunked bodies is the automaton that reads one byte at a time, whatever the
  bytes are: the code, which works on blocks, moves the data down in the same buffer and falls
  through the cases of its switch, ends in the automaton's state with the automaton's result. It
  leaves what the automaton decoded in the first \<open>*bufsz\<close> bytes with the bytes it did not read
  behind them, inside the buffer, and keeps the decoder well formed: the size of a chunk, of at most
  16 digits, has not wrapped. Only an incomplete input with an overhead of 100 KB and over 80 per
  cent is an error of its own.\<close>

theorem phr_decode_chunked_is_automaton:
  assumes "decoder_ok d" and "chunk_run d b = (d1, u, e, r)"
    and "phr_decode_chunked d b = (rc, d', b', n)"
  shows "decoder_ok d' \<and> length b' = length b \<and> n + length r \<le> length b \<and>
    take n b' = u \<and> take (length r) (drop n b') = r \<and>
    chunked_state d' = chunked_state d1 \<and> bytes_left_in_chunk d' = bytes_left_in_chunk d1 \<and>
    hex_count d' = hex_count d1 \<and> total_read d' = total_read d + of_nat (length b) \<and>
    rc = (case e of
        Complete \<Rightarrow> int (length r)
      | Invalid \<Rightarrow> -1
      | _ \<Rightarrow> if 100 * 1024 \<le> total_overhead d' \<and>
               total_read d' - total_overhead d' < total_read d' div 4 then -1 else -2)"
proof -
  from phr_decode_chunked_runs [OF assms(1,2) refl refl] assms(3) chunk_run_length [OF assms(2)]
    chunk_run_leaves [OF assms(2)]
  have b': "length b' = length b" "b' = u @ r @ drop (length u + length r) b'" "n = length u"
    "length u + length r \<le> length b" "decoder_ok d1" and e: "e \<noteq> Break"
    and d': "d' = totals (total_read d + of_nat (length b)) (if e = Incomplete
      then total_overhead d + of_nat (length b - length u) else total_overhead d) d1"
    and rc: "rc = (if e = Complete then int (length r)
        else if e = Invalid \<or> 100 * 1024 \<le> total_overhead d' \<and>
          total_read d' - total_overhead d' < total_read d' div 4 then -1 else -2)"
    by auto
  have "take n b' = u" "take (length r) (drop n b') = r"
    unfolding b'(3) by (subst b'(2), simp)+
  with b' d' rc e show ?thesis by (cases e) auto
qed

theorem phr_decode_chunked_is_automaton_witness:
  "\<exists>rc d' b'. phr_decode_chunked (fresh_decoder False) (''2'' @ [CR, LF] @ ''hi'' @ [CR]) = (rc, d', b', 2) \<and>
     rc = -2 \<and> take 2 b' = ''hi'' \<and> chunked_state d' = CHUNKED_IN_CHUNK_CRLF"
proof -
  let ?d = "fresh_decoder False" let ?b = "''2'' @ [CR, LF] @ ''hi'' @ [CR]"
  have run: "chunk_run ?d ?b = (?d\<lparr>bytes_left_in_chunk := 0, chunked_state := CHUNKED_IN_CHUNK_CRLF\<rparr>, ''hi'', Incomplete, [])"
    by (simp add: fresh_decoder_def chunk_step_def size_step_def ext_step_def decode_hex_def after_size_def)
  obtain rc d' b' n where call: "phr_decode_chunked ?d ?b = (rc, d', b', n)" by (metis prod.collapse)
  have n: "n = 2" and v: "total_overhead d' = 4"
    using phr_decode_chunked_runs [OF fresh_decoder_ok(1) run refl refl] call by (auto simp: fresh_decoder_ok)
  show ?thesis
    using phr_decode_chunked_is_automaton [OF fresh_decoder_ok(1) run call] call n v by auto
qed

text \<open>A client that calls the decoder for every piece that arrives gets the result of one call
  with all of the bytes: the same body, the same end (incomplete, invalid or complete) and the same
  bytes behind the message, however the input is cut, as long as the encoding has less than 100 KB
  of overhead.\<close>

theorem phr_decode_chunked_incremental:
  assumes "decode_pieces (fresh_decoder t) [concat ps] = (e, body, rest)"
    and "length (concat ps) < 100 * 1024 + length body + length rest"
  shows "decode_pieces (fresh_decoder t) ps = (e, body, rest)"
proof -
  obtain d1 u e1 r where run: "chunk_run (fresh_decoder t) (concat ps) = (d1, u, e1, r)" by (metis prod.collapse)
  show ?thesis
  proof (rule decode_once [OF fresh_decoder_ok(1) run])
    assume once: "decode_pieces (fresh_decoder t) [concat ps] = (e1, u, (if e1 = Complete then r else []))"
    have "length u + length r \<le> length (concat ps)" using run by (rule chunk_run_length)
    moreover have "r = [] \<or> e1 \<noteq> Incomplete" using run chunk_run_incomplete by blast
    ultimately show ?thesis
      using assms decode_pieces_runs [OF fresh_decoder_ok(1) run] once
      by (cases e1) (auto simp: fresh_decoder_ok)
  next
    assume "decode_pieces (fresh_decoder t) [concat ps] = (Invalid, u, [])"
      and "overhead_limit \<le> unat (total_overhead (fresh_decoder t)) + (length (concat ps) - length u)"
    with assms show ?thesis by (simp add: fresh_decoder_ok)
  qed
qed

theorem phr_decode_chunked_incremental_witness:
  "decode_pieces (fresh_decoder True) [take 9 demo_chunked, drop 9 demo_chunked @ ''GET'']
     = (Complete, ''abc0123456789'', ''GET'')"
proof -
  let ?ps = "[take 9 demo_chunked, drop 9 demo_chunked @ ''GET'']"
  have whole: "concat ?ps = demo_chunked @ ''GET''" by simp
  obtain d' where run: "chunk_run (fresh_decoder True) (concat ?ps) = (d', ''abc0123456789'', Complete, ''GET'')"
    using run_message [OF fresh_decoder_ok(2) demo_message_ok, of True "''GET''",
        unfolded fresh_decoder_ok, folded demo_chunked_def]
    unfolding whole demo_body by blast
  have len: "length (concat ?ps) < 100"
    unfolding whole demo_chunked_text by simp
  have once: "decode_pieces (fresh_decoder True) [concat ?ps] = (Complete, ''abc0123456789'', ''GET'')"
    using decode_once [OF fresh_decoder_ok(1) run] by auto
  show ?thesis
    by (rule phr_decode_chunked_incremental [OF once]) (use len in simp)
qed

text \<open>Decoding undoes encoding: a body cut into chunks in any way, with sizes in any spelling of
  the digits, with extensions and, when the decoder consumes the trailer, trailer lines, followed by
  any bytes and arriving in any pieces, is decoded to the concatenation of the chunks, and the bytes
  behind the message are left to the caller; the framing may take up to 100 KB.\<close>

theorem phr_decode_chunked_roundtrip:
  assumes "chunked_ok cs zeros x trailers"
    and "concat ps = chunked_message t cs zeros x trailers @ more_input"
    and "length (chunked_message t cs zeros x trailers) < 100 * 1024 + length (concat (map payload cs))"
  shows "decode_pieces (fresh_decoder t) ps = (Complete, concat (map payload cs), more_input)"
proof -
  obtain d' where run: "chunk_run (fresh_decoder t) (concat ps) = (d', concat (map payload cs), Complete, more_input)"
    using run_message [OF fresh_decoder_ok(2) assms(1), of t more_input] assms(2) by (auto simp: fresh_decoder_ok)
  show ?thesis
    using decode_pieces_runs [OF fresh_decoder_ok(1) run] assms(2,3) by (simp add: fresh_decoder_ok)
qed

theorem phr_decode_chunked_roundtrip_witness:
  "decode_pieces (fresh_decoder True) (map (\<lambda>ch. [ch]) demo_chunked) = (Complete, ''abc0123456789'', [])"
proof -
  have "length demo_chunked < 100 * 1024 + length (concat (map payload demo_chunks))"
    by (simp add: demo_chunked_text)
  moreover have "concat (map (\<lambda>ch. [ch]) demo_chunked) = demo_chunked @ []" by simp
  ultimately show ?thesis
    using phr_decode_chunked_roundtrip [OF demo_message_ok, of "map (\<lambda>ch. [ch]) demo_chunked" True "[]",
      folded demo_chunked_def] unfolding demo_body by blast
qed

end
