(* ===== verification/ListStore.thy ===== *)
theory ListStore
  imports Prelude
begin

section \<open>The shared linked list with one lock per node\<close>

text \<open>
  \<^verbatim>\<open>2/2.3\<close>: three walkers count neighbours by the length of their strings while three swappers
  exchange neighbours, all of them locking hand over hand. The directory has the program three
  times, with mutexes, spin locks and read-write locks; \<open>excludes t u\<close> says that a lock held by
  \<open>u\<close> keeps \<open>t\<close> out. A step of a thread is its code from one lock operation to the next; a
  thread whose lock is taken stays where it is. Consecutive unlocks are one step.
\<close>

datatype list_thread = Asc | Desc | Eq | Swap1 | Swap2 | Swap3

definition all_threads :: "list_thread list" where
  "all_threads = [Asc, Desc, Eq, Swap1, Swap2, Swap3]"

fun is_swapper :: "list_thread \<Rightarrow> bool" where
  "is_swapper Asc = False"
| "is_swapper Desc = False"
| "is_swapper Eq = False"
| "is_swapper _ = True"

record node =
  n_value :: string
  n_next :: ptr

text \<open>\<open>held\<close> are the nodes a thread has locked, in the order it locked them.\<close>

record list_store =
  first_node :: ptr
  nodes :: "addr \<rightharpoonup> node"
  held :: "list_thread \<Rightarrow> addr list"
  iters :: "list_thread \<Rightarrow> 64 word"
  found :: "list_thread \<Rightarrow> 64 word"
  comp_count :: "32 word"

subsection \<open>Building the list\<close>

definition VALUE_SIZE :: nat where
  "VALUE_SIZE = 100"

definition generate_rand_len_string :: "nat \<Rightarrow> nat \<Rightarrow> string run" where
  "generate_rand_len_string r max_size =
     (let len = r mod max_size in
      if len < VALUE_SIZE then ret (replicate len CHR ''a'') else crashed OutOfBounds)"

text \<open>The loop: \<open>calloc\<close> results and random numbers are taken from lists, one for each node.\<close>

fun init_loop :: "(ptr \<times> nat) list \<Rightarrow> ptr \<times> (addr \<rightharpoonup> node) \<Rightarrow> (ptr \<times> (addr \<rightharpoonup> node)) run" where
  "init_loop [] (first, h) = ret (first, h)"
| "init_loop ((mc, r) # rest) (first, h) =
     (case mc of None \<Rightarrow> crashed AbortCall
      | Some a \<Rightarrow> bindR (generate_rand_len_string r 100) (\<lambda>v.
          init_loop rest (Some a, h(a \<mapsto> \<lparr>n_value = v, n_next = first\<rparr>))))"

definition init_storage :: "(ptr \<times> nat) list \<Rightarrow> list_store run" where
  "init_storage cs = bindR (init_loop cs (None, Map.empty)) (\<lambda>(first, h).
     ret \<lparr>first_node = first, nodes = h, held = (\<lambda>t. []), iters = (\<lambda>t. 0), found = (\<lambda>t. 0), comp_count = 0\<rparr>)"

subsection \<open>The threads\<close>

definition lock_node :: "(list_thread \<Rightarrow> list_thread \<Rightarrow> bool) \<Rightarrow> list_thread \<Rightarrow> addr \<Rightarrow> list_store \<Rightarrow> list_store run" where
  "lock_node excludes t a s = bindR (deref (nodes s) (Some a)) (\<lambda>_.
     if list_all (\<lambda>u. u = t \<or> \<not> excludes t u \<or> a \<notin> set (held s u)) all_threads
     then ret (s\<lparr>held := (held s)(t := held s t @ [a])\<rparr>) else ret s)"

definition count_step ::
  "(list_thread \<Rightarrow> list_thread \<Rightarrow> bool) \<Rightarrow> bool \<Rightarrow> (nat \<Rightarrow> nat \<Rightarrow> bool) \<Rightarrow> list_thread \<Rightarrow> list_store \<Rightarrow> list_store run" where
  "count_step excludes comps cmp t s =
     (case held s t of
        [] \<Rightarrow> (case first_node s of None \<Rightarrow> crashed NullDeref | Some a \<Rightarrow> lock_node excludes t a s)
      | [cur] \<Rightarrow> bindR (deref (nodes s) (Some cur)) (\<lambda>x.
          case n_next x of
            None \<Rightarrow> ret (s\<lparr>held := (held s)(t := []), iters := (iters s)(t := iters s t + 1)\<rparr>)
          | Some nxt \<Rightarrow> lock_node excludes t nxt s)
      | cur # nxt # _ \<Rightarrow> bindR (deref (nodes s) (Some cur)) (\<lambda>x. bindR (deref (nodes s) (Some nxt)) (\<lambda>y.
          ret (s\<lparr>found := (found s)(t := found s t + (if cmp (length (n_value x)) (length (n_value y)) then 1 else 0)),
            comp_count := comp_count s + (if comps then 1 else 0), held := (held s)(t := [nxt])\<rparr>))))"

text \<open>\<open>r\<close> is what \<open>rand\<close> returns at this point of the loop.\<close>

definition swap_step ::
  "(list_thread \<Rightarrow> list_thread \<Rightarrow> bool) \<Rightarrow> list_thread \<Rightarrow> int \<Rightarrow> list_store \<Rightarrow> list_store run" where
  "swap_step excludes t r s =
     (case held s t of
        [] \<Rightarrow> (case first_node s of None \<Rightarrow> ret s | Some a \<Rightarrow> lock_node excludes t a s)
      | [prev] \<Rightarrow> bindR (deref (nodes s) (Some prev)) (\<lambda>x.
          case n_next x of
            None \<Rightarrow> ret (s\<lparr>held := (held s)(t := [])\<rparr>)
          | Some cur \<Rightarrow> lock_node excludes t cur s)
      | [prev, cur] \<Rightarrow> bindR (deref (nodes s) (Some cur)) (\<lambda>x.
          case n_next x of
            None \<Rightarrow> ret (s\<lparr>held := (held s)(t := [])\<rparr>)
          | Some nxt \<Rightarrow> lock_node excludes t nxt s)
      | prev # cur # nxt # _ \<Rightarrow>
          (if r mod 3 = 0 then
             bindR (deref (nodes s) (Some prev)) (\<lambda>x.
             let h = (nodes s)(prev \<mapsto> x\<lparr>n_next := Some nxt\<rparr>) in
             bindR (deref h (Some nxt)) (\<lambda>z. bindR (deref h (Some cur)) (\<lambda>y.
             let h = h(cur \<mapsto> y\<lparr>n_next := n_next z\<rparr>) in
             bindR (deref h (Some nxt)) (\<lambda>z.
             ret (s\<lparr>nodes := h(nxt \<mapsto> z\<lparr>n_next := Some cur\<rparr>), found := (found s)(t := found s t + 1),
               held := (held s)(t := [cur])\<rparr>)))))
           else ret (s\<lparr>held := (held s)(t := [cur])\<rparr>)))"

subsection \<open>The three programs\<close>

text \<open>A mutex and a spin lock keep every other thread out; a read lock admits other readers.\<close>

definition exclusive :: "list_thread \<Rightarrow> list_thread \<Rightarrow> bool" where
  "exclusive t u = True"

definition rw_excludes :: "list_thread \<Rightarrow> list_thread \<Rightarrow> bool" where
  "rw_excludes t u \<longleftrightarrow> is_swapper t \<or> is_swapper u"

definition mutex_count_asc :: "list_store \<Rightarrow> list_store run" where
  "mutex_count_asc = count_step exclusive True (<) Asc"

definition mutex_count_desc :: "list_store \<Rightarrow> list_store run" where
  "mutex_count_desc = count_step exclusive True (>) Desc"

definition mutex_count_eq :: "list_store \<Rightarrow> list_store run" where
  "mutex_count_eq = count_step exclusive True (=) Eq"

definition mutex_swapper1 :: "int \<Rightarrow> list_store \<Rightarrow> list_store run" where
  "mutex_swapper1 = swap_step exclusive Swap1"

definition mutex_swapper2 :: "int \<Rightarrow> list_store \<Rightarrow> list_store run" where
  "mutex_swapper2 = swap_step exclusive Swap2"

definition mutex_swapper3 :: "int \<Rightarrow> list_store \<Rightarrow> list_store run" where
  "mutex_swapper3 = swap_step exclusive Swap3"

definition rw_count_asc :: "list_store \<Rightarrow> list_store run" where
  "rw_count_asc = count_step rw_excludes False (<) Asc"

definition rw_count_desc :: "list_store \<Rightarrow> list_store run" where
  "rw_count_desc = count_step rw_excludes False (>) Desc"

definition rw_count_eq :: "list_store \<Rightarrow> list_store run" where
  "rw_count_eq = count_step rw_excludes False (=) Eq"

definition rw_swapper1 :: "int \<Rightarrow> list_store \<Rightarrow> list_store run" where
  "rw_swapper1 = swap_step rw_excludes Swap1"

definition rw_swapper2 :: "int \<Rightarrow> list_store \<Rightarrow> list_store run" where
  "rw_swapper2 = swap_step rw_excludes Swap2"

definition rw_swapper3 :: "int \<Rightarrow> list_store \<Rightarrow> list_store run" where
  "rw_swapper3 = swap_step rw_excludes Swap3"

definition spin_count_asc :: "list_store \<Rightarrow> list_store run" where
  "spin_count_asc = count_step exclusive False (<) Asc"

definition spin_count_desc :: "list_store \<Rightarrow> list_store run" where
  "spin_count_desc = count_step exclusive False (>) Desc"

definition spin_count_eq :: "list_store \<Rightarrow> list_store run" where
  "spin_count_eq = count_step exclusive False (=) Eq"

definition spin_swapper1 :: "int \<Rightarrow> list_store \<Rightarrow> list_store run" where
  "spin_swapper1 = swap_step exclusive Swap1"

definition spin_swapper2 :: "int \<Rightarrow> list_store \<Rightarrow> list_store run" where
  "spin_swapper2 = swap_step exclusive Swap2"

definition spin_swapper3 :: "int \<Rightarrow> list_store \<Rightarrow> list_store run" where
  "spin_swapper3 = swap_step exclusive Swap3"

text \<open>What a thread of a program does next; the walkers make no use of the random number.\<close>

fun mutex_thread :: "list_thread \<Rightarrow> int \<Rightarrow> list_store \<Rightarrow> list_store run" where
  "mutex_thread Asc r = mutex_count_asc"
| "mutex_thread Desc r = mutex_count_desc"
| "mutex_thread Eq r = mutex_count_eq"
| "mutex_thread Swap1 r = mutex_swapper1 r"
| "mutex_thread Swap2 r = mutex_swapper2 r"
| "mutex_thread Swap3 r = mutex_swapper3 r"

fun rw_thread :: "list_thread \<Rightarrow> int \<Rightarrow> list_store \<Rightarrow> list_store run" where
  "rw_thread Asc r = rw_count_asc"
| "rw_thread Desc r = rw_count_desc"
| "rw_thread Eq r = rw_count_eq"
| "rw_thread Swap1 r = rw_swapper1 r"
| "rw_thread Swap2 r = rw_swapper2 r"
| "rw_thread Swap3 r = rw_swapper3 r"

fun spin_thread :: "list_thread \<Rightarrow> int \<Rightarrow> list_store \<Rightarrow> list_store run" where
  "spin_thread Asc r = spin_count_asc"
| "spin_thread Desc r = spin_count_desc"
| "spin_thread Eq r = spin_count_eq"
| "spin_thread Swap1 r = spin_swapper1 r"
| "spin_thread Swap2 r = spin_swapper2 r"
| "spin_thread Swap3 r = spin_swapper3 r"

text \<open>The states a program gets into from the list that \<open>init_storage\<close> builds.\<close>

inductive list_reachable ::
  "(list_thread \<Rightarrow> int \<Rightarrow> list_store \<Rightarrow> list_store run) \<Rightarrow> list_store \<Rightarrow> list_store \<Rightarrow> bool"
  for thread :: "list_thread \<Rightarrow> int \<Rightarrow> list_store \<Rightarrow> list_store run" and s0 :: list_store where
  Start: "list_reachable thread s0 s0"
| Step: "list_reachable thread s0 s \<Longrightarrow> thread t r s = ret s' \<Longrightarrow> list_reachable thread s0 s'"

text \<open>A thread that makes \<open>n\<close> steps while no other thread does.\<close>

fun steps_alone :: "(list_store \<Rightarrow> list_store run) \<Rightarrow> nat \<Rightarrow> list_store \<Rightarrow> list_store run" where
  "steps_alone f 0 s = ret s"
| "steps_alone f (Suc n) s = bindR (f s) (steps_alone f n)"

lemmas list_program_defs =
  mutex_count_asc_def mutex_count_desc_def mutex_count_eq_def mutex_swapper1_def mutex_swapper2_def
  mutex_swapper3_def rw_count_asc_def rw_count_desc_def rw_count_eq_def rw_swapper1_def rw_swapper2_def
  rw_swapper3_def spin_count_asc_def spin_count_desc_def spin_count_eq_def spin_swapper1_def
  spin_swapper2_def spin_swapper3_def

end
