(* ===== verification/ListStoreProps.thy ===== *)
theory ListStoreProps
  imports ListStore "HOL-Library.Multiset"
begin

section \<open>Properties of the shared list\<close>

text \<open>
  What every program of \<^verbatim>\<open>2/2.3\<close> keeps is proved once, in the locale \<open>list_program\<close>, from what
  its threads do and whom its locks keep out; the three programs are its interpretations.
\<close>

subsection \<open>The list and the locked segments\<close>

abbreviation nexts :: "list_store \<Rightarrow> (addr \<rightharpoonup> ptr)" where
  "nexts s \<equiv> links n_next (nodes s)"

definition linked :: "(addr \<rightharpoonup> ptr) \<Rightarrow> addr list \<Rightarrow> bool" where
  "linked l xs \<longleftrightarrow> successively (\<lambda>a b. l a = Some (Some b)) xs"

definition list_inv :: "(list_thread \<Rightarrow> list_thread \<Rightarrow> bool) \<Rightarrow> list_store \<Rightarrow> addr list \<Rightarrow> bool" where
  "list_inv excludes s as \<longleftrightarrow> llist (nexts s) (first_node s) as \<and> as \<noteq> [] \<and>
     (\<forall>t. set (held s t) \<subseteq> set as \<and> linked (nexts s) (held s t) \<and>
        length (held s t) \<le> (if is_swapper t then 3 else 2)) \<and>
     (\<forall>t u. t \<noteq> u \<and> excludes t u \<longrightarrow> set (held s t) \<inter> set (held s u) = {})"

lemma linked_simps [simp]: "linked l []" "linked l [a]"
  "linked l (a # b # xs) \<longleftrightarrow> l a = Some (Some b) \<and> linked l (b # xs)"
  by (simp_all add: linked_def)

lemma linked_snoc: "linked l (xs @ [a]) \<longleftrightarrow> linked l xs \<and> (xs \<noteq> [] \<longrightarrow> l (last xs) = Some (Some a))"
  by (auto simp: linked_def successively_append_iff)

lemma linked_frame: "(\<And>a. a \<in> set xs \<Longrightarrow> l' a = l a) \<Longrightarrow> linked l xs \<Longrightarrow> linked l' xs"
  by (induction xs rule: induct_list012) auto

lemma llist_next:
  assumes "llist l p as" and "a \<in> set as" and "l a = Some (Some b)"
  shows "\<exists>us vs. as = us @ a # b # vs"
proof -
  from assms(2) obtain us ws where as: "as = us @ a # ws" by (auto simp: in_set_conv_decomp)
  with assms(1,3) have "llist l (Some b) ws" by (auto simp: lseg_append)
  then obtain vs where "ws = b # vs" by (auto simp: llist_Some)
  then show ?thesis using as by blast
qed

text \<open>The three assignments of a swapper exchange two neighbours of the list.\<close>

lemma llist_swap:
  assumes "llist l p (us @ a # b # c # vs)" and "l c = Some q"
  shows "llist (l(a \<mapsto> Some c, b \<mapsto> q, c \<mapsto> Some b)) p (us @ a # c # b # vs)"
proof -
  have d: "distinct (us @ a # b # c # vs)" using assms(1) by (rule llist_distinct)
  have "lseg l p us (Some a)" "llist l q vs" using assms by (auto simp: lseg_append)
  then show ?thesis using d by (simp add: lseg_append)
qed

subsection \<open>Positions\<close>

definition pos :: "addr list \<Rightarrow> addr \<Rightarrow> nat" where
  "pos as a = length (takeWhile (\<lambda>x. x \<noteq> a) as)"

lemma pos_split: "a \<notin> set us \<Longrightarrow> pos (us @ a # vs) a = length us"
  by (simp add: pos_def takeWhile_append)

lemma pos_next:
  assumes "llist l p as" and "a \<in> set as" and "l a = Some (Some b)"
  shows "pos as b = Suc (pos as a) \<and> b \<in> set as"
proof -
  obtain us vs where as: "as = us @ a # b # vs" using llist_next[OF assms] by blast
  have "distinct (us @ a # b # vs)" using llist_distinct[OF assms(1)] unfolding as .
  then have d: "a \<notin> set us" "b \<notin> set (us @ [a])" by auto
  have "pos as a = length us" unfolding as by (rule pos_split[OF d(1)])
  moreover have "pos as b = length (us @ [a])" using pos_split[OF d(2), of vs] unfolding as by simp
  ultimately show ?thesis unfolding as by simp
qed

lemma pos_last:
  assumes "llist l p as"
  shows "set xs \<subseteq> set as \<Longrightarrow> linked l xs \<Longrightarrow> w \<in> set xs \<Longrightarrow> pos as w \<le> pos as (last xs)"
proof (induction xs arbitrary: w)
  case (Cons a xs)
  show ?case
  proof (cases xs)
    case (Cons b ys)
    then have n: "pos as b = Suc (pos as a)" using pos_next[OF assms, of a b] Cons.prems by simp
    have le: "pos as v \<le> pos as (last xs)" if "v \<in> set xs" for v
      using Cons.IH[OF _ _ that] Cons.prems Cons by simp
    show ?thesis
    proof (cases "w = a")
      case True
      then show ?thesis using n le[of b] Cons by simp
    qed (use le Cons.prems Cons in simp)
  qed (use Cons.prems in simp)
qed simp

subsection \<open>Every program keeps the list and never deadlocks\<close>

locale list_program =
  fixes excludes :: "list_thread \<Rightarrow> list_thread \<Rightarrow> bool"
    and thread :: "list_thread \<Rightarrow> int \<Rightarrow> list_store \<Rightarrow> list_store run"
  assumes swapper: "is_swapper t \<Longrightarrow> thread t r = swap_step excludes t r"
    and walker: "\<not> is_swapper t \<Longrightarrow> \<exists>comps cmp. thread t r = count_step excludes comps cmp t"
    and swapper_alone: "is_swapper t \<Longrightarrow> excludes t u"
    and symmetric: "excludes t u = excludes u t"
begin

definition keeps :: "list_store \<Rightarrow> addr list \<Rightarrow> list_store run \<Rightarrow> bool" where
  "keeps s as m \<longleftrightarrow> (\<exists>s' as'. m = ret s' \<and> list_inv excludes s' as' \<and> mset as' = mset as \<and> hd as' = hd as \<and>
     first_node s' = first_node s \<and> links n_value (nodes s') = links n_value (nodes s))"

lemma list_inv_held:
  assumes "list_inv excludes s as" and "held s' = (held s)(t := xs)" and "nodes s' = nodes s"
    and "first_node s' = first_node s" and "set xs \<subseteq> set as" and "linked (nexts s) xs"
    and "length xs \<le> (if is_swapper t then 3 else 2)"
    and "\<And>u. u \<noteq> t \<Longrightarrow> excludes t u \<Longrightarrow> set xs \<inter> set (held s u) = {}"
  shows "keeps s as (ret s')"
proof -
  have "set (held s' u) \<subseteq> set as \<and> linked (nexts s') (held s' u) \<and>
      length (held s' u) \<le> (if is_swapper u then 3 else 2)" for u
    using assms(1-7) by (cases "u = t") (simp_all add: list_inv_def)
  moreover have "set (held s' u) \<inter> set (held s' v) = {}" if "u \<noteq> v" "excludes u v" for u v
  proof -
    consider "u = t" | "v = t" | "u \<noteq> t" "v \<noteq> t" by blast
    then show ?thesis
    proof cases
      case 1 then show ?thesis using assms(2,8) that by simp
    next
      case 2
      then have "excludes t u" using that symmetric by simp
      then show ?thesis using 2 assms(2,8) that by (simp add: Int_commute)
    next
      case 3 then show ?thesis using assms(1,2) that by (simp add: list_inv_def)
    qed
  qed
  ultimately have "list_inv excludes s' as" using assms(1,3,4) unfolding list_inv_def by metis
  then show ?thesis using assms(3,4) by (auto simp: keeps_def)
qed

lemma release_keeps:
  assumes "list_inv excludes s as" and "held s' = (held s)(t := xs)" and "nodes s' = nodes s"
    and "first_node s' = first_node s" and "set xs \<subseteq> set (held s t)" and "length xs \<le> 1"
  shows "keeps s as (ret s')"
proof (rule list_inv_held[OF assms(1-4)])
  show "set xs \<subseteq> set as" using assms(1,5) unfolding list_inv_def by blast
  show "linked (nexts s) xs" using assms(6) by (cases xs) auto
  show "length xs \<le> (if is_swapper t then 3 else 2)" using assms(6) by simp
  fix u assume "u \<noteq> t" "excludes t u"
  then have "set (held s t) \<inter> set (held s u) = {}" using assms(1) unfolding list_inv_def by metis
  then show "set xs \<inter> set (held s u) = {}" using assms(5) by blast
qed

lemma node_allocated:
  assumes "list_inv excludes s as" and "a \<in> set as"
  shows "\<exists>x. nodes s a = Some x"
  using assms lseg_dom[of "nexts s" "first_node s" as None] by (auto simp: list_inv_def)

lemma lock_keeps:
  assumes "list_inv excludes s as" and "a \<in> set as"
    and "held s t \<noteq> [] \<longrightarrow> nexts s (last (held s t)) = Some (Some a)"
    and "length (held s t) < (if is_swapper t then 3 else 2)"
  shows "keeps s as (lock_node excludes t a s)"
proof -
  obtain x where x: "nodes s a = Some x" using node_allocated[OF assms(1,2)] by blast
  show ?thesis
  proof (cases "list_all (\<lambda>u. u = t \<or> \<not> excludes t u \<or> a \<notin> set (held s u)) all_threads")
    case False
    then have "lock_node excludes t a s = ret s" using x by (simp add: lock_node_def)
    then show ?thesis using assms(1) by (auto simp: keeps_def)
  next
    case True
    have free: "a \<notin> set (held s u)" if "u \<noteq> t" "excludes t u" for u
      using True that by (cases u) (auto simp: all_threads_def)
    have "keeps s as (ret (s\<lparr>held := (held s)(t := held s t @ [a])\<rparr>))"
    proof (rule list_inv_held[OF assms(1)])
      show "set (held s t @ [a]) \<subseteq> set as" using assms(1,2) by (auto simp: list_inv_def)
      show "linked (nexts s) (held s t @ [a])" using assms(1,3) by (auto simp: list_inv_def linked_snoc)
      show "length (held s t @ [a]) \<le> (if is_swapper t then 3 else 2)" using assms(4) by simp
      fix u assume u: "u \<noteq> t" "excludes t u"
      then have "set (held s t) \<inter> set (held s u) = {}" using assms(1) unfolding list_inv_def by metis
      then show "set (held s t @ [a]) \<inter> set (held s u) = {}" using free[OF u] by auto
    qed simp_all
    then show ?thesis using x True by (simp add: lock_node_def)
  qed
qed

lemma held_in_list: "list_inv excludes s as \<Longrightarrow> a \<in> set (held s t) \<Longrightarrow> a \<in> set as"
  unfolding list_inv_def by blast

lemma next_in_list:
  assumes "list_inv excludes s as" and "a \<in> set as" and "nodes s a = Some x" "n_next x = Some b"
  shows "b \<in> set as"
proof -
  have "nexts s a = Some (Some b)" using assms(3,4) by simp
  then show ?thesis using pos_next[of "nexts s" "first_node s" as a b] assms(1,2) by (simp add: list_inv_def)
qed

lemma first_in_list:
  assumes "list_inv excludes s as"
  shows "first_node s = Some (hd as) \<and> hd as \<in> set as"
  using assms by (cases as) (auto simp: list_inv_def)

lemma count_keeps:
  assumes "list_inv excludes s as" and "\<not> is_swapper t"
  shows "keeps s as (count_step excludes comps cmp t s)"
proof -
  have "length (held s t) \<le> (if is_swapper t then 3 else 2)"
    using assms(1) unfolding list_inv_def by metis
  then have len: "length (held s t) \<le> 2" using assms(2) by simp
  consider "held s t = []" | c where "held s t = [c]" | c n where "held s t = [c, n]"
    using len by (cases "held s t" rule: remdups_adj.cases) auto
  then show ?thesis
  proof cases
    case 1
    then show ?thesis
      using first_in_list[OF assms(1)] lock_keeps[OF assms(1), of "hd as" t] assms(2) by (simp add: count_step_def)
  next
    case 2
    have "c \<in> set as" using held_in_list[OF assms(1), of c t] 2 by simp
    then obtain x where x: "nodes s c = Some x" "c \<in> set as" using node_allocated[OF assms(1)] by blast
    show ?thesis
    proof (cases "n_next x")
      case None
      then show ?thesis using 2 x by (simp add: count_step_def) (rule release_keeps[OF assms(1), of _ t "[]"], simp_all)
    next
      case (Some b)
      then show ?thesis using 2 x next_in_list[OF assms(1) x(2,1) Some] lock_keeps[OF assms(1), of b t] assms(2)
        by (simp add: count_step_def)
    qed
  next
    case 3
    then have "c \<in> set as" "n \<in> set as" using held_in_list[OF assms(1), of _ t] by simp_all
    then obtain x y where "nodes s c = Some x" "nodes s n = Some y" using node_allocated[OF assms(1)] by blast
    then show ?thesis using 3
      by (simp add: count_step_def) (intro conjI impI; rule release_keeps[OF assms(1), of _ t "[n]"]; simp)
  qed
qed

lemma held_segment:
  assumes "list_inv excludes s as" and h: "held s t = [p, c, n]"
  shows "p \<noteq> c \<and> p \<noteq> n \<and> c \<noteq> n \<and> (\<exists>us vs. as = us @ p # c # n # vs)"
proof -
  have inv: "llist (nexts s) (first_node s) as" "linked (nexts s) [p, c, n]" "p \<in> set as"
    using assms(1) h unfolding list_inv_def by (metis, metis, metis list.set_intros(1) subsetD)
  then have links: "nexts s p = Some (Some c)" "nexts s c = Some (Some n)" by simp_all
  obtain us ws where us: "as = us @ p # c # ws" using llist_next[OF inv(1,3) links(1)] by blast
  then have "llist (nexts s) (Some n) ws" using inv(1) links(2) by (auto simp: lseg_append)
  then obtain vs where as: "as = us @ p # c # n # vs" using us by (auto simp: llist_Some)
  have d: "distinct as" using inv(1) by (rule llist_distinct)
  then have "p \<noteq> c" "p \<noteq> n" "c \<noteq> n" unfolding as by auto
  then show ?thesis using as by blast
qed

lemma swap_exchanges:
  assumes "list_inv excludes s as" and "is_swapper t" and h: "held s t = [p, c, n]" and "r mod 3 = 0"
  shows "keeps s as (swap_step excludes t r s)"
proof -
  obtain us vs where as: "as = us @ p # c # n # vs" and ne: "p \<noteq> c" "p \<noteq> n" "c \<noteq> n"
    using held_segment[OF assms(1) h] by blast
  have inv: "llist (nexts s) (first_node s) as" using assms(1) by (simp add: list_inv_def)
  have "{p, c, n} \<subseteq> set as" unfolding as by auto
  then obtain x y z where n: "nodes s p = Some x" "nodes s c = Some y" "nodes s n = Some z"
    using node_allocated[OF assms(1)] by (meson insert_subset)
  let ?h = "(nodes s)(p \<mapsto> x\<lparr>n_next := Some n\<rparr>, c \<mapsto> y\<lparr>n_next := n_next z\<rparr>, n \<mapsto> z\<lparr>n_next := Some c\<rparr>)"
  let ?s = "s\<lparr>nodes := ?h, found := (found s)(t := found s t + 1), held := (held s)(t := [c])\<rparr>"
  let ?as = "us @ p # n # c # vs"
  have st: "swap_step excludes t r s = ret ?s"
    using h n ne assms(4) by (simp add: swap_step_def Let_def)
  have nx: "nexts ?s = (nexts s)(p \<mapsto> Some n, c \<mapsto> n_next z, n \<mapsto> Some c)" by simp
  have "llist (nexts ?s) (first_node s) ?as"
    unfolding nx by (rule llist_swap) (use inv as n in simp_all)
  moreover have "set (held ?s u) \<subseteq> set ?as \<and> linked (nexts ?s) (held ?s u) \<and>
      length (held ?s u) \<le> (if is_swapper u then 3 else 2)" for u
  proof (cases "u = t")
    case True
    then show ?thesis using assms(2) by simp
  next
    case False
    have "set (held s t) \<inter> set (held s u) = {}"
      using assms(1) False swapper_alone[OF assms(2), of u] unfolding list_inv_def by metis
    then have "nexts ?s a = nexts s a" if "a \<in> set (held s u)" for a
      using that unfolding nx h by auto
    moreover have "set (held s u) \<subseteq> set as" "linked (nexts s) (held s u)"
      "length (held s u) \<le> (if is_swapper u then 3 else 2)"
      using assms(1) unfolding list_inv_def by metis+
    ultimately show ?thesis using False linked_frame[of "held s u" "nexts ?s" "nexts s"] unfolding as by auto
  qed
  moreover have "set (held ?s u) \<inter> set (held ?s v) = {}" if "u \<noteq> v" "excludes u v" for u v
  proof -
    have "set (held s u) \<inter> set (held s v) = {}" using assms(1) that unfolding list_inv_def by metis
    then show ?thesis using h that by auto
  qed
  ultimately have "list_inv excludes ?s ?as" unfolding list_inv_def by simp
  moreover have "mset ?as = mset as" "hd ?as = hd as" unfolding as by (simp_all add: hd_append)
  moreover have "links n_value ?h = links n_value (nodes s)"
    using n by (auto simp: links_def fun_eq_iff)
  ultimately show ?thesis unfolding st keeps_def by (intro exI[of _ ?s] exI[of _ ?as]) simp
qed

lemma swap_keeps:
  assumes "list_inv excludes s as" and "is_swapper t"
  shows "keeps s as (swap_step excludes t r s)"
proof -
  have "length (held s t) \<le> (if is_swapper t then 3 else 2)"
    using assms(1) unfolding list_inv_def by metis
  then have "length (held s t) \<le> 3" using assms(2) by simp
  then consider "held s t = []" | p where "held s t = [p]" | p c where "held s t = [p, c]"
    | p c n where "held s t = [p, c, n]"
    by (auto simp: le_Suc_eq length_Suc_conv numeral_3_eq_3)
  then show ?thesis
  proof cases
    case 1
    then show ?thesis
      using first_in_list[OF assms(1)] lock_keeps[OF assms(1), of "hd as" t] assms(2) by (simp add: swap_step_def)
  next
    case 2
    have "p \<in> set as" using held_in_list[OF assms(1), of p t] 2 by simp
    then obtain x where x: "nodes s p = Some x" "p \<in> set as" using node_allocated[OF assms(1)] by blast
    show ?thesis
    proof (cases "n_next x")
      case None
      then show ?thesis using 2 x by (simp add: swap_step_def) (rule release_keeps[OF assms(1), of _ t "[]"], simp_all)
    next
      case (Some b)
      then show ?thesis using 2 x next_in_list[OF assms(1) x(2,1) Some] lock_keeps[OF assms(1), of b t] assms(2)
        by (simp add: swap_step_def)
    qed
  next
    case 3
    have "c \<in> set as" using held_in_list[OF assms(1), of c t] 3 by simp
    then obtain x where x: "nodes s c = Some x" "c \<in> set as" using node_allocated[OF assms(1)] by blast
    show ?thesis
    proof (cases "n_next x")
      case None
      then show ?thesis using 3 x by (simp add: swap_step_def) (rule release_keeps[OF assms(1), of _ t "[]"], simp_all)
    next
      case (Some b)
      then show ?thesis using 3 x next_in_list[OF assms(1) x(2,1) Some] lock_keeps[OF assms(1), of b t] assms(2)
        by (simp add: swap_step_def)
    qed
  next
    case 4
    show ?thesis
    proof (cases "r mod 3 = 0")
      case False
      then show ?thesis using 4 by (simp add: swap_step_def) (rule release_keeps[OF assms(1), of _ t "[c]"], simp_all)
    next
      case True
      show ?thesis using swap_exchanges[OF assms 4 True] by simp
    qed
  qed
qed

lemma thread_keeps:
  assumes "list_inv excludes s as"
  shows "keeps s as (thread t r s)"
  using swap_keeps[OF assms] count_keeps[OF assms] swapper[of t r] walker[of t r] by (cases "is_swapper t") auto

text \<open>
  Deadlock freedom. A thread that waits for a node waits for the successor of the last one it
  holds, so of the nodes waited for, the one nearest the end of the list is held by a thread that
  does not wait.
\<close>

definition rank :: "list_store \<Rightarrow> addr list \<Rightarrow> list_thread \<Rightarrow> nat" where
  "rank s as t = (if held s t = [] then 0 else Suc (pos as (last (held s t))))"

lemma lock_blocked:
  assumes "nodes s a = Some x" and "lock_node excludes t a s = ret s"
  shows "\<exists>u. u \<noteq> t \<and> a \<in> set (held s u)"
proof (rule ccontr)
  assume "\<nexists>u. u \<noteq> t \<and> a \<in> set (held s u)"
  then have "lock_node excludes t a s = ret (s\<lparr>held := (held s)(t := held s t @ [a])\<rparr>)"
    using assms(1) by (auto simp: lock_node_def list_all_iff)
  then have "s\<lparr>held := (held s)(t := held s t @ [a])\<rparr> = s" using assms(2) by simp
  then have "held (s\<lparr>held := (held s)(t := held s t @ [a])\<rparr>) t = held s t" by simp
  then show False by simp
qed

lemma waits_for:
  assumes "list_inv excludes s as" and "a \<in> set as"
    and "held s t = [] \<longrightarrow> first_node s = Some a"
    and "held s t \<noteq> [] \<longrightarrow> nexts s (last (held s t)) = Some (Some a)"
    and "lock_node excludes t a s = ret s"
  shows "\<exists>w u. u \<noteq> t \<and> w \<in> set (held s u) \<and> pos as w = rank s as t"
proof -
  obtain x where "nodes s a = Some x" using node_allocated[OF assms(1,2)] by blast
  then obtain u where u: "u \<noteq> t" "a \<in> set (held s u)" using lock_blocked assms(5) by blast
  have "pos as a = rank s as t"
  proof (cases "held s t = []")
    case True
    then have "hd as = a" using first_in_list[OF assms(1)] assms(3) by simp
    moreover obtain y ys where "as = y # ys" using assms(2) by (cases as) auto
    ultimately have "pos as a = 0" by (simp add: pos_def)
    then show ?thesis using True by (simp add: rank_def)
  next
    case False
    then have "last (held s t) \<in> set as" using held_in_list[OF assms(1)] last_in_set by blast
    then show ?thesis
      using False assms(1,4) pos_next[of "nexts s" "first_node s" as "last (held s t)" a]
      by (simp add: list_inv_def rank_def)
  qed
  then show ?thesis using u by blast
qed

lemma stuck_keeps:
  assumes "ret s' = ret s" and "held s' t \<noteq> held s t"
  shows "P"
  using assms by simp

lemma count_stuck:
  assumes "list_inv excludes s as" and "\<not> is_swapper t" and "count_step excludes comps cmp t s = ret s"
  shows "\<exists>w u. u \<noteq> t \<and> w \<in> set (held s u) \<and> pos as w = rank s as t"
proof (cases "held s t")
  case Nil
  then show ?thesis using first_in_list[OF assms(1)] waits_for[OF assms(1), of "hd as" t] assms(3)
    by (simp add: count_step_def)
next
  case (Cons c cs)
  then have c: "c \<in> set as" using held_in_list[OF assms(1), of c t] by simp
  then obtain x where x: "nodes s c = Some x" using node_allocated[OF assms(1)] by blast
  show ?thesis
  proof (cases cs)
    case Nil
    show ?thesis
    proof (cases "n_next x")
      case None
      have "count_step excludes comps cmp t s = ret (s\<lparr>held := (held s)(t := []), iters := (iters s)(t := iters s t + 1)\<rparr>)"
        using Cons Nil None x by (simp add: count_step_def)
      then have "ret (s\<lparr>held := (held s)(t := []), iters := (iters s)(t := iters s t + 1)\<rparr>) = ret s"
        using assms(3) by simp
      then show ?thesis by (rule stuck_keeps[of _ s t]) (simp add: Cons)
    next
      case (Some b)
      then show ?thesis
        using Cons Nil x next_in_list[OF assms(1) c x Some] waits_for[OF assms(1), of b t] assms(3)
        by (simp add: count_step_def)
    qed
  next
    case (Cons n ns)
    have n: "n \<in> set as" using held_in_list[OF assms(1), of n t] \<open>held s t = c # cs\<close> Cons by simp
    then obtain y where y: "nodes s n = Some y" using node_allocated[OF assms(1)] by blast
    have "\<exists>s'. count_step excludes comps cmp t s = ret s' \<and> held s' t = [n]"
      using \<open>held s t = c # cs\<close> Cons x y by (simp add: count_step_def)
    then show ?thesis using assms(3) \<open>held s t = c # cs\<close> Cons by auto
  qed
qed

lemma swap_stuck:
  assumes "list_inv excludes s as" and "is_swapper t" and "swap_step excludes t r s = ret s"
  shows "\<exists>w u. u \<noteq> t \<and> w \<in> set (held s u) \<and> pos as w = rank s as t"
proof -
  have move: "\<exists>w u. u \<noteq> t \<and> w \<in> set (held s u) \<and> pos as w = rank s as t"
    if "nodes s c = Some x" "c \<in> set as" "held s t = cs @ [c]"
      "swap_step excludes t r s = (case n_next x of None \<Rightarrow> ret (s\<lparr>held := (held s)(t := [])\<rparr>)
        | Some b \<Rightarrow> lock_node excludes t b s)" for c x cs
  proof (cases "n_next x")
    case None
    then have "ret (s\<lparr>held := (held s)(t := [])\<rparr>) = ret s" using that(4) assms(3) by simp
    then show ?thesis by (rule stuck_keeps[of _ s t]) (simp add: that(3))
  next
    case (Some b)
    then show ?thesis
      using that next_in_list[OF assms(1) that(2,1) Some] waits_for[OF assms(1), of b t] assms(3) by simp
  qed
  have alloc: "\<exists>x. nodes s c = Some x \<and> c \<in> set as" if "c \<in> set (held s t)" for c
    using held_in_list[OF assms(1) that] node_allocated[OF assms(1)] by blast
  consider "held s t = []" | p where "held s t = [p]" | p c where "held s t = [p, c]"
    | p c n ns where "held s t = p # c # n # ns"
    by (cases "held s t" rule: remdups_adj.cases) (auto, metis neq_Nil_conv)
  then show ?thesis
  proof cases
    case 1
    then show ?thesis using first_in_list[OF assms(1)] waits_for[OF assms(1), of "hd as" t] assms(3)
      by (simp add: swap_step_def)
  next
    case 2
    then obtain x where "nodes s p = Some x" "p \<in> set as" using alloc[of p] by auto
    then show ?thesis using 2 by (intro move[of p x "[]"]) (simp_all add: swap_step_def)
  next
    case 3
    then obtain x where "nodes s c = Some x" "c \<in> set as" using alloc[of c] by auto
    then show ?thesis using 3 by (intro move[of c x "[p]"]) (simp_all add: swap_step_def)
  next
    case 4
    obtain m where m: "keeps s as m" "m = swap_step excludes t r s" using swap_keeps[OF assms(1,2)] by blast
    have "length (held s t) \<le> (if is_swapper t then 3 else 2)" using assms(1) unfolding list_inv_def by metis
    then have h: "held s t = [p, c, n]" using 4 assms(2) by simp
    have "\<exists>s'. swap_step excludes t r s = ret s' \<and> held s' t = [c]"
    proof -
      obtain x y z where xyz: "nodes s p = Some x" "nodes s c = Some y" "nodes s n = Some z"
        using alloc[of p] alloc[of c] alloc[of n] h by auto
      have ne: "p \<noteq> c" "p \<noteq> n" "c \<noteq> n" using held_segment[OF assms(1) h] by simp_all
      show ?thesis using h xyz ne by (auto simp: swap_step_def Let_def)
    qed
    then show ?thesis using assms(3) h by auto
  qed
qed

lemma some_thread_moves:
  assumes "list_inv excludes s as"
  shows "\<exists>t. \<forall>r. \<exists>s'. thread t r s = ret s' \<and> s' \<noteq> s"
proof (rule ccontr)
  assume "\<nexists>t. \<forall>r. \<exists>s'. thread t r s = ret s' \<and> s' \<noteq> s"
  then have st: "\<exists>r. thread t r s = ret s" for t
    using thread_keeps[OF assms] unfolding keeps_def by metis
  have w: "\<exists>w u. u \<noteq> t \<and> w \<in> set (held s u) \<and> pos as w = rank s as t" for t
    using st[of t] swap_stuck[OF assms] count_stuck[OF assms] swapper[of t] walker[of t] by metis
  let ?m = "Max (rank s as ` set all_threads)"
  have le: "rank s as t \<le> ?m" for t
    by (rule Max_ge) (cases t; simp add: all_threads_def)+
  have "?m \<in> rank s as ` set all_threads" by (rule Max_in) (simp_all add: all_threads_def)
  then obtain t where "rank s as t = ?m" by auto
  then obtain w u where u: "w \<in> set (held s u)" "pos as w = ?m" using w[of t] by auto
  then have "pos as w \<le> pos as (last (held s u))"
    using assms pos_last[of "nexts s" "first_node s" as "held s u" w] unfolding list_inv_def by blast
  then have "?m < rank s as u" using u by (auto simp: rank_def)
  then show False using le[of u] by simp
qed

lemma reachable_keeps:
  assumes "list_reachable thread s0 s" and "list_inv excludes s0 as0"
  shows "\<exists>as. list_inv excludes s as \<and> mset as = mset as0 \<and> hd as = hd as0 \<and> first_node s = first_node s0 \<and>
    links n_value (nodes s) = links n_value (nodes s0)"
  using assms
proof (induction rule: list_reachable.induct)
  case (Step s t r s')
  then obtain as where a: "list_inv excludes s as" "mset as = mset as0" "hd as = hd as0"
      "first_node s = first_node s0" "links n_value (nodes s) = links n_value (nodes s0)" by blast
  from thread_keeps[OF a(1), of t r] Step(2) obtain as' where "list_inv excludes s' as'" "mset as' = mset as"
      "hd as' = hd as" "first_node s' = first_node s" "links n_value (nodes s') = links n_value (nodes s)"
    unfolding keeps_def by auto
  then show ?case using a by auto
qed blast

end

subsection \<open>The three programs\<close>

interpretation mutex_list: list_program exclusive mutex_thread
proof
  show "mutex_thread t r = swap_step exclusive t r" if "is_swapper t" for t r
    using that by (cases t) (simp_all add: list_program_defs)
  show "\<exists>comps cmp. mutex_thread t r = count_step exclusive comps cmp t" if "\<not> is_swapper t" for t r
    using that by (cases t) (auto simp: list_program_defs)
qed (simp_all add: exclusive_def)

interpretation rw_list: list_program rw_excludes rw_thread
proof
  show "rw_thread t r = swap_step rw_excludes t r" if "is_swapper t" for t r
    using that by (cases t) (simp_all add: list_program_defs)
  show "\<exists>comps cmp. rw_thread t r = count_step rw_excludes comps cmp t" if "\<not> is_swapper t" for t r
    using that by (cases t) (auto simp: list_program_defs)
qed (auto simp: rw_excludes_def)

interpretation spin_list: list_program exclusive spin_thread
proof
  show "spin_thread t r = swap_step exclusive t r" if "is_swapper t" for t r
    using that by (cases t) (simp_all add: list_program_defs)
  show "\<exists>comps cmp. spin_thread t r = count_step exclusive comps cmp t" if "\<not> is_swapper t" for t r
    using that by (cases t) (auto simp: list_program_defs)
qed (simp_all add: exclusive_def)

subsection \<open>Building the list\<close>

abbreviation granted :: "(addr \<times> nat) list \<Rightarrow> (ptr \<times> nat) list" where
  "granted ars \<equiv> map (\<lambda>(a, r). (Some a, r)) ars"

lemma init_loop_spec:
  assumes "llist (links n_next h) p as" and "set as \<inter> set (map fst ars) = {}" and "distinct (map fst ars)"
  shows "\<exists>h' p'. init_loop (granted ars) (p, h) = ret (p', h') \<and> llist (links n_next h') p' (rev (map fst ars) @ as) \<and>
    dom h' = dom h \<union> set (map fst ars) \<and>
    (\<forall>a \<in> dom h - set (map fst ars). h' a = h a) \<and>
    (\<forall>(a, r) \<in> set ars. links n_value h' a = Some (replicate (r mod 100) CHR ''a''))"
  using assms
proof (induction ars arbitrary: p h as)
  case (Cons ar ars)
  obtain a r where ar: "ar = (a, r)" by (cases ar)
  let ?h = "h(a \<mapsto> \<lparr>n_value = replicate (r mod 100) CHR ''a'', n_next = p\<rparr>)"
  have g: "generate_rand_len_string r 100 = ret (replicate (r mod 100) CHR ''a'')"
    by (simp add: generate_rand_len_string_def Let_def VALUE_SIZE_def)
  have "llist (links n_next ?h) (Some a) (a # as)" using Cons.prems ar by simp
  moreover have "set (a # as) \<inter> set (map fst ars) = {}" "distinct (map fst ars)" using Cons.prems ar by auto
  ultimately obtain h' p' where r:
      "init_loop (granted ars) (Some a, ?h) = ret (p', h')" "llist (links n_next h') p' (rev (map fst ars) @ a # as)"
      "dom h' = dom ?h \<union> set (map fst ars)" "\<forall>b \<in> dom ?h - set (map fst ars). h' b = ?h b"
      "\<forall>(a, r) \<in> set ars. links n_value h' a = Some (replicate (r mod 100) CHR ''a'')"
    using Cons.IH[of ?h "Some a" "a # as"] by blast
  have na: "a \<notin> set (map fst ars)" using Cons.prems(3) ar by simp
  have "h' a = ?h a" using r(4) na by simp
  then have "links n_value h' a = Some (replicate (r mod 100) CHR ''a'')" by (simp add: links_def)
  moreover have "h' b = h b" if "b \<in> dom h - set (map fst (ar # ars))" for b
    using r(4) that ar by auto
  ultimately show ?case using r ar g by (intro exI[of _ h'] exI[of _ p']) auto
qed simp

lemma init_storage_spec:
  assumes "distinct (map fst ars)"
  shows "\<exists>s. init_storage (granted ars) = ret s \<and> llist (nexts s) (first_node s) (rev (map fst ars)) \<and>
    dom (nodes s) = set (map fst ars) \<and> held s = (\<lambda>t. []) \<and>
    (\<forall>(a, r) \<in> set ars. links n_value (nodes s) a = Some (replicate (r mod 100) CHR ''a''))"
proof -
  from init_loop_spec[of Map.empty None "[]" ars] assms obtain h p where
    "init_loop (granted ars) (None, Map.empty) = ret (p, h)" "llist (links n_next h) p (rev (map fst ars))"
    "dom h = set (map fst ars)" "\<forall>(a, r) \<in> set ars. links n_value h a = Some (replicate (r mod 100) CHR ''a'')"
    by auto
  then show ?thesis by (simp add: init_storage_def)
qed

lemma init_storage_inv:
  assumes "distinct (map fst ars)" and "ars \<noteq> []" and "init_storage (granted ars) = ret s"
  shows "list_inv excludes s (rev (map fst ars))"
  using init_storage_spec[OF assms(1)] assms(2,3) by (auto simp: list_inv_def)

text \<open>The programs of the three directories.\<close>

lemma program_keeps:
  assumes "thread \<in> {mutex_thread, rw_thread, spin_thread}" and "distinct (map fst ars)" and "ars \<noteq> []"
    and "init_storage (granted ars) = ret s0" and "list_reachable thread s0 s"
  shows "\<exists>excludes as. list_program excludes thread \<and> list_inv excludes s as \<and> mset as = mset (map fst ars) \<and>
    hd as = fst (last ars) \<and> links n_value (nodes s) = links n_value (nodes s0)"
proof -
  have h: "hd (rev (map fst ars)) = fst (last ars)" using assms(3) by (simp add: hd_rev last_map)
  note i = init_storage_inv[OF assms(2,3,4)]
  from assms(1) consider "thread = mutex_thread" | "thread = rw_thread" | "thread = spin_thread" by blast
  then show ?thesis
  proof cases
    case 1
    from mutex_list.reachable_keeps[of s0 s, OF _ i] assms(5) show ?thesis
      unfolding 1 h mset_rev using mutex_list.list_program_axioms by blast
  next
    case 2
    from rw_list.reachable_keeps[of s0 s, OF _ i] assms(5) show ?thesis
      unfolding 2 h mset_rev using rw_list.list_program_axioms by blast
  next
    case 3
    from spin_list.reachable_keeps[of s0 s, OF _ i] assms(5) show ?thesis
      unfolding 3 h mset_rev using spin_list.list_program_axioms by blast
  qed
qed

text \<open>
  \<open>init_storage\<close> builds the list of the nodes it allocates, the last one first, each with a string
  shorter than the buffer that holds it.
\<close>

theorem init_storage_builds:
  assumes "distinct (map fst ars)"
  shows "\<exists>s. init_storage (granted ars) = ret s \<and> llist (nexts s) (first_node s) (rev (map fst ars)) \<and>
    dom (nodes s) = set (map fst ars) \<and> held s = (\<lambda>t. []) \<and>
    (\<forall>(a, r) \<in> set ars. \<exists>x. nodes s a = Some x \<and> n_value x = replicate (r mod 100) CHR ''a'' \<and>
      length (n_value x) < VALUE_SIZE)"
  using init_storage_spec[OF assms] by (fastforce simp: links_eq_Some_iff VALUE_SIZE_def)

theorem init_storage_builds_witness:
  "\<exists>s. init_storage [(Some 1, 203), (Some 2, 7)] = ret s \<and> llist (nexts s) (first_node s) [2, 1]"
  using init_storage_builds[of "[(1, 203), (2, 7)]"] by auto

text \<open>C14:
  Whatever the interleaving of the three walkers and three swappers of any of the three programs,
  the list stays a list of the same nodes with the same strings (no node is lost, duplicated or
  put on a cycle), its first node stays the first, and no swapper holds a node another thread
  holds.
\<close>

theorem list_programs_permute:
  assumes "thread \<in> {mutex_thread, rw_thread, spin_thread}" and "distinct (map fst ars)" and "ars \<noteq> []"
    and "init_storage (granted ars) = ret s0" and "list_reachable thread s0 s"
  shows "\<exists>as. llist (nexts s) (first_node s) as \<and> mset as = mset (map fst ars) \<and> hd as = fst (last ars) \<and>
    links n_value (nodes s) = links n_value (nodes s0) \<and>
    (\<forall>t u. is_swapper t \<and> t \<noteq> u \<longrightarrow> set (held s t) \<inter> set (held s u) = {})"
proof -
  obtain excludes as where a: "list_program excludes thread" "list_inv excludes s as"
      "mset as = mset (map fst ars)" "hd as = fst (last ars)" "links n_value (nodes s) = links n_value (nodes s0)"
    using program_keeps[OF assms] by blast
  then show ?thesis using list_program.swapper_alone[OF a(1)] by (auto simp: list_inv_def)
qed

text \<open>C15:
  None of the three programs deadlocks or touches a missing node: in every state they get into each
  thread's next step returns, and some thread's next step changes the state.
\<close>

theorem list_programs_never_deadlock:
  assumes "thread \<in> {mutex_thread, rw_thread, spin_thread}" and "distinct (map fst ars)" and "ars \<noteq> []"
    and "init_storage (granted ars) = ret s0" and "list_reachable thread s0 s"
  shows "(\<forall>t r. \<exists>s'. thread t r s = ret s') \<and> (\<exists>t. \<forall>r. \<exists>s'. thread t r s = ret s' \<and> s' \<noteq> s)"
proof -
  obtain excludes as where a: "list_program excludes thread" "list_inv excludes s as"
    using program_keeps[OF assms] by blast
  have "\<exists>s'. thread t r s = ret s'" for t r
    using list_program.thread_keeps[OF a, of t r] unfolding list_program.keeps_def[OF a(1)] by blast
  then show ?thesis using list_program.some_thread_moves[OF a] by blast
qed

text \<open>A run of a swapper over three nodes, up to its first exchange.\<close>

definition three :: list_store where
  "three = \<lparr>first_node = Some 3, nodes = [1 \<mapsto> \<lparr>n_value = [], n_next = None\<rparr>,
     2 \<mapsto> \<lparr>n_value = ''a'', n_next = Some 1\<rparr>, 3 \<mapsto> \<lparr>n_value = ''aa'', n_next = Some 2\<rparr>],
     held = (\<lambda>t. []), iters = (\<lambda>t. 0), found = (\<lambda>t. 0), comp_count = 0\<rparr>"

definition three_swapped :: list_store where
  "three_swapped = three\<lparr>nodes := [1 \<mapsto> \<lparr>n_value = [], n_next = Some 2\<rparr>,
     2 \<mapsto> \<lparr>n_value = ''a'', n_next = None\<rparr>, 3 \<mapsto> \<lparr>n_value = ''aa'', n_next = Some 1\<rparr>],
     held := (held three)(Swap1 := [2]), found := (found three)(Swap1 := 1)\<rparr>"

lemma init_three: "init_storage (granted [(1, 0), (2, 1), (3, 2)]) = ret three"
  by (simp add: init_storage_def generate_rand_len_string_def VALUE_SIZE_def three_def numeral_2_eq_2)

lemma three_swapped_reachable: "list_reachable mutex_thread three three_swapped"
proof -
  let ?h = "\<lambda>xs. three\<lparr>held := (held three)(Swap1 := xs)\<rparr>"
  note defs = mutex_swapper1_def swap_step_def lock_node_def three_def all_threads_def
  have "mutex_thread Swap1 0 three = ret (?h [3])" by (simp add: defs)
  from list_reachable.Step[OF list_reachable.Start[of mutex_thread three] this]
  have "list_reachable mutex_thread three (?h [3])" .
  moreover have "mutex_thread Swap1 0 (?h [3]) = ret (?h [3, 2])" by (simp add: defs)
  ultimately have "list_reachable mutex_thread three (?h [3, 2])" by (rule list_reachable.Step)
  moreover have "mutex_thread Swap1 0 (?h [3, 2]) = ret (?h [3, 2, 1])" by (simp add: defs)
  ultimately have "list_reachable mutex_thread three (?h [3, 2, 1])" by (rule list_reachable.Step)
  moreover have "mutex_thread Swap1 0 (?h [3, 2, 1]) = ret three_swapped"
    by (simp add: defs three_swapped_def Let_def fun_eq_iff)
  ultimately show ?thesis by (rule list_reachable.Step)
qed

theorem list_programs_permute_witness:
  "\<exists>as. llist (nexts three_swapped) (first_node three_swapped) as \<and> mset as = {#1, 2, 3#} \<and> hd as = 3 \<and>
    held three_swapped Swap1 = [2]"
  using list_programs_permute[OF _ _ _ init_three three_swapped_reachable] by (force simp: three_swapped_def)

theorem list_programs_never_deadlock_witness:
  "\<exists>t. \<forall>r. \<exists>s'. mutex_thread t r three_swapped = ret s' \<and> s' \<noteq> three_swapped"
  using list_programs_never_deadlock[OF _ _ _ init_three three_swapped_reachable] by simp

subsection \<open>One pass of a walker\<close>

text \<open>How many neighbours of a list of strings are related by their length.\<close>

fun count_pairs :: "(nat \<Rightarrow> nat \<Rightarrow> bool) \<Rightarrow> string list \<Rightarrow> nat" where
  "count_pairs cmp (v # w # vs) = (if cmp (length v) (length w) then 1 else 0) + count_pairs cmp (w # vs)"
| "count_pairs cmp _ = 0"

lemma lock_alone:
  assumes "\<forall>u. u \<noteq> t \<longrightarrow> held s u = []" and "nodes s a = Some x"
  shows "lock_node excludes t a s = ret (s\<lparr>held := (held s)(t := held s t @ [a])\<rparr>)"
  using assms by (auto simp: lock_node_def list_all_iff)

lemma pass_from:
  assumes "\<forall>u. u \<noteq> t \<longrightarrow> held s u = []" and "held s t = [c]" and "llist (nexts s) (Some c) (c # cs)"
    and "map (\<lambda>a. links n_value (nodes s) a) (c # cs) = map Some vs"
  shows "\<exists>s'. steps_alone (count_step excludes comps cmp t) (2 * length cs + 1) s = ret s' \<and>
    held s' = (held s)(t := []) \<and> nodes s' = nodes s \<and> first_node s' = first_node s \<and>
    iters s' = (iters s)(t := iters s t + 1) \<and>
    found s' = (found s)(t := found s t + of_nat (count_pairs cmp vs))"
  using assms
proof (induction cs arbitrary: c s vs)
  case Nil
  then obtain x where x: "nodes s c = Some x" "n_next x = None" by (auto simp: links_eq_Some_iff)
  have "vs = [n_value x]" using Nil(4) x by (cases vs) auto
  then show ?case using Nil x by (simp add: count_step_def fun_eq_iff)
next
  case (Cons d cs)
  then obtain x where x: "nodes s c = Some x" "n_next x = Some d" "llist (nexts s) (Some d) (d # cs)"
    by (auto simp: links_eq_Some_iff)
  then obtain y where y: "nodes s d = Some y" by (auto simp: links_eq_Some_iff)
  obtain ws where vs: "vs = n_value x # n_value y # ws" "map (\<lambda>a. links n_value (nodes s) a) cs = map Some ws"
    using Cons(5) x y by (cases vs; cases "tl vs") auto
  let ?s1 = "s\<lparr>held := (held s)(t := [c, d])\<rparr>"
  let ?s2 = "?s1\<lparr>found := (found s)(t := found s t + (if cmp (length (n_value x)) (length (n_value y)) then 1 else 0)),
      comp_count := comp_count s + (if comps then 1 else 0), held := (held s)(t := [d])\<rparr>"
  have st: "count_step excludes comps cmp t s = ret ?s1" "count_step excludes comps cmp t ?s1 = ret ?s2"
    using Cons(3) x y lock_alone[OF Cons(2) y, of excludes] by (simp_all add: count_step_def)
  have "\<exists>s'. steps_alone (count_step excludes comps cmp t) (2 * length cs + 1) ?s2 = ret s' \<and>
    held s' = (held ?s2)(t := []) \<and> nodes s' = nodes ?s2 \<and> first_node s' = first_node ?s2 \<and>
    iters s' = (iters ?s2)(t := iters ?s2 t + 1) \<and>
    found s' = (found ?s2)(t := found ?s2 t + of_nat (count_pairs cmp (n_value y # ws)))"
    by (rule Cons.IH) (use Cons(2) x y vs(2) in auto)
  then obtain s' where s': "steps_alone (count_step excludes comps cmp t) (2 * length cs + 1) ?s2 = ret s'"
      "held s' = (held ?s2)(t := [])" "nodes s' = nodes ?s2" "first_node s' = first_node ?s2"
      "iters s' = (iters ?s2)(t := iters ?s2 t + 1)"
      "found s' = (found ?s2)(t := found ?s2 t + of_nat (count_pairs cmp (n_value y # ws)))" by blast
  have len: "2 * length (d # cs) + 1 = Suc (Suc (2 * length cs + 1))" by simp
  have "steps_alone (count_step excludes comps cmp t) (2 * length (d # cs) + 1) s = ret s'"
    unfolding len steps_alone.simps(2) st bindR_simps by (rule s'(1))
  moreover have "found s' = (found s)(t := found s t + of_nat (count_pairs cmp vs))"
    unfolding s'(6) vs(1) by (simp add: fun_eq_iff)
  ultimately show ?case using s'(2-5) by (simp add: fun_eq_iff)
qed

lemma pass_alone:
  assumes "held s = (\<lambda>u. [])" and "llist (nexts s) (first_node s) as" and "as \<noteq> []"
    and "map (\<lambda>a. links n_value (nodes s) a) as = map Some vs"
  shows "\<exists>s'. steps_alone (count_step excludes comps cmp t) (2 * length as) s = ret s' \<and>
    held s' = (\<lambda>u. []) \<and> nodes s' = nodes s \<and> first_node s' = first_node s \<and>
    iters s' = (iters s)(t := iters s t + 1) \<and>
    found s' = (found s)(t := found s t + of_nat (count_pairs cmp vs))"
proof -
  obtain c cs where as: "as = c # cs" using assms(3) by (cases as) auto
  then obtain x where f: "first_node s = Some c" "nodes s c = Some x"
    using assms(2) by (auto simp: links_eq_Some_iff)
  let ?s1 = "s\<lparr>held := (held s)(t := [c])\<rparr>"
  have st: "count_step excludes comps cmp t s = ret ?s1"
    using assms(1) f lock_alone[of t s c x excludes] by (simp add: count_step_def)
  have "\<exists>s'. steps_alone (count_step excludes comps cmp t) (2 * length cs + 1) ?s1 = ret s' \<and>
    held s' = (held ?s1)(t := []) \<and> nodes s' = nodes ?s1 \<and> first_node s' = first_node ?s1 \<and>
    iters s' = (iters ?s1)(t := iters ?s1 t + 1) \<and>
    found s' = (found ?s1)(t := found ?s1 t + of_nat (count_pairs cmp vs))"
    by (rule pass_from) (use assms as f in auto)
  then show ?thesis using st assms(1) as by auto
qed

text \<open>C34:
  A pass of a walker over a list that is not empty, run alone from a state in which all locks are free, counts exactly
  the neighbours whose strings are of increasing, decreasing or equal length, adds one to its iterations, gives
  back every lock and leaves the list as it is. (With the swappers of the program at work between its steps a pass
  sees a list that changes under it, and the number need be that of no state of the list.)
\<close>

theorem walkers_count_pairs:
  assumes "held s = (\<lambda>u. [])" and "llist (nexts s) (first_node s) as" and "as \<noteq> []"
    and "map (\<lambda>a. links n_value (nodes s) a) as = map Some vs"
    and "(t, cmp) \<in> {(Asc, (<)), (Desc, (>)), (Eq, (=))}" and "thread \<in> {mutex_thread, rw_thread, spin_thread}"
  shows "\<exists>s'. steps_alone (thread t r) (2 * length as) s = ret s' \<and> held s' = (\<lambda>u. []) \<and> nodes s' = nodes s \<and>
    first_node s' = first_node s \<and> iters s' = (iters s)(t := iters s t + 1) \<and>
    found s' = (found s)(t := found s t + of_nat (count_pairs cmp vs))"
proof -
  have "\<exists>excludes comps. thread t r = count_step excludes comps cmp t"
    using assms(5,6) by (auto simp: list_program_defs) blast+
  then show ?thesis using pass_alone[OF assms(1-4)] by metis
qed

theorem walkers_count_pairs_witness:
  "\<exists>s'. steps_alone (rw_thread Desc 0) 6 three = ret s' \<and> nodes s' = nodes three \<and> found s' Desc = 2"
  using walkers_count_pairs[of three "[3, 2, 1]" "[''aa'', ''a'', []]" Desc "(>)" rw_thread 0]
  by (force simp: three_def)

end
