(* ===== verification/Queue.thy ===== *)
theory Queue
  imports Prelude "HOL-Library.Multiset"
begin

section \<open>The bounded queues\<close>

text \<open>
  \<^verbatim>\<open>2/2.1\<close> has a bounded queue without synchronisation, \<^verbatim>\<open>2/2.2\<close> the same queue with a mutex,
  a spin lock, condition variables and semaphores. The locked parts of the operations are
  definitions of their own, so that the concurrent programs can interleave them. What
  \<open>malloc\<close> returns is an argument.
\<close>

subsection \<open>The data\<close>

record qnode =
  q_val :: int
  q_next :: ptr

record queue =
  q_first :: ptr
  q_last :: ptr
  q_count :: int
  q_max :: int
  add_attempts :: int
  get_attempts :: int
  add_count :: int
  get_count :: int

record qmem =
  que :: queue
  qnodes :: "addr \<rightharpoonup> qnode"

definition queue_init :: "bool \<Rightarrow> bool \<Rightarrow> int \<Rightarrow> qmem run" where
  "queue_init alloc thread_created max_count =
     (if \<not> alloc \<or> \<not> thread_created then crashed AbortCall
      else ret \<lparr>que = \<lparr>q_first = None, q_last = None, q_count = 0, q_max = max_count, add_attempts = 0,
        get_attempts = 0, add_count = 0, get_count = 0\<rparr>, qnodes = Map.empty\<rparr>)"

partial_function (option) free_nodes :: "(addr \<rightharpoonup> qnode) \<Rightarrow> ptr \<Rightarrow> (addr \<rightharpoonup> qnode) run" where
  "free_nodes h p = (if p = None then ret h
     else bindR (deref h p) (\<lambda>x. free_nodes (h(the p := None)) (q_next x)))"

text \<open>What is left allocated when the queue itself is freed.\<close>

definition queue_destroy :: "qmem \<Rightarrow> (addr \<rightharpoonup> qnode) run" where
  "queue_destroy m = free_nodes (qnodes m) (q_first (que m))"

subsection \<open>Shared parts of the operations\<close>

definition new_node :: "ptr \<Rightarrow> int \<Rightarrow> qmem \<Rightarrow> (addr \<times> qmem) run" where
  "new_node mc v m = (case mc of None \<Rightarrow> crashed AbortCall
     | Some a \<Rightarrow> ret (a, m\<lparr>qnodes := (qnodes m)(a \<mapsto> \<lparr>q_val = v, q_next = None\<rparr>)\<rparr>))"

definition free_node :: "addr \<Rightarrow> qmem \<Rightarrow> qmem" where
  "free_node a m = m\<lparr>qnodes := (qnodes m)(a := None)\<rparr>"

definition link_node :: "addr \<Rightarrow> qmem \<Rightarrow> qmem run" where
  "link_node a m =
     (if q_first (que m) = None then ret (m\<lparr>que := (que m)\<lparr>q_first := Some a, q_last := Some a\<rparr>\<rparr>)
      else bindR (deref (qnodes m) (q_last (que m))) (\<lambda>x.
        let h = (qnodes m)(the (q_last (que m)) \<mapsto> x\<lparr>q_next := Some a\<rparr>) in
        bindR (deref h (q_last (que m))) (\<lambda>y.
        ret (m\<lparr>qnodes := h, que := (que m)\<lparr>q_last := q_next y\<rparr>\<rparr>))))"

definition unlink_node :: "qmem \<Rightarrow> (ptr \<times> qmem) run" where
  "unlink_node m = bindR (deref (qnodes m) (q_first (que m))) (\<lambda>x.
     ret (q_first (que m), m\<lparr>que := (que m)\<lparr>q_first := q_next x\<rparr>\<rparr>))"

definition try_add :: "qmem \<Rightarrow> qmem" where
  "try_add m = m\<lparr>que := (que m)\<lparr>add_attempts := add_attempts (que m) + 1\<rparr>\<rparr>"

definition try_get :: "qmem \<Rightarrow> qmem" where
  "try_get m = m\<lparr>que := (que m)\<lparr>get_attempts := get_attempts (que m) + 1\<rparr>\<rparr>"

definition counted_in :: "qmem \<Rightarrow> qmem" where
  "counted_in m = m\<lparr>que := (que m)\<lparr>q_count := q_count (que m) + 1, add_count := add_count (que m) + 1\<rparr>\<rparr>"

definition counted_out :: "qmem \<Rightarrow> qmem" where
  "counted_out m = m\<lparr>que := (que m)\<lparr>q_count := q_count (que m) - 1, get_count := get_count (que m) + 1\<rparr>\<rparr>"

subsection \<open>The queue without synchronisation\<close>

definition queue_add :: "ptr \<Rightarrow> int \<Rightarrow> qmem \<Rightarrow> (bool \<times> qmem) run" where
  "queue_add mc v m =
     (let m = try_add m in
      if \<not> q_count (que m) \<le> q_max (que m) then crashed AssertFail
      else if q_count (que m) = q_max (que m) then ret (False, m)
      else bindR (new_node mc v m) (\<lambda>(a, m). bindR (link_node a m) (\<lambda>m. ret (True, counted_in m))))"

definition queue_get :: "qmem \<Rightarrow> (int option \<times> qmem) run" where
  "queue_get m =
     (let m = try_get m in
      if \<not> 0 \<le> q_count (que m) then crashed AssertFail
      else if q_count (que m) = 0 then ret (None, m)
      else bindR (deref (qnodes m) (q_first (que m))) (\<lambda>x.
        bindR (unlink_node m) (\<lambda>(tmp, m). ret (Some (q_val x), counted_out (free_node (the tmp) m)))))"

subsection \<open>Mutex and spin lock\<close>

text \<open>
  \<open>add_section\<close> is what happens under the lock, with the release of the node of a full queue;
  \<open>get_section\<close> what happens under the lock in \<open>queue_get\<close>, and \<open>read_node\<close> what follows the
  unlocking: the unlinked node is the thread's own.
\<close>

definition mutex_add_section :: "addr \<Rightarrow> qmem \<Rightarrow> (bool \<times> qmem) run" where
  "mutex_add_section a m =
     (if \<not> q_count (que m) \<le> q_max (que m) then crashed AssertFail
      else if q_count (que m) = q_max (que m) then ret (False, free_node a m)
      else bindR (link_node a m) (\<lambda>m. ret (True, counted_in m)))"

definition mutex_get_section :: "qmem \<Rightarrow> (ptr \<times> qmem) run" where
  "mutex_get_section m =
     (if \<not> 0 \<le> q_count (que m) then crashed AssertFail
      else if q_count (que m) = 0 then ret (None, m)
      else bindR (unlink_node m) (\<lambda>(tmp, m). ret (tmp, counted_out m)))"

definition mutex_read_node :: "addr \<Rightarrow> qmem \<Rightarrow> (int \<times> qmem) run" where
  "mutex_read_node a m = bindR (deref (qnodes m) (Some a)) (\<lambda>x. ret (q_val x, free_node a m))"

definition mutex_queue_add :: "ptr \<Rightarrow> int \<Rightarrow> qmem \<Rightarrow> (bool \<times> qmem) run" where
  "mutex_queue_add mc v m = bindR (new_node mc v m) (\<lambda>(a, m). mutex_add_section a (try_add m))"

definition mutex_queue_get :: "qmem \<Rightarrow> (int option \<times> qmem) run" where
  "mutex_queue_get m = bindR (mutex_get_section (try_get m)) (\<lambda>(tmp, m).
     case tmp of None \<Rightarrow> ret (None, m)
     | Some a \<Rightarrow> bindR (mutex_read_node a m) (\<lambda>(v, m). ret (Some v, m)))"

definition spin_add_section :: "addr \<Rightarrow> qmem \<Rightarrow> (bool \<times> qmem) run" where
  "spin_add_section a m =
     (if \<not> q_count (que m) \<le> q_max (que m) then crashed AssertFail
      else if q_count (que m) = q_max (que m) then ret (False, free_node a m)
      else bindR (link_node a m) (\<lambda>m. ret (True, counted_in m)))"

definition spin_get_section :: "qmem \<Rightarrow> (ptr \<times> qmem) run" where
  "spin_get_section m =
     (if \<not> 0 \<le> q_count (que m) then crashed AssertFail
      else if q_count (que m) = 0 then ret (None, m)
      else bindR (unlink_node m) (\<lambda>(tmp, m). ret (tmp, counted_out m)))"

definition spin_read_node :: "addr \<Rightarrow> qmem \<Rightarrow> (int \<times> qmem) run" where
  "spin_read_node a m = bindR (deref (qnodes m) (Some a)) (\<lambda>x. ret (q_val x, free_node a m))"

definition spin_queue_add :: "ptr \<Rightarrow> int \<Rightarrow> qmem \<Rightarrow> (bool \<times> qmem) run" where
  "spin_queue_add mc v m = bindR (new_node mc v m) (\<lambda>(a, m). spin_add_section a (try_add m))"

definition spin_queue_get :: "qmem \<Rightarrow> (int option \<times> qmem) run" where
  "spin_queue_get m = bindR (spin_get_section (try_get m)) (\<lambda>(tmp, m).
     case tmp of None \<Rightarrow> ret (None, m)
     | Some a \<Rightarrow> bindR (spin_read_node a m) (\<lambda>(v, m). ret (Some v, m)))"

text \<open>
  Any number of threads that add and get, each its own operation at a time. \<open>puts\<close> are the values
  added and \<open>takes\<close> the values of the nodes unlinked, both in the order in which the lock was
  held. A thread at \<open>Got a w\<close> is about to read the node \<open>a\<close>, whose value was \<open>w\<close> when it was
  unlinked.
\<close>

datatype qpc = Outside | Adding addr int | Got addr int

record qsys =
  qm :: qmem
  pcs :: "nat \<Rightarrow> qpc"
  puts :: "int list"
  takes :: "int list"

inductive locked_step ::
  "(addr \<Rightarrow> qmem \<Rightarrow> (bool \<times> qmem) run) \<Rightarrow> (qmem \<Rightarrow> (ptr \<times> qmem) run) \<Rightarrow> (addr \<Rightarrow> qmem \<Rightarrow> (int \<times> qmem) run) \<Rightarrow>
   qsys \<Rightarrow> qsys \<Rightarrow> bool"
  for add_section :: "addr \<Rightarrow> qmem \<Rightarrow> (bool \<times> qmem) run" and get_section :: "qmem \<Rightarrow> (ptr \<times> qmem) run"
    and read_node :: "addr \<Rightarrow> qmem \<Rightarrow> (int \<times> qmem) run" where
  Begin: "locked_step add_section get_section read_node s
    (s\<lparr>qm := try_add m, pcs := (pcs s)(t := Adding a v)\<rparr>)"
  if "pcs s t = Outside" "a \<notin> dom (qnodes (qm s))" "new_node (Some a) v (qm s) = ret (a, m)"
| Add: "locked_step add_section get_section read_node s
    (s\<lparr>qm := m, pcs := (pcs s)(t := Outside), puts := puts s @ (if ok then [v] else [])\<rparr>)"
  if "pcs s t = Adding a v" "add_section a (qm s) = ret (ok, m)"
| Empty: "locked_step add_section get_section read_node s (s\<lparr>qm := m\<rparr>)"
  if "pcs s t = Outside" "get_section (try_get (qm s)) = ret (None, m)"
| Get: "locked_step add_section get_section read_node s
    (s\<lparr>qm := m, pcs := (pcs s)(t := Got a (q_val x)), takes := takes s @ [q_val x]\<rparr>)"
  if "pcs s t = Outside" "get_section (try_get (qm s)) = ret (Some a, m)" "qnodes (qm s) a = Some x"
| Read: "locked_step add_section get_section read_node s (s\<lparr>qm := m, pcs := (pcs s)(t := Outside)\<rparr>)"
  if "pcs s t = Got a w" "read_node a (qm s) = ret (v, m)"

definition empty_queue :: "int \<Rightarrow> qmem" where
  "empty_queue n = \<lparr>que = \<lparr>q_first = None, q_last = None, q_count = 0, q_max = n, add_attempts = 0,
     get_attempts = 0, add_count = 0, get_count = 0\<rparr>, qnodes = Map.empty\<rparr>"

definition mutex_step :: "qsys \<Rightarrow> qsys \<Rightarrow> bool" where
  "mutex_step = locked_step mutex_add_section mutex_get_section mutex_read_node"

definition spin_step :: "qsys \<Rightarrow> qsys \<Rightarrow> bool" where
  "spin_step = locked_step spin_add_section spin_get_section spin_read_node"

abbreviation qsys_start :: "int \<Rightarrow> qsys" where
  "qsys_start n \<equiv> \<lparr>qm = empty_queue n, pcs = (\<lambda>t. Outside), puts = [], takes = []\<rparr>"

subsection \<open>Condition variables\<close>

definition cond_add_body :: "ptr \<Rightarrow> int \<Rightarrow> qmem \<Rightarrow> qmem run" where
  "cond_add_body mc v m = bindR (new_node mc v (try_add m)) (\<lambda>(a, m). bindR (link_node a m) (\<lambda>m. ret (counted_in m)))"

definition cond_get_body :: "qmem \<Rightarrow> (int \<times> qmem) run" where
  "cond_get_body m = (let m = try_get m in
     bindR (deref (qnodes m) (q_first (que m))) (\<lambda>x.
     bindR (unlink_node m) (\<lambda>(tmp, m). ret (q_val x, free_node (the tmp) (counted_out m)))))"

text \<open>
  \<open>get_blocked\<close> threads sleep in \<open>queue_get\<close> on \<open>cond_not_empty\<close>, \<open>get_woken\<close> have been woken and wait
  for the mutex; the threads in \<open>queue_add\<close> are given by the values they carry.
\<close>

record cond_sys =
  cm :: qmem
  get_blocked :: nat
  get_woken :: nat
  add_blocked :: "int list"
  add_woken :: "int list"
  cputs :: "int list"
  ctakes :: "int list"

definition signal_not_empty :: "cond_sys \<Rightarrow> cond_sys" where
  "signal_not_empty s = (if get_blocked s = 0 then s
     else s\<lparr>get_blocked := get_blocked s - 1, get_woken := get_woken s + 1\<rparr>)"

definition signal_not_full :: "cond_sys \<Rightarrow> cond_sys" where
  "signal_not_full s = (case add_blocked s of [] \<Rightarrow> s
     | v # vs \<Rightarrow> s\<lparr>add_blocked := vs, add_woken := add_woken s @ [v]\<rparr>)"

text \<open>The test of the wait loop with the mutex held, and what follows it in each case.\<close>

definition cond_queue_add :: "ptr \<Rightarrow> int \<Rightarrow> cond_sys \<Rightarrow> cond_sys run" where
  "cond_queue_add mc v s =
     (if q_count (que (cm s)) = q_max (que (cm s)) then ret (s\<lparr>add_blocked := add_blocked s @ [v]\<rparr>)
      else bindR (cond_add_body mc v (cm s)) (\<lambda>m. ret (signal_not_empty (s\<lparr>cm := m, cputs := cputs s @ [v]\<rparr>))))"

definition cond_queue_get :: "cond_sys \<Rightarrow> cond_sys run" where
  "cond_queue_get s =
     (if q_count (que (cm s)) = 0 then ret (s\<lparr>get_blocked := get_blocked s + 1\<rparr>)
      else bindR (cond_get_body (cm s)) (\<lambda>(v, m). ret (signal_not_full (s\<lparr>cm := m, ctakes := ctakes s @ [v]\<rparr>))))"

text \<open>A thread may also wake up without a signal.\<close>

inductive cond_step :: "cond_sys \<Rightarrow> cond_sys \<Rightarrow> bool" where
  Call_add: "cond_queue_add (Some a) v s = ret s' \<Longrightarrow> a \<notin> dom (qnodes (cm s)) \<Longrightarrow> cond_step s s'"
| Woken_add: "add_woken s = us @ v # vs \<Longrightarrow> a \<notin> dom (qnodes (cm s)) \<Longrightarrow>
    cond_queue_add (Some a) v (s\<lparr>add_woken := us @ vs\<rparr>) = ret s' \<Longrightarrow> cond_step s s'"
| Spurious_add: "add_blocked s = us @ v # vs \<Longrightarrow>
    cond_step s (s\<lparr>add_blocked := us @ vs, add_woken := add_woken s @ [v]\<rparr>)"
| Call_get: "cond_queue_get s = ret s' \<Longrightarrow> cond_step s s'"
| Woken_get: "get_woken s = Suc n \<Longrightarrow> cond_queue_get (s\<lparr>get_woken := n\<rparr>) = ret s' \<Longrightarrow> cond_step s s'"
| Spurious_get: "get_blocked s = Suc n \<Longrightarrow> cond_step s (s\<lparr>get_blocked := n, get_woken := get_woken s + 1\<rparr>)"

abbreviation cond_start :: "int \<Rightarrow> cond_sys" where
  "cond_start n \<equiv> \<lparr>cm = empty_queue n, get_blocked = 0, get_woken = 0, add_blocked = [], add_woken = [],
     cputs = [], ctakes = []\<rparr>"

subsection \<open>Semaphores\<close>

text \<open>
  \<open>add_waits\<close> are the values of the threads before \<open>sem_wait\<close> in \<open>queue_add\<close>, \<open>adding\<close> of those that
  have passed it; \<open>get_waits\<close> and \<open>getting\<close> count the threads in \<open>queue_get\<close>.
\<close>

record sem_sys =
  sm :: qmem
  sem_emptiness :: nat
  sem_fullness :: nat
  add_waits :: "int list"
  adding :: "int list"
  get_waits :: nat
  getting :: nat
  sputs :: "int list"
  stakes :: "int list"

definition sem_add_enter :: "int \<Rightarrow> sem_sys \<Rightarrow> sem_sys run" where
  "sem_add_enter v s = (let m = try_add (sm s) in
     if \<not> q_count (que m) \<le> q_max (que m) then crashed AssertFail
     else ret (s\<lparr>sm := m, add_waits := add_waits s @ [v]\<rparr>))"

definition sem_add_section :: "ptr \<Rightarrow> int \<Rightarrow> sem_sys \<Rightarrow> sem_sys run" where
  "sem_add_section mc v s = bindR (new_node mc v (sm s)) (\<lambda>(a, m). bindR (link_node a m) (\<lambda>m.
     ret (s\<lparr>sm := counted_in m, sem_fullness := sem_fullness s + 1, sputs := sputs s @ [v]\<rparr>)))"

definition sem_get_enter :: "sem_sys \<Rightarrow> sem_sys run" where
  "sem_get_enter s = (let m = try_get (sm s) in
     if \<not> 0 \<le> q_count (que m) then crashed AssertFail
     else ret (s\<lparr>sm := m, get_waits := get_waits s + 1\<rparr>))"

definition sem_get_section :: "sem_sys \<Rightarrow> sem_sys run" where
  "sem_get_section s = bindR (deref (qnodes (sm s)) (q_first (que (sm s)))) (\<lambda>x.
     bindR (unlink_node (sm s)) (\<lambda>(tmp, m).
     ret (s\<lparr>sm := counted_out (free_node (the tmp) m), sem_emptiness := sem_emptiness s + 1,
       stakes := stakes s @ [q_val x]\<rparr>)))"

inductive sem_step :: "sem_sys \<Rightarrow> sem_sys \<Rightarrow> bool" where
  Add_enter: "sem_add_enter v s = ret s' \<Longrightarrow> sem_step s s'"
| Add_wait: "add_waits s = us @ v # vs \<Longrightarrow> sem_emptiness s = Suc n \<Longrightarrow>
    sem_step s (s\<lparr>add_waits := us @ vs, adding := adding s @ [v], sem_emptiness := n\<rparr>)"
| Add: "adding s = us @ v # vs \<Longrightarrow> a \<notin> dom (qnodes (sm s)) \<Longrightarrow>
    sem_add_section (Some a) v (s\<lparr>adding := us @ vs\<rparr>) = ret s' \<Longrightarrow> sem_step s s'"
| Get_enter: "sem_get_enter s = ret s' \<Longrightarrow> sem_step s s'"
| Get_wait: "get_waits s = Suc k \<Longrightarrow> sem_fullness s = Suc n \<Longrightarrow>
    sem_step s (s\<lparr>get_waits := k, getting := getting s + 1, sem_fullness := n\<rparr>)"
| Get: "getting s = Suc k \<Longrightarrow> sem_get_section (s\<lparr>getting := k\<rparr>) = ret s' \<Longrightarrow> sem_step s s'"

text \<open>\<open>init_sem\<close> starts with \<open>max_count\<close> empty places and no full one.\<close>

definition sem_start :: "nat \<Rightarrow> sem_sys" where
  "sem_start n = \<lparr>sm = empty_queue (int n), sem_emptiness = n, sem_fullness = 0, add_waits = [], adding = [],
     get_waits = 0, getting = 0, sputs = [], stakes = []\<rparr>"

end
