(* ===== verification/QueueThreads.thy ===== *)
theory QueueThreads
  imports Queue
begin

section \<open>The programs around the queues\<close>

text \<open>
  \<^verbatim>\<open>queue-threads.c\<close> of \<^verbatim>\<open>2/2.1\<close> and \<^verbatim>\<open>2/2.2\<close>: a writer that adds 0, 1, 2, ... and a reader that prints
  an error when the value it gets is not the successor of the one before. For the synchronised
  queues the two threads take the steps of the models of \<^verbatim>\<open>Queue\<close>; for the queue without
  synchronisation they interleave at every access to the shared memory.
\<close>

record 'q program =
  p_sys :: 'q
  w_i :: int
  r_expected :: int
  r_errors :: "(int \<times> int) list"

definition program_start :: "'q \<Rightarrow> 'q program" where
  "program_start q = \<lparr>p_sys = q, w_i = 0, r_expected = 0, r_errors = []\<rparr>"

text \<open>What each thread does with the result of its call; the errors are the lines printed.\<close>

definition writer_added :: "bool \<Rightarrow> 'q program \<Rightarrow> 'q program" where
  "writer_added ok p = (if \<not> ok then p else p\<lparr>w_i := w_i p + 1\<rparr>)"

definition reader_got :: "int \<Rightarrow> 'q program \<Rightarrow> 'q program" where
  "reader_got val p = p\<lparr>r_errors := r_errors p @ (if r_expected p \<noteq> val then [(val, r_expected p)] else []),
     r_expected := val + 1\<rparr>"

subsection \<open>Mutex and spin lock\<close>

text \<open>Thread 0 is the writer, thread 1 the reader.\<close>

inductive locked_program_step ::
  "(addr \<Rightarrow> qmem \<Rightarrow> (bool \<times> qmem) run) \<Rightarrow> (qmem \<Rightarrow> (ptr \<times> qmem) run) \<Rightarrow> (addr \<Rightarrow> qmem \<Rightarrow> (int \<times> qmem) run) \<Rightarrow>
   qsys program \<Rightarrow> qsys program \<Rightarrow> bool"
  for add_section :: "addr \<Rightarrow> qmem \<Rightarrow> (bool \<times> qmem) run" and get_section :: "qmem \<Rightarrow> (ptr \<times> qmem) run"
    and read_node :: "addr \<Rightarrow> qmem \<Rightarrow> (int \<times> qmem) run" where
  Writer_calls: "locked_program_step add_section get_section read_node p
    (p\<lparr>p_sys := s\<lparr>qm := try_add m, pcs := (pcs s)(0 := Adding a (w_i p))\<rparr>\<rparr>)"
  if "s = p_sys p" "pcs s 0 = Outside" "a \<notin> dom (qnodes (qm s))" "new_node (Some a) (w_i p) (qm s) = ret (a, m)"
| Writer_adds: "locked_program_step add_section get_section read_node p
    (writer_added ok (p\<lparr>p_sys := s\<lparr>qm := m, pcs := (pcs s)(0 := Outside), puts := puts s @ (if ok then [v] else [])\<rparr>\<rparr>))"
  if "s = p_sys p" "pcs s 0 = Adding a v" "add_section a (qm s) = ret (ok, m)"
| Reader_none: "locked_program_step add_section get_section read_node p (p\<lparr>p_sys := s\<lparr>qm := m\<rparr>\<rparr>)"
  if "s = p_sys p" "pcs s 1 = Outside" "get_section (try_get (qm s)) = ret (None, m)"
| Reader_unlinks: "locked_program_step add_section get_section read_node p
    (p\<lparr>p_sys := s\<lparr>qm := m, pcs := (pcs s)(1 := Got a (q_val x)), takes := takes s @ [q_val x]\<rparr>\<rparr>)"
  if "s = p_sys p" "pcs s 1 = Outside" "get_section (try_get (qm s)) = ret (Some a, m)" "qnodes (qm s) a = Some x"
| Reader_reads: "locked_program_step add_section get_section read_node p
    (reader_got v (p\<lparr>p_sys := s\<lparr>qm := m, pcs := (pcs s)(1 := Outside)\<rparr>\<rparr>))"
  if "s = p_sys p" "pcs s 1 = Got a w" "read_node a (qm s) = ret (v, m)"

definition mutex_program :: "qsys program \<Rightarrow> qsys program \<Rightarrow> bool" where
  "mutex_program = locked_program_step mutex_add_section mutex_get_section mutex_read_node"

definition spin_program :: "qsys program \<Rightarrow> qsys program \<Rightarrow> bool" where
  "spin_program = locked_program_step spin_add_section spin_get_section spin_read_node"

subsection \<open>Condition variables\<close>

text \<open>A call returns when it does not go to sleep.\<close>

definition writer_ran :: "cond_sys \<Rightarrow> cond_sys program \<Rightarrow> cond_sys program" where
  "writer_ran s p = writer_added (add_blocked s = []) (p\<lparr>p_sys := s\<rparr>)"

definition reader_ran :: "cond_sys \<Rightarrow> cond_sys program \<Rightarrow> cond_sys program" where
  "reader_ran s p = (if get_blocked s = 0 then reader_got (last (ctakes s)) (p\<lparr>p_sys := s\<rparr>) else p\<lparr>p_sys := s\<rparr>)"

inductive cond_program :: "cond_sys program \<Rightarrow> cond_sys program \<Rightarrow> bool" where
  Writer_calls: "cond_program p (writer_ran s' p)"
  if "s = p_sys p" "add_blocked s = []" "add_woken s = []" "a \<notin> dom (qnodes (cm s))"
    "cond_queue_add (Some a) (w_i p) s = ret s'"
| Writer_resumes: "cond_program p (writer_ran s' p)"
  if "s = p_sys p" "add_woken s = [v]" "a \<notin> dom (qnodes (cm s))" "cond_queue_add (Some a) v (s\<lparr>add_woken := []\<rparr>) = ret s'"
| Writer_spurious: "cond_program p (p\<lparr>p_sys := s\<lparr>add_blocked := [], add_woken := [v]\<rparr>\<rparr>)"
  if "s = p_sys p" "add_blocked s = [v]"
| Reader_calls: "cond_program p (reader_ran s' p)"
  if "s = p_sys p" "get_blocked s = 0" "get_woken s = 0" "cond_queue_get s = ret s'"
| Reader_resumes: "cond_program p (reader_ran s' p)"
  if "s = p_sys p" "get_woken s = Suc 0" "cond_queue_get (s\<lparr>get_woken := 0\<rparr>) = ret s'"
| Reader_spurious: "cond_program p (p\<lparr>p_sys := s\<lparr>get_blocked := 0, get_woken := Suc 0\<rparr>\<rparr>)"
  if "s = p_sys p" "get_blocked s = Suc 0"

subsection \<open>Semaphores\<close>

inductive sem_program :: "sem_sys program \<Rightarrow> sem_sys program \<Rightarrow> bool" where
  Writer_calls: "sem_program p (p\<lparr>p_sys := s'\<rparr>)"
  if "s = p_sys p" "add_waits s = []" "adding s = []" "sem_add_enter (w_i p) s = ret s'"
| Writer_waits: "sem_program p (p\<lparr>p_sys := s\<lparr>add_waits := [], adding := [v], sem_emptiness := n\<rparr>\<rparr>)"
  if "s = p_sys p" "add_waits s = [v]" "sem_emptiness s = Suc n"
| Writer_adds: "sem_program p (writer_added True (p\<lparr>p_sys := s'\<rparr>))"
  if "s = p_sys p" "adding s = [v]" "a \<notin> dom (qnodes (sm s))" "sem_add_section (Some a) v (s\<lparr>adding := []\<rparr>) = ret s'"
| Reader_calls: "sem_program p (p\<lparr>p_sys := s'\<rparr>)"
  if "s = p_sys p" "get_waits s = 0" "getting s = 0" "sem_get_enter s = ret s'"
| Reader_waits: "sem_program p (p\<lparr>p_sys := s\<lparr>get_waits := 0, getting := Suc 0, sem_fullness := n\<rparr>\<rparr>)"
  if "s = p_sys p" "get_waits s = Suc 0" "sem_fullness s = Suc n"
| Reader_gets: "sem_program p (reader_got (last (stakes s')) (p\<lparr>p_sys := s'\<rparr>))"
  if "s = p_sys p" "getting s = Suc 0" "sem_get_section (s\<lparr>getting := 0\<rparr>) = ret s'"

subsection \<open>No synchronisation\<close>

text \<open>
  The positions of the two threads in \<open>queue_add\<close> and \<open>queue_get\<close> between their accesses to shared
  memory, with the values they hold: the new node, \<open>tmp\<close> with the value read, the next pointer and
  the count they have loaded and not yet stored.
\<close>

datatype adder_pc =
    A_call
  | A_test
  | A_malloc
  | A_look addr
  | A_last addr
  | A_first addr
  | A_link addr
  | A_move
  | A_load
  | A_store int

datatype getter_pc =
    G_call
  | G_test
  | G_tmp
  | G_val ptr
  | G_next ptr int
  | G_first ptr int ptr
  | G_free ptr int
  | G_load int
  | G_store int int

record race =
  r_mem :: qmem
  r_writer :: adder_pc
  r_reader :: getter_pc

definition set_que :: "(queue \<Rightarrow> queue) \<Rightarrow> race \<Rightarrow> race" where
  "set_que f s = s\<lparr>r_mem := (r_mem s)\<lparr>que := f (que (r_mem s))\<rparr>\<rparr>"

definition writer_at :: "adder_pc \<Rightarrow> race program \<Rightarrow> (race \<Rightarrow> race) \<Rightarrow> race program run" where
  "writer_at pc p f = ret (p\<lparr>p_sys := (f (p_sys p))\<lparr>r_writer := pc\<rparr>\<rparr>)"

definition reader_at :: "getter_pc \<Rightarrow> race program \<Rightarrow> (race \<Rightarrow> race) \<Rightarrow> race program run" where
  "reader_at pc p f = ret (p\<lparr>p_sys := (f (p_sys p))\<lparr>r_reader := pc\<rparr>\<rparr>)"

text \<open>One access of the writer; \<open>a\<close> is the address \<open>malloc\<close> returns when it is called.\<close>

definition writer_step :: "addr \<Rightarrow> race program \<Rightarrow> race program run" where
  "writer_step a p = (let s = p_sys p; q = que (r_mem s); h = qnodes (r_mem s) in
     case r_writer s of
       A_call \<Rightarrow> writer_at A_test p (set_que (add_attempts_update (\<lambda>n. n + 1)))
     | A_test \<Rightarrow>
         if \<not> q_count q \<le> q_max q then crashed AssertFail
         else if q_count q = q_max q then writer_at A_call (writer_added False p) id
         else writer_at A_malloc p id
     | A_malloc \<Rightarrow> bindR (new_node (Some a) (w_i p) (r_mem s)) (\<lambda>(a, m). writer_at (A_look a) p (r_mem_update (\<lambda>_. m)))
     | A_look new \<Rightarrow> writer_at (if q_first q = None then A_last new else A_link new) p id
     | A_last new \<Rightarrow> writer_at (A_first new) p (set_que (q_last_update (\<lambda>_. Some new)))
     | A_first new \<Rightarrow> writer_at A_load p (set_que (q_first_update (\<lambda>_. Some new)))
     | A_link new \<Rightarrow> bindR (deref h (q_last q)) (\<lambda>x.
         writer_at A_move p (r_mem_update (qnodes_update (\<lambda>h. h(the (q_last q) \<mapsto> x\<lparr>q_next := Some new\<rparr>)))))
     | A_move \<Rightarrow> bindR (deref h (q_last q)) (\<lambda>x. writer_at A_load p (set_que (q_last_update (\<lambda>_. q_next x))))
     | A_load \<Rightarrow> writer_at (A_store (q_count q)) p id
     | A_store n \<Rightarrow> writer_at A_call (writer_added True p)
         (set_que (\<lambda>q. q\<lparr>q_count := n + 1, add_count := add_count q + 1\<rparr>)))"

definition reader_step :: "race program \<Rightarrow> race program run" where
  "reader_step p = (let s = p_sys p; q = que (r_mem s); h = qnodes (r_mem s) in
     case r_reader s of
       G_call \<Rightarrow> reader_at G_test p (set_que (get_attempts_update (\<lambda>n. n + 1)))
     | G_test \<Rightarrow>
         if \<not> 0 \<le> q_count q then crashed AssertFail
         else reader_at (if q_count q = 0 then G_call else G_tmp) p id
     | G_tmp \<Rightarrow> reader_at (G_val (q_first q)) p id
     | G_val tmp \<Rightarrow> bindR (deref h tmp) (\<lambda>x. reader_at (G_next tmp (q_val x)) p id)
     | G_next tmp val \<Rightarrow> bindR (deref h (q_first q)) (\<lambda>x. reader_at (G_first tmp val (q_next x)) p id)
     | G_first tmp val new \<Rightarrow> reader_at (G_free tmp val) p (set_que (q_first_update (\<lambda>_. new)))
     | G_free tmp val \<Rightarrow> bindR (deref h tmp) (\<lambda>_. reader_at (G_load val) p (r_mem_update (free_node (the tmp))))
     | G_load val \<Rightarrow> reader_at (G_store (q_count q) val) p id
     | G_store n val \<Rightarrow> reader_at G_call (reader_got val p)
         (set_que (\<lambda>q. q\<lparr>q_count := n - 1, get_count := get_count q + 1\<rparr>)))"

text \<open>A schedule: which thread takes the next step, the writer with what \<open>malloc\<close> would return to it.\<close>

datatype turn = Writer addr | Reader

fun race_run :: "turn list \<Rightarrow> race program \<Rightarrow> race program run" where
  "race_run [] p = ret p"
| "race_run (Writer a # ts) p = bindR (writer_step a p) (race_run ts)"
| "race_run (Reader # ts) p = bindR (reader_step p) (race_run ts)"

definition race_start :: "int \<Rightarrow> race program" where
  "race_start n = program_start \<lparr>r_mem = empty_queue n, r_writer = A_call, r_reader = G_call\<rparr>"

end
