(* ===== verification/QueueProps.thy ===== *)
theory QueueProps
  imports Queue
begin

section \<open>Properties of the bounded queues\<close>

text \<open>
  The queue in memory represents a list of values; each piece of code is described by what it does
  to that list. Two interfaces are stated as locales: a bounded first-in first-out queue for one
  caller, and the critical sections of a locked queue for many threads.
\<close>

subsection \<open>The queue in memory\<close>

abbreviation q_links :: "qmem \<Rightarrow> (addr \<rightharpoonup> ptr)" where
  "q_links m \<equiv> links q_next (qnodes m)"

definition queue_ok :: "qmem \<Rightarrow> addr list \<Rightarrow> int list \<Rightarrow> bool" where
  "queue_ok m as xs \<longleftrightarrow> llist (q_links m) (q_first (que m)) as \<and> map (links q_val (qnodes m)) as = map Some xs \<and>
     (as \<noteq> [] \<longrightarrow> q_last (que m) = Some (last as)) \<and> q_count (que m) = int (length as) \<and>
     int (length as) \<le> q_max (que m)"

lemma queue_ok_length: "queue_ok m as xs \<Longrightarrow> length xs = length as"
  unfolding queue_ok_def by (metis length_map)

lemma queue_ok_frame:
  assumes "queue_ok m as xs" and "\<And>b. b \<in> set as \<Longrightarrow> qnodes m' b = qnodes m b"
    and "q_first (que m') = q_first (que m)" "q_last (que m') = q_last (que m)"
    "q_count (que m') = q_count (que m)" "q_max (que m') = q_max (que m)"
  shows "queue_ok m' as xs"
proof -
  have "llist (q_links m') (q_first (que m')) as = llist (q_links m) (q_first (que m)) as"
    unfolding assms(3) by (rule lseg_cong) (simp add: links_def assms(2))
  moreover have "map (links q_val (qnodes m')) as = map (links q_val (qnodes m)) as"
    using assms(2) by (simp add: links_def)
  ultimately show ?thesis using assms(1,4-6) unfolding queue_ok_def by metis
qed

lemma queue_ok_try [simp]: "queue_ok (try_add m) = queue_ok m" "queue_ok (try_get m) = queue_ok m"
  by (simp_all add: fun_eq_iff queue_ok_def try_add_def try_get_def)

lemma queue_ok_alloc: "queue_ok m as xs \<Longrightarrow> a \<in> set as \<Longrightarrow> \<exists>x. qnodes m a = Some x"
  using lseg_dom[of "q_links m" "q_first (que m)" as None] by (auto simp: queue_ok_def)

lemma queue_ok_empty: "0 \<le> n \<Longrightarrow> queue_ok (empty_queue n) [] []"
  by (simp add: queue_ok_def empty_queue_def)

text \<open>What is outside the queue and its limit: everything an operation leaves alone.\<close>

definition same_outside :: "addr set \<Rightarrow> qmem \<Rightarrow> qmem \<Rightarrow> bool" where
  "same_outside A m m' \<longleftrightarrow> q_max (que m') = q_max (que m) \<and> (\<forall>b. b \<notin> A \<longrightarrow> qnodes m' b = qnodes m b)"

lemma link_node_ok:
  assumes "queue_ok m as xs" and "qnodes m a = Some \<lparr>q_val = v, q_next = None\<rparr>" and "a \<notin> set as"
    and "int (length as) < q_max (que m)"
  shows "\<exists>m'. link_node a m = ret m' \<and> queue_ok (counted_in m') (as @ [a]) (xs @ [v]) \<and>
    same_outside (set as) m (counted_in m')"
proof (cases as rule: rev_exhaust)
  case Nil
  then have "q_first (que m) = None" using assms(1) by (simp add: queue_ok_def)
  then show ?thesis using assms Nil
    by (auto simp: link_node_def queue_ok_def counted_in_def same_outside_def links_def)
next
  case (snoc bs b)
  then obtain x where x: "qnodes m b = Some x" using queue_ok_alloc[OF assms(1), of b] by auto
  have l: "q_last (que m) = Some b" "llist (q_links m) (q_first (que m)) (bs @ [b])"
    using assms(1) snoc by (auto simp: queue_ok_def)
  then have ne: "q_first (que m) \<noteq> None" by (cases bs) auto
  let ?h = "(qnodes m)(b \<mapsto> x\<lparr>q_next := Some a\<rparr>)"
  let ?m = "m\<lparr>qnodes := ?h, que := (que m)\<lparr>q_last := Some a\<rparr>\<rparr>"
  have ab: "a \<noteq> b" using assms(3) snoc by simp
  have r: "link_node a m = ret ?m" using l(1) ne x by (auto simp: link_node_def Let_def)
  have "llist ((q_links m)(a \<mapsto> None, b \<mapsto> Some a)) (q_first (que m)) (bs @ [b, a])"
    by (rule llist_snoc[OF l(2)]) (use assms(3) snoc in simp)
  moreover have "(q_links m)(a \<mapsto> None, b \<mapsto> Some a) = links q_next ?h"
    using assms(2) ab by (simp add: fun_eq_iff links_def)
  ultimately have "llist (links q_next ?h) (q_first (que m)) (as @ [a])" using snoc by simp
  moreover have "links q_val ?h = links q_val (qnodes m)" using x by (auto simp: links_def fun_eq_iff)
  ultimately have "queue_ok (counted_in ?m) (as @ [a]) (xs @ [v])"
    using assms by (simp add: queue_ok_def counted_in_def del: links_upd)
  moreover have "same_outside (set as) m (counted_in ?m)"
    using snoc by (simp add: same_outside_def counted_in_def)
  ultimately show ?thesis using r by blast
qed

lemma unlink_node_ok:
  assumes "queue_ok m (a # as) (x # xs)"
  shows "\<exists>m' y. qnodes m a = Some y \<and> q_val y = x \<and> q_first (que m) = Some a \<and> unlink_node m = ret (Some a, m') \<and>
    qnodes m' = qnodes m \<and> a \<notin> set as \<and> queue_ok (counted_out m') as xs \<and>
    queue_ok (counted_out (free_node a m')) as xs \<and> queue_ok (free_node a (counted_out m')) as xs \<and>
    q_max (que m') = q_max (que m)"
proof -
  obtain y where y: "qnodes m a = Some y" using queue_ok_alloc[OF assms, of a] by auto
  have l: "q_first (que m) = Some a" "llist (q_links m) (q_next y) as" "q_val y = x"
    "map (links q_val (qnodes m)) as = map Some xs"
    using assms y by (auto simp: queue_ok_def)
  have d: "a \<notin> set as" using assms llist_distinct[of "q_links m" "q_first (que m)" "a # as"]
    by (simp add: queue_ok_def)
  let ?m = "m\<lparr>que := (que m)\<lparr>q_first := q_next y\<rparr>\<rparr>"
  have r: "unlink_node m = ret (Some a, ?m)" using l y by (simp add: unlink_node_def)
  have ok: "queue_ok (counted_out ?m) as xs"
    using assms l by (auto simp: queue_ok_def counted_out_def)
  have "queue_ok (counted_out (free_node a ?m)) as xs" "queue_ok (free_node a (counted_out ?m)) as xs"
    by (rule queue_ok_frame[OF ok]; use d in \<open>auto simp: counted_out_def free_node_def\<close>)+
  then show ?thesis using y l r d ok by auto
qed

subsection \<open>One caller\<close>

text \<open>
  The interface of a bounded queue for one caller: \<open>represents s xs n\<close> says that \<open>s\<close> holds the
  values \<open>xs\<close> and at most \<open>n\<close>, \<open>unused s a\<close> that \<open>malloc\<close> may return \<open>a\<close>.
\<close>

locale bounded_fifo =
  fixes represents :: "'s \<Rightarrow> int list \<Rightarrow> int \<Rightarrow> bool"
    and unused :: "'s \<Rightarrow> addr \<Rightarrow> bool"
    and add :: "ptr \<Rightarrow> int \<Rightarrow> 's \<Rightarrow> (bool \<times> 's) run"
    and get :: "'s \<Rightarrow> (int option \<times> 's) run"
  assumes add_room: "represents s xs n \<Longrightarrow> int (length xs) < n \<Longrightarrow> unused s a \<Longrightarrow>
      \<exists>s'. add (Some a) v s = ret (True, s') \<and> represents s' (xs @ [v]) n \<and> (\<forall>b. b \<noteq> a \<longrightarrow> unused s b \<longrightarrow> unused s' b)"
    and add_full: "represents s xs n \<Longrightarrow> int (length xs) = n \<Longrightarrow> unused s a \<Longrightarrow>
      \<exists>s'. add (Some a) v s = ret (False, s') \<and> represents s' xs n \<and> (\<forall>b. unused s b \<longrightarrow> unused s' b)"
    and get_some: "represents s (x # xs) n \<Longrightarrow>
      \<exists>s'. get s = ret (Some x, s') \<and> represents s' xs n \<and> (\<forall>b. unused s b \<longrightarrow> unused s' b)"
    and get_none: "represents s [] n \<Longrightarrow>
      \<exists>s'. get s = ret (None, s') \<and> represents s' [] n \<and> (\<forall>b. unused s b \<longrightarrow> unused s' b)"
    and bounded: "represents s xs n \<Longrightarrow> int (length xs) \<le> n"

text \<open>A sequence of calls, and the calls of the mathematical queue it should behave like.\<close>

datatype queue_op = Put addr int | Take
datatype queue_res = Accepted bool | Taken "int option"

fun run_queue :: "(ptr \<Rightarrow> int \<Rightarrow> 's \<Rightarrow> (bool \<times> 's) run) \<Rightarrow> ('s \<Rightarrow> (int option \<times> 's) run) \<Rightarrow> queue_op list \<Rightarrow> 's \<Rightarrow>
    (queue_res list \<times> 's) run" where
  "run_queue add get [] s = ret ([], s)"
| "run_queue add get (Put a v # ops) s = bindR (add (Some a) v s) (\<lambda>(ok, s).
     bindR (run_queue add get ops s) (\<lambda>(rs, s). ret (Accepted ok # rs, s)))"
| "run_queue add get (Take # ops) s = bindR (get s) (\<lambda>(r, s).
     bindR (run_queue add get ops s) (\<lambda>(rs, s). ret (Taken r # rs, s)))"

fun fifo_results :: "int \<Rightarrow> queue_op list \<Rightarrow> int list \<Rightarrow> queue_res list \<times> int list" where
  "fifo_results n [] xs = ([], xs)"
| "fifo_results n (Put a v # ops) xs =
     (let ok = int (length xs) < n; (rs, ys) = fifo_results n ops (if ok then xs @ [v] else xs) in (Accepted ok # rs, ys))"
| "fifo_results n (Take # ops) xs =
     (let (rs, ys) = fifo_results n ops (tl xs) in (Taken (if xs = [] then None else Some (hd xs)) # rs, ys))"

text \<open>
  \<open>malloc\<close> returns at each addition an address that is not in use at that moment; one that has been freed may come
  again.
\<close>

fun fresh_puts :: "('s \<Rightarrow> addr \<Rightarrow> bool) \<Rightarrow> (ptr \<Rightarrow> int \<Rightarrow> 's \<Rightarrow> (bool \<times> 's) run) \<Rightarrow> ('s \<Rightarrow> (int option \<times> 's) run) \<Rightarrow>
    queue_op list \<Rightarrow> 's \<Rightarrow> bool" where
  "fresh_puts unused add get [] s \<longleftrightarrow> True"
| "fresh_puts unused add get (Put a v # ops) s \<longleftrightarrow> unused s a \<and>
     (case add (Some a) v s of Some (Inr (ok, s')) \<Rightarrow> fresh_puts unused add get ops s' | _ \<Rightarrow> True)"
| "fresh_puts unused add get (Take # ops) s \<longleftrightarrow>
     (case get s of Some (Inr (r, s')) \<Rightarrow> fresh_puts unused add get ops s' | _ \<Rightarrow> True)"

lemma case_ret: "(case ret y of None \<Rightarrow> P | Some (Inl e) \<Rightarrow> Q e | Some (Inr z) \<Rightarrow> R z) = R y"
  by (simp add: ret_def)

context bounded_fifo begin

lemma run_refines:
  assumes "represents s xs n" and "fresh_puts unused add get ops s"
  shows "\<exists>s'. run_queue add get ops s = ret (fst (fifo_results n ops xs), s') \<and>
    represents s' (snd (fifo_results n ops xs)) n"
  using assms
proof (induction ops arbitrary: s xs)
  case (Cons op ops)
  show ?case
  proof (cases op)
    case (Put a v)
    define ys where "ys = (if int (length xs) < n then xs @ [v] else xs)"
    have "unused s a" using Cons.prems(2) Put by simp
    then obtain s1 where s1: "add (Some a) v s = ret (int (length xs) < n, s1)" "represents s1 ys n"
      using add_room[OF Cons.prems(1), of a v] add_full[OF Cons.prems(1), of a v] bounded[OF Cons.prems(1)]
      by (cases "int (length xs) < n") (auto simp: ys_def)
    then have "fresh_puts unused add get ops s1" using Cons.prems(2) Put by (simp add: case_ret)
    from Cons.IH[OF s1(2) this] show ?thesis using s1(1) Put
      by (auto simp add: ys_def[symmetric] case_prod_unfold Let_def)
  next
    case Take
    obtain s1 where s1: "get s = ret (if xs = [] then None else Some (hd xs), s1)" "represents s1 (tl xs) n"
      using get_none[of s n] get_some[of s "hd xs" "tl xs" n] Cons.prems(1) by (cases xs) auto
    then have "fresh_puts unused add get ops s1" using Cons.prems(2) Take by (simp add: case_ret)
    from Cons.IH[OF s1(2) this] show ?thesis using s1(1) Take
      by (auto simp add: case_prod_unfold Let_def)
  qed
qed simp

end

text \<open>Memory holds the values \<open>xs\<close> in a queue of at most \<open>n\<close>, and no other node.\<close>

definition holds :: "qmem \<Rightarrow> int list \<Rightarrow> int \<Rightarrow> bool" where
  "holds m xs n \<longleftrightarrow> (\<exists>as. queue_ok m as xs \<and> dom (qnodes m) = set as) \<and> q_max (que m) = n"

definition unused_addr :: "qmem \<Rightarrow> addr \<Rightarrow> bool" where
  "unused_addr m a \<longleftrightarrow> a \<notin> dom (qnodes m)"

lemma unchanged_try [simp]: "qnodes (try_add m) = qnodes m" "qnodes (try_get m) = qnodes m"
  "q_count (que (try_add m)) = q_count (que m)" "q_max (que (try_add m)) = q_max (que m)"
  "q_count (que (try_get m)) = q_count (que m)" "q_max (que (try_get m)) = q_max (que m)"
  "qnodes (counted_in m) = qnodes m" "qnodes (counted_out m) = qnodes m"
  "qnodes (free_node a m) = (qnodes m)(a := None)" "q_max (que (counted_in m)) = q_max (que m)"
  "q_max (que (counted_out m)) = q_max (que m)" "q_max (que (free_node a m)) = q_max (que m)"
  by (simp_all add: try_add_def try_get_def counted_in_def counted_out_def free_node_def)

lemma holds_count:
  assumes "holds m xs n"
  shows "q_count (que m) = int (length xs)" "q_max (que m) = n" "int (length xs) \<le> n"
proof -
  obtain as where as: "queue_ok m as xs" "q_max (que m) = n" using assms by (auto simp: holds_def)
  then show "q_count (que m) = int (length xs)" "q_max (que m) = n" "int (length xs) \<le> n"
    using queue_ok_length[OF as(1)] by (simp_all add: queue_ok_def)
qed

lemma new_node_ok:
  assumes "queue_ok m as xs" and "a \<notin> dom (qnodes m)"
  shows "\<exists>m'. new_node (Some a) v m = ret (a, m') \<and> queue_ok m' as xs \<and> a \<notin> set as \<and> que m' = que m \<and>
    qnodes m' = (qnodes m)(a \<mapsto> \<lparr>q_val = v, q_next = None\<rparr>)"
proof -
  have na: "a \<notin> set as" using queue_ok_alloc[OF assms(1), of a] assms(2) by auto
  let ?m = "m\<lparr>qnodes := (qnodes m)(a \<mapsto> \<lparr>q_val = v, q_next = None\<rparr>)\<rparr>"
  have "queue_ok ?m as xs" by (rule queue_ok_frame[OF assms(1)]) (use na in auto)
  then show ?thesis using na by (simp add: new_node_def)
qed

lemma new_and_link:
  assumes "queue_ok m as xs" and "a \<notin> dom (qnodes m)" and "int (length as) < q_max (que m)"
  shows "\<exists>m1 m2. new_node (Some a) v m = ret (a, m1) \<and> link_node a m1 = ret m2 \<and> que m1 = que m \<and>
    queue_ok (counted_in m2) (as @ [a]) (xs @ [v]) \<and> q_max (que (counted_in m2)) = q_max (que m) \<and>
    dom (qnodes (counted_in m2)) = insert a (dom (qnodes m))"
proof -
  obtain m1 where m1: "new_node (Some a) v m = ret (a, m1)" "queue_ok m1 as xs" "a \<notin> set as" "que m1 = que m"
      "qnodes m1 = (qnodes m)(a \<mapsto> \<lparr>q_val = v, q_next = None\<rparr>)"
    using new_node_ok[OF assms(1,2)] by blast
  have "int (length as) < q_max (que m1)" using assms(3) m1(4) by simp
  from link_node_ok[OF m1(2) _ m1(3) this, of v] m1(5) obtain m2 where m2: "link_node a m1 = ret m2"
      "queue_ok (counted_in m2) (as @ [a]) (xs @ [v])" "same_outside (set as) m1 (counted_in m2)" by auto
  have "set as \<subseteq> dom (qnodes m)" using queue_ok_alloc[OF assms(1)] by blast
  then have "dom (qnodes (counted_in m2)) \<subseteq> insert a (dom (qnodes m))"
    using m2(3) m1(5) by (auto simp: same_outside_def dom_def split: if_splits)
  moreover have "insert a (dom (qnodes m)) \<subseteq> dom (qnodes (counted_in m2))"
  proof
    fix b assume b: "b \<in> insert a (dom (qnodes m))"
    show "b \<in> dom (qnodes (counted_in m2))"
    proof (cases "b \<in> set (as @ [a])")
      case True
      then show ?thesis using queue_ok_alloc[OF m2(2)] by blast
    next
      case False
      then show ?thesis using b m2(3) m1(5) by (auto simp: same_outside_def)
    qed
  qed
  ultimately show ?thesis using m1 m2 by (auto simp: same_outside_def)
qed

lemma add_room_ok:
  assumes "holds m xs n" and "int (length xs) < n" and "a \<notin> dom (qnodes m)"
  shows "\<exists>m1 m2. new_node (Some a) v (try_add m) = ret (a, try_add m1) \<and> link_node a (try_add m1) = ret m2 \<and>
    new_node (Some a) v m = ret (a, m1) \<and>
    q_count (que m) < q_max (que m) \<and> que m1 = que m \<and> holds (counted_in m2) (xs @ [v]) n \<and>
    (\<forall>b. b \<noteq> a \<longrightarrow> unused_addr m b \<longrightarrow> unused_addr m2 b)"
proof -
  obtain as where as: "queue_ok (try_add m) as xs" "q_max (que m) = n" "dom (qnodes m) = set as" using assms(1) by (auto simp: holds_def)
  have lt: "int (length as) < q_max (que (try_add m))"
    using assms(2) as queue_ok_length[OF as(1)] by (simp add: try_add_def)
  have "a \<notin> dom (qnodes (try_add m))" using assms(3) by (simp add: try_add_def)
  from new_and_link[OF as(1) this lt, of v] obtain m1 m2 where r: "new_node (Some a) v (try_add m) = ret (a, m1)"
      "link_node a m1 = ret m2" "queue_ok (counted_in m2) (as @ [a]) (xs @ [v])"
      "q_max (que (counted_in m2)) = q_max (que (try_add m))"
      "dom (qnodes (counted_in m2)) = insert a (dom (qnodes (try_add m)))" by blast
  let ?m1 = "m\<lparr>qnodes := (qnodes m)(a \<mapsto> \<lparr>q_val = v, q_next = None\<rparr>)\<rparr>"
  have "m1 = try_add ?m1" using r(1) by (auto simp: new_node_def try_add_def)
  moreover have "new_node (Some a) v m = ret (a, ?m1)" by (simp add: new_node_def)
  moreover have "unused_addr m2 b" if "b \<noteq> a" "unused_addr m b" for b
    using r(5) that unfolding unused_addr_def by auto
  ultimately show ?thesis using r as lt
    by (intro exI[of _ ?m1] exI[of _ m2]) (auto simp: holds_def queue_ok_def try_add_def)
qed

lemma unlink_holds:
  assumes "holds m (x # xs) n"
  shows "\<exists>a m1 y. q_first (que m) = Some a \<and> qnodes m a = Some y \<and> q_val y = x \<and>
    unlink_node m = ret (Some a, m1) \<and> qnodes m1 = qnodes m \<and> 0 < q_count (que m) \<and>
    holds (counted_out (free_node a m1)) xs n \<and> holds (free_node a (counted_out m1)) xs n"
proof -
  obtain as where as: "queue_ok m as (x # xs)" "q_max (que m) = n" "dom (qnodes m) = set as" using assms by (auto simp: holds_def)
  obtain a bs where ab: "as = a # bs" using queue_ok_length[OF as(1)] by (cases as) auto
  have c: "0 < q_count (que m)" using holds_count(1)[OF assms] by simp
  obtain m1 y where m1: "qnodes m a = Some y" "q_val y = x" "q_first (que m) = Some a"
      "unlink_node m = ret (Some a, m1)" "qnodes m1 = qnodes m" "a \<notin> set bs"
      "queue_ok (counted_out (free_node a m1)) bs xs" "queue_ok (free_node a (counted_out m1)) bs xs"
      "q_max (que m1) = q_max (que m)"
    using unlink_node_ok[OF as(1)[unfolded ab]] by blast
  have "dom ((qnodes m1)(a := None)) = set bs" using m1(5,6) as(3) ab by auto
  then have "holds (counted_out (free_node a m1)) xs n" "holds (free_node a (counted_out m1)) xs n"
    unfolding holds_def using m1(7,8,9) as(2) by auto
  then show ?thesis using m1(1-5) c by auto
qed

lemma holds_frame: "holds (try_add m) = holds m" "holds (try_get m) = holds m"
  by (simp_all add: fun_eq_iff holds_def)

lemma get_some_ok:
  assumes "holds m (x # xs) n"
  shows "\<exists>a m1 y. q_first (que (try_get m)) = Some a \<and> qnodes (try_get m) a = Some y \<and> q_val y = x \<and>
    unlink_node (try_get m) = ret (Some a, m1) \<and> qnodes m1 = qnodes m \<and> 0 < q_count (que (try_get m)) \<and>
    holds (counted_out (free_node a m1)) xs n \<and> holds (free_node a (counted_out m1)) xs n"
  using unlink_holds[of "try_get m" x xs n] assms unfolding holds_frame unchanged_try .

lemma full_frees:
  "a \<notin> dom (qnodes m) \<Longrightarrow> free_node a (try_add (m\<lparr>qnodes := (qnodes m)(a \<mapsto> y)\<rparr>)) = try_add m"
  by (auto simp: free_node_def try_add_def domIff)

interpretation plain: bounded_fifo holds unused_addr queue_add queue_get
proof
  fix m xs n a v
  assume h: "holds m xs n" and "unused_addr m a"
  then have u: "a \<notin> dom (qnodes m)" by (simp add: unused_addr_def)
  show "\<exists>s'. queue_add (Some a) v m = ret (True, s') \<and> holds s' (xs @ [v]) n \<and>
      (\<forall>b. b \<noteq> a \<longrightarrow> unused_addr m b \<longrightarrow> unused_addr s' b)" if "int (length xs) < n"
    using add_room_ok[OF h that u, of v] by (auto simp: queue_add_def Let_def unused_addr_def)
  show "\<exists>s'. queue_add (Some a) v m = ret (False, s') \<and> holds s' xs n \<and>
      (\<forall>b. unused_addr m b \<longrightarrow> unused_addr s' b)" if "int (length xs) = n"
    using holds_count[OF h] that h by (simp add: queue_add_def Let_def holds_frame unused_addr_def)
next
  fix m x xs n
  assume "holds m (x # xs) n"
  from get_some_ok[OF this] show "\<exists>s'. queue_get m = ret (Some x, s') \<and> holds s' xs n \<and>
      (\<forall>b. unused_addr m b \<longrightarrow> unused_addr s' b)"
    by (auto simp: queue_get_def Let_def unused_addr_def)
next
  fix m n
  assume "holds m [] n"
  then show "\<exists>s'. queue_get m = ret (None, s') \<and> holds s' [] n \<and> (\<forall>b. unused_addr m b \<longrightarrow> unused_addr s' b)"
    using holds_count[of m "[]" n] by (simp add: queue_get_def Let_def holds_frame unused_addr_def)
qed (rule holds_count(3))

interpretation mutexed: bounded_fifo holds unused_addr mutex_queue_add mutex_queue_get
proof
  fix m xs n a v
  assume h: "holds m xs n" and "unused_addr m a"
  then have u: "a \<notin> dom (qnodes m)" by (simp add: unused_addr_def)
  show "\<exists>s'. mutex_queue_add (Some a) v m = ret (True, s') \<and> holds s' (xs @ [v]) n \<and>
      (\<forall>b. b \<noteq> a \<longrightarrow> unused_addr m b \<longrightarrow> unused_addr s' b)" if "int (length xs) < n"
    using add_room_ok[OF h that u, of v] by (auto simp: mutex_queue_add_def mutex_add_section_def unused_addr_def)
  show "\<exists>s'. mutex_queue_add (Some a) v m = ret (False, s') \<and> holds s' xs n \<and>
      (\<forall>b. unused_addr m b \<longrightarrow> unused_addr s' b)" if "int (length xs) = n"
    using holds_count[OF h] that h u full_frees[OF u]
    by (simp add: mutex_queue_add_def mutex_add_section_def new_node_def holds_frame unused_addr_def)
next
  fix m x xs n
  assume "holds m (x # xs) n"
  from get_some_ok[OF this] show "\<exists>s'. mutex_queue_get m = ret (Some x, s') \<and> holds s' xs n \<and>
      (\<forall>b. unused_addr m b \<longrightarrow> unused_addr s' b)"
    by (auto simp: mutex_queue_get_def mutex_get_section_def mutex_read_node_def unused_addr_def)
next
  fix m n
  assume "holds m [] n"
  then show "\<exists>s'. mutex_queue_get m = ret (None, s') \<and> holds s' [] n \<and> (\<forall>b. unused_addr m b \<longrightarrow> unused_addr s' b)"
    using holds_count[of m "[]" n] by (simp add: mutex_queue_get_def mutex_get_section_def holds_frame unused_addr_def)
qed (rule holds_count(3))

interpretation spinning: bounded_fifo holds unused_addr spin_queue_add spin_queue_get
proof
  fix m xs n a v
  assume h: "holds m xs n" and "unused_addr m a"
  then have u: "a \<notin> dom (qnodes m)" by (simp add: unused_addr_def)
  show "\<exists>s'. spin_queue_add (Some a) v m = ret (True, s') \<and> holds s' (xs @ [v]) n \<and>
      (\<forall>b. b \<noteq> a \<longrightarrow> unused_addr m b \<longrightarrow> unused_addr s' b)" if "int (length xs) < n"
    using add_room_ok[OF h that u, of v] by (auto simp: spin_queue_add_def spin_add_section_def unused_addr_def)
  show "\<exists>s'. spin_queue_add (Some a) v m = ret (False, s') \<and> holds s' xs n \<and>
      (\<forall>b. unused_addr m b \<longrightarrow> unused_addr s' b)" if "int (length xs) = n"
    using holds_count[OF h] that h u full_frees[OF u]
    by (simp add: spin_queue_add_def spin_add_section_def new_node_def holds_frame unused_addr_def)
next
  fix m x xs n
  assume "holds m (x # xs) n"
  from get_some_ok[OF this] show "\<exists>s'. spin_queue_get m = ret (Some x, s') \<and> holds s' xs n \<and>
      (\<forall>b. unused_addr m b \<longrightarrow> unused_addr s' b)"
    by (auto simp: spin_queue_get_def spin_get_section_def spin_read_node_def unused_addr_def)
next
  fix m n
  assume "holds m [] n"
  then show "\<exists>s'. spin_queue_get m = ret (None, s') \<and> holds s' [] n \<and> (\<forall>b. unused_addr m b \<longrightarrow> unused_addr s' b)"
    using holds_count[of m "[]" n] by (simp add: spin_queue_get_def spin_get_section_def holds_frame unused_addr_def)
qed (rule holds_count(3))

subsection \<open>Many callers\<close>

text \<open>
  The interface of the critical sections of a locked queue: what they do to a queue in memory, and
  that they touch no node but those in the queue and the one they are given.
\<close>

locale locked_queue =
  fixes add_section :: "addr \<Rightarrow> qmem \<Rightarrow> (bool \<times> qmem) run"
    and get_section :: "qmem \<Rightarrow> (ptr \<times> qmem) run"
    and read_node :: "addr \<Rightarrow> qmem \<Rightarrow> (int \<times> qmem) run"
  assumes section_add: "queue_ok m as xs \<Longrightarrow> qnodes m a = Some \<lparr>q_val = v, q_next = None\<rparr> \<Longrightarrow> a \<notin> set as \<Longrightarrow>
      \<exists>m'. add_section a m = ret (int (length as) < q_max (que m), m') \<and> same_outside (insert a (set as)) m m' \<and>
        (if int (length as) < q_max (que m) then queue_ok m' (as @ [a]) (xs @ [v]) else queue_ok m' as xs)"
    and section_empty: "queue_ok m [] [] \<Longrightarrow> get_section m = ret (None, m)"
    and section_get: "queue_ok m (a # as) (x # xs) \<Longrightarrow>
      \<exists>m'. get_section m = ret (Some a, m') \<and> qnodes m' = qnodes m \<and> q_max (que m') = q_max (que m) \<and>
        queue_ok m' as xs"
    and read: "qnodes m a = Some y \<Longrightarrow> read_node a m = ret (q_val y, free_node a m)"

text \<open>The node a thread has for itself.\<close>

fun own :: "qpc \<Rightarrow> addr option" where
  "own Outside = None"
| "own (Adding a v) = Some a"
| "own (Got a w) = Some a"

definition own_ok :: "qmem \<Rightarrow> addr list \<Rightarrow> qpc \<Rightarrow> bool" where
  "own_ok m as p = (case p of Outside \<Rightarrow> True
     | Adding a v \<Rightarrow> a \<notin> set as \<and> qnodes m a = Some \<lparr>q_val = v, q_next = None\<rparr>
     | Got a w \<Rightarrow> a \<notin> set as \<and> (\<exists>x. qnodes m a = Some x \<and> q_val x = w))"

definition locked_inv :: "int \<Rightarrow> qsys \<Rightarrow> addr list \<Rightarrow> int list \<Rightarrow> bool" where
  "locked_inv n s as xs \<longleftrightarrow> queue_ok (qm s) as xs \<and> q_max (que (qm s)) = n \<and> puts s = takes s @ xs \<and>
     (\<forall>t. own_ok (qm s) as (pcs s t)) \<and>
     (\<forall>t u. t \<noteq> u \<and> own (pcs s t) \<noteq> None \<longrightarrow> own (pcs s t) \<noteq> own (pcs s u))"

lemma own_ok_frame:
  assumes "own_ok m as p" and "\<And>a. own p = Some a \<Longrightarrow> qnodes m' a = qnodes m a" and "\<And>a. own p = Some a \<Longrightarrow> a \<notin> set bs"
  shows "own_ok m' bs p"
  using assms by (cases p) (auto simp: own_ok_def)

lemma own_outside: "own_ok m as p \<Longrightarrow> own p = Some a \<Longrightarrow> a \<notin> set as \<and> a \<in> dom (qnodes m)"
  by (cases p) (auto simp: own_ok_def)

text \<open>A step of thread \<open>t\<close> that leaves the nodes of the others alone.\<close>

lemma locked_invI:
  assumes "locked_inv n s as xs" and "queue_ok m bs ys" and "q_max (que m) = n" and "ps = ts @ ys"
    and "own_ok m bs p" and "own p \<noteq> None \<longrightarrow> (\<forall>u. u \<noteq> t \<longrightarrow> own (pcs s u) \<noteq> own p)"
    and "\<And>u a. u \<noteq> t \<Longrightarrow> own (pcs s u) = Some a \<Longrightarrow> qnodes m a = qnodes (qm s) a \<and> a \<notin> set bs"
  shows "locked_inv n (s\<lparr>qm := m, pcs := (pcs s)(t := p), puts := ps, takes := ts\<rparr>) bs ys"
proof -
  have "own_ok m bs (((pcs s)(t := p)) u)" for u
  proof (cases "u = t")
    case False
    have "own_ok (qm s) as (pcs s u)" using assms(1) by (simp add: locked_inv_def)
    then show ?thesis using False assms(7)[OF False] own_ok_frame[of "qm s" as "pcs s u" m bs] by auto
  qed (use assms(5) in simp)
  moreover have "own (((pcs s)(t := p)) u) \<noteq> own (((pcs s)(t := p)) v)"
    if "u \<noteq> v" "own (((pcs s)(t := p)) u) \<noteq> None" for u v
    using that assms(1,6) by (auto simp: locked_inv_def split: if_splits)
  ultimately show ?thesis using assms(2-4) by (simp add: locked_inv_def)
qed

text \<open>
  The promise of a locked queue of at most \<open>n\<close> values: the values taken are a prefix of those
  added, the rest is in the queue; no operation crashes; adding fails only when the queue is full,
  taking only when it is empty; and a thread reads the value of the node it unlinked.
\<close>

definition locked_promise ::
  "(addr \<Rightarrow> qmem \<Rightarrow> (bool \<times> qmem) run) \<Rightarrow> (qmem \<Rightarrow> (ptr \<times> qmem) run) \<Rightarrow> (addr \<Rightarrow> qmem \<Rightarrow> (int \<times> qmem) run) \<Rightarrow>
   int \<Rightarrow> qsys \<Rightarrow> bool" where
  "locked_promise add_section get_section read_node n s \<longleftrightarrow> (\<exists>xs. puts s = takes s @ xs \<and>
    q_count (que (qm s)) = int (length xs) \<and> int (length xs) \<le> n \<and>
    (\<forall>t a v. pcs s t = Adding a v \<longrightarrow> (\<exists>m. add_section a (qm s) = ret (int (length xs) < n, m))) \<and>
    (\<exists>r. get_section (try_get (qm s)) = ret r \<and> (fst r = None \<longleftrightarrow> xs = [])) \<and>
    (\<forall>t a w. pcs s t = Got a w \<longrightarrow> (\<exists>m. read_node a (qm s) = ret (w, m))))"

context locked_queue begin

lemma begin_keeps:
  assumes i: "locked_inv n s as xs"
    and Begin: "s' = s\<lparr>qm := try_add m, pcs := (pcs s)(t := Adding a v)\<rparr>" "pcs s t = Outside" "a \<notin> dom (qnodes (qm s))"
      "new_node (Some a) v (qm s) = ret (a, m)"
  shows "\<exists>as' xs'. locked_inv n s' as' xs'"
proof -
  have ok: "queue_ok (qm s) as xs" using i by (simp add: locked_inv_def)
  obtain m1 where m1: "new_node (Some a) v (qm s) = ret (a, m1)" "queue_ok m1 as xs" "a \<notin> set as" "que m1 = que (qm s)"
      "qnodes m1 = (qnodes (qm s))(a \<mapsto> \<lparr>q_val = v, q_next = None\<rparr>)"
    using new_node_ok[OF ok Begin(3)] by blast
  have m: "m = m1" using Begin(4) m1(1) by simp
  have oth: "own (pcs s u) \<noteq> Some a" for u
    using own_outside[of "qm s" as "pcs s u" a] i Begin(3) by (auto simp: locked_inv_def)
  have out: "b \<notin> set as" if "own (pcs s u) = Some b" for u b
    using own_outside[of "qm s" as "pcs s u" b] i that by (simp add: locked_inv_def)
  have "locked_inv n (s\<lparr>qm := try_add m, pcs := (pcs s)(t := Adding a v), puts := puts s, takes := takes s\<rparr>) as xs"
  proof (rule locked_invI[OF i])
    show "queue_ok (try_add m) as xs" using m1(2) m by simp
    show "own_ok (try_add m) as (Adding a v)" using m1(3,5) m by (simp add: own_ok_def)
    show "qnodes (try_add m) b = qnodes (qm s) b \<and> b \<notin> set as" if "own (pcs s u) = Some b" for u b
      using that oth[of u] out m1(5) m by auto
  qed (use i m m1(4) oth in \<open>auto simp: locked_inv_def\<close>)
  then have "locked_inv n s' as xs" using Begin(1) by simp
  then show ?thesis by blast
qed

lemma add_keeps:
  assumes i: "locked_inv n s as xs"
    and Add: "s' = s\<lparr>qm := m, pcs := (pcs s)(t := Outside), puts := puts s @ (if ok then [v] else [])\<rparr>"
      "pcs s t = Adding a v" "add_section a (qm s) = ret (ok, m)"
  shows "\<exists>as' xs'. locked_inv n s' as' xs'"
proof -
  have o: "own_ok (qm s) as (Adding a v)" using i Add(2) unfolding locked_inv_def by metis
  then have na: "a \<notin> set as" "qnodes (qm s) a = Some \<lparr>q_val = v, q_next = None\<rparr>" by (simp_all add: own_ok_def)
  have qok: "queue_ok (qm s) as xs" and lim: "q_max (que (qm s)) = n" using i by (simp_all add: locked_inv_def)
  obtain m' where m': "add_section a (qm s) = ret (int (length as) < n, m')" "same_outside (insert a (set as)) (qm s) m'"
      "if int (length as) < n then queue_ok m' (as @ [a]) (xs @ [v]) else queue_ok m' as xs"
    using section_add[OF qok na(2,1)] lim by auto
  then have e: "ok = (int (length as) < n)" "m = m'" using Add(3) by simp_all
  have oth: "b \<noteq> a \<and> b \<notin> set as \<and> qnodes m b = qnodes (qm s) b" if "u \<noteq> t" "own (pcs s u) = Some b" for u b
  proof -
    have "b \<noteq> a" using i that Add(2) unfolding locked_inv_def by (metis option.discI own.simps(2))
    moreover have "b \<notin> set as" using own_outside[of "qm s" as "pcs s u" b] i that by (simp add: locked_inv_def)
    ultimately show ?thesis using m'(2) e(2) by (simp add: same_outside_def)
  qed
  let ?as = "if ok then as @ [a] else as" and ?xs = "if ok then xs @ [v] else xs"
  have "locked_inv n (s\<lparr>qm := m, pcs := (pcs s)(t := Outside), puts := puts s @ (if ok then [v] else []),
      takes := takes s\<rparr>) ?as ?xs"
  proof (rule locked_invI[OF i])
    show "queue_ok m ?as ?xs" using m'(3) e by (auto split: if_splits)
    show "q_max (que m) = n" using m'(2) e(2) lim by (simp add: same_outside_def)
    show "puts s @ (if ok then [v] else []) = takes s @ ?xs" using i by (auto simp: locked_inv_def)
    show "qnodes m b = qnodes (qm s) b \<and> b \<notin> set ?as" if "u \<noteq> t" "own (pcs s u) = Some b" for u b
      using oth[OF that] by auto
  qed (simp_all add: own_ok_def)
  then have "locked_inv n s' ?as ?xs" using Add(1) by simp
  then show ?thesis by blast
qed

lemma empty_keeps:
  assumes i: "locked_inv n s as xs"
    and Empty: "s' = s\<lparr>qm := m\<rparr>" "pcs s t = Outside" "get_section (try_get (qm s)) = ret (None, m)"
  shows "\<exists>as' xs'. locked_inv n s' as' xs'"
proof -
  have qok: "queue_ok (try_get (qm s)) as xs" using i by (simp add: locked_inv_def)
  have "as = []"
  proof (cases as)
    case (Cons a bs)
    then obtain x ys where "xs = x # ys" using queue_ok_length[OF qok] by (cases xs) auto
    then show ?thesis using section_get[of "try_get (qm s)" a bs x ys] qok Cons Empty(3) by auto
  qed
  then have "xs = []" using queue_ok_length[OF qok] by simp
  then have m: "m = try_get (qm s)" using section_empty qok \<open>as = []\<close> Empty(3) by simp
  have "locked_inv n (s\<lparr>qm := m\<rparr>) as xs"
    using i m by (auto simp: locked_inv_def own_ok_def split: qpc.splits)
  then have "locked_inv n s' as xs" using Empty(1) by simp
  then show ?thesis by blast
qed

lemma get_keeps:
  assumes i: "locked_inv n s as xs"
    and Get: "s' = s\<lparr>qm := m, pcs := (pcs s)(t := Got a (q_val x)), takes := takes s @ [q_val x]\<rparr>" "pcs s t = Outside"
      "get_section (try_get (qm s)) = ret (Some a, m)" "qnodes (qm s) a = Some x"
  shows "\<exists>as' xs'. locked_inv n s' as' xs'"
proof -
  have qok: "queue_ok (try_get (qm s)) as xs" using i by (simp add: locked_inv_def)
  obtain b bs y ys where ab: "as = b # bs" "xs = y # ys"
  proof (cases as)
    case Nil
    then have "xs = []" using queue_ok_length[OF qok] by simp
    then show ?thesis using section_empty[of "try_get (qm s)"] qok Nil Get(3) by simp
  next
    case (Cons b bs)
    then show ?thesis using that queue_ok_length[OF qok] by (cases xs) auto
  qed
  obtain m' where m': "get_section (try_get (qm s)) = ret (Some b, m')" "qnodes m' = qnodes (qm s)"
      "q_max (que m') = q_max (que (qm s))" "queue_ok m' bs ys"
    using section_get[of "try_get (qm s)" b bs y ys] qok ab by auto
  then have e: "a = b" "m = m'" using Get(3) by simp_all
  have xv: "q_val x = y" using qok ab Get(4) e(1) by (simp add: queue_ok_def links_def)
  have nb: "b \<notin> set bs" using qok ab(1) llist_distinct[of "q_links (try_get (qm s))" _ "b # bs"]
    by (auto simp: queue_ok_def)
  have out: "c \<notin> set as" if "own (pcs s u) = Some c" for u c
    using own_outside[of "qm s" as "pcs s u" c] i that by (simp add: locked_inv_def)
  have "locked_inv n (s\<lparr>qm := m, pcs := (pcs s)(t := Got a (q_val x)), puts := puts s, takes := takes s @ [q_val x]\<rparr>) bs ys"
  proof (rule locked_invI[OF i])
    show "own_ok m bs (Got a (q_val x))" using nb Get(4) e m'(2) by (simp add: own_ok_def)
    show "own (Got a (q_val x)) \<noteq> None \<longrightarrow> (\<forall>u. u \<noteq> t \<longrightarrow> own (pcs s u) \<noteq> own (Got a (q_val x)))"
      using out e(1) ab(1) by fastforce
    show "qnodes m c = qnodes (qm s) c \<and> c \<notin> set bs" if "own (pcs s u) = Some c" for u c
      using out[OF that] e(2) m'(2) ab(1) by simp
  qed (use i m' e xv ab in \<open>auto simp: locked_inv_def\<close>)
  then have "locked_inv n s' bs ys" using Get(1) by simp
  then show ?thesis by blast
qed

lemma read_keeps:
  assumes i: "locked_inv n s as xs"
    and Read: "s' = s\<lparr>qm := m, pcs := (pcs s)(t := Outside)\<rparr>" "pcs s t = Got a w" "read_node a (qm s) = ret (v, m)"
  shows "\<exists>as' xs'. locked_inv n s' as' xs'"
proof -
  have o: "own_ok (qm s) as (Got a w)" using i Read(2) unfolding locked_inv_def by metis
  then obtain y where na: "a \<notin> set as" "qnodes (qm s) a = Some y" by (auto simp: own_ok_def)
  then have m: "m = free_node a (qm s)" using read[OF na(2)] Read(3) by simp
  have oth: "b \<noteq> a \<and> b \<notin> set as" if "u \<noteq> t" "own (pcs s u) = Some b" for u b
  proof -
    have "b \<noteq> a" using i that Read(2) unfolding locked_inv_def by (metis option.discI own.simps(3))
    then show ?thesis using own_outside[of "qm s" as "pcs s u" b] i that by (simp add: locked_inv_def)
  qed
  have "locked_inv n (s\<lparr>qm := m, pcs := (pcs s)(t := Outside), puts := puts s, takes := takes s\<rparr>) as xs"
  proof (rule locked_invI[OF i])
    have "queue_ok (qm s) as xs" using i by (simp add: locked_inv_def)
    then show "queue_ok m as xs" by (rule queue_ok_frame) (use na m in \<open>auto simp: free_node_def\<close>)
    show "qnodes m b = qnodes (qm s) b \<and> b \<notin> set as" if "u \<noteq> t" "own (pcs s u) = Some b" for u b
      using oth[OF that] m by simp
  qed (use i m in \<open>auto simp: locked_inv_def own_ok_def free_node_def\<close>)
  then have "locked_inv n s' as xs" using Read(1) by simp
  then show ?thesis by blast
qed

lemma step_inv:
  assumes "locked_step add_section get_section read_node s s'" and i: "locked_inv n s as xs"
  shows "\<exists>as' xs'. locked_inv n s' as' xs'"
  using assms(1)
proof (cases rule: locked_step.cases)
  case (Begin t a v m)
  show ?thesis by (rule begin_keeps[OF i Begin])
next
  case (Add t a v ok m)
  show ?thesis by (rule add_keeps[OF i Add])
next
  case (Empty t m)
  show ?thesis by (rule empty_keeps[OF i Empty])
next
  case (Get t a m x)
  show ?thesis by (rule get_keeps[OF i Get])
next
  case (Read t a w v m)
  show ?thesis by (rule read_keeps[OF i Read])
qed

lemma reachable_inv:
  assumes "(locked_step add_section get_section read_node)\<^sup>*\<^sup>* (qsys_start n) s" and "0 \<le> n"
  shows "\<exists>as xs. locked_inv n s as xs"
  using assms(1)
proof (induction rule: rtranclp_induct)
  case base
  have "locked_inv n (qsys_start n) [] []"
    using queue_ok_empty[OF assms(2)] by (simp add: locked_inv_def own_ok_def empty_queue_def)
  then show ?case by blast
qed (use step_inv in blast)

text \<open>What the locked queue promises in every state it gets into.\<close>

lemma reachable_promise:
  assumes "(locked_step add_section get_section read_node)\<^sup>*\<^sup>* (qsys_start n) s" and "0 \<le> n"
  shows "locked_promise add_section get_section read_node n s"
proof -
  obtain as xs where i: "locked_inv n s as xs" using reachable_inv[OF assms] by blast
  have qok: "queue_ok (qm s) as xs" and lim: "q_max (que (qm s)) = n" and own: "\<And>t. own_ok (qm s) as (pcs s t)"
    using i by (simp_all add: locked_inv_def)
  have len: "length xs = length as" using queue_ok_length[OF qok] .
  have "\<exists>m. add_section a (qm s) = ret (int (length xs) < n, m)" if "pcs s t = Adding a v" for t a v
    using own[of t] that section_add[OF qok, of a v] lim len by (auto simp: own_ok_def)
  moreover have "\<exists>r. get_section (try_get (qm s)) = ret r \<and> (fst r = None \<longleftrightarrow> xs = [])"
  proof (cases as)
    case Nil
    then show ?thesis using section_empty[of "try_get (qm s)"] qok len by simp
  next
    case (Cons a bs)
    then obtain x ys where "xs = x # ys" using len by (cases xs) auto
    then show ?thesis using section_get[of "try_get (qm s)" a bs x ys] qok Cons by auto
  qed
  moreover have "\<exists>m. read_node a (qm s) = ret (w, m)" if "pcs s t = Got a w" for t a w
    using own[of t] that read by (auto simp: own_ok_def)
  moreover have "puts s = takes s @ xs \<and> q_count (que (qm s)) = int (length xs) \<and> int (length xs) \<le> n"
    using i qok lim len by (simp add: locked_inv_def queue_ok_def)
  ultimately show ?thesis unfolding locked_promise_def by (intro exI[of _ xs]) simp
qed

end

lemma add_section_ok:
  assumes "queue_ok m as xs" and "qnodes m a = Some \<lparr>q_val = v, q_next = None\<rparr>" and "a \<notin> set as"
  shows "if int (length as) < q_max (que m)
    then \<exists>m'. link_node a m = ret m' \<and> queue_ok (counted_in m') (as @ [a]) (xs @ [v]) \<and>
      same_outside (insert a (set as)) m (counted_in m')
    else q_count (que m) = q_max (que m) \<and> queue_ok (free_node a m) as xs \<and>
      same_outside (insert a (set as)) m (free_node a m)"
proof (cases "int (length as) < q_max (que m)")
  case True
  then show ?thesis using link_node_ok[OF assms True] by (auto simp: same_outside_def)
next
  case False
  have "queue_ok (free_node a m) as xs"
    by (rule queue_ok_frame[OF assms(1)]) (use assms(3) in \<open>auto simp: free_node_def\<close>)
  then show ?thesis using False assms(1) by (auto simp: same_outside_def queue_ok_def free_node_def)
qed

lemma get_section_ok:
  assumes "queue_ok m (a # as) (x # xs)"
  shows "\<exists>m'. unlink_node m = ret (Some a, m') \<and> qnodes (counted_out m') = qnodes m \<and>
    q_max (que (counted_out m')) = q_max (que m) \<and> queue_ok (counted_out m') as xs \<and> 0 < q_count (que m)"
  using unlink_node_ok[OF assms] assms by (auto simp: queue_ok_def counted_out_def)

interpretation mutex_sections: locked_queue mutex_add_section mutex_get_section mutex_read_node
proof
  fix m as xs a v
  assume q: "queue_ok m as xs" and n: "qnodes m a = Some \<lparr>q_val = v, q_next = None\<rparr>" "a \<notin> set as"
  have "q_count (que m) = int (length as)" "int (length as) \<le> q_max (que m)" using q by (simp_all add: queue_ok_def)
  with add_section_ok[OF q n] show "\<exists>m'. mutex_add_section a m = ret (int (length as) < q_max (que m), m') \<and>
      same_outside (insert a (set as)) m m' \<and>
      (if int (length as) < q_max (que m) then queue_ok m' (as @ [a]) (xs @ [v]) else queue_ok m' as xs)"
    by (auto simp: mutex_add_section_def split: if_splits)
next
  fix m assume "queue_ok m [] []"
  then show "mutex_get_section m = ret (None, m)" by (simp add: mutex_get_section_def queue_ok_def)
next
  fix m a as x xs
  assume "queue_ok m (a # as) (x # xs)"
  from get_section_ok[OF this] show "\<exists>m'. mutex_get_section m = ret (Some a, m') \<and> qnodes m' = qnodes m \<and>
      q_max (que m') = q_max (que m) \<and> queue_ok m' as xs"
    by (auto simp: mutex_get_section_def)
qed (simp add: mutex_read_node_def)

interpretation spin_sections: locked_queue spin_add_section spin_get_section spin_read_node
proof
  fix m as xs a v
  assume q: "queue_ok m as xs" and n: "qnodes m a = Some \<lparr>q_val = v, q_next = None\<rparr>" "a \<notin> set as"
  have "q_count (que m) = int (length as)" "int (length as) \<le> q_max (que m)" using q by (simp_all add: queue_ok_def)
  with add_section_ok[OF q n] show "\<exists>m'. spin_add_section a m = ret (int (length as) < q_max (que m), m') \<and>
      same_outside (insert a (set as)) m m' \<and>
      (if int (length as) < q_max (que m) then queue_ok m' (as @ [a]) (xs @ [v]) else queue_ok m' as xs)"
    by (auto simp: spin_add_section_def split: if_splits)
next
  fix m assume "queue_ok m [] []"
  then show "spin_get_section m = ret (None, m)" by (simp add: spin_get_section_def queue_ok_def)
next
  fix m a as x xs
  assume "queue_ok m (a # as) (x # xs)"
  from get_section_ok[OF this] show "\<exists>m'. spin_get_section m = ret (Some a, m') \<and> qnodes m' = qnodes m \<and>
      q_max (que m') = q_max (que m) \<and> queue_ok m' as xs"
    by (auto simp: spin_get_section_def)
qed (simp add: spin_read_node_def)

text \<open>C19:
  Called by any number of threads in any order, the mutex and the spin lock queue are bounded
  first-in first-out queues: in the order in which the lock is held, the values taken are a prefix
  of the values added and the rest is in the queue, at most \<open>n\<close>; adding fails only when the queue
  is full and taking only when it is empty, a thread gets the value of the node it unlinked
  although it reads it after the unlocking, and nothing crashes.
\<close>

theorem locked_queues_are_fifo:
  assumes "0 \<le> n"
  shows "(mutex_step\<^sup>*\<^sup>* (qsys_start n) s \<longrightarrow> locked_promise mutex_add_section mutex_get_section mutex_read_node n s) \<and>
    (spin_step\<^sup>*\<^sup>* (qsys_start n) s \<longrightarrow> locked_promise spin_add_section spin_get_section spin_read_node n s)"
  unfolding mutex_step_def spin_step_def
  using mutex_sections.reachable_promise[OF _ assms] spin_sections.reachable_promise[OF _ assms] by blast

definition one_added :: qsys where
  "one_added = \<lparr>qm = \<lparr>que = \<lparr>q_first = Some 4, q_last = Some 4, q_count = 1, q_max = 2, add_attempts = 1,
      get_attempts = 0, add_count = 1, get_count = 0\<rparr>, qnodes = [4 \<mapsto> \<lparr>q_val = 9, q_next = None\<rparr>]\<rparr>,
    pcs = (\<lambda>t. Outside), puts = [9], takes = []\<rparr>"

lemma one_added_reachable: "mutex_step\<^sup>*\<^sup>* (qsys_start 2) one_added"
proof -
  let ?m = "(empty_queue 2)\<lparr>qnodes := [4 \<mapsto> \<lparr>q_val = 9, q_next = None\<rparr>]\<rparr>"
  let ?s = "(qsys_start 2)\<lparr>qm := try_add ?m, pcs := (pcs (qsys_start 2))(0 := Adding 4 9)\<rparr>"
  have "mutex_step (qsys_start 2) ?s"
    unfolding mutex_step_def by (rule locked_step.Begin) (simp_all add: new_node_def empty_queue_def)
  moreover have "mutex_step ?s (?s\<lparr>qm := qm one_added, pcs := (pcs ?s)(0 := Outside), puts := puts ?s @ (if True then [9] else [])\<rparr>)"
    unfolding mutex_step_def
    by (rule locked_step.Add[where a = 4])
      (simp_all add: mutex_add_section_def link_node_def counted_in_def try_add_def empty_queue_def one_added_def)
  moreover have "?s\<lparr>qm := qm one_added, pcs := (pcs ?s)(0 := Outside), puts := puts ?s @ (if True then [9] else [])\<rparr> = one_added"
    by (simp add: one_added_def fun_eq_iff)
  ultimately show ?thesis by (metis converse_rtranclp_into_rtranclp r_into_rtranclp)
qed

theorem locked_queues_are_fifo_witness:
  "locked_promise mutex_add_section mutex_get_section mutex_read_node 2 one_added \<and> puts one_added = [9]"
  using locked_queues_are_fifo[of 2 one_added] one_added_reachable by (simp add: one_added_def)

subsection \<open>One caller: the properties\<close>

lemma free_nodes_spec: "llist (links q_next h) p as \<Longrightarrow> free_nodes h p = ret (h |` (- set as))"
proof (induction as arbitrary: h p)
  case Nil
  then show ?case by (simp add: free_nodes.simps)
next
  case (Cons a as)
  then obtain x where p: "p = Some a" "h a = Some x" "llist (links q_next h) (q_next x) as"
    by (auto simp: links_eq_Some_iff)
  have "a \<notin> set as" using llist_distinct[OF Cons.prems] by simp
  then have "llist (links q_next (h(a := None))) (q_next x) as" using p(3) by simp
  then have "free_nodes (h(a := None)) (q_next x) = ret (h(a := None) |` (- set as))" by (rule Cons.IH)
  moreover have "h(a := None) |` (- set as) = h |` (- set (a # as))" by (auto simp: restrict_map_def)
  ultimately show ?case using p by (simp add: free_nodes.simps[of h])
qed

lemma destroy_frees_all:
  assumes "holds m xs n"
  shows "queue_destroy m = ret Map.empty"
proof -
  from assms obtain as where as: "queue_ok m as xs" "dom (qnodes m) = set as" by (auto simp: holds_def)
  then have "queue_destroy m = ret (qnodes m |` (- dom (qnodes m)))"
    using free_nodes_spec[of "qnodes m" "q_first (que m)" as] by (simp add: queue_destroy_def queue_ok_def)
  moreover have "qnodes m |` (- dom (qnodes m)) = Map.empty" by (auto simp: restrict_map_def domIff fun_eq_iff)
  ultimately show ?thesis by simp
qed

text \<open>C22:
  For one caller the queue without synchronisation and the mutex and spin lock queues are all
  equal to the mathematical bounded queue: from \<open>queue_init\<close> any sequence of additions and removals, whose
  allocations succeed with addresses that are not in use at the time, gives the results of a list with a limit, the
  queue then holds that list, and \<open>queue_destroy\<close> leaves no node allocated.
\<close>

theorem queues_refine_bounded_fifo:
  assumes "queue_init True True n = ret m" and "0 \<le> n" and "fresh_puts unused_addr add get ops m"
    and "(add, get) \<in> {(queue_add, queue_get), (mutex_queue_add, mutex_queue_get), (spin_queue_add, spin_queue_get)}"
  shows "\<exists>m'. run_queue add get ops m = ret (fst (fifo_results n ops []), m') \<and>
    holds m' (snd (fifo_results n ops [])) n \<and> queue_destroy m' = ret Map.empty"
proof -
  have m: "m = empty_queue n" using assms(1) by (simp add: queue_init_def empty_queue_def)
  have h: "holds m [] n"
    using queue_ok_empty[OF assms(2)] by (auto simp: holds_def empty_queue_def m)
  have "\<exists>m'. run_queue add get ops m = ret (fst (fifo_results n ops []), m') \<and>
      holds m' (snd (fifo_results n ops [])) n"
    using assms(3,4) plain.run_refines[OF h, of ops] mutexed.run_refines[OF h, of ops]
      spinning.run_refines[OF h, of ops] by auto
  then show ?thesis using destroy_frees_all by blast
qed

text \<open>The second addition gets the address that the first removal has freed.\<close>

theorem queues_refine_bounded_fifo_witness:
  "\<exists>m'. run_queue queue_add queue_get [Put 4 10, Put 5 11, Take, Put 4 12, Take, Take] (empty_queue 1) =
      ret ([Accepted True, Accepted False, Taken (Some 10), Accepted True, Taken (Some 12), Taken None], m')"
proof -
  let ?ops = "[Put 4 10, Put 5 11, Take, Put 4 12, Take, Take]"
  have q: "queue_init True True 1 = ret (empty_queue 1)" by (simp add: queue_init_def empty_queue_def)
  have f: "fresh_puts unused_addr queue_add queue_get ?ops (empty_queue 1)"
    by (simp add: unused_addr_def empty_queue_def queue_add_def queue_get_def try_add_def try_get_def new_node_def link_node_def
        unlink_node_def counted_in_def counted_out_def free_node_def Let_def case_ret)
  have r: "fst (fifo_results 1 ?ops []) =
      [Accepted True, Accepted False, Taken (Some 10), Accepted True, Taken (Some 12), Taken None]"
    by (simp add: Let_def)
  show ?thesis using queues_refine_bounded_fifo[OF q _ f] unfolding r by (simp del: run_queue.simps) blast
qed

subsection \<open>Condition variables\<close>

lemma cond_add_body_ok:
  assumes "holds m xs n" and "int (length xs) < n" and "a \<notin> dom (qnodes m)"
  shows "\<exists>m'. cond_add_body (Some a) v m = ret m' \<and> holds m' (xs @ [v]) n"
  using add_room_ok[OF assms, of v] by (auto simp: cond_add_body_def)

lemma cond_get_body_ok:
  assumes "holds m (x # xs) n"
  shows "\<exists>m'. cond_get_body m = ret (x, m') \<and> holds m' xs n"
  using get_some_ok[OF assms] by (auto simp: cond_get_body_def Let_def)

text \<open>
  The invariant: the history, and for each condition, when threads sleep on it, that there are as
  many threads woken as there are items or places they could use.
\<close>

definition cond_inv :: "int \<Rightarrow> cond_sys \<Rightarrow> int list \<Rightarrow> bool" where
  "cond_inv n s xs \<longleftrightarrow> holds (cm s) xs n \<and> cputs s = ctakes s @ xs \<and>
     (get_blocked s = 0 \<or> length xs \<le> get_woken s) \<and>
     (add_blocked s = [] \<or> n - int (length xs) \<le> int (length (add_woken s)))"

lemma cond_queue_add_ok:
  assumes "holds (cm s) xs n" and "cputs s = ctakes s @ xs" and "a \<notin> dom (qnodes (cm s))"
    and "get_blocked s = 0 \<or> length xs \<le> get_woken s"
    and "int (length xs) < n \<Longrightarrow> add_blocked s = [] \<or> n - int (length xs) - 1 \<le> int (length (add_woken s))"
    and "int (length xs) = n \<Longrightarrow> True"
  shows "\<exists>s' xs'. cond_queue_add (Some a) v s = ret s' \<and> cond_inv n s' xs'"
proof (cases "int (length xs) = n")
  case True
  then have "cond_queue_add (Some a) v s = ret (s\<lparr>add_blocked := add_blocked s @ [v]\<rparr>)"
    using holds_count[OF assms(1)] by (simp add: cond_queue_add_def)
  moreover have "cond_inv n (s\<lparr>add_blocked := add_blocked s @ [v]\<rparr>) xs"
    using assms(1,2,4) True by (simp add: cond_inv_def)
  ultimately show ?thesis by blast
next
  case False
  then have lt: "int (length xs) < n" using holds_count(3)[OF assms(1)] by simp
  obtain m where m: "cond_add_body (Some a) v (cm s) = ret m" "holds m (xs @ [v]) n"
    using cond_add_body_ok[OF assms(1) lt assms(3)] by blast
  let ?s = "signal_not_empty (s\<lparr>cm := m, cputs := cputs s @ [v]\<rparr>)"
  have "cond_queue_add (Some a) v s = ret ?s"
    using holds_count[OF assms(1)] False m(1) by (simp add: cond_queue_add_def)
  moreover have "cond_inv n ?s (xs @ [v])"
    using m(2) assms(2,4) assms(5)[OF lt] by (auto simp: cond_inv_def signal_not_empty_def)
  ultimately show ?thesis by blast
qed

lemma cond_queue_get_ok:
  assumes "holds (cm s) xs n" and "cputs s = ctakes s @ xs"
    and "xs \<noteq> [] \<Longrightarrow> get_blocked s = 0 \<or> length xs \<le> Suc (get_woken s)"
    and "add_blocked s = [] \<or> n - int (length xs) \<le> int (length (add_woken s))"
  shows "\<exists>s' xs'. cond_queue_get s = ret s' \<and> cond_inv n s' xs'"
proof (cases xs)
  case Nil
  then have "cond_queue_get s = ret (s\<lparr>get_blocked := get_blocked s + 1\<rparr>)"
    using holds_count[OF assms(1)] by (simp add: cond_queue_get_def)
  moreover have "cond_inv n (s\<lparr>get_blocked := get_blocked s + 1\<rparr>) xs"
    using assms(1,2,4) Nil by (simp add: cond_inv_def)
  ultimately show ?thesis by blast
next
  case (Cons x ys)
  obtain m where m: "cond_get_body (cm s) = ret (x, m)" "holds m ys n"
    using cond_get_body_ok assms(1) unfolding Cons by blast
  let ?s = "signal_not_full (s\<lparr>cm := m, ctakes := ctakes s @ [x]\<rparr>)"
  have "cond_queue_get s = ret ?s"
    using holds_count[OF assms(1)] Cons m(1) by (simp add: cond_queue_get_def)
  moreover have "cond_inv n ?s ys"
    using m(2) assms Cons by (auto simp: cond_inv_def signal_not_full_def split: list.split)
  ultimately show ?thesis by blast
qed

lemma cond_step_inv:
  assumes "cond_step s s'" and i: "cond_inv n s xs"
  shows "\<exists>xs'. cond_inv n s' xs'"
  using assms(1)
proof (cases rule: cond_step.cases)
  case (Call_add a v)
  have "\<exists>s' xs'. cond_queue_add (Some a) v s = ret s' \<and> cond_inv n s' xs'"
    by (rule cond_queue_add_ok) (use i Call_add(2) in \<open>auto simp: cond_inv_def\<close>)
  then show ?thesis using Call_add(1) by auto
next
  case (Woken_add us v vs a)
  have "\<exists>s' xs'. cond_queue_add (Some a) v (s\<lparr>add_woken := us @ vs\<rparr>) = ret s' \<and> cond_inv n s' xs'"
    by (rule cond_queue_add_ok) (use i Woken_add(1,2) in \<open>auto simp: cond_inv_def\<close>)
  then show ?thesis using Woken_add(3) by auto
next
  case (Spurious_add us v vs)
  then show ?thesis using i by (intro exI[of _ xs]) (auto simp: cond_inv_def)
next
  case Call_get
  have "\<exists>s' xs'. cond_queue_get s = ret s' \<and> cond_inv n s' xs'"
    by (rule cond_queue_get_ok) (use i in \<open>auto simp: cond_inv_def\<close>)
  then show ?thesis using Call_get by auto
next
  case (Woken_get k)
  have "\<exists>s' xs'. cond_queue_get (s\<lparr>get_woken := k\<rparr>) = ret s' \<and> cond_inv n s' xs'"
    by (rule cond_queue_get_ok) (use i Woken_get(1) in \<open>auto simp: cond_inv_def\<close>)
  then show ?thesis using Woken_get(2) by auto
next
  case (Spurious_get k)
  then show ?thesis using i by (intro exI[of _ xs]) (auto simp: cond_inv_def)
qed

lemma cond_reachable_inv:
  assumes "cond_step\<^sup>*\<^sup>* (cond_start n) s" and "0 \<le> n"
  shows "\<exists>xs. cond_inv n s xs"
  using assms(1)
proof (induction rule: rtranclp_induct)
  case base
  have "cond_inv n (cond_start n) []"
    using queue_ok_empty[OF assms(2)] by (auto simp: cond_inv_def holds_def empty_queue_def)
  then show ?case by blast
qed (use cond_step_inv in blast)

text \<open>C20:
  The queue with condition variables is a bounded first-in first-out queue that loses no wake-up,
  in every state any threads can bring it to, spurious wake-ups included: the values taken are a
  prefix of those added and the rest is in the queue, at most \<open>n\<close>; every operation returns; when
  threads sleep for an item and there is one, or for a place and there is one, another has been
  woken to use it; so with a positive limit adders and getters never all sleep.
\<close>

theorem cond_queue_never_stuck:
  assumes "0 < n" and "cond_step\<^sup>*\<^sup>* (cond_start n) s"
  shows "\<exists>xs. cputs s = ctakes s @ xs \<and> q_count (que (cm s)) = int (length xs) \<and> int (length xs) \<le> n \<and>
    (\<forall>a v. a \<notin> dom (qnodes (cm s)) \<longrightarrow> (\<exists>s'. cond_queue_add (Some a) v s = ret s')) \<and>
    (\<exists>s'. cond_queue_get s = ret s') \<and>
    (0 < get_blocked s \<and> xs \<noteq> [] \<longrightarrow> 0 < get_woken s) \<and>
    (add_blocked s \<noteq> [] \<and> int (length xs) < n \<longrightarrow> add_woken s \<noteq> []) \<and>
    \<not> (0 < get_blocked s \<and> get_woken s = 0 \<and> add_blocked s \<noteq> [] \<and> add_woken s = [])"
proof -
  obtain xs where i: "cond_inv n s xs" using cond_reachable_inv[OF assms(2)] assms(1) by auto
  have "\<exists>s'. cond_queue_add (Some a) v s = ret s'" if "a \<notin> dom (qnodes (cm s))" for a v
  proof -
    have "\<exists>s' xs'. cond_queue_add (Some a) v s = ret s' \<and> cond_inv n s' xs'"
      by (rule cond_queue_add_ok) (use i that in \<open>auto simp: cond_inv_def\<close>)
    then show ?thesis by blast
  qed
  moreover have "\<exists>s'. cond_queue_get s = ret s'"
  proof -
    have "\<exists>s' xs'. cond_queue_get s = ret s' \<and> cond_inv n s' xs'"
      by (rule cond_queue_get_ok) (use i in \<open>auto simp: cond_inv_def\<close>)
    then show ?thesis by blast
  qed
  moreover have h: "holds (cm s) xs n" using i by (simp add: cond_inv_def)
  moreover have "0 < get_blocked s \<and> xs \<noteq> [] \<longrightarrow> 0 < get_woken s"
    using i by (cases xs) (auto simp: cond_inv_def)
  moreover have "add_blocked s \<noteq> [] \<and> int (length xs) < n \<longrightarrow> add_woken s \<noteq> []"
    using i by (cases "add_woken s") (auto simp: cond_inv_def)
  moreover have "\<not> (0 < get_blocked s \<and> get_woken s = 0 \<and> add_blocked s \<noteq> [] \<and> add_woken s = [])"
    using i assms(1) by (auto simp: cond_inv_def)
  moreover have "cputs s = ctakes s @ xs" using i by (simp add: cond_inv_def)
  ultimately show ?thesis using holds_count(1,3)[OF h] by (intro exI[of _ xs]) simp
qed

theorem cond_queue_never_stuck_witness:
  "\<exists>s. cond_step\<^sup>*\<^sup>* (cond_start 1) s \<and> get_blocked s = 1 \<and>
    \<not> (0 < get_blocked s \<and> get_woken s = 0 \<and> add_blocked s \<noteq> [] \<and> add_woken s = [])"
proof -
  let ?s = "(cond_start 1)\<lparr>get_blocked := 1\<rparr>"
  have "cond_step (cond_start 1) ?s"
    by (rule cond_step.Call_get) (simp add: cond_queue_get_def empty_queue_def)
  then have "cond_step\<^sup>*\<^sup>* (cond_start 1) ?s" by (rule r_into_rtranclp)
  with cond_queue_never_stuck[of 1 ?s] show ?thesis by fastforce
qed

subsection \<open>Semaphores\<close>

text \<open>
  Each empty place is counted by a semaphore or reserved by an adder, each value by a semaphore or
  reserved by a getter.
\<close>

definition sem_inv :: "nat \<Rightarrow> sem_sys \<Rightarrow> int list \<Rightarrow> bool" where
  "sem_inv n s xs \<longleftrightarrow> holds (sm s) xs (int n) \<and> sputs s = stakes s @ xs \<and>
     sem_emptiness s + length (adding s) + length xs = n \<and> sem_fullness s + getting s = length xs"

lemma sem_add_section_ok:
  assumes "holds (sm s) xs (int n)" and "length xs < n" and "a \<notin> dom (qnodes (sm s))"
  shows "\<exists>m. sem_add_section (Some a) v s = ret (s\<lparr>sm := m, sem_fullness := sem_fullness s + 1, sputs := sputs s @ [v]\<rparr>) \<and>
    holds m (xs @ [v]) (int n)"
proof -
  obtain as where as: "queue_ok (sm s) as xs" "q_max (que (sm s)) = int n" "dom (qnodes (sm s)) = set as"
    using assms(1) by (auto simp: holds_def)
  have lt: "int (length as) < q_max (que (sm s))" using assms(2) as(2) queue_ok_length[OF as(1)] by simp
  obtain m1 m2 where m: "new_node (Some a) v (sm s) = ret (a, m1)" "link_node a m1 = ret m2"
      "queue_ok (counted_in m2) (as @ [a]) (xs @ [v])" "q_max (que (counted_in m2)) = q_max (que (sm s))"
      "dom (qnodes (counted_in m2)) = insert a (dom (qnodes (sm s)))"
    using new_and_link[OF as(1) assms(3) lt, of v] by blast
  have "dom (qnodes (counted_in m2)) = set (as @ [a])" using m(5) as(3) by simp
  then have "holds (counted_in m2) (xs @ [v]) (int n)" unfolding holds_def using m(3,4) as(2) by auto
  then show ?thesis using m(1,2) by (intro exI[of _ "counted_in m2"]) (simp add: sem_add_section_def)
qed

lemma sem_get_section_ok:
  assumes "holds (sm s) (x # xs) (int n)"
  shows "\<exists>m. sem_get_section s = ret (s\<lparr>sm := m, sem_emptiness := sem_emptiness s + 1, stakes := stakes s @ [x]\<rparr>) \<and>
    holds m xs (int n)"
  using unlink_holds[OF assms] by (auto simp: sem_get_section_def)

lemma sem_enter_ok:
  assumes "sem_inv n s xs"
  shows "\<exists>s'. sem_add_enter v s = ret s' \<and> sem_inv n s' xs" "\<exists>s'. sem_get_enter s = ret s' \<and> sem_inv n s' xs"
  using assms holds_count[of "sm s" xs "int n"]
  by (auto simp: sem_add_enter_def sem_get_enter_def sem_inv_def Let_def holds_frame)

lemma sem_sections_ok:
  assumes "sem_inv n s xs"
  shows "adding s = us @ v # vs \<Longrightarrow> a \<notin> dom (qnodes (sm s)) \<Longrightarrow>
      \<exists>s'. sem_add_section (Some a) v (s\<lparr>adding := us @ vs\<rparr>) = ret s' \<and> sem_inv n s' (xs @ [v])"
    and "getting s = Suc k \<Longrightarrow> \<exists>s' ys. sem_get_section (s\<lparr>getting := k\<rparr>) = ret s' \<and> sem_inv n s' ys"
proof -
  assume "adding s = us @ v # vs" "a \<notin> dom (qnodes (sm s))"
  then show "\<exists>s'. sem_add_section (Some a) v (s\<lparr>adding := us @ vs\<rparr>) = ret s' \<and> sem_inv n s' (xs @ [v])"
    using assms sem_add_section_ok[of "s\<lparr>adding := us @ vs\<rparr>" xs n a v] by (auto simp: sem_inv_def)
next
  assume k: "getting s = Suc k"
  then obtain x ys where x: "xs = x # ys" using assms by (cases xs) (auto simp: sem_inv_def)
  then have "holds (sm (s\<lparr>getting := k\<rparr>)) (x # ys) (int n)" using assms by (simp add: sem_inv_def)
  from sem_get_section_ok[OF this] obtain m where m: "sem_get_section (s\<lparr>getting := k\<rparr>) =
      ret ((s\<lparr>getting := k\<rparr>)\<lparr>sm := m, sem_emptiness := sem_emptiness s + 1, stakes := stakes s @ [x]\<rparr>)"
      "holds m ys (int n)" by auto
  have "sem_inv n ((s\<lparr>getting := k\<rparr>)\<lparr>sm := m, sem_emptiness := sem_emptiness s + 1, stakes := stakes s @ [x]\<rparr>) ys"
    using assms k x m(2) by (simp add: sem_inv_def)
  with m(1) show "\<exists>s' ys. sem_get_section (s\<lparr>getting := k\<rparr>) = ret s' \<and> sem_inv n s' ys" by blast
qed

lemma sem_step_inv:
  assumes "sem_step s s'" and i: "sem_inv n s xs"
  shows "\<exists>xs'. sem_inv n s' xs'"
  using assms(1)
proof (cases rule: sem_step.cases)
  case (Add_enter v)
  then show ?thesis using sem_enter_ok(1)[OF i, of v] by auto
next
  case (Add_wait us v vs k)
  then show ?thesis using i by (intro exI[of _ xs]) (auto simp: sem_inv_def)
next
  case (Add us v vs a)
  then show ?thesis using sem_sections_ok(1)[OF i Add(1,2)] by auto
next
  case Get_enter
  then show ?thesis using sem_enter_ok(2)[OF i] by auto
next
  case (Get_wait k m)
  then show ?thesis using i by (intro exI[of _ xs]) (auto simp: sem_inv_def)
next
  case (Get k)
  then show ?thesis using sem_sections_ok(2)[OF i Get(1)] by auto
qed

lemma sem_reachable_inv: "sem_step\<^sup>*\<^sup>* (sem_start n) s \<Longrightarrow> \<exists>xs. sem_inv n s xs"
proof (induction rule: rtranclp_induct)
  case base
  have "sem_inv n (sem_start n) []"
    using queue_ok_empty[of "int n"] by (auto simp: sem_inv_def sem_start_def holds_def empty_queue_def)
  then show ?case by blast
qed (use sem_step_inv in blast)

text \<open>C21:
  The queue with semaphores is a bounded first-in first-out queue in every state any threads can
  bring it to: the values taken are a prefix of those added and the rest is in the queue; the
  semaphores and the threads that have passed them account for every place and every value, so a
  thread that has passed its semaphore always finds the place or the value it needs and nothing
  crashes, no assertion included; and with a positive limit waiting adders and waiting getters
  cannot both be kept out while nobody is inside.
\<close>

theorem sem_queue_accounts:
  assumes "0 < n" and "sem_step\<^sup>*\<^sup>* (sem_start n) s"
  shows "\<exists>xs. sputs s = stakes s @ xs \<and> q_count (que (sm s)) = int (length xs) \<and>
    sem_emptiness s + length (adding s) + length xs = n \<and> sem_fullness s + getting s = length xs \<and>
    (\<forall>v. \<exists>s'. sem_add_enter v s = ret s') \<and> (\<exists>s'. sem_get_enter s = ret s') \<and>
    (\<forall>us v vs a. adding s = us @ v # vs \<and> a \<notin> dom (qnodes (sm s)) \<longrightarrow>
      (\<exists>s'. sem_add_section (Some a) v (s\<lparr>adding := us @ vs\<rparr>) = ret s')) \<and>
    (\<forall>k. getting s = Suc k \<longrightarrow> (\<exists>s'. sem_get_section (s\<lparr>getting := k\<rparr>) = ret s')) \<and>
    \<not> (adding s = [] \<and> getting s = 0 \<and> sem_emptiness s = 0 \<and> sem_fullness s = 0)"
proof -
  obtain xs where i: "sem_inv n s xs" using sem_reachable_inv[OF assms(2)] by blast
  have "holds (sm s) xs (int n)" using i by (simp add: sem_inv_def)
  then have c: "q_count (que (sm s)) = int (length xs)" by (rule holds_count)
  have "\<exists>s'. sem_add_section (Some a) v (s\<lparr>adding := us @ vs\<rparr>) = ret s'"
    if "adding s = us @ v # vs" "a \<notin> dom (qnodes (sm s))" for us v vs a
    using sem_sections_ok(1)[OF i that] by blast
  moreover have "\<exists>s'. sem_get_section (s\<lparr>getting := k\<rparr>) = ret s'" if "getting s = Suc k" for k
    using sem_sections_ok(2)[OF i that] by blast
  moreover have "\<exists>s'. sem_add_enter v s = ret s'" for v using sem_enter_ok(1)[OF i] by blast
  moreover have "\<exists>s'. sem_get_enter s = ret s'" using sem_enter_ok(2)[OF i] by blast
  ultimately show ?thesis using i c assms(1)
    by (intro exI[of _ xs]) (auto simp: sem_inv_def)
qed

theorem sem_queue_accounts_witness:
  "\<exists>s. sem_step\<^sup>*\<^sup>* (sem_start 1) s \<and> add_waits s = [5] \<and>
    \<not> (adding s = [] \<and> getting s = 0 \<and> sem_emptiness s = 0 \<and> sem_fullness s = 0)"
proof -
  let ?s = "(sem_start 1)\<lparr>sm := try_add (sm (sem_start 1)), add_waits := [5]\<rparr>"
  have "sem_step (sem_start 1) ?s"
    by (rule sem_step.Add_enter[of 5]) (simp add: sem_add_enter_def sem_start_def empty_queue_def Let_def)
  then have "sem_step\<^sup>*\<^sup>* (sem_start 1) ?s" by (rule r_into_rtranclp)
  with sem_queue_accounts[of 1 ?s] show ?thesis by fastforce
qed

end
