(* ===== verification/QueueThreadsProps.thy ===== *)
theory QueueThreadsProps
  imports QueueThreads QueueProps
begin

section \<open>Properties of the programs around the queues\<close>

text \<open>
  With each kind of synchronisation the reader gets 0, 1, 2, ... and prints no error; without, it
  loses values and crashes.
\<close>

subsection \<open>The values in order\<close>

text \<open>The writer has added \<open>0, ..., i - 1\<close>.\<close>

definition counting :: "int list \<Rightarrow> int \<Rightarrow> bool" where
  "counting vs i \<longleftrightarrow> i = int (length vs) \<and> vs = map int [0..<length vs]"

lemma counting_simps [simp]: "counting [] 0" "counting vs i \<Longrightarrow> counting (vs @ [i]) (i + 1)"
  by (auto simp: counting_def)

lemma counting_last:
  assumes "counting (us @ ws) i" "us \<noteq> []"
  shows "last us = int (length us) - 1"
proof -
  have n: "length us - 1 < length (us @ ws)" using assms(2) by (cases us) auto
  have "last us = (us @ ws) ! (length us - 1)"
    using assms(2) by (simp add: last_conv_nth nth_append)
  also have "\<dots> = map int [0..<length (us @ ws)] ! (length us - 1)" using assms(1) by (metis counting_def)
  also have "\<dots> = int (length us - 1)" using n by (simp del: upt_Suc length_append)
  finally show ?thesis using assms(2) by (cases us) auto
qed

lemma counting_prefix: "counting (us @ ws) i \<Longrightarrow> us = map int [0..<length us] \<and> int (length us) \<le> i"
proof -
  assume "counting (us @ ws) i"
  then have eq: "us @ ws = map int [0..<length us + length ws]" "i = int (length us + length ws)"
    by (simp_all add: counting_def)
  from eq(1) have "take (length us) (us @ ws) = take (length us) (map int [0..<length us + length ws])" by simp
  then have "us = map int [0..<length us]" by (simp add: take_map)
  with eq(2) show ?thesis by simp
qed

subsection \<open>Mutex and spin lock\<close>

text \<open>
  The writer's value is its next; the reader expects the value after the last one it has read, and
  holds an unlinked node exactly when that is one behind the values unlinked.
\<close>

definition in_step :: "qsys program \<Rightarrow> bool" where
  "in_step p \<longleftrightarrow> (let s = p_sys p in
     counting (puts s) (w_i p) \<and> (\<forall>a v. pcs s 0 = Adding a v \<longrightarrow> v = w_i p) \<and> (\<forall>a v. pcs s 0 \<noteq> Got a v) \<and>
     (\<forall>a v. pcs s 1 \<noteq> Adding a v) \<and> r_errors p = [] \<and>
     (\<forall>a w. pcs s 1 = Got a w \<longrightarrow> takes s \<noteq> [] \<and> w = last (takes s)) \<and>
     r_expected p = int (length (takes s)) - (if pcs s 1 = Outside then 0 else 1))"

context locked_queue
begin

lemma program_steps:
  assumes "locked_program_step add_section get_section read_node p p'"
    and "(locked_step add_section get_section read_node)\<^sup>*\<^sup>* (qsys_start n) (p_sys p)" "in_step p" "0 \<le> n"
  shows "(locked_step add_section get_section read_node)\<^sup>*\<^sup>* (qsys_start n) (p_sys p') \<and> in_step p'"
  using assms(1)
proof (cases rule: locked_program_step.cases)
  case (Writer_calls s a m)
  then have "locked_step add_section get_section read_node s (p_sys p')" by (auto intro: locked_step.Begin)
  then show ?thesis using assms(2,3) Writer_calls by (auto simp: in_step_def Let_def)
next
  case (Writer_adds s a v ok m)
  then have "locked_step add_section get_section read_node s (p_sys p')"
    using locked_step.Add[of s 0 a v add_section ok m] by (auto simp: writer_added_def)
  then show ?thesis using assms(2,3) Writer_adds by (auto simp: in_step_def Let_def writer_added_def)
next
  case (Reader_none s m)
  then have "locked_step add_section get_section read_node s (p_sys p')"
    using locked_step.Empty[of s 1 get_section m] by auto
  then show ?thesis using assms(2,3) Reader_none by (auto simp: in_step_def Let_def)
next
  case (Reader_unlinks s a m x)
  then have step: "locked_step add_section get_section read_node s (p_sys p')"
    using locked_step.Get[of s 1 get_section a m x] by auto
  then show ?thesis using assms(2,3) Reader_unlinks by (auto simp: in_step_def Let_def)
next
  case (Reader_reads s a w v m)
  then have "locked_step add_section get_section read_node s (p_sys p')"
    using locked_step.Read[of s 1 a w read_node v m] by (auto simp: reader_got_def)
  moreover obtain xs m' where "puts s = takes s @ xs" "read_node a (qm s) = ret (w, m')"
    using reachable_promise[OF assms(2,4)] Reader_reads(2,3) unfolding locked_promise_def by blast
  moreover have "w = int (length (takes s)) - 1" if "takes s \<noteq> []" "w = last (takes s)" "puts s = takes s @ xs"
    using that assms(3) Reader_reads(2) counting_last[of "takes s" xs "w_i p"]
    by (auto simp: in_step_def Let_def)
  ultimately show ?thesis using assms(2,3) Reader_reads by (auto simp: in_step_def Let_def reader_got_def)
qed

lemma program_reachable:
  assumes "(locked_program_step add_section get_section read_node)\<^sup>*\<^sup>* (program_start (qsys_start n)) p" "0 \<le> n"
  shows "in_step p" and "\<exists>xs. puts (p_sys p) = takes (p_sys p) @ xs"
proof -
  have i: "(locked_step add_section get_section read_node)\<^sup>*\<^sup>* (qsys_start n) (p_sys p) \<and> in_step p"
    using assms(1)
  proof (induction rule: rtranclp_induct)
    case base
    show ?case by (simp add: in_step_def program_start_def)
  next
    case (step p p')
    then show ?case using program_steps[OF step.hyps(2) _ _ assms(2)] by blast
  qed
  then show "in_step p" by blast
  from i reachable_promise[OF _ assms(2)] show "\<exists>xs. puts (p_sys p) = takes (p_sys p) @ xs"
    unfolding locked_promise_def by blast
qed

end

subsection \<open>Condition variables\<close>

text \<open>One writer and one reader, each asleep, woken or outside, and the values as above.\<close>

definition cond_in_step :: "int \<Rightarrow> cond_sys program \<Rightarrow> bool" where
  "cond_in_step n p \<longleftrightarrow> (let s = p_sys p in
     (\<exists>xs. cond_inv n s xs) \<and> counting (cputs s) (w_i p) \<and> r_errors p = [] \<and> r_expected p = int (length (ctakes s)) \<and>
     set (add_blocked s @ add_woken s) \<subseteq> {w_i p} \<and> length (add_blocked s @ add_woken s) \<le> 1 \<and>
     get_blocked s + get_woken s \<le> 1)"

lemma cond_inv_counting:
  assumes "cond_inv n s xs" "counting (cputs s) i" "ctakes s \<noteq> []"
  shows "last (ctakes s) = int (length (ctakes s)) - 1"
  using assms counting_last[of "ctakes s" xs i] by (simp add: cond_inv_def)

lemma cond_add_effect:
  assumes "cond_queue_add (Some a) v s = ret s'" "add_blocked s = []" "add_woken s = []" "get_blocked s + get_woken s \<le> 1"
  shows "get_blocked s' + get_woken s' \<le> 1" "ctakes s' = ctakes s"
    "add_blocked s' = [v] \<and> add_woken s' = [] \<and> cputs s' = cputs s \<or>
     add_blocked s' = [] \<and> add_woken s' = [] \<and> cputs s' = cputs s @ [v]"
  using assms by (auto simp: cond_queue_add_def bindR_eq_ret signal_not_empty_def split: if_splits)

lemma cond_get_effect:
  assumes "cond_queue_get s = ret s'" "get_blocked s = 0" "get_woken s = 0" "length (add_blocked s @ add_woken s) \<le> 1"
  shows "set (add_blocked s' @ add_woken s') = set (add_blocked s @ add_woken s)"
    "length (add_blocked s' @ add_woken s') = length (add_blocked s @ add_woken s)" "cputs s' = cputs s" "get_woken s' = 0"
    "get_blocked s' = 1 \<and> ctakes s' = ctakes s \<or> get_blocked s' = 0 \<and> (\<exists>v. ctakes s' = ctakes s @ [v])"
  using assms by (cases "add_blocked s"; auto simp: cond_queue_get_def bindR_eq_ret signal_not_full_def split: if_splits)+

lemma cond_writer_ran:
  assumes "cond_in_step n p" and inv: "cond_inv n s' xs"
    and "get_blocked s' + get_woken s' \<le> 1" "ctakes s' = ctakes (p_sys p)"
    and "add_blocked s' = [w_i p] \<and> add_woken s' = [] \<and> cputs s' = cputs (p_sys p) \<or>
     add_blocked s' = [] \<and> add_woken s' = [] \<and> cputs s' = cputs (p_sys p) @ [w_i p]"
  shows "cond_in_step n (writer_ran s' p)"
  using assms by (auto simp: cond_in_step_def Let_def writer_ran_def writer_added_def)

lemma cond_reader_ran:
  assumes "cond_in_step n p" and inv: "cond_inv n s' xs"
    and "set (add_blocked s' @ add_woken s') = set (add_blocked (p_sys p) @ add_woken (p_sys p))"
    "length (add_blocked s' @ add_woken s') = length (add_blocked (p_sys p) @ add_woken (p_sys p))"
    "cputs s' = cputs (p_sys p)" "get_woken s' = 0"
    and got: "get_blocked s' = 1 \<and> ctakes s' = ctakes (p_sys p) \<or> get_blocked s' = 0 \<and> (\<exists>v. ctakes s' = ctakes (p_sys p) @ [v])"
  shows "cond_in_step n (reader_ran s' p)"
  using assms cond_inv_counting[OF inv, of "w_i p"]
  by (auto simp: cond_in_step_def Let_def reader_ran_def reader_got_def)

lemma cond_program_steps:
  assumes "cond_program p p'" "cond_in_step n p"
  shows "cond_in_step n p'"
proof -
  obtain xs where inv: "cond_inv n (p_sys p) xs" using assms(2) by (auto simp: cond_in_step_def Let_def)
  have facts: "length (add_blocked (p_sys p) @ add_woken (p_sys p)) \<le> 1" "get_blocked (p_sys p) + get_woken (p_sys p) \<le> 1"
    "set (add_blocked (p_sys p) @ add_woken (p_sys p)) \<subseteq> {w_i p}"
    using assms(2) by (simp_all add: cond_in_step_def Let_def)
  have keep: "\<exists>xs'. cond_inv n s' xs'" if "cond_step (p_sys p) s'" for s' using cond_step_inv[OF that inv] .
  from assms(1) show ?thesis
  proof (cases rule: cond_program.cases)
    case (Writer_calls s a s')
    have "cond_step (p_sys p) s'" using Writer_calls by (auto intro: cond_step.Call_add)
    from keep[OF this] obtain ys where "cond_inv n s' ys" by blast
    from cond_writer_ran[OF assms(2) this] cond_add_effect[OF Writer_calls(6)] facts
    show ?thesis using Writer_calls by simp
  next
    case (Writer_resumes s v a s')
    have "cond_step (p_sys p) s'" using Writer_resumes by (intro cond_step.Woken_add[of _ "[]" v "[]" a]) auto
    from keep[OF this] obtain ys where ys: "cond_inv n s' ys" by blast
    have "add_blocked s = []" "v = w_i p" using facts Writer_resumes by auto
    from cond_writer_ran[OF assms(2) ys] cond_add_effect[OF Writer_resumes(5)] this facts
    show ?thesis using Writer_resumes by simp
  next
    case (Writer_spurious s v)
    have "add_woken s = []" using facts Writer_spurious by auto
    then have "cond_step (p_sys p) (s\<lparr>add_blocked := [], add_woken := [v]\<rparr>)"
      using cond_step.Spurious_add[of s "[]" v "[]"] Writer_spurious by simp
    from keep[OF this] show ?thesis using assms(2) Writer_spurious \<open>add_woken s = []\<close>
      by (auto simp: cond_in_step_def Let_def)
  next
    case (Reader_calls s s')
    have "cond_step (p_sys p) s'" using Reader_calls by (auto intro: cond_step.Call_get)
    from keep[OF this] obtain ys where "cond_inv n s' ys" by blast
    from cond_reader_ran[OF assms(2) this] cond_get_effect[OF Reader_calls(5)] facts
    show ?thesis using Reader_calls by simp
  next
    case (Reader_resumes s s')
    have "cond_step (p_sys p) s'" using Reader_resumes by (auto intro: cond_step.Woken_get)
    from keep[OF this] obtain ys where ys: "cond_inv n s' ys" by blast
    have "get_blocked s = 0" using facts Reader_resumes by auto
    with cond_reader_ran[OF assms(2) ys] cond_get_effect[OF Reader_resumes(4)] facts
    show ?thesis using Reader_resumes by simp
  next
    case (Reader_spurious s)
    have "get_woken s = 0" using facts Reader_spurious by auto
    then have "cond_step (p_sys p) (s\<lparr>get_blocked := 0, get_woken := Suc 0\<rparr>)"
      using cond_step.Spurious_get[of s 0] Reader_spurious by simp
    from keep[OF this] show ?thesis using assms(2) Reader_spurious \<open>get_woken s = 0\<close>
      by (auto simp: cond_in_step_def Let_def)
  qed
qed

subsection \<open>Semaphores\<close>

definition sem_in_step :: "nat \<Rightarrow> sem_sys program \<Rightarrow> bool" where
  "sem_in_step n p \<longleftrightarrow> (let s = p_sys p in
     (\<exists>xs. sem_inv n s xs) \<and> counting (sputs s) (w_i p) \<and> r_errors p = [] \<and> r_expected p = int (length (stakes s)) \<and>
     set (add_waits s @ adding s) \<subseteq> {w_i p} \<and> length (add_waits s @ adding s) \<le> 1 \<and> get_waits s + getting s \<le> 1)"

lemma sem_add_effect:
  "sem_add_section (Some a) v s = ret s' \<Longrightarrow> sputs s' = sputs s @ [v] \<and> stakes s' = stakes s \<and>
     add_waits s' = add_waits s \<and> adding s' = adding s \<and> get_waits s' = get_waits s \<and> getting s' = getting s"
  by (auto simp: sem_add_section_def bindR_eq_ret)

lemma sem_get_effect:
  "sem_get_section s = ret s' \<Longrightarrow> sputs s' = sputs s \<and> (\<exists>v. stakes s' = stakes s @ [v]) \<and>
     add_waits s' = add_waits s \<and> adding s' = adding s \<and> get_waits s' = get_waits s \<and> getting s' = getting s"
  by (auto simp: sem_get_section_def bindR_eq_ret)

lemma sem_inv_counting:
  "sem_inv n s xs \<Longrightarrow> counting (sputs s) i \<Longrightarrow> stakes s \<noteq> [] \<Longrightarrow> last (stakes s) = int (length (stakes s)) - 1"
  using counting_last[of "stakes s" xs i] by (simp add: sem_inv_def)

lemma sem_program_steps:
  assumes "sem_program p p'" "sem_in_step n p"
  shows "sem_in_step n p'"
proof -
  obtain xs where inv: "sem_inv n (p_sys p) xs" using assms(2) by (auto simp: sem_in_step_def Let_def)
  have facts: "set (add_waits (p_sys p) @ adding (p_sys p)) \<subseteq> {w_i p}"
    "length (add_waits (p_sys p) @ adding (p_sys p)) \<le> 1" "get_waits (p_sys p) + getting (p_sys p) \<le> 1"
    using assms(2) by (simp_all add: sem_in_step_def Let_def)
  have keep: "\<exists>xs'. sem_inv n s' xs'" if "sem_step (p_sys p) s'" for s' using sem_step_inv[OF that inv] .
  from assms(1) show ?thesis
  proof (cases rule: sem_program.cases)
    case (Writer_calls s s')
    from keep[of s'] Writer_calls have "\<exists>xs'. sem_inv n s' xs'" by (auto intro: sem_step.Add_enter)
    then show ?thesis using assms(2) Writer_calls
      by (auto simp: sem_in_step_def Let_def sem_add_enter_def split: if_splits)
  next
    case (Writer_waits s v k)
    then have "sem_step (p_sys p) (s\<lparr>add_waits := [], adding := adding s @ [v], sem_emptiness := k\<rparr>)"
      using sem_step.Add_wait[of s "[]" v "[]" k] by simp
    moreover have "adding s = []" using facts Writer_waits by auto
    ultimately show ?thesis using keep assms(2) Writer_waits by (auto simp: sem_in_step_def Let_def)
  next
    case (Writer_adds s v a s')
    then have "sem_step (p_sys p) s'" by (intro sem_step.Add[of _ "[]" v "[]" a]) auto
    from keep[OF this] show ?thesis using assms(2) facts sem_add_effect[OF Writer_adds(5)] Writer_adds
      by (auto simp: sem_in_step_def Let_def writer_added_def)
  next
    case (Reader_calls s s')
    from keep[of s'] Reader_calls have "\<exists>xs'. sem_inv n s' xs'" by (auto intro: sem_step.Get_enter)
    then show ?thesis using assms(2) Reader_calls
      by (auto simp: sem_in_step_def Let_def sem_get_enter_def split: if_splits)
  next
    case (Reader_waits s k)
    then have "sem_step (p_sys p) (s\<lparr>get_waits := 0, getting := getting s + 1, sem_fullness := k\<rparr>)"
      using sem_step.Get_wait[of s 0 k] by simp
    moreover have "getting s = 0" using facts Reader_waits by auto
    ultimately show ?thesis using keep assms(2) Reader_waits by (auto simp: sem_in_step_def Let_def)
  next
    case (Reader_gets s s')
    then have "sem_step (p_sys p) s'" by (auto intro: sem_step.Get)
    from keep[OF this] obtain ys where ys: "sem_inv n s' ys" by blast
    show ?thesis using ys assms(2) facts sem_get_effect[OF Reader_gets(4)] Reader_gets
        sem_inv_counting[OF ys, of "w_i p"]
      by (auto simp: sem_in_step_def Let_def reader_got_def)
  qed
qed

subsection \<open>The property\<close>

lemma cond_program_reachable:
  assumes "cond_program\<^sup>*\<^sup>* (program_start (cond_start n)) p" "0 \<le> n"
  shows "cond_in_step n p"
  using assms(1)
proof (induction rule: rtranclp_induct)
  case base
  have "\<exists>xs. cond_inv n (cond_start n) xs" using cond_reachable_inv[OF _ assms(2)] by blast
  then show ?case by (simp add: cond_in_step_def program_start_def)
qed (use cond_program_steps in blast)

lemma sem_program_reachable:
  assumes "sem_program\<^sup>*\<^sup>* (program_start (sem_start n)) p"
  shows "sem_in_step n p"
  using assms
proof (induction rule: rtranclp_induct)
  case base
  have "\<exists>xs. sem_inv n (sem_start n) xs" using sem_reachable_inv by blast
  then show ?case by (simp add: sem_in_step_def program_start_def sem_start_def)
qed (use sem_program_steps in blast)

text \<open>C16:
  The reader of \<^verbatim>\<open>queue-threads.c\<close> never prints its error with any of the four synchronised queues:
  however the reader and the writer are scheduled, the values added are 0, 1, 2, ... and the reader
  has got a prefix of them, expecting the next.
\<close>

theorem reader_never_reports:
  assumes "0 \<le> n"
  shows "(mutex_program\<^sup>*\<^sup>* (program_start (qsys_start n)) p \<or> spin_program\<^sup>*\<^sup>* (program_start (qsys_start n)) p \<longrightarrow>
      r_errors p = [] \<and> puts (p_sys p) = map int [0..<nat (w_i p)] \<and> (\<exists>xs. puts (p_sys p) = takes (p_sys p) @ xs)) \<and>
    (cond_program\<^sup>*\<^sup>* (program_start (cond_start n)) c \<longrightarrow>
      r_errors c = [] \<and> cputs (p_sys c) = map int [0..<nat (w_i c)] \<and>
      ctakes (p_sys c) = map int [0..<nat (r_expected c)] \<and> r_expected c \<le> w_i c) \<and>
    (sem_program\<^sup>*\<^sup>* (program_start (sem_start (nat n))) e \<longrightarrow>
      r_errors e = [] \<and> sputs (p_sys e) = map int [0..<nat (w_i e)] \<and>
      stakes (p_sys e) = map int [0..<nat (r_expected e)] \<and> r_expected e \<le> w_i e)"
proof -
  have locked: "r_errors p = [] \<and> puts (p_sys p) = map int [0..<nat (w_i p)]" if "in_step p"
    using that by (simp add: in_step_def Let_def counting_def)
  have cond: "r_errors c = [] \<and> cputs (p_sys c) = map int [0..<nat (w_i c)] \<and>
      ctakes (p_sys c) = map int [0..<nat (r_expected c)] \<and> r_expected c \<le> w_i c" if "cond_in_step n c"
    using that counting_prefix[of "ctakes (p_sys c)" _ "w_i c"] by (auto simp: cond_in_step_def Let_def cond_inv_def counting_def)
  have sem: "r_errors e = [] \<and> sputs (p_sys e) = map int [0..<nat (w_i e)] \<and>
      stakes (p_sys e) = map int [0..<nat (r_expected e)] \<and> r_expected e \<le> w_i e" if "sem_in_step (nat n) e"
    using that counting_prefix[of "stakes (p_sys e)" _ "w_i e"] by (auto simp: sem_in_step_def Let_def sem_inv_def counting_def)
  show ?thesis
    using locked mutex_sections.program_reachable[OF _ assms, of p] spin_sections.program_reachable[OF _ assms, of p]
      cond[OF cond_program_reachable[OF _ assms]] sem[OF sem_program_reachable]
    by (auto simp: mutex_program_def spin_program_def)
qed

theorem reader_never_reports_witness:
  "\<exists>c. cond_program\<^sup>*\<^sup>* (program_start (cond_start 2)) c \<and> w_i c = 1 \<and> cputs (p_sys c) = [0] \<and> r_errors c = []"
proof -
  let ?p = "program_start (cond_start 2)"
  obtain s' where s': "cond_queue_add (Some 4) (w_i ?p) (cond_start 2) = ret s'" "add_blocked s' = []"
    by (simp add: cond_queue_add_def cond_add_body_def new_node_def link_node_def try_add_def empty_queue_def
        program_start_def signal_not_empty_def counted_in_def)
  have "cond_program ?p (writer_ran s' ?p)"
    by (rule cond_program.Writer_calls[of _ _ 4]) (use s' in \<open>simp_all add: program_start_def empty_queue_def\<close>)
  then have "cond_program\<^sup>*\<^sup>* ?p (writer_ran s' ?p)" by (rule r_into_rtranclp)
  moreover from reader_never_reports[of 2 "program_start (qsys_start 2)" "writer_ran s' ?p" "program_start (sem_start 2)"] this
  have "r_errors (writer_ran s' ?p) = [] \<and> cputs (p_sys (writer_ran s' ?p)) = map int [0..<nat (w_i (writer_ran s' ?p))]" by simp
  moreover have "w_i (writer_ran s' ?p) = 1" using s'(2) by (simp add: writer_ran_def writer_added_def program_start_def)
  ultimately show ?thesis by (intro exI[of _ "writer_ran s' ?p"]) simp
qed

subsection \<open>The race\<close>

text \<open>
  What the assertions rest on: the count stays between 0 and the limit, and what a thread has found
  about it stays true, for the other thread moves it the other way.
\<close>

definition race_inv :: "int \<Rightarrow> race \<Rightarrow> bool" where
  "race_inv n s \<longleftrightarrow> (let q = que (r_mem s) in
     q_max q = n \<and> 0 \<le> q_count q \<and> q_count q \<le> n \<and>
     (r_writer s \<notin> {A_call, A_test} \<longrightarrow> q_count q < n) \<and>
     (\<forall>c. r_writer s = A_store c \<longrightarrow> 0 \<le> c \<and> c < n) \<and>
     (r_reader s \<notin> {G_call, G_test} \<longrightarrow> 0 < q_count q) \<and>
     (\<forall>c v. r_reader s = G_store c v \<longrightarrow> 0 < c \<and> c \<le> n))"

lemma race_inv_start: "0 \<le> n \<Longrightarrow> race_inv n (p_sys (race_start n))"
  by (simp add: race_inv_def race_start_def program_start_def empty_queue_def)

text \<open>The only crashes are those of a missing and of a freed node.\<close>

definition race_ok :: "int \<Rightarrow> race program run \<Rightarrow> bool" where
  "race_ok n m \<longleftrightarrow> m = crashed NullDeref \<or> m = crashed UseAfterFree \<or> (\<exists>p. m = ret p \<and> race_inv n (p_sys p))"

lemma race_ok_ret [simp]: "race_ok n (ret p) \<longleftrightarrow> race_inv n (p_sys p)"
  by (simp add: race_ok_def)

lemma race_ok_deref: "(\<And>x. race_ok n (f x)) \<Longrightarrow> race_ok n (bindR (deref h p) f)"
  by (auto simp: race_ok_def deref_def split: option.split)

lemma race_ok_bind: "race_ok n m \<Longrightarrow> (\<And>p. race_inv n (p_sys p) \<Longrightarrow> race_ok n (f p)) \<Longrightarrow> race_ok n (bindR m f)"
  unfolding race_ok_def [of n m] by (elim disjE exE conjE) (simp_all add: race_ok_def)

lemma writer_step_ok: "race_inv n (p_sys p) \<Longrightarrow> race_ok n (writer_step a p)"
  by (cases "r_writer (p_sys p)")
    (auto simp: writer_step_def race_inv_def Let_def writer_at_def set_que_def writer_added_def new_node_def intro!: race_ok_deref)

lemma reader_step_ok: "race_inv n (p_sys p) \<Longrightarrow> race_ok n (reader_step p)"
  by (cases "r_reader (p_sys p)")
    (auto simp: reader_step_def race_inv_def Let_def reader_at_def set_que_def reader_got_def free_node_def intro!: race_ok_deref)

lemma race_run_ok: "race_inv n (p_sys p) \<Longrightarrow> race_ok n (race_run ts p)"
proof (induction ts arbitrary: p)
  case (Cons t ts)
  then show ?case
    by (cases t) (auto intro!: race_ok_bind writer_step_ok reader_step_ok)
qed simp

lemma race_okD:
  assumes "race_ok n m"
  shows "m \<noteq> crashed AssertFail" and "m = ret p \<Longrightarrow> race_inv n (p_sys p)"
proof -
  have "crashed NullDeref \<noteq> (crashed AssertFail :: race program run)" "crashed UseAfterFree \<noteq> (crashed AssertFail :: race program run)"
    by (simp_all add: crashed_def)
  with assms show "m \<noteq> crashed AssertFail" "m = ret p \<Longrightarrow> race_inv n (p_sys p)"
    unfolding race_ok_def by auto
qed

text \<open>
  Three schedules: the reader has loaded the next pointer of the only node when the writer links
  another behind it; the same, and the reader goes on; the writer has found the queue not empty when
  the reader takes and frees its last node.
\<close>

definition lost_update :: "turn list" where
  "lost_update = replicate 8 (Writer 0) @ replicate 5 Reader @ replicate 8 (Writer 1) @ replicate 4 Reader"

definition lost_value :: "turn list" where
  "lost_value = lost_update @ replicate 8 (Writer 2) @ replicate 9 Reader"

definition missing_node :: "turn list" where
  "missing_node = lost_update @ replicate 4 Reader"

definition freed_node :: "turn list" where
  "freed_node = replicate 8 (Writer 0) @ replicate 4 (Writer 1) @ replicate 9 Reader @ [Writer 1]"

lemmas race_simps = writer_step_def reader_step_def writer_at_def reader_at_def set_que_def new_node_def
  free_node_def writer_added_def reader_got_def race_start_def program_start_def empty_queue_def eval_nat_numeral

lemma lost_value_run: "\<exists>p. race_run lost_value (race_start 10) = ret p \<and> r_errors p = [(2, 1)]"
  by (simp add: lost_value_def lost_update_def race_simps)

lemma missing_node_run: "race_run missing_node (race_start 10) = crashed NullDeref"
  by (simp add: missing_node_def lost_update_def race_simps)

lemma freed_node_run: "race_run freed_node (race_start 10) = crashed UseAfterFree"
  by (simp add: freed_node_def race_simps)

text \<open>C17:
  Without synchronisation the queue of \<^verbatim>\<open>2/2.1\<close> breaks for one writer and one reader: there are
  schedules in which the reader prints its error because a value was lost (it gets 2 where it expects
  1), in which it follows a missing node although the count says there is one, and in which the
  writer links its node behind one that was freed. Yet its assertions on the count never fail, under any
  schedule, for each thread only makes true what the other has tested.
\<close>

theorem unsynchronised_queue_races:
  "(\<exists>ts p. race_run ts (race_start 10) = ret p \<and> r_errors p = [(2, 1)]) \<and>
   (\<exists>ts. race_run ts (race_start 10) = crashed NullDeref) \<and>
   (\<exists>ts. race_run ts (race_start 10) = crashed UseAfterFree) \<and>
   (\<forall>n ts. 0 \<le> n \<longrightarrow> race_run ts (race_start n) \<noteq> crashed AssertFail \<and>
     (\<forall>p. race_run ts (race_start n) = ret p \<longrightarrow>
       0 \<le> q_count (que (r_mem (p_sys p))) \<and> q_count (que (r_mem (p_sys p))) \<le> n))"
proof -
  have ok: "race_ok n (race_run ts (race_start n))" if "0 \<le> n" for n ts
    by (rule race_run_ok[OF race_inv_start[OF that]])
  have bounds: "0 \<le> q_count (que (r_mem s)) \<and> q_count (que (r_mem s)) \<le> n" if "race_inv n s" for n s
    using that by (simp add: race_inv_def Let_def)
  show ?thesis
  proof (intro conjI allI impI)
    fix n ts p
    assume "0 \<le> (n :: int)"
    from race_okD[OF ok[OF this, of ts]] show "race_run ts (race_start n) \<noteq> crashed AssertFail" by blast
    assume "race_run ts (race_start n) = ret p"
    from bounds[OF race_okD(2)[OF ok[OF \<open>0 \<le> n\<close>] this]]
    show "0 \<le> q_count (que (r_mem (p_sys p)))" "q_count (que (r_mem (p_sys p))) \<le> n" by simp_all
  qed (use lost_value_run missing_node_run freed_node_run in blast)+
qed

lemma unsynchronised_queue_races_witness: "race_run lost_update (race_start 10) \<noteq> crashed AssertFail"
  using unsynchronised_queue_races by simp

end
