(* ===== verification/QueueLife.thy ===== *)
theory QueueLife
  imports Queue
begin

section \<open>Setting up and taking down the queues\<close>

text \<open>
  \<open>init_mutex\<close>, \<open>init_spin_lock\<close>, \<open>init_sem\<close> and \<open>queue_destroy\<close> of the four synchronised queues, the
  \<open>main\<close> functions of \<^verbatim>\<open>queue-threads.c\<close>, and \<^verbatim>\<open>queue-example.c\<close>. Each call that can fail has its
  outcome as an argument.
\<close>

datatype sync = Mutex_full | Mutex | Spinlock | Cond_not_empty | Cond_not_full | Sem_fullness | Sem_emptiness

subsection \<open>The locks\<close>

text \<open>
  The initialised objects, in order. A failed initialisation is printed and the program goes on;
  \<open>fine\<close> tells which ones succeed.
\<close>

definition mutex_init :: "(sync \<Rightarrow> bool) \<Rightarrow> sync list" where
  "mutex_init fine = filter fine [Mutex_full]"

definition cond_init :: "(sync \<Rightarrow> bool) \<Rightarrow> sync list" where
  "cond_init fine = filter fine [Cond_not_empty, Cond_not_full, Mutex]"

definition sem_init :: "(sync \<Rightarrow> bool) \<Rightarrow> sync list" where
  "sem_init fine = filter fine [Sem_fullness, Sem_emptiness, Mutex_full]"

text \<open>\<open>init_spin_lock\<close> returns no value when it succeeds: its caller finds \<open>leftover\<close>.\<close>

definition init_spin_lock :: "(sync \<Rightarrow> bool) \<Rightarrow> int \<Rightarrow> int \<times> sync list" where
  "init_spin_lock fine leftover = (if \<not> fine Spinlock then (-1, []) else (leftover, [Spinlock]))"

subsection \<open>queue\_init and queue\_destroy\<close>

text \<open>The four files repeat the \<open>queue_init\<close> of \<^verbatim>\<open>2/2.1\<close>: it does not touch the locks.\<close>

definition mutex_queue_init :: "bool \<Rightarrow> bool \<Rightarrow> int \<Rightarrow> qmem run" where
  "mutex_queue_init alloc monitor n = queue_init alloc monitor n"

definition spin_queue_init :: "bool \<Rightarrow> bool \<Rightarrow> int \<Rightarrow> qmem run" where
  "spin_queue_init alloc monitor n = queue_init alloc monitor n"

definition cond_queue_init :: "bool \<Rightarrow> bool \<Rightarrow> int \<Rightarrow> qmem run" where
  "cond_queue_init alloc monitor n = queue_init alloc monitor n"

definition sem_queue_init :: "bool \<Rightarrow> bool \<Rightarrow> int \<Rightarrow> qmem run" where
  "sem_queue_init alloc monitor n = queue_init alloc monitor n"

text \<open>The nodes left allocated and the objects left initialised when the queue has been freed.\<close>

definition mutex_queue_destroy :: "sync list \<Rightarrow> qmem \<Rightarrow> ((addr \<rightharpoonup> qnode) \<times> sync list) run" where
  "mutex_queue_destroy os m = bindR (free_nodes (qnodes m) (q_first (que m))) (\<lambda>h. ret (h, removeAll Mutex_full os))"

definition spin_queue_destroy :: "sync list \<Rightarrow> qmem \<Rightarrow> ((addr \<rightharpoonup> qnode) \<times> sync list) run" where
  "spin_queue_destroy os m = bindR (free_nodes (qnodes m) (q_first (que m))) (\<lambda>h. ret (h, removeAll Spinlock os))"

definition cond_queue_destroy :: "sync list \<Rightarrow> qmem \<Rightarrow> ((addr \<rightharpoonup> qnode) \<times> sync list) run" where
  "cond_queue_destroy os m = bindR (free_nodes (qnodes m) (q_first (que m)))
     (\<lambda>h. ret (h, removeAll Cond_not_empty (removeAll Cond_not_full (removeAll Mutex os))))"

definition sem_queue_destroy :: "sync list \<Rightarrow> qmem \<Rightarrow> ((addr \<rightharpoonup> qnode) \<times> sync list) run" where
  "sem_queue_destroy os m = bindR (free_nodes (qnodes m) (q_first (que m)))
     (\<lambda>h. ret (h, removeAll Sem_fullness (removeAll Sem_emptiness (removeAll Mutex_full os))))"

subsection \<open>main\<close>

text \<open>
  \<open>main\<close> either returns, which ends the process with whatever threads it has started, or ends only its own
  thread with \<open>pthread_exit\<close>; the calls behind that one are never reached.
\<close>

datatype role = ReaderT | WriterT

datatype main_end = Returned int | Thread_exit

record main_state =
  main_end :: main_end
  started :: "role list"
  synced :: "sync list"
  main_mem :: qmem

definition start_threads :: "role list \<Rightarrow> (role \<Rightarrow> bool) \<Rightarrow> sync list \<Rightarrow> qmem \<Rightarrow> main_state" where
  "start_threads roles created os m =
     (let up = takeWhile created roles in
      \<lparr>main_end = if up = roles then Thread_exit else Returned (-1), started = up, synced = os, main_mem = m\<rparr>)"

definition plain_main :: "bool \<Rightarrow> bool \<Rightarrow> (role \<Rightarrow> bool) \<Rightarrow> main_state run" where
  "plain_main alloc monitor created = bindR (queue_init alloc monitor 1000000) (\<lambda>m.
     ret (start_threads [WriterT, ReaderT] created [] m))"

definition mutex_main :: "bool \<Rightarrow> bool \<Rightarrow> (role \<Rightarrow> bool) \<Rightarrow> main_state run" where
  "mutex_main alloc monitor created = bindR (mutex_queue_init alloc monitor 1000000) (\<lambda>m.
     ret (start_threads [ReaderT, WriterT] created [] m))"

definition spin_main :: "bool \<Rightarrow> bool \<Rightarrow> (sync \<Rightarrow> bool) \<Rightarrow> int \<Rightarrow> (role \<Rightarrow> bool) \<Rightarrow> main_state run" where
  "spin_main alloc monitor fine leftover created = bindR (spin_queue_init alloc monitor 1000000) (\<lambda>m.
     let (rc, os) = init_spin_lock fine leftover in
     if rc \<noteq> 0 then ret \<lparr>main_end = Returned 1, started = [], synced = os, main_mem = m\<rparr>
     else ret (start_threads [ReaderT, WriterT] created os m))"

definition cond_main :: "bool \<Rightarrow> bool \<Rightarrow> (sync \<Rightarrow> bool) \<Rightarrow> (role \<Rightarrow> bool) \<Rightarrow> main_state run" where
  "cond_main alloc monitor fine created = bindR (cond_queue_init alloc monitor 1000000) (\<lambda>m.
     ret (start_threads [ReaderT, WriterT] created (cond_init fine) m))"

definition sem_main :: "bool \<Rightarrow> bool \<Rightarrow> (sync \<Rightarrow> bool) \<Rightarrow> (role \<Rightarrow> bool) \<Rightarrow> main_state run" where
  "sem_main alloc monitor fine created = bindR (sem_queue_init alloc monitor 1000000) (\<lambda>m.
     ret (start_threads [ReaderT, WriterT] created (sem_init fine) m))"

subsection \<open>queue-example.c\<close>

text \<open>
  Ten values into a queue for a hundred, then twelve attempts to get one. The lines printed by the
  two loops, with the value -1 where nothing was got, and the state after them; \<open>mc\<close> is what
  \<open>malloc\<close> returns in each iteration.
\<close>

definition example_add :: "(nat \<Rightarrow> ptr) \<Rightarrow> nat \<Rightarrow> (bool \<times> int) list \<times> qmem \<Rightarrow> ((bool \<times> int) list \<times> qmem) run" where
  "example_add mc i s = bindR (queue_add (mc i) (int i) (snd s)) (\<lambda>(ok, m). ret (fst s @ [(ok, int i)], m))"

definition example_get :: "nat \<Rightarrow> (bool \<times> int) list \<times> qmem \<Rightarrow> ((bool \<times> int) list \<times> qmem) run" where
  "example_get i s = bindR (queue_get (snd s)) (\<lambda>(v, m).
     ret (fst s @ [case v of None \<Rightarrow> (False, -1) | Some x \<Rightarrow> (True, x)], m))"

definition queue_example :: "bool \<Rightarrow> bool \<Rightarrow> (nat \<Rightarrow> ptr) \<Rightarrow> ((bool \<times> int) list \<times> (addr \<rightharpoonup> qnode)) run" where
  "queue_example alloc monitor mc = bindR (queue_init alloc monitor 100) (\<lambda>m.
     bindR (forR (example_add mc) [0..<10] ([], m)) (\<lambda>s.
     bindR (forR example_get [0..<12] s) (\<lambda>(out, m).
     bindR (queue_destroy m) (\<lambda>h. ret (out, h)))))"

end
