(* ===== verification/QueueLifeProps.thy ===== *)
theory QueueLifeProps
  imports QueueLife QueueProps
begin

section \<open>Properties of setting up and taking down the queues\<close>

text \<open>
  What each \<open>queue_destroy\<close> leaves, how each \<open>main\<close> ends, and what the example prints.
\<close>

subsection \<open>Destroying\<close>

lemma destroys_free_all:
  assumes "holds m xs n"
  shows "mutex_queue_destroy (mutex_init fine) m = ret (Map.empty, [])"
    "cond_queue_destroy (cond_init fine) m = ret (Map.empty, [])"
    "sem_queue_destroy (sem_init fine) m = ret (Map.empty, [])"
    "spin_queue_destroy (snd (init_spin_lock fine leftover)) m = ret (Map.empty, [])"
proof -
  have "free_nodes (qnodes m) (q_first (que m)) = ret Map.empty"
    using destroy_frees_all[OF assms] by (simp add: queue_destroy_def)
  then show "mutex_queue_destroy (mutex_init fine) m = ret (Map.empty, [])"
    "cond_queue_destroy (cond_init fine) m = ret (Map.empty, [])"
    "sem_queue_destroy (sem_init fine) m = ret (Map.empty, [])"
    "spin_queue_destroy (snd (init_spin_lock fine leftover)) m = ret (Map.empty, [])"
    by (simp_all add: mutex_queue_destroy_def cond_queue_destroy_def sem_queue_destroy_def spin_queue_destroy_def
        mutex_init_def cond_init_def sem_init_def init_spin_lock_def)
qed

subsection \<open>The example\<close>

lemma example_adds:
  assumes "inj a"
  shows "\<exists>s. forR (example_add (\<lambda>i. Some (a i))) [0..<10] ([], empty_queue 100) = ret s \<and>
    fst s = map (\<lambda>i. (True, int i)) [0..<10] \<and> holds (snd s) (map int [0..<10]) 100"
proof -
  let ?I = "\<lambda>k s. fst s = map (\<lambda>i. (True, int i)) [0..<k] \<and> holds (snd s) (map int [0..<k]) 100 \<and>
    (\<forall>i\<ge>k. unused_addr (snd s) (a i))"
  have "\<exists>s. forR (example_add (\<lambda>i. Some (a i))) [0..<10] ([], empty_queue 100) = ret s \<and> ?I (length [0..<10]) s"
  proof (rule forR_invariant[where I = ?I])
    show "?I 0 ([], empty_queue 100)"
      using queue_ok_empty[of 100] by (auto simp: holds_def empty_queue_def unused_addr_def)
  next
    fix k :: nat and s :: "(bool \<times> int) list \<times> qmem"
    assume k: "k < length [0..<10 :: nat]" and I: "?I k s"
    then obtain m where "queue_add (Some (a k)) (int k) (snd s) = ret (True, m)" "holds m (map int [0..<k] @ [int k]) 100"
      "\<forall>b. b \<noteq> a k \<longrightarrow> unused_addr (snd s) b \<longrightarrow> unused_addr m b"
      using plain.add_room[of "snd s" "map int [0..<k]" 100 "a k" "int k"] by auto
    moreover have "\<forall>i\<ge>Suc k. a i \<noteq> a k" using injD[OF assms] by fastforce
    ultimately show "\<exists>s'. example_add (\<lambda>i. Some (a i)) ([0..<10] ! k) s = ret s' \<and> ?I (Suc k) s'"
      using k I by (auto simp: example_add_def)
  qed
  then show ?thesis by auto
qed

lemma example_gets:
  assumes "holds (snd s) (map int [0..<10]) 100"
  shows "\<exists>s'. forR example_get [0..<12] s = ret s' \<and>
    fst s' = fst s @ map (\<lambda>i. (True, int i)) [0..<10] @ [(False, -1), (False, -1)] \<and> holds (snd s') [] 100"
proof -
  let ?out = "map (\<lambda>i. (True, int i)) [0..<10] @ [(False, -1), (False, -1)]"
  let ?I = "\<lambda>k s'. fst s' = fst s @ take k ?out \<and> holds (snd s') (drop k (map int [0..<10])) 100"
  have "\<exists>s'. forR example_get [0..<12] s = ret s' \<and> ?I (length [0..<12]) s'"
  proof (rule forR_invariant[where I = ?I])
    show "?I 0 s" using assms by simp
  next
    fix k :: nat and s'
    assume k: "k < length [0..<12 :: nat]" and I: "?I k s'"
    show "\<exists>t. example_get ([0..<12] ! k) s' = ret t \<and> ?I (Suc k) t"
    proof (cases "k < 10")
      case True
      then have d: "drop k (map int [0..<10]) = int k # drop (Suc k) (map int [0..<10])"
        by (simp add: Cons_nth_drop_Suc[symmetric])
      then obtain m where "queue_get (snd s') = ret (Some (int k), m)" "holds m (drop (Suc k) (map int [0..<10])) 100"
        using plain.get_some[of "snd s'" "int k" "drop (Suc k) (map int [0..<10])" 100] I by auto
      then show ?thesis using I True by (simp add: example_get_def take_Suc_conv_app_nth nth_append)
    next
      case False
      then obtain m where "queue_get (snd s') = ret (None, m)" "holds m [] 100"
        using plain.get_none[of "snd s'" 100] I by auto
      moreover have "take (Suc k) ?out = take k ?out @ [(False, -1)]"
        using False k by (cases "k = 10"; cases "k = 11") (simp_all add: take_Suc_conv_app_nth nth_append)
      ultimately show ?thesis using I False by (simp add: example_get_def)
    qed
  qed
  then show ?thesis by auto
qed

text \<open>The life of the queue programs. The example prints ten accepted values, gets them back in order,
  fails twice with -1 and leaves no node allocated. Every \<open>queue_destroy\<close> gives back all nodes and every
  lock its program has initialised. A program runs reader and writer exactly when it can create both
  (and otherwise ends with -1); but the program with the mutex runs them without ever
  initialising it, and the one with the spin lock only when the register that \<open>init_spin_lock\<close> leaves
  unset happens to hold 0.
\<close>

theorem queue_programs_life:
  "(inj a \<longrightarrow> queue_example True True (\<lambda>i. Some (a i)) =
      ret (map (\<lambda>i. (True, int i)) [0..<10] @ map (\<lambda>i. (True, int i)) [0..<10] @ [(False, -1), (False, -1)], Map.empty)) \<and>
   (holds m xs n \<longrightarrow> mutex_queue_destroy (mutex_init fine) m = ret (Map.empty, []) \<and>
      cond_queue_destroy (cond_init fine) m = ret (Map.empty, []) \<and>
      sem_queue_destroy (sem_init fine) m = ret (Map.empty, []) \<and>
      spin_queue_destroy (snd (init_spin_lock fine leftover)) m = ret (Map.empty, [])) \<and>
   (\<exists>p mu sp c se. plain_main True True created = ret p \<and> mutex_main True True created = ret mu \<and>
      spin_main True True fine leftover created = ret sp \<and> cond_main True True fine created = ret c \<and>
      sem_main True True fine created = ret se \<and>
      (\<forall>s \<in> {p, mu, c, se}. main_end s = (if created ReaderT \<and> created WriterT then Thread_exit else Returned (-1)) \<and>
         (main_end s = Thread_exit \<longrightarrow> set (started s) = {ReaderT, WriterT})) \<and>
      synced mu = [] \<and> synced c = cond_init fine \<and> synced se = sem_init fine \<and>
      (main_end sp = Thread_exit \<longleftrightarrow> fine Spinlock \<and> leftover = 0 \<and> created ReaderT \<and> created WriterT))"
proof (intro conjI impI)
  assume "inj a"
  from example_adds[OF this] obtain s where s: "forR (example_add (\<lambda>i. Some (a i))) [0..<10] ([], empty_queue 100) = ret s"
    "fst s = map (\<lambda>i. (True, int i)) [0..<10]" "holds (snd s) (map int [0..<10]) 100" by blast
  from example_gets[OF s(3)] obtain s' where s': "forR example_get [0..<12] s = ret s'"
    "fst s' = fst s @ map (\<lambda>i. (True, int i)) [0..<10] @ [(False, -1), (False, -1)]" "holds (snd s') [] 100" by blast
  have "queue_init True True 100 = ret (empty_queue 100)" by (simp add: queue_init_def empty_queue_def)
  then show "queue_example True True (\<lambda>i. Some (a i)) =
      ret (map (\<lambda>i. (True, int i)) [0..<10] @ map (\<lambda>i. (True, int i)) [0..<10] @ [(False, -1), (False, -1)], Map.empty)"
    using s s' destroy_frees_all[OF s'(3)] by (simp add: queue_example_def case_prod_unfold)
qed (use destroys_free_all in \<open>auto simp: plain_main_def mutex_main_def spin_main_def cond_main_def sem_main_def
  start_threads_def init_spin_lock_def mutex_queue_init_def
  spin_queue_init_def cond_queue_init_def sem_queue_init_def queue_init_def\<close>)

theorem queue_programs_life_witness:
  "queue_example True True (\<lambda>i. Some (2 * i)) =
     ret (map (\<lambda>i. (True, int i)) [0..<10] @ map (\<lambda>i. (True, int i)) [0..<10] @ [(False, -1), (False, -1)], Map.empty) \<and>
   mutex_queue_destroy [Mutex_full] (empty_queue 3) = ret (Map.empty, [])"
proof -
  have "inj (\<lambda>i :: nat. 2 * i)" by (simp add: inj_on_def)
  moreover have "holds (empty_queue 3) [] 3" using queue_ok_empty[of 3] by (auto simp: holds_def empty_queue_def)
  moreover have "mutex_init (\<lambda>_. True) = [Mutex_full]" by (simp add: mutex_init_def)
  ultimately show ?thesis
    using queue_programs_life[of "\<lambda>i. 2 * i" "empty_queue 3" "[]" 3 "\<lambda>_. True" 0 "\<lambda>_. True"] by simp
qed

end
