(* ===== verification/Mythread.thy ===== *)
theory Mythread
  imports Prelude
begin

section \<open>Threads by clone\<close>

text \<open>
  \<^verbatim>\<open>1/1.6\<close>: a thread is a \<open>clone\<close> on a mapped stack; the struct that describes it lies at the top of
  that stack, and creation and joining communicate by two flags in it. What the system calls do is
  an argument: \<open>None\<close> when a call succeeds, and otherwise its error number.
\<close>

definition PAGE :: nat where
  "PAGE = 4096"

definition SIZE_STACK :: nat where
  "SIZE_STACK = PAGE * 8"

definition EXC_CREATE_CLONE :: int where
  "EXC_CREATE_CLONE = 1"

definition SUCCESSFUL :: int where
  "SUCCESSFUL = 0"

definition EBADF :: int where
  "EBADF = 9"

record my_thread_struct =
  mt_id :: int
  start_routine :: "int \<Rightarrow> ptr"
  mt_arg :: int
  ret_val :: ptr
  mt_stack :: addr
  joined :: bool
  exited :: bool

record os_calls =
  open_err :: "int option"
  truncate_err :: "int option"
  resize_err :: "int option"
  mmap_err :: "int option"
  close_err :: "int option"
  mprotect_err :: "int option"
  clone_err :: "int option"
  old_size :: nat
  mmap_at :: addr

definition all_succeed :: "os_calls \<Rightarrow> bool" where
  "all_succeed c \<longleftrightarrow> open_err c = None \<and> truncate_err c = None \<and> resize_err c = None \<and> mmap_err c = None \<and>
     close_err c = None \<and> mprotect_err c = None \<and> clone_err c = None"

text \<open>A call sets \<open>errno\<close> when it fails and leaves it alone when it succeeds.\<close>

definition called :: "int option \<Rightarrow> int \<Rightarrow> int" where
  "called r errno = (case r of None \<Rightarrow> errno | Some e \<Rightarrow> e)"

subsection \<open>create\_stack\<close>

text \<open>
  The address mapped and the size of the file behind it, and \<open>errno\<close> afterwards. With no file the later calls
  fail on the descriptor -1; a file that cannot be emptied keeps the size \<open>old_size\<close> it had.
\<close>

definition create_stack :: "os_calls \<Rightarrow> int \<Rightarrow> (addr \<times> nat) option \<times> int" where
  "create_stack c errno =
     (let on_fd = (\<lambda>r. if open_err c = None then r else Some EBADF);
          errno = called (open_err c) errno;
          errno = called (on_fd (truncate_err c)) errno;
          errno = called (on_fd (resize_err c)) errno;
          len = (if resize_err c = None then SIZE_STACK else if truncate_err c = None then 0 else old_size c);
          errno = called (on_fd (mmap_err c)) errno;
          errno = called (on_fd (close_err c)) errno in
      (if on_fd (mmap_err c) = None then Some (mmap_at c, len) else None, errno))"

subsection \<open>Processes\<close>

text \<open>
  Where a thread is in \<open>my_thread_start_up\<close>: before the routine, with its value, before and after the
  test of \<open>joined\<close> and in the return from the function. Every step of it uses its stack.
\<close>

datatype thread_pc = T_run | T_exit | T_test | T_sleep | T_return | T_ended

datatype main_pc =
    M_create nat
  | M_join
  | M_wait addr
  | M_take addr
  | M_mark addr ptr
  | M_unmap addr ptr
  | M_done ptr
  | M_end ptr

record clone_sys =
  errno :: int
  thread_num :: int
  stacks :: "addr \<rightharpoonup> my_thread_struct"
  leaked :: "addr set"
  threads :: "addr \<rightharpoonup> thread_pc"
  my_tid :: addr
  main_pc :: main_pc
  printed_errors :: nat

subsection \<open>my\_thread\_create\<close>

text \<open>The bytes of a mapping that a file of a size backs: its last page counts as a whole.\<close>

definition backed :: "nat \<Rightarrow> nat" where
  "backed len = (len + (PAGE - 1)) div PAGE * PAGE"

text \<open>
  Writing the stack faults when there is no mapping, when it is not writable and when the file does not reach into
  its last page. Only then is \<open>errno\<close> looked at. The result is that of the function; a stack that is
  mapped and has no thread stays in \<open>leaked\<close>.
\<close>

definition my_thread_create :: "(int \<Rightarrow> ptr) \<Rightarrow> int \<Rightarrow> os_calls \<Rightarrow> clone_sys \<Rightarrow> (int \<times> clone_sys) run" where
  "my_thread_create routine arg c s =
     (let num = thread_num s + 1; (stk, e) = create_stack c (errno s); e = called (mprotect_err c) e in
      case stk of None \<Rightarrow> crashed OutOfBounds
      | Some (a, len) \<Rightarrow>
          if mprotect_err c \<noteq> None \<or> backed len < SIZE_STACK then crashed OutOfBounds
          else if e \<noteq> 0 then ret (-1, s\<lparr>errno := e, thread_num := num, leaked := insert a (leaked s)\<rparr>)
          else
            (case clone_err c of
               Some e \<Rightarrow> ret (EXC_CREATE_CLONE, s\<lparr>errno := e, thread_num := num, leaked := insert a (leaked s)\<rparr>)
             | None \<Rightarrow> ret (SUCCESSFUL, s\<lparr>errno := e, thread_num := num,
                 stacks := (stacks s)(a \<mapsto> \<lparr>mt_id = num, start_routine = routine, mt_arg = arg, ret_val = None,
                   mt_stack = a, joined = False, exited = False\<rparr>),
                 threads := (threads s)(a \<mapsto> T_run), my_tid := a\<rparr>)))"

subsection \<open>my\_thread\_start\_up\<close>

definition on_stack :: "addr \<Rightarrow> clone_sys \<Rightarrow> (my_thread_struct \<Rightarrow> my_thread_struct \<times> thread_pc) \<Rightarrow> clone_sys run" where
  "on_stack a s f = bindR (deref (stacks s) (Some a)) (\<lambda>t.
     let (t', pc) = f t in ret (s\<lparr>stacks := (stacks s)(a \<mapsto> t'), threads := (threads s)(a \<mapsto> pc)\<rparr>))"

definition process_gone :: "clone_sys \<Rightarrow> bool" where
  "process_gone s = (case main_pc s of M_end v \<Rightarrow> True | _ \<Rightarrow> False)"

text \<open>
  One step of the thread on the stack \<open>a\<close>; a thread that is not there does nothing, and all threads are gone
  when \<open>main\<close> has returned.
\<close>

definition my_thread_start_up :: "addr \<Rightarrow> clone_sys \<Rightarrow> clone_sys run" where
  "my_thread_start_up a s =
     (if process_gone s then ret s else case threads s a of
        None \<Rightarrow> ret s
      | Some T_run \<Rightarrow> on_stack a s (\<lambda>t. (t\<lparr>ret_val := start_routine t (mt_arg t)\<rparr>, T_exit))
      | Some T_exit \<Rightarrow> on_stack a s (\<lambda>t. (t\<lparr>exited := True\<rparr>, T_test))
      | Some T_test \<Rightarrow> on_stack a s (\<lambda>t. (t, if joined t then T_return else T_sleep))
      | Some T_sleep \<Rightarrow> on_stack a s (\<lambda>t. (t, T_test))
      | Some T_return \<Rightarrow> on_stack a s (\<lambda>t. (t, T_ended))
      | Some T_ended \<Rightarrow> ret s)"

subsection \<open>my\_thread\_join and main\<close>

text \<open>
  \<open>main\<close> creates its threads and joins the one created last. The join polls \<open>exited\<close>, takes the value,
  sets \<open>joined\<close> and unmaps the stack, each in a step of its own (a failed \<open>munmap\<close> is printed); then \<open>main\<close>
  returns.
\<close>

definition at_main :: "main_pc \<Rightarrow> clone_sys \<Rightarrow> clone_sys run" where
  "at_main pc s = ret (s\<lparr>main_pc := pc\<rparr>)"

definition my_thread_join :: "bool \<Rightarrow> clone_sys \<Rightarrow> clone_sys run" where
  "my_thread_join munmap_ok s =
     (case main_pc s of
        M_join \<Rightarrow> bindR (deref (stacks s) (Some (my_tid s))) (\<lambda>t. at_main (M_wait (mt_stack t)) s)
      | M_wait u \<Rightarrow> bindR (deref (stacks s) (Some (my_tid s))) (\<lambda>t. at_main (if exited t then M_take u else M_wait u) s)
      | M_take u \<Rightarrow> bindR (deref (stacks s) (Some (my_tid s))) (\<lambda>t. at_main (M_mark u (ret_val t)) s)
      | M_mark u v \<Rightarrow> bindR (deref (stacks s) (Some (my_tid s))) (\<lambda>t.
          at_main (M_unmap u v) (s\<lparr>stacks := (stacks s)(my_tid s \<mapsto> t\<lparr>joined := True\<rparr>)\<rparr>))
      | M_unmap u v \<Rightarrow> at_main (M_done v) (if munmap_ok then s\<lparr>stacks := (stacks s)(u := None)\<rparr> else s)
      | M_done v \<Rightarrow> at_main (M_end v) s
      | _ \<Rightarrow> ret s)"

definition my_thread :: "int \<Rightarrow> ptr" where
  "my_thread arg = None"

definition main_step :: "nat \<Rightarrow> (int \<Rightarrow> ptr) \<Rightarrow> os_calls \<Rightarrow> bool \<Rightarrow> clone_sys \<Rightarrow> clone_sys run" where
  "main_step n routine c munmap_ok s =
     (case main_pc s of
        M_create i \<Rightarrow>
          if i < n then
            bindR (my_thread_create routine (int i) c s) (\<lambda>(r, s).
              at_main (M_create (i + 1)) (if r = -1 then s\<lparr>printed_errors := printed_errors s + 1\<rparr> else s))
          else at_main M_join s
      | _ \<Rightarrow> my_thread_join munmap_ok s)"

text \<open>A schedule: whose turn it is, with what the calls of \<open>main\<close> would do.\<close>

datatype clone_turn = Main os_calls bool | Thread addr

fun clone_run :: "nat \<Rightarrow> (int \<Rightarrow> ptr) \<Rightarrow> clone_turn list \<Rightarrow> clone_sys \<Rightarrow> clone_sys run" where
  "clone_run n routine [] s = ret s"
| "clone_run n routine (Main c ok # ts) s = bindR (main_step n routine c ok s) (clone_run n routine ts)"
| "clone_run n routine (Thread a # ts) s = bindR (my_thread_start_up a s) (clone_run n routine ts)"

text \<open>\<open>e\<close> is the \<open>errno\<close> the program finds, \<open>garbage\<close> what its uninitialised \<open>my_tid\<close> holds.\<close>

definition clone_start :: "int \<Rightarrow> addr \<Rightarrow> clone_sys" where
  "clone_start e garbage = \<lparr>errno = e, thread_num = 0, stacks = Map.empty, leaked = {}, threads = Map.empty,
     my_tid = garbage, main_pc = M_create 0, printed_errors = 0\<rparr>"

text \<open>The program of \<^verbatim>\<open>main.c\<close>.\<close>

definition clone_program :: "clone_turn list \<Rightarrow> int \<Rightarrow> addr \<Rightarrow> clone_sys run" where
  "clone_program ts e garbage = clone_run 100 my_thread ts (clone_start e garbage)"

end
