(* ===== verification/MythreadProps.thy ===== *)
theory MythreadProps
  imports Mythread
begin

section \<open>Properties of the threads by clone\<close>

text \<open>
  What a join returns, the only way in which the program can crash when no call fails, and what a stale
  \<open>errno\<close> does to it.
\<close>

lemma backed_short: "len \<le> SIZE_STACK - PAGE \<Longrightarrow> backed len < SIZE_STACK"
  by (simp add: backed_def SIZE_STACK_def PAGE_def)

lemma backed_long: "SIZE_STACK - PAGE < len \<Longrightarrow> \<not> backed len < SIZE_STACK"
  by (simp add: backed_def SIZE_STACK_def PAGE_def not_less)

lemma backed_SIZE_STACK: "\<not> backed SIZE_STACK < SIZE_STACK"
  by (simp add: backed_def SIZE_STACK_def PAGE_def)

subsection \<open>The invariant\<close>

text \<open>What the struct of a thread holds, by the position of the thread.\<close>

definition thread_ok :: "thread_pc \<Rightarrow> my_thread_struct \<Rightarrow> bool" where
  "thread_ok pc t \<longleftrightarrow> (exited t \<longleftrightarrow> pc \<notin> {T_run, T_exit}) \<and>
     (pc \<noteq> T_run \<longrightarrow> ret_val t = start_routine t (mt_arg t))"

definition stacks_ok :: "(int \<Rightarrow> ptr) \<Rightarrow> clone_sys \<Rightarrow> bool" where
  "stacks_ok f s \<longleftrightarrow> (\<forall>a t. stacks s a = Some t \<longrightarrow> mt_stack t = a \<and> start_routine t = f \<and>
     (\<exists>pc. threads s a = Some pc \<and> thread_ok pc t))"

lemma stacks_okD:
  "stacks_ok f s \<Longrightarrow> stacks s a = Some t \<Longrightarrow>
    mt_stack t = a \<and> start_routine t = f \<and> (\<exists>pc. threads s a = Some pc \<and> thread_ok pc t)"
  by (simp add: stacks_ok_def)

lemma stacks_ok_dom: "stacks_ok f s \<Longrightarrow> dom (stacks s) \<subseteq> dom (threads s)"
  by (auto dest: stacks_okD)

lemma stacks_ok_put:
  assumes "stacks_ok f s" "stacks s' = (stacks s)(a \<mapsto> t)" "threads s' = (threads s)(a \<mapsto> pc)"
    "mt_stack t = a" "start_routine t = f" "thread_ok pc t"
  shows "stacks_ok f s'"
  using assms by (simp add: stacks_ok_def)

text \<open>A stack is missing only behind the join, and then its thread has set \<open>exited\<close>.\<close>

definition missing_ok :: "clone_sys \<Rightarrow> bool" where
  "missing_ok s \<longleftrightarrow> (\<forall>a pc. threads s a = Some pc \<and> stacks s a = None \<longrightarrow>
     a = my_tid s \<and> pc \<notin> {T_run, T_exit} \<and> (\<exists>v. main_pc s = M_done v \<or> main_pc s = M_end v))"

text \<open>\<open>my_tid\<close> names the thread created last, with the argument \<open>i - 1\<close>.\<close>

definition last_thread :: "clone_sys \<Rightarrow> nat \<Rightarrow> (my_thread_struct \<Rightarrow> bool) \<Rightarrow> bool" where
  "last_thread s i P \<longleftrightarrow> (\<exists>t. stacks s (my_tid s) = Some t \<and> mt_arg t = int i - 1 \<and> P t)"

definition main_ok :: "nat \<Rightarrow> (int \<Rightarrow> ptr) \<Rightarrow> clone_sys \<Rightarrow> bool" where
  "main_ok n f s \<longleftrightarrow>
     (case main_pc s of
        M_create i \<Rightarrow> i \<le> n \<and> (0 < i \<longrightarrow> last_thread s i (\<lambda>_. True))
      | M_join \<Rightarrow> last_thread s n (\<lambda>_. True)
      | M_wait u \<Rightarrow> u = my_tid s \<and> last_thread s n (\<lambda>_. True)
      | M_take u \<Rightarrow> u = my_tid s \<and> last_thread s n exited
      | M_mark u v \<Rightarrow> u = my_tid s \<and> v = f (int n - 1) \<and> last_thread s n exited
      | M_unmap u v \<Rightarrow> u = my_tid s \<and> v = f (int n - 1) \<and> last_thread s n exited
      | M_done v \<Rightarrow> v = f (int n - 1)
      | M_end v \<Rightarrow> v = f (int n - 1))"

definition clone_inv :: "nat \<Rightarrow> (int \<Rightarrow> ptr) \<Rightarrow> clone_sys \<Rightarrow> bool" where
  "clone_inv n f s \<longleftrightarrow> errno s = 0 \<and> leaked s = {} \<and> printed_errors s = 0 \<and> stacks_ok f s \<and> missing_ok s \<and> main_ok n f s"

lemma clone_inv_start: "clone_inv n f (clone_start 0 g)"
  by (simp add: clone_inv_def clone_start_def stacks_ok_def missing_ok_def main_ok_def)

subsection \<open>Steps of a thread\<close>

text \<open>The crash: the thread goes on with its stack unmapped.\<close>

definition stack_gone :: "addr \<Rightarrow> clone_sys \<Rightarrow> bool" where
  "stack_gone a s \<longleftrightarrow> a = my_tid s \<and> stacks s a = None \<and> (\<exists>pc. threads s a = Some pc \<and> pc \<in> {T_test, T_sleep, T_return}) \<and>
     (\<exists>v. main_pc s = M_done v)"

lemma thread_writes:
  assumes "clone_inv n f s" "stacks s a = Some t" "start_routine t' = start_routine t" "mt_arg t' = mt_arg t"
    "mt_stack t' = mt_stack t" "thread_ok pc t'" "exited t \<longrightarrow> exited t'"
  shows "clone_inv n f (s\<lparr>stacks := (stacks s)(a \<mapsto> t'), threads := (threads s)(a \<mapsto> pc)\<rparr>)"
proof -
  have last: "last_thread (s\<lparr>stacks := (stacks s)(a \<mapsto> t'), threads := (threads s)(a \<mapsto> pc)\<rparr>) i P"
    if "last_thread s i P" "P = (\<lambda>_. True) \<or> P = exited" for i P
    using that assms(2,4,7) by (auto simp: last_thread_def)
  show ?thesis
    using assms last stacks_ok_put[of f s _ a t' pc] stacks_okD[of f s a t]
    by (auto simp: clone_inv_def missing_ok_def main_ok_def split: main_pc.splits)
qed

lemma thread_step:
  assumes "clone_inv n f s"
  shows "(\<exists>s'. my_thread_start_up a s = ret s' \<and> clone_inv n f s' \<and> main_pc s' = main_pc s \<and> dom (threads s') = dom (threads s)) \<or>
    my_thread_start_up a s = crashed UseAfterFree \<and> stack_gone a s"
proof (cases "process_gone s \<or> threads s a = None \<or> threads s a = Some T_ended")
  case True
  then show ?thesis using assms by (auto simp: my_thread_start_up_def)
next
  case False
  then obtain pc where pc: "threads s a = Some pc" "pc \<noteq> T_ended" and live: "\<not> process_gone s" by auto
  show ?thesis
  proof (cases "stacks s a")
    case None
    then have "a = my_tid s" "pc \<notin> {T_run, T_exit}" "\<exists>v. main_pc s = M_done v \<or> main_pc s = M_end v"
      using assms pc unfolding clone_inv_def missing_ok_def by blast+
    then have "stack_gone a s" using None pc live by (cases pc) (auto simp: stack_gone_def process_gone_def)
    moreover have "my_thread_start_up a s = crashed UseAfterFree"
      using None pc live by (cases pc) (simp_all add: my_thread_start_up_def on_stack_def)
    ultimately show ?thesis by blast
  next
    case (Some t)
    then have t: "thread_ok pc t" using assms pc stacks_okD[of f s a t] by (auto simp: clone_inv_def)
    note w = thread_writes[OF assms Some]
    have "\<exists>s'. my_thread_start_up a s = ret s' \<and> clone_inv n f s' \<and> main_pc s' = main_pc s \<and> dom (threads s') = dom (threads s)"
      using live pc Some t
      by (cases pc) (auto simp: my_thread_start_up_def on_stack_def thread_ok_def intro!: w)
    then show ?thesis by blast
  qed
qed

subsection \<open>Steps of main\<close>

lemma create_step:
  assumes "clone_inv n f s" "main_pc s = M_create i" "i < n" "all_succeed c" "mmap_at c \<notin> dom (threads s)"
  shows "\<exists>s'. main_step n f c ok s = ret s' \<and> clone_inv n f s' \<and> main_pc s' = M_create (Suc i) \<and>
    threads s' = (threads s)(mmap_at c \<mapsto> T_run) \<and> my_tid s' = mmap_at c"
proof -
  let ?t = "\<lparr>mt_id = thread_num s + 1, start_routine = f, mt_arg = int i, ret_val = None, mt_stack = mmap_at c,
    joined = False, exited = False\<rparr>"
  let ?s = "s\<lparr>errno := 0, thread_num := thread_num s + 1, stacks := (stacks s)(mmap_at c \<mapsto> ?t),
    threads := (threads s)(mmap_at c \<mapsto> T_run), my_tid := mmap_at c, main_pc := M_create (Suc i)\<rparr>"
  have "main_step n f c ok s = ret ?s"
    using assms by (simp add: main_step_def my_thread_create_def create_stack_def all_succeed_def called_def at_main_def
      clone_inv_def SUCCESSFUL_def Let_def backed_SIZE_STACK)
  moreover have "stacks_ok f ?s"
    by (rule stacks_ok_put[of f s _ "mmap_at c" ?t T_run]) (use assms in \<open>simp_all add: clone_inv_def thread_ok_def\<close>)
  then have "clone_inv n f ?s"
    using assms by (auto simp: clone_inv_def missing_ok_def main_ok_def last_thread_def)
  ultimately show ?thesis by auto
qed

lemma join_step:
  assumes "clone_inv n f s" "0 < n" "\<forall>i. main_pc s = M_create i \<longrightarrow> i = n"
  shows "\<exists>s'. main_step n f c ok s = ret s' \<and> clone_inv n f s' \<and> (\<forall>i. main_pc s' \<noteq> M_create i) \<and>
    dom (threads s') = dom (threads s)"
proof -
  have mem: "stacks_ok f s" "missing_ok s" and m: "main_ok n f s" using assms(1) by (simp_all add: clone_inv_def)
  have keep: "clone_inv n f (s\<lparr>main_pc := pc\<rparr>)"
    if "main_ok n f (s\<lparr>main_pc := pc\<rparr>)" "\<forall>v. main_pc s \<noteq> M_done v \<and> main_pc s \<noteq> M_end v" for pc
    using assms(1) that by (auto simp: clone_inv_def stacks_ok_def missing_ok_def)
  have stk: "mt_stack t = my_tid s" if "stacks s (my_tid s) = Some t" for t using stacks_okD[OF mem(1) that] by blast
  show ?thesis
  proof (cases "main_pc s")
    case (M_mark u v)
    then obtain t where t: "u = my_tid s" "v = f (int n - 1)" "stacks s (my_tid s) = Some t" "mt_arg t = int n - 1" "exited t"
      using assms(1) by (auto simp: clone_inv_def main_ok_def last_thread_def)
    let ?s = "s\<lparr>stacks := (stacks s)(my_tid s \<mapsto> t\<lparr>joined := True\<rparr>), main_pc := M_unmap u v\<rparr>"
    obtain pc where pc: "threads s (my_tid s) = Some pc" "thread_ok pc t" "mt_stack t = my_tid s" "start_routine t = f"
      using stacks_okD[OF mem(1) t(3)] by blast
    have "stacks_ok f ?s"
      by (rule stacks_ok_put[OF mem(1), of _ "my_tid s" "t\<lparr>joined := True\<rparr>" pc]) (use pc in \<open>auto simp: thread_ok_def\<close>)
    then have "clone_inv n f ?s"
      using assms(1) t M_mark by (auto simp: clone_inv_def missing_ok_def main_ok_def last_thread_def)
    then show ?thesis using M_mark t(3) by (simp add: main_step_def my_thread_join_def at_main_def)
  next
    case (M_unmap u v)
    then obtain t where t: "u = my_tid s" "v = f (int n - 1)" "stacks s (my_tid s) = Some t" "mt_arg t = int n - 1" "exited t"
      using assms(1) by (auto simp: clone_inv_def main_ok_def last_thread_def)
    obtain pc where "threads s (my_tid s) = Some pc" "thread_ok pc t" using stacks_okD[OF mem(1) t(3)] by blast
    then have "missing_ok (s\<lparr>stacks := (stacks s)(u := None), main_pc := M_done v\<rparr>)"
      using mem(2) t M_unmap by (auto simp: missing_ok_def thread_ok_def)
    moreover have "stacks_ok f (s\<lparr>stacks := (stacks s)(u := None), main_pc := M_done v\<rparr>)"
      using mem(1) by (simp add: stacks_ok_def)
    ultimately have "clone_inv n f (s\<lparr>stacks := (stacks s)(u := None), main_pc := M_done v\<rparr>)"
      using assms(1) t by (simp add: clone_inv_def main_ok_def)
    moreover have "clone_inv n f (s\<lparr>main_pc := M_done v\<rparr>)"
      by (rule keep) (use t M_unmap in \<open>simp_all add: main_ok_def\<close>)
    ultimately show ?thesis using M_unmap by (cases ok) (simp_all add: main_step_def my_thread_join_def at_main_def)
  next
    case (M_take u)
    then obtain t where "u = my_tid s" "stacks s (my_tid s) = Some t" "mt_arg t = int n - 1" "exited t"
      using assms(1) by (auto simp: clone_inv_def main_ok_def last_thread_def)
    moreover have "ret_val t = f (int n - 1)"
      using stacks_okD[OF mem(1), of "my_tid s" t] calculation by (auto simp: thread_ok_def)
    ultimately show ?thesis using M_take
      by (auto simp: main_step_def my_thread_join_def at_main_def main_ok_def last_thread_def intro!: keep)
  next
    case (M_done v)
    then show ?thesis using assms(1)
      by (auto simp: main_step_def my_thread_join_def at_main_def main_ok_def clone_inv_def stacks_ok_def missing_ok_def)
  qed (use assms m stk in \<open>auto simp: main_step_def my_thread_join_def at_main_def
      main_ok_def last_thread_def intro!: keep\<close>)
qed

subsection \<open>Runs\<close>

text \<open>
  No call fails in the creations still to come, and \<open>mmap\<close> returns addresses that are not in use: what
  the system does for as many creations as there are left.
\<close>

fun system_fine :: "nat \<Rightarrow> clone_turn list \<Rightarrow> addr set \<Rightarrow> bool" where
  "system_fine (Suc k) (Main c ok # ts) used \<longleftrightarrow> all_succeed c \<and> mmap_at c \<notin> used \<and> system_fine k ts (insert (mmap_at c) used)"
| "system_fine k (Thread a # ts) used = system_fine k ts used"
| "system_fine k ts used = True"

definition creations_left :: "nat \<Rightarrow> clone_sys \<Rightarrow> nat" where
  "creations_left n s = (case main_pc s of M_create i \<Rightarrow> n - i | _ \<Rightarrow> 0)"

lemma system_fine_0 [simp]: "system_fine 0 ts used"
proof (induction ts arbitrary: used)
  case (Cons t ts)
  then show ?case by (cases t) simp_all
qed simp

lemma main_inv:
  assumes "clone_inv n f s" "0 < n" "system_fine (creations_left n s) (Main c ok # ts) (dom (threads s))"
  shows "\<exists>s'. main_step n f c ok s = ret s' \<and> clone_inv n f s' \<and> system_fine (creations_left n s') ts (dom (threads s'))"
proof (cases "\<exists>i < n. main_pc s = M_create i")
  case True
  then obtain i where i: "main_pc s = M_create i" "i < n" by blast
  then obtain k where k: "creations_left n s = Suc k" "k = n - Suc i" by (simp add: creations_left_def Suc_diff_Suc)
  then show ?thesis using create_step[OF assms(1) i, of c ok] assms(3) by (auto simp: creations_left_def)
next
  case False
  have "\<forall>i. main_pc s = M_create i \<longrightarrow> i \<le> n" using assms(1) by (auto simp: clone_inv_def main_ok_def)
  with False have "\<forall>i. main_pc s = M_create i \<longrightarrow> i = n" by (meson le_neq_implies_less)
  from join_step[OF assms(1,2) this, of c ok] obtain s' where s': "main_step n f c ok s = ret s'" "clone_inv n f s'"
    "\<forall>i. main_pc s' \<noteq> M_create i" by blast
  then have "creations_left n s' = 0" by (cases "main_pc s'") (auto simp: creations_left_def)
  then show ?thesis using s' by auto
qed

lemma clone_run_append: "clone_run n f (ts @ us) = (\<lambda>s. bindR (clone_run n f ts s) (clone_run n f us))"
proof (induction ts)
  case (Cons t ts)
  then show ?case by (cases t; intro ext; simp add: bindR_assoc)
qed (simp add: fun_eq_iff)

text \<open>Where a run ends: in a state that satisfies the invariant, or where a thread lost its stack.\<close>

lemma clone_run_inv:
  assumes "clone_inv n f s" "0 < n" "system_fine (creations_left n s) ts (dom (threads s))"
  shows "(\<exists>s'. clone_run n f ts s = ret s' \<and> clone_inv n f s') \<or>
    clone_run n f ts s = crashed UseAfterFree \<and>
      (\<exists>us a vs s'. ts = us @ Thread a # vs \<and> clone_run n f us s = ret s' \<and> clone_inv n f s' \<and> stack_gone a s')"
  using assms
proof (induction ts arbitrary: s)
  case (Cons t ts)
  have step: ?case if first: "clone_run n f (t # ts) s = clone_run n f ts s1" "clone_run n f [t] s = ret s1" and
    s1: "clone_inv n f s1" "system_fine (creations_left n s1) ts (dom (threads s1))" for s1
    using Cons.IH[OF s1(1) Cons.prems(2) s1(2)]
  proof (elim disjE exE conjE)
    fix us a vs s'
    assume "clone_run n f ts s1 = crashed UseAfterFree" "ts = us @ Thread a # vs" "clone_run n f us s1 = ret s'"
      "clone_inv n f s'" "stack_gone a s'"
    moreover from this have "clone_run n f (t # us) s = ret s'"
      using fun_cong[OF clone_run_append[of n f "[t]" us], of s] first(2) by simp
    ultimately show ?case unfolding first(1) by (metis append_Cons)
  qed (use first(1) in auto)
  show ?case
  proof (cases t)
    case (Main c ok)
    from main_inv[OF Cons.prems(1,2), of c ok ts] Cons.prems(3) Main obtain s1 where
      "main_step n f c ok s = ret s1" "clone_inv n f s1" "system_fine (creations_left n s1) ts (dom (threads s1))" by auto
    then show ?thesis using step[of s1] Main by simp
  next
    case (Thread a)
    from thread_step[OF Cons.prems(1), of a] show ?thesis
    proof (elim disjE exE conjE)
      fix s1
      assume "my_thread_start_up a s = ret s1" "clone_inv n f s1" "main_pc s1 = main_pc s" "dom (threads s1) = dom (threads s)"
      then show ?thesis using step[of s1] Thread Cons.prems(3) by (simp add: creations_left_def)
    next
      assume "my_thread_start_up a s = crashed UseAfterFree" "stack_gone a s"
      then show ?thesis using Thread Cons.prems(1) by (intro disjI2) (auto intro!: exI[of _ "[]"])
    qed
  qed
qed auto

subsection \<open>Two schedules\<close>

definition fine_call :: "nat \<Rightarrow> os_calls" where
  "fine_call a = \<lparr>open_err = None, truncate_err = None, resize_err = None, mmap_err = None, close_err = None,
     mprotect_err = None, clone_err = None, old_size = 0, mmap_at = a\<rparr>"

definition create_all :: "nat \<Rightarrow> clone_turn list" where
  "create_all n = map (\<lambda>a. Main (fine_call a) True) [0..<n]"

definition joining :: "nat \<Rightarrow> clone_turn list" where
  "joining k = replicate k (Main (fine_call 0) True)"

lemma create_all_run:
  assumes "k \<le> n"
  shows "\<exists>s. clone_run n f (create_all k) (clone_start 0 g) = ret s \<and> clone_inv n f s \<and> main_pc s = M_create k \<and>
    dom (threads s) = {..<k} \<and> (0 < k \<longrightarrow> my_tid s = k - 1 \<and> threads s (k - 1) = Some T_run)"
  using assms
proof (induction k)
  case 0
  show ?case using clone_inv_start[of n f g] by (simp add: create_all_def) (simp add: clone_start_def)
next
  case (Suc k)
  then obtain s where s: "clone_run n f (create_all k) (clone_start 0 g) = ret s" "clone_inv n f s" "main_pc s = M_create k"
    "dom (threads s) = {..<k}" by auto
  have "all_succeed (fine_call k)" "mmap_at (fine_call k) = k" by (simp_all add: all_succeed_def fine_call_def)
  with create_step[OF s(2,3), of "fine_call k" True] Suc.prems s(4) obtain s' where
    "main_step n f (fine_call k) True s = ret s'" "clone_inv n f s'" "main_pc s' = M_create (Suc k)"
    "threads s' = (threads s)(k \<mapsto> T_run)" "my_tid s' = k" by auto
  moreover have "create_all (Suc k) = create_all k @ [Main (fine_call k) True]" by (simp add: create_all_def)
  ultimately show ?case using s by (auto simp: clone_run_append lessThan_Suc)
qed

lemma create_all_fine: "system_fine n (create_all n @ ts) {}"
proof -
  have "system_fine (n - k) (map (\<lambda>a. Main (fine_call a) True) [k..<n] @ ts) {..<k}" if "k \<le> n" for k
    using that
  proof (induction "n - k" arbitrary: k)
    case (Suc j)
    then have "system_fine (n - Suc k) (map (\<lambda>a. Main (fine_call a) True) [Suc k..<n] @ ts) {..<Suc k}" by simp
    moreover have "[k..<n] = k # [Suc k..<n]" "n - k = Suc (n - Suc k)" using Suc by (auto simp: upt_conv_Cons)
    ultimately show ?case by (simp add: fine_call_def all_succeed_def lessThan_Suc)
  qed simp
  from this[of 0] show ?thesis by (simp add: create_all_def)
qed

text \<open>The thread sleeps when its stack goes, and it sees \<open>joined\<close> in time.\<close>

lemma after_create_all:
  assumes "clone_inv n f s" "main_pc s = M_create n" "0 < n" "my_tid s = a" "threads s a = Some T_run"
  shows "clone_run n f (replicate 3 (Thread a) @ joining 6 @ [Thread a]) s = crashed UseAfterFree"
    and "\<exists>s'. clone_run n f (replicate 2 (Thread a) @ joining 5 @ replicate 2 (Thread a) @ joining 2) s = ret s' \<and>
      main_pc s' = M_end (f (int n - 1)) \<and> my_tid s' = a \<and> threads s' a = Some T_ended"
proof -
  obtain t where t: "stacks s a = Some t" "mt_arg t = int n - 1"
    using assms by (auto simp: clone_inv_def main_ok_def last_thread_def)
  with assms(1,5) stacks_okD[of f s a t] have "mt_stack t = a" "start_routine t = f"
    by (auto simp: clone_inv_def)
  note facts = t this assms(2-5)
  show "clone_run n f (replicate 3 (Thread a) @ joining 6 @ [Thread a]) s = crashed UseAfterFree"
    using facts by (simp add: eval_nat_numeral joining_def main_step_def my_thread_join_def at_main_def
        my_thread_start_up_def on_stack_def process_gone_def Let_def)
  show "\<exists>s'. clone_run n f (replicate 2 (Thread a) @ joining 5 @ replicate 2 (Thread a) @ joining 2) s = ret s' \<and>
      main_pc s' = M_end (f (int n - 1)) \<and> my_tid s' = a \<and> threads s' a = Some T_ended"
    using facts by (simp add: eval_nat_numeral joining_def main_step_def my_thread_join_def at_main_def
        my_thread_start_up_def on_stack_def process_gone_def Let_def)
qed

text \<open>C18:
  Joining a thread made by \<open>clone\<close>, for a program that starts with \<open>errno\<close> 0 and in which every system call of the
  creations succeeds and \<open>mmap\<close> gives addresses that are not in use (\<open>munmap\<close> may fail). Then under every schedule of
  \<open>main\<close> and its threads the join gives the value the routine has for the last thread, and only after that thread has
  stored it; and the one way to crash is that a thread goes on after \<open>main\<close> has unmapped the stack it runs
  on: \<open>joined\<close> is set, but nobody waits for the thread to see it. Such a schedule exists for every number of threads
  (the thread sleeps while its stack goes), as does one in which the thread ends in time.
\<close>

theorem my_thread_join_races:
  assumes "0 < n"
  shows "(system_fine n ts {} \<longrightarrow>
      (\<exists>s. clone_run n f ts (clone_start 0 g) = ret s \<and>
        (\<forall>v. main_pc s = M_done v \<or> main_pc s = M_end v \<longrightarrow> v = f (int n - 1))) \<or>
      clone_run n f ts (clone_start 0 g) = crashed UseAfterFree \<and>
        (\<exists>us a vs s. ts = us @ Thread a # vs \<and> clone_run n f us (clone_start 0 g) = ret s \<and> stack_gone a s)) \<and>
    (\<exists>ts. system_fine n ts {} \<and> clone_run n f ts (clone_start 0 g) = crashed UseAfterFree) \<and>
    (\<exists>ts s. system_fine n ts {} \<and> clone_run n f ts (clone_start 0 g) = ret s \<and> main_pc s = M_end (f (int n - 1)) \<and>
      threads s (my_tid s) = Some T_ended)"
proof (intro conjI impI)
  assume fine: "system_fine n ts {}"
  have "creations_left n (clone_start 0 g) = n" "dom (threads (clone_start 0 g)) = {}"
    by (simp_all add: creations_left_def clone_start_def)
  then have sf: "system_fine (creations_left n (clone_start 0 g)) ts (dom (threads (clone_start 0 g)))" using fine by simp
  have "v = f (int n - 1)" if "clone_inv n f s" "main_pc s = M_done v \<or> main_pc s = M_end v" for s v
    using that by (auto simp: clone_inv_def main_ok_def)
  then show "(\<exists>s. clone_run n f ts (clone_start 0 g) = ret s \<and>
        (\<forall>v. main_pc s = M_done v \<or> main_pc s = M_end v \<longrightarrow> v = f (int n - 1))) \<or>
      clone_run n f ts (clone_start 0 g) = crashed UseAfterFree \<and>
        (\<exists>us a vs s. ts = us @ Thread a # vs \<and> clone_run n f us (clone_start 0 g) = ret s \<and> stack_gone a s)"
    using clone_run_inv[OF clone_inv_start assms sf] by blast
next
  obtain s where s: "clone_run n f (create_all n) (clone_start 0 g) = ret s" "clone_inv n f s" "main_pc s = M_create n"
    "my_tid s = n - 1" "threads s (n - 1) = Some T_run"
    using create_all_run[of n n f g] assms by blast
  note after = after_create_all[OF s(2,3) assms s(4,5)]
  show "\<exists>ts. system_fine n ts {} \<and> clone_run n f ts (clone_start 0 g) = crashed UseAfterFree"
    by (rule exI[of _ "create_all n @ replicate 3 (Thread (n - 1)) @ joining 6 @ [Thread (n - 1)]"])
      (use after(1) s(1) create_all_fine in \<open>simp add: clone_run_append\<close>)
  show "\<exists>ts s. system_fine n ts {} \<and> clone_run n f ts (clone_start 0 g) = ret s \<and> main_pc s = M_end (f (int n - 1)) \<and>
      threads s (my_tid s) = Some T_ended"
    by (rule exI[of _ "create_all n @ replicate 2 (Thread (n - 1)) @ joining 5 @ replicate 2 (Thread (n - 1)) @ joining 2"])
      (use after(2) s(1) create_all_fine in \<open>auto simp: clone_run_append\<close>)
qed

theorem my_thread_join_races_witness:
  "(\<exists>ts. system_fine 100 ts {} \<and> clone_program ts 0 0 = crashed UseAfterFree) \<and>
   (\<exists>s. clone_run 1 my_thread (create_all 1 @ [Thread 0]) (clone_start 0 0) = ret s)"
proof -
  have "system_fine 1 (create_all 1 @ [Thread 0]) {}" by (rule create_all_fine)
  moreover have "clone_run 1 my_thread (create_all 1 @ [Thread 0]) (clone_start 0 0) \<noteq> crashed UseAfterFree"
    by (simp add: create_all_def fine_call_def main_step_def my_thread_create_def create_stack_def called_def at_main_def
        clone_start_def backed_SIZE_STACK my_thread_start_up_def process_gone_def on_stack_def Let_def SUCCESSFUL_def)
  ultimately show ?thesis
    using my_thread_join_races[of 100 "[]" my_thread 0] my_thread_join_races[of 1 "create_all 1 @ [Thread 0]" my_thread 0]
    unfolding clone_program_def by simp blast
qed

subsection \<open>Failing calls\<close>

text \<open>The creations of \<open>main\<close> when \<open>errno\<close> is not 0 at the start.\<close>

lemma stale_create:
  assumes "all_succeed c" "errno s \<noteq> 0" "main_pc s = M_create i" "i < n"
  shows "main_step n f c ok s = ret (s\<lparr>thread_num := thread_num s + 1, leaked := insert (mmap_at c) (leaked s),
    printed_errors := printed_errors s + 1, main_pc := M_create (i + 1)\<rparr>)"
  using assms by (simp add: main_step_def my_thread_create_def create_stack_def all_succeed_def called_def at_main_def Let_def
      backed_SIZE_STACK)

lemma stale_run:
  assumes "\<forall>c \<in> set cs. all_succeed c" "length cs \<le> n" "e \<noteq> 0"
  shows "\<exists>s. clone_run n f (map (\<lambda>c. Main c True) cs) (clone_start e g) = ret s \<and> errno s = e \<and>
    main_pc s = M_create (length cs) \<and> printed_errors s = length cs \<and> leaked s = mmap_at ` set cs \<and>
    threads s = Map.empty \<and> stacks s = Map.empty \<and> my_tid s = g"
  using assms(1,2)
proof (induction cs rule: rev_induct)
  case Nil
  then show ?case by (simp add: clone_start_def)
next
  case (snoc c cs)
  then obtain s where s: "clone_run n f (map (\<lambda>c. Main c True) cs) (clone_start e g) = ret s" "errno s = e"
    "main_pc s = M_create (length cs)" "printed_errors s = length cs" "leaked s = mmap_at ` set cs"
    "threads s = Map.empty" "stacks s = Map.empty" "my_tid s = g" by auto
  from stale_create[of c s "length cs" n f True] s snoc.prems assms(3) show ?case
    by (simp add: clone_run_append)
qed

text \<open>C36:
  How creation handles errors. A stack that could not be mapped or made writable, or whose file does not reach into its last page, is
  written before \<open>errno\<close> is looked at: the process faults instead of getting -1 (an old file
  that does reach there, left by two failed \<open>ftruncate\<close>, is written and gives -1). And \<open>errno\<close> is tested although no call
  has failed: with an \<open>errno\<close> left over from before, each of the creations of \<open>main\<close> gives -1 with every
  call successful and leaks its stack, no thread is ever made, and the join follows the \<open>my_tid\<close>
  that was never set. A failed \<open>clone\<close> gives 1, leaks the stack and leaves \<open>errno\<close> set, so that the next creation fails.
\<close>

theorem my_thread_create_errors:
  "(open_err c \<noteq> None \<or> mmap_err c \<noteq> None \<or> mprotect_err c \<noteq> None \<or>
      resize_err c \<noteq> None \<and> (truncate_err c = None \<or> old_size c \<le> SIZE_STACK - PAGE) \<longrightarrow>
      my_thread_create f x c s = crashed OutOfBounds) \<and>
   (open_err c = None \<and> mmap_err c = None \<and> mprotect_err c = None \<and> close_err c = None \<and> resize_err c = Some e \<and> e \<noteq> 0 \<and>
      truncate_err c \<noteq> None \<and> SIZE_STACK - PAGE < old_size c \<longrightarrow>
      my_thread_create f x c s = ret (-1, s\<lparr>errno := e, thread_num := thread_num s + 1, leaked := insert (mmap_at c) (leaked s)\<rparr>)) \<and>
   (all_succeed c \<and> errno s = 0 \<longrightarrow> (\<exists>s'. my_thread_create f x c s = ret (0, s') \<and> threads s' = (threads s)(mmap_at c \<mapsto> T_run))) \<and>
   (all_succeed (c\<lparr>clone_err := None\<rparr>) \<and> clone_err c = Some e \<and> errno s = 0 \<longrightarrow>
      my_thread_create f x c s = ret (1, s\<lparr>errno := e, thread_num := thread_num s + 1, leaked := insert (mmap_at c) (leaked s)\<rparr>)) \<and>
   (e \<noteq> 0 \<and> length cs = 100 \<and> (\<forall>c \<in> set cs. all_succeed c) \<longrightarrow>
      (\<exists>s. clone_program (map (\<lambda>c. Main c True) cs) e g = ret s \<and> printed_errors s = 100 \<and>
        leaked s = mmap_at ` set cs \<and> threads s = Map.empty \<and> my_tid s = g) \<and>
      clone_program (map (\<lambda>c. Main c True) (cs @ [c, c'])) e g = crashed UseAfterFree)"
proof (intro conjI impI; (elim conjE)?)
  assume "open_err c \<noteq> None \<or> mmap_err c \<noteq> None \<or> mprotect_err c \<noteq> None \<or>
      resize_err c \<noteq> None \<and> (truncate_err c = None \<or> old_size c \<le> SIZE_STACK - PAGE)"
  then show "my_thread_create f x c s = crashed OutOfBounds"
    using backed_short[of 0] backed_short[of "old_size c"]
    by (auto simp: my_thread_create_def create_stack_def Let_def SIZE_STACK_def PAGE_def split: option.splits)
next
  assume e: "e \<noteq> 0" "length cs = 100" "\<forall>c \<in> set cs. all_succeed c"
  from stale_run[OF e(3) _ e(1), of 100 my_thread g] e(2) obtain s where
    s: "clone_run 100 my_thread (map (\<lambda>c. Main c True) cs) (clone_start e g) = ret s" "main_pc s = M_create 100"
      "printed_errors s = 100" "leaked s = mmap_at ` set cs" "threads s = Map.empty" "stacks s = Map.empty" "my_tid s = g"
    by auto
  then show "\<exists>s. clone_program (map (\<lambda>c. Main c True) cs) e g = ret s \<and> printed_errors s = 100 \<and>
        leaked s = mmap_at ` set cs \<and> threads s = Map.empty \<and> my_tid s = g"
    by (simp add: clone_program_def)
  show "clone_program (map (\<lambda>c. Main c True) (cs @ [c, c'])) e g = crashed UseAfterFree"
    using s by (simp add: clone_program_def clone_run_append main_step_def my_thread_join_def at_main_def)
qed (simp_all add: backed_SIZE_STACK backed_long my_thread_create_def create_stack_def all_succeed_def called_def Let_def EXC_CREATE_CLONE_def SUCCESSFUL_def)

theorem my_thread_create_errors_witness:
  "clone_program (map (\<lambda>c. Main c True) (replicate 100 (fine_call 4) @ [fine_call 4, fine_call 4])) 25 0 = crashed UseAfterFree"
proof -
  have "\<forall>c \<in> set (replicate 100 (fine_call 4)). all_succeed c" by (simp add: fine_call_def all_succeed_def)
  then show ?thesis
    using my_thread_create_errors[of "fine_call 4" my_thread 0 "clone_start 25 0" 25 "replicate 100 (fine_call 4)" 0 "fine_call 4"]
    by simp
qed

end
