(* ===== verification/Locks.thy ===== *)
theory Locks
  imports Prelude
begin

section \<open>The spin lock and the futex mutex\<close>

text \<open>
  \<^verbatim>\<open>2/2.4\<close>: \<open>n\<close> threads increment a counter \<open>COUNT_ITERATION\<close> times each under a home-made lock.
  The increment is a read and a write. \<open>left\<close> are the iterations a thread still has to finish.
\<close>

definition STATUS_LOCK :: int where "STATUS_LOCK = 0"

definition STATUS_UNLOCK :: int where "STATUS_UNLOCK = 1"

definition COUNT_ITERATION :: nat where "COUNT_ITERATION = 100000"

text \<open>
  Where a thread is: before the compare-and-swap of the lock operation, before the call of
  \<open>FUTEX_WAIT\<close>, asleep in it, before the read, between read and write, before the unlocking, and
  between the unlocking and \<open>FUTEX_WAKE\<close>.
\<close>

datatype lpc = AtLock | AtWait | Asleep | Critical | Loaded int | Stored | Waking

record lock_sys =
  lk :: int
  counter :: int
  lpcs :: "nat \<Rightarrow> lpc"
  left :: "nat \<Rightarrow> nat"

definition cas :: "int \<Rightarrow> int \<Rightarrow> lock_sys \<Rightarrow> bool \<times> lock_sys" where
  "cas expected desired s = (if lk s = expected then (True, s\<lparr>lk := desired\<rparr>) else (False, s))"

definition goto :: "nat \<Rightarrow> lpc \<Rightarrow> lock_sys \<Rightarrow> lock_sys" where
  "goto t p s = s\<lparr>lpcs := (lpcs s)(t := p)\<rparr>"

definition lock_start :: "nat \<Rightarrow> lock_sys" where
  "lock_start k = \<lparr>lk = STATUS_UNLOCK, counter = 0, lpcs = (\<lambda>t. AtLock), left = (\<lambda>t. k)\<rparr>"

subsection \<open>The increment\<close>

definition load_counter :: "nat \<Rightarrow> lock_sys \<Rightarrow> lock_sys" where
  "load_counter t s = goto t (Loaded (counter s)) s"

definition store_counter :: "nat \<Rightarrow> int \<Rightarrow> lock_sys \<Rightarrow> lock_sys" where
  "store_counter t c s = goto t Stored (s\<lparr>counter := c + 1\<rparr>)"

subsection \<open>The spin lock\<close>

text \<open>The weak compare-and-swap may fail although the lock is free: \<open>strong\<close> says it does not.\<close>

definition spinlock_lock :: "nat \<Rightarrow> bool \<Rightarrow> lock_sys \<Rightarrow> lock_sys" where
  "spinlock_lock t strong s =
     (if strong then (case cas STATUS_UNLOCK STATUS_LOCK s of (ok, s) \<Rightarrow> if ok then goto t Critical s else s) else s)"

definition spinlock_unlock :: "nat \<Rightarrow> lock_sys \<Rightarrow> lock_sys" where
  "spinlock_unlock t s = (case cas STATUS_LOCK STATUS_UNLOCK s of (ok, s) \<Rightarrow>
     goto t AtLock (s\<lparr>left := (left s)(t := left s t - 1)\<rparr>))"

inductive spin_thread1 :: "nat \<Rightarrow> lock_sys \<Rightarrow> lock_sys \<Rightarrow> bool" for n :: nat where
  Lock: "t < n \<Longrightarrow> lpcs s t = AtLock \<Longrightarrow> 0 < left s t \<Longrightarrow> spin_thread1 n s (spinlock_lock t strong s)"
| Load: "t < n \<Longrightarrow> lpcs s t = Critical \<Longrightarrow> spin_thread1 n s (load_counter t s)"
| Store: "t < n \<Longrightarrow> lpcs s t = Loaded c \<Longrightarrow> spin_thread1 n s (store_counter t c s)"
| Unlock: "t < n \<Longrightarrow> lpcs s t = Stored \<Longrightarrow> spin_thread1 n s (spinlock_unlock t s)"

subsection \<open>The futex mutex\<close>

definition mutex_lock :: "nat \<Rightarrow> lock_sys \<Rightarrow> lock_sys" where
  "mutex_lock t s = (case cas STATUS_UNLOCK STATUS_LOCK s of (ok, s) \<Rightarrow> goto t (if ok then Critical else AtWait) s)"

text \<open>The kernel puts the caller to sleep only if the word still has the value given.\<close>

definition futex_wait :: "nat \<Rightarrow> int \<Rightarrow> lock_sys \<Rightarrow> lock_sys" where
  "futex_wait t val s = (if lk s = val then goto t Asleep s else goto t AtLock s)"

definition mutex_unlock :: "nat \<Rightarrow> lock_sys \<Rightarrow> lock_sys" where
  "mutex_unlock t s = (case cas STATUS_LOCK STATUS_UNLOCK s of (ok, s) \<Rightarrow>
     goto t (if ok then Waking else AtLock) (s\<lparr>left := (left s)(t := left s t - 1)\<rparr>))"

inductive mutex_thread1 :: "nat \<Rightarrow> lock_sys \<Rightarrow> lock_sys \<Rightarrow> bool" for n :: nat where
  Lock: "t < n \<Longrightarrow> lpcs s t = AtLock \<Longrightarrow> 0 < left s t \<Longrightarrow> mutex_thread1 n s (mutex_lock t s)"
| Wait: "t < n \<Longrightarrow> lpcs s t = AtWait \<Longrightarrow> mutex_thread1 n s (futex_wait t STATUS_LOCK s)"
| Spurious: "t < n \<Longrightarrow> lpcs s t = Asleep \<Longrightarrow> mutex_thread1 n s (goto t AtLock s)"
| Load: "t < n \<Longrightarrow> lpcs s t = Critical \<Longrightarrow> mutex_thread1 n s (load_counter t s)"
| Store: "t < n \<Longrightarrow> lpcs s t = Loaded c \<Longrightarrow> mutex_thread1 n s (store_counter t c s)"
| Unlock: "t < n \<Longrightarrow> lpcs s t = Stored \<Longrightarrow> mutex_thread1 n s (mutex_unlock t s)"
| Wake_one: "t < n \<Longrightarrow> lpcs s t = Waking \<Longrightarrow> u < n \<Longrightarrow> lpcs s u = Asleep \<Longrightarrow>
    mutex_thread1 n s (goto t AtLock (goto u AtLock s))"
| Wake_none: "t < n \<Longrightarrow> lpcs s t = Waking \<Longrightarrow> \<forall>u < n. lpcs s u \<noteq> Asleep \<Longrightarrow> mutex_thread1 n s (goto t AtLock s)"

end
