(* ===== verification/LocksProps.thy ===== *)
theory LocksProps
  imports Locks
begin

section \<open>Properties of the home-made locks\<close>

text \<open>
  One invariant serves both programs: whoever is between the lock and the unlock operation is
  alone there, exactly when the word says locked, and the counter and the iterations left add up.
\<close>

named_theorems lock_defs

lemmas [lock_defs] = cas_def goto_def load_counter_def store_counter_def STATUS_LOCK_def STATUS_UNLOCK_def

fun inside :: "lpc \<Rightarrow> bool" where
  "inside Critical = True"
| "inside (Loaded c) = True"
| "inside Stored = True"
| "inside _ = False"

definition exclusive_inv :: "nat \<Rightarrow> lock_sys \<Rightarrow> bool" where
  "exclusive_inv n s \<longleftrightarrow> (lk s = STATUS_UNLOCK \<and> (\<forall>t. \<not> inside (lpcs s t)) \<or>
     lk s = STATUS_LOCK \<and> (\<exists>t < n. inside (lpcs s t) \<and> (\<forall>u. inside (lpcs s u) \<longrightarrow> u = t)))"

definition counting_inv :: "nat \<Rightarrow> nat \<Rightarrow> lock_sys \<Rightarrow> bool" where
  "counting_inv n k s \<longleftrightarrow> (\<forall>t c. lpcs s t = Loaded c \<longrightarrow> c = counter s) \<and>
     (\<forall>t. lpcs s t \<noteq> AtLock \<and> lpcs s t \<noteq> Waking \<longrightarrow> 0 < left s t) \<and>
     counter s + int (sum (left s) {..<n}) = int (n * k) + (if \<exists>t. lpcs s t = Stored then 1 else 0)"

lemma start_exclusive: "exclusive_inv n (lock_start k)"
  by (simp add: exclusive_inv_def lock_start_def)

lemma start_counting: "counting_inv n k (lock_start k)"
  by (simp add: counting_inv_def lock_start_def)

lemma inside_unique: "exclusive_inv n s \<Longrightarrow> inside (lpcs s t) \<Longrightarrow> inside (lpcs s u) \<Longrightarrow> u = t"
  by (auto simp: exclusive_inv_def)

lemma inside_locked: "exclusive_inv n s \<Longrightarrow> inside (lpcs s t) \<Longrightarrow> lk s = STATUS_LOCK \<and> t < n"
  unfolding exclusive_inv_def by metis

lemma exclusive_stay:
  assumes "exclusive_inv n s" and "inside (lpcs s t)" and "inside p" and "lk s' = lk s" and "lpcs s' = (lpcs s)(t := p)"
  shows "exclusive_inv n s'"
proof -
  have "lk s' = STATUS_LOCK" "t < n" using inside_locked[OF assms(1,2)] assms(4) by simp_all
  moreover have "inside (lpcs s' u) \<longrightarrow> u = t" for u using inside_unique[OF assms(1,2), of u] assms(5) by auto
  ultimately show ?thesis using assms(3,5) unfolding exclusive_inv_def by (metis fun_upd_same)
qed

text \<open>Moves outside the critical section change nothing that matters.\<close>

lemma goto_outside:
  assumes "exclusive_inv n s" and "counting_inv n k s" and "\<not> inside (lpcs s t)" and "\<not> inside p"
    and "p \<noteq> AtLock \<and> p \<noteq> Waking \<longrightarrow> 0 < left s t"
  shows "exclusive_inv n (goto t p s)" "counting_inv n k (goto t p s)"
proof -
  have i: "inside (lpcs (goto t p s) u) = inside (lpcs s u)" for u using assms(3,4) by (simp add: goto_def)
  show "exclusive_inv n (goto t p s)" using assms(1) i by (simp add: exclusive_inv_def) (simp add: goto_def)
  have "(\<exists>u. lpcs (goto t p s) u = Stored) = (\<exists>u. lpcs s u = Stored)"
    using assms(3,4) by (metis goto_def fun_upd_apply inside.simps(3) lock_sys.select_convs(3) lock_sys.surjective lock_sys.update_convs(3))
  moreover have "c = counter s" if "lpcs (goto t p s) u = Loaded c" for u c
    using that assms(2,4) by (auto simp: goto_def counting_inv_def split: if_splits)
  ultimately show "counting_inv n k (goto t p s)"
    using assms(2,5) by (simp add: counting_inv_def) (auto simp: goto_def)
qed

text \<open>Entering, and the steps of the one thread inside.\<close>

lemma enter_inv:
  assumes "exclusive_inv n s" and "counting_inv n k s" and "lk s = STATUS_UNLOCK" and "t < n" and "0 < left s t"
  shows "exclusive_inv n (goto t Critical (s\<lparr>lk := STATUS_LOCK\<rparr>))" "counting_inv n k (goto t Critical (s\<lparr>lk := STATUS_LOCK\<rparr>))"
proof -
  have none: "\<not> inside (lpcs s u)" for u using assms(1,3) by (auto simp: exclusive_inv_def lock_defs)
  then show "exclusive_inv n (goto t Critical (s\<lparr>lk := STATUS_LOCK\<rparr>))"
    using assms(4) by (auto simp: exclusive_inv_def goto_def)
  have "lpcs s u \<noteq> Stored" "lpcs s u \<noteq> Loaded c" for u c using none[of u] by auto
  then show "counting_inv n k (goto t Critical (s\<lparr>lk := STATUS_LOCK\<rparr>))"
    using assms(2,5) by (auto simp: counting_inv_def goto_def)
qed

lemma load_inv:
  assumes "exclusive_inv n s" and "counting_inv n k s" and "lpcs s t = Critical"
  shows "exclusive_inv n (load_counter t s)" "counting_inv n k (load_counter t s)"
proof -
  have u: "u = t" if "inside (lpcs s u)" for u using inside_unique[OF assms(1) _ that, of t] assms(3) by simp
  have ns: "lpcs s u \<noteq> Stored \<and> lpcs s u \<noteq> Loaded c" for u c using u[of u] assms(3) by auto
  show "exclusive_inv n (load_counter t s)"
    by (rule exclusive_stay[OF assms(1), of t "Loaded (counter s)"]) (simp_all add: assms(3) lock_defs)
  show "counting_inv n k (load_counter t s)"
    using assms(2,3) ns by (auto simp: counting_inv_def load_counter_def goto_def)
qed

lemma store_inv:
  assumes "exclusive_inv n s" and "counting_inv n k s" and "lpcs s t = Loaded c"
  shows "exclusive_inv n (store_counter t c s)" "counting_inv n k (store_counter t c s)"
proof -
  have u: "u = t" if "inside (lpcs s u)" for u using inside_unique[OF assms(1) _ that, of t] assms(3) by simp
  have ns: "lpcs s u \<noteq> Stored \<and> (u \<noteq> t \<longrightarrow> lpcs s u \<noteq> Loaded d)" for u d using u[of u] assms(3) by auto
  have c: "c = counter s" using assms(2,3) by (simp add: counting_inv_def)
  show "exclusive_inv n (store_counter t c s)"
    by (rule exclusive_stay[OF assms(1), of t Stored]) (simp_all add: assms(3) lock_defs)
  show "counting_inv n k (store_counter t c s)"
    unfolding counting_inv_def
  proof (intro conjI allI impI)
    fix u d assume "lpcs (store_counter t c s) u = Loaded d"
    then show "d = counter (store_counter t c s)" using ns[of u d] by (auto simp: lock_defs split: if_splits)
  next
    fix u assume "lpcs (store_counter t c s) u \<noteq> AtLock \<and> lpcs (store_counter t c s) u \<noteq> Waking"
    then show "0 < left (store_counter t c s) u"
      using assms(2,3) by (cases "u = t") (auto simp: counting_inv_def lock_defs)
  next
    have "counter s + int (sum (left s) {..<n}) = int (n * k)"
      using assms(2) ns unfolding counting_inv_def by auto
    moreover have "\<exists>u. lpcs (store_counter t c s) u = Stored" by (auto simp: lock_defs)
    ultimately show "counter (store_counter t c s) + int (sum (left (store_counter t c s)) {..<n}) =
        int (n * k) + (if \<exists>u. lpcs (store_counter t c s) u = Stored then 1 else 0)"
      using c by (simp add: store_counter_def goto_def)
  qed
qed

lemma unlock_inv:
  assumes "exclusive_inv n s" and "counting_inv n k s" and "lpcs s t = Stored" and "t < n" and "p \<in> {AtLock, Waking}"
  shows "exclusive_inv n (goto t p (s\<lparr>lk := STATUS_UNLOCK, left := (left s)(t := left s t - 1)\<rparr>))"
    "counting_inv n k (goto t p (s\<lparr>lk := STATUS_UNLOCK, left := (left s)(t := left s t - 1)\<rparr>))"
proof -
  have u: "u = t" if "inside (lpcs s u)" for u using inside_unique[OF assms(1) _ that, of t] assms(3) by simp
  have ns: "(u \<noteq> t \<longrightarrow> lpcs s u \<noteq> Stored) \<and> lpcs s u \<noteq> Loaded d" for u d using u[of u] assms(3) by auto
  show "exclusive_inv n (goto t p (s\<lparr>lk := STATUS_UNLOCK, left := (left s)(t := left s t - 1)\<rparr>))"
    using assms(5) u by (auto simp: exclusive_inv_def goto_def)
  have pos: "0 < left s t" using assms(2,3) by (simp add: counting_inv_def)
  have "sum (left s) {..<n} = left s t + sum (left s) ({..<n} - {t})" using assms(4) by (simp add: sum.remove)
  moreover have "sum ((left s)(t := left s t - 1)) {..<n} = left s t - 1 + sum (left s) ({..<n} - {t})"
    using assms(4) by (simp add: sum.remove)
  ultimately have "sum (left s) {..<n} = Suc (sum ((left s)(t := left s t - 1)) {..<n})" using pos by simp
  moreover have "counter s + int (sum (left s) {..<n}) = int (n * k) + 1"
    using assms(2,3) unfolding counting_inv_def by auto
  ultimately show "counting_inv n k (goto t p (s\<lparr>lk := STATUS_UNLOCK, left := (left s)(t := left s t - 1)\<rparr>))"
    using assms(2,5) ns by (auto simp: counting_inv_def goto_def)
qed

subsection \<open>The spin lock\<close>

lemma spin_step_inv:
  assumes "spin_thread1 n s s'" and "exclusive_inv n s" and "counting_inv n k s"
  shows "exclusive_inv n s' \<and> counting_inv n k s'"
  using assms(1)
proof (cases rule: spin_thread1.cases)
  case (Lock t strong)
  then show ?thesis using assms(2,3) enter_inv[OF assms(2,3), of t]
    by (auto simp: spinlock_lock_def cas_def)
next
  case (Load t)
  then show ?thesis using load_inv[OF assms(2,3)] by simp
next
  case (Store t c)
  then show ?thesis using store_inv[OF assms(2,3)] by simp
next
  case (Unlock t)
  then have "lk s = STATUS_LOCK" using inside_locked[OF assms(2), of t] by simp
  then show ?thesis using Unlock unlock_inv[OF assms(2,3) Unlock(3,2), of AtLock]
    by (simp add: spinlock_unlock_def cas_def)
qed

lemma spin_reachable_inv:
  "(spin_thread1 n)\<^sup>*\<^sup>* (lock_start k) s \<Longrightarrow> exclusive_inv n s \<and> counting_inv n k s"
  by (induction rule: rtranclp_induct) (use start_exclusive start_counting spin_step_inv in blast)+

lemma counter_total:
  assumes "exclusive_inv n s" and "counting_inv n k s"
  shows "counter s \<le> int (n * k)" and "(\<forall>t < n. left s t = 0) \<Longrightarrow> counter s = int (n * k)"
proof -
  show "(\<forall>t < n. left s t = 0) \<Longrightarrow> counter s = int (n * k)"
  proof -
    assume z: "\<forall>t < n. left s t = 0"
    have "lpcs s t \<noteq> Stored" for t
    proof
      assume st: "lpcs s t = Stored"
      then have "t < n" "0 < left s t" using inside_locked[OF assms(1), of t] assms(2) by (simp_all add: counting_inv_def)
      then show False using z by simp
    qed
    then show ?thesis using assms(2) z by (simp add: counting_inv_def)
  qed
  show "counter s \<le> int (n * k)"
  proof (cases "\<exists>t. lpcs s t = Stored")
    case True
    then obtain t where t: "lpcs s t = Stored" by blast
    then have "t < n" "0 < left s t" using inside_locked[OF assms(1), of t] assms(2) by (simp_all add: counting_inv_def)
    then have "0 < sum (left s) {..<n}" by (simp add: sum_pos2)
    then show ?thesis using assms(2) True by (simp add: counting_inv_def del: of_nat_sum)
  qed (use assms(2) in \<open>simp add: counting_inv_def del: of_nat_sum\<close>)
qed

text \<open>The threads of the spin lock are never in a futex call; one of them can always go on.\<close>

lemma spin_never_futex:
  assumes "(spin_thread1 n)\<^sup>*\<^sup>* (lock_start k) s"
  shows "lpcs s t \<notin> {AtWait, Asleep, Waking}"
  using assms
proof (induction rule: rtranclp_induct)
  case (step u v)
  then show ?case
    by (auto elim!: spin_thread1.cases simp: lock_defs spinlock_lock_def spinlock_unlock_def split: if_splits)
qed (simp add: lock_start_def)

lemma spin_progress:
  assumes "(spin_thread1 n)\<^sup>*\<^sup>* (lock_start k) s" and i: "exclusive_inv n s" and t: "t < n" and todo: "0 < left s t"
  shows "\<exists>s'. spin_thread1 n s s' \<and> s' \<noteq> s"
proof (cases "\<exists>u. inside (lpcs s u)")
  case True
  then obtain u where u: "inside (lpcs s u)" by blast
  then have un: "u < n" using inside_locked[OF i u] by simp
  consider "lpcs s u = Critical" | c where "lpcs s u = Loaded c" | "lpcs s u = Stored"
    using u by (cases "lpcs s u") auto
  then have "\<exists>s'. spin_thread1 n s s' \<and> lpcs s' u \<noteq> lpcs s u"
  proof cases
    case 1
    then have "spin_thread1 n s (load_counter u s)" "lpcs (load_counter u s) u \<noteq> lpcs s u"
      using spin_thread1.Load[OF un] by (simp_all add: lock_defs)
    then show ?thesis by blast
  next
    case 2
    then have "spin_thread1 n s (store_counter u c s)" "lpcs (store_counter u c s) u \<noteq> lpcs s u"
      using spin_thread1.Store[OF un] by (simp_all add: lock_defs)
    then show ?thesis by blast
  next
    case 3
    then have "spin_thread1 n s (spinlock_unlock u s)" "lpcs (spinlock_unlock u s) u \<noteq> lpcs s u"
      using spin_thread1.Unlock[OF un] by (simp_all add: spinlock_unlock_def lock_defs)
    then show ?thesis by blast
  qed
  then show ?thesis by auto
next
  case False
  then have "lk s = STATUS_UNLOCK" using i by (auto simp: exclusive_inv_def)
  moreover have "lpcs s t = AtLock" using False spin_never_futex[OF assms(1), of t] by (cases "lpcs s t") (auto dest: spec[of _ t])
  ultimately have "spin_thread1 n s (spinlock_lock t True s)" "lpcs (spinlock_lock t True s) t \<noteq> lpcs s t"
    using spin_thread1.Lock[OF t _ todo, of True] by (simp_all add: spinlock_lock_def lock_defs)
  then show ?thesis by metis
qed

text \<open>C23:
  The spin lock excludes: in every interleaving of \<open>n\<close> threads at most one is between the lock and
  the unlock operation, so no increment is lost; the counter never exceeds the increments asked
  for and is exactly their number when all threads are done; and while a thread is not done some
  step changes the state.
\<close>

theorem spinlock_counts_exactly:
  assumes "(spin_thread1 n)\<^sup>*\<^sup>* (lock_start COUNT_ITERATION) s"
  shows "(\<forall>t u. inside (lpcs s t) \<and> inside (lpcs s u) \<longrightarrow> t = u) \<and> counter s \<le> int (n * COUNT_ITERATION) \<and>
    ((\<forall>t < n. left s t = 0) \<longrightarrow> counter s = int (n * COUNT_ITERATION)) \<and>
    ((\<exists>t < n. 0 < left s t) \<longrightarrow> (\<exists>s'. spin_thread1 n s s' \<and> s' \<noteq> s))"
proof -
  have i: "exclusive_inv n s" "counting_inv n COUNT_ITERATION s" using spin_reachable_inv[OF assms] by simp_all
  have "\<exists>s'. spin_thread1 n s s' \<and> s' \<noteq> s" if "t < n" "0 < left s t" for t
    by (rule spin_progress[OF assms i(1) that])
  then show ?thesis using counter_total[OF i] inside_unique[OF i(1)] by blast
qed

theorem spinlock_counts_exactly_witness:
  "let s = spinlock_lock 0 True (lock_start COUNT_ITERATION) in
    inside (lpcs s 0) \<and> (\<forall>u. inside (lpcs s u) \<longrightarrow> 0 = u) \<and> counter s \<le> 200000"
proof -
  let ?s = "spinlock_lock 0 True (lock_start COUNT_ITERATION)"
  have "spin_thread1 2 (lock_start COUNT_ITERATION) ?s"
    by (rule spin_thread1.Lock) (simp_all add: lock_start_def COUNT_ITERATION_def)
  then have "(spin_thread1 2)\<^sup>*\<^sup>* (lock_start COUNT_ITERATION) ?s" by (rule r_into_rtranclp)
  moreover have "inside (lpcs ?s 0)" by (simp add: spinlock_lock_def lock_defs lock_start_def)
  ultimately show ?thesis using spinlock_counts_exactly[of 2 ?s] by (simp add: Let_def COUNT_ITERATION_def)
qed

subsection \<open>The futex mutex\<close>

text \<open>A thread that will go on without being woken.\<close>

definition awake :: "lock_sys \<Rightarrow> nat \<Rightarrow> bool" where
  "awake s t \<longleftrightarrow> lpcs s t \<noteq> Asleep \<and> (lpcs s t = AtLock \<longrightarrow> 0 < left s t)"

text \<open>When the mutex is free and a thread sleeps for it, another is awake.\<close>

definition wake_inv :: "nat \<Rightarrow> lock_sys \<Rightarrow> bool" where
  "wake_inv n s \<longleftrightarrow> (lk s = STATUS_UNLOCK \<longrightarrow> (\<exists>t < n. lpcs s t = Asleep) \<longrightarrow> (\<exists>u < n. awake s u))"

lemma goto_simps [simp]: "lk (goto t p s) = lk s" "left (goto t p s) = left s" "counter (goto t p s) = counter s"
  "lpcs (goto t p s) = (lpcs s)(t := p)"
  by (simp_all add: goto_def)

lemma wake_inv_self: "t < n \<Longrightarrow> awake s t \<Longrightarrow> wake_inv n s"
  by (auto simp: wake_inv_def)

lemma mutex_step_inv:
  assumes "mutex_thread1 n s s'" and e: "exclusive_inv n s" and c: "counting_inv n k s" and w: "wake_inv n s"
  shows "exclusive_inv n s' \<and> counting_inv n k s' \<and> wake_inv n s'"
  using assms(1)
proof (cases rule: mutex_thread1.cases)
  case (Lock t)
  have "awake (mutex_lock t s) t" using Lock by (auto simp: mutex_lock_def cas_def awake_def)
  moreover have "exclusive_inv n (mutex_lock t s) \<and> counting_inv n k (mutex_lock t s)"
    using Lock goto_outside[OF e c, of t AtWait] enter_inv[OF e c, of t] by (simp add: mutex_lock_def cas_def)
  ultimately show ?thesis using Lock wake_inv_self by blast
next
  case (Wait t)
  have "0 < left s t" using c Wait by (simp add: counting_inv_def)
  then have "exclusive_inv n s' \<and> counting_inv n k s'"
    using Wait goto_outside[OF e c, of t AtLock] goto_outside[OF e c, of t Asleep] by (simp add: futex_wait_def)
  moreover have "wake_inv n s'"
    using Wait \<open>0 < left s t\<close> by (auto simp: futex_wait_def wake_inv_def awake_def lock_defs)
  ultimately show ?thesis by blast
next
  case (Spurious t)
  have "0 < left s t" using c Spurious by (simp add: counting_inv_def)
  then show ?thesis using Spurious goto_outside[OF e c, of t AtLock] wake_inv_self[of t n "goto t AtLock s"]
    by (simp add: awake_def)
next
  case (Load t)
  then show ?thesis using load_inv[OF e c] wake_inv_self[of t n "load_counter t s"]
    by (simp add: awake_def load_counter_def)
next
  case (Store t d)
  then show ?thesis using store_inv[OF e c] wake_inv_self[of t n "store_counter t d s"]
    by (simp add: awake_def store_counter_def)
next
  case (Unlock t)
  then have "lk s = STATUS_LOCK" using inside_locked[OF e, of t] by simp
  then have "s' = goto t Waking (s\<lparr>lk := STATUS_UNLOCK, left := (left s)(t := left s t - 1)\<rparr>)"
    using Unlock by (simp add: mutex_unlock_def cas_def)
  then show ?thesis using unlock_inv[OF e c Unlock(3,2), of Waking] wake_inv_self[of t n s'] Unlock(2)
    by (simp add: awake_def)
next
  case (Wake_one t u)
  have l: "0 < left s u" using c Wake_one by (simp add: counting_inv_def)
  note g = goto_outside[OF e c, of u AtLock]
  have "exclusive_inv n s' \<and> counting_inv n k s'"
    using Wake_one g goto_outside[of n "goto u AtLock s" k t AtLock] by auto
  moreover have "awake s' u" using Wake_one l by (simp add: awake_def)
  ultimately show ?thesis using Wake_one wake_inv_self by blast
next
  case (Wake_none t)
  then have "wake_inv n s'" by (auto simp: wake_inv_def)
  then show ?thesis using Wake_none goto_outside[OF e c, of t AtLock] by simp
qed

lemma mutex_reachable_inv:
  "(mutex_thread1 n)\<^sup>*\<^sup>* (lock_start k) s \<Longrightarrow> exclusive_inv n s \<and> counting_inv n k s \<and> wake_inv n s"
proof (induction rule: rtranclp_induct)
  case base
  then show ?case using start_exclusive start_counting by (simp add: wake_inv_def lock_start_def)
qed (use mutex_step_inv in blast)

text \<open>An awake thread has a next step.\<close>

lemma awake_steps:
  assumes "awake s t" and "t < n"
  shows "\<exists>s'. mutex_thread1 n s s'"
proof (cases "lpcs s t")
  case AtLock
  then show ?thesis using mutex_thread1.Lock[OF assms(2)] assms(1) by (auto simp: awake_def)
next
  case AtWait
  then show ?thesis using mutex_thread1.Wait[OF assms(2)] by blast
next
  case Asleep
  then show ?thesis using mutex_thread1.Spurious[OF assms(2)] by blast
next
  case Critical
  then show ?thesis using mutex_thread1.Load[OF assms(2)] by blast
next
  case (Loaded c)
  then show ?thesis using mutex_thread1.Store[OF assms(2)] by blast
next
  case Stored
  then show ?thesis using mutex_thread1.Unlock[OF assms(2)] by blast
next
  case Waking
  then show ?thesis using mutex_thread1.Wake_one[OF assms(2)] mutex_thread1.Wake_none[OF assms(2)] by blast
qed

text \<open>C24:
  The futex mutex excludes and loses no wake-up, in every interleaving of \<open>n\<close> threads, spurious
  returns of \<open>FUTEX_WAIT\<close> included: at most one thread is between the lock and the unlock operation,
  no increment is lost, the counter is exact when all threads are done, and while a thread is not
  done some thread is awake and has a next step: they never all sleep.
\<close>

theorem futex_mutex_counts_exactly:
  assumes "(mutex_thread1 n)\<^sup>*\<^sup>* (lock_start COUNT_ITERATION) s"
  shows "(\<forall>t u. inside (lpcs s t) \<and> inside (lpcs s u) \<longrightarrow> t = u) \<and> counter s \<le> int (n * COUNT_ITERATION) \<and>
    ((\<forall>t < n. left s t = 0) \<longrightarrow> counter s = int (n * COUNT_ITERATION)) \<and>
    ((\<exists>t < n. 0 < left s t) \<longrightarrow> (\<exists>t < n. awake s t \<and> (\<exists>s'. mutex_thread1 n s s')))"
proof -
  have i: "exclusive_inv n s" "counting_inv n COUNT_ITERATION s" "wake_inv n s"
    using mutex_reachable_inv[OF assms] by simp_all
  have "\<exists>u < n. awake s u" if t: "t < n" "0 < left s t" for t
  proof (cases "lpcs s t = Asleep")
    case False
    then show ?thesis using t by (auto simp: awake_def)
  next
    case True
    show ?thesis
    proof (cases "lk s = STATUS_UNLOCK")
      case False
      then obtain u where "u < n" "inside (lpcs s u)" using i(1) by (auto simp: exclusive_inv_def)
      then show ?thesis by (intro exI[of _ u]) (auto simp: awake_def)
    qed (use i(3) True t in \<open>auto simp: wake_inv_def\<close>)
  qed
  then show ?thesis using counter_total[OF i(1,2)] inside_unique[OF i(1)] awake_steps by metis
qed

theorem futex_mutex_counts_exactly_witness:
  "let s = mutex_lock 1 (mutex_lock 0 (lock_start COUNT_ITERATION)) in
    lpcs s 1 = AtWait \<and> (\<forall>u. inside (lpcs s u) \<longrightarrow> 0 = u) \<and> counter s \<le> 200000"
proof -
  let ?s0 = "lock_start COUNT_ITERATION" and ?s1 = "mutex_lock 0 (lock_start COUNT_ITERATION)"
  have "mutex_thread1 2 ?s0 ?s1"
    by (rule mutex_thread1.Lock) (simp_all add: lock_start_def COUNT_ITERATION_def)
  moreover have "mutex_thread1 2 ?s1 (mutex_lock 1 ?s1)"
    by (rule mutex_thread1.Lock) (simp_all add: lock_start_def COUNT_ITERATION_def mutex_lock_def lock_defs)
  ultimately have "(mutex_thread1 2)\<^sup>*\<^sup>* ?s0 (mutex_lock 1 ?s1)" by (meson rtranclp.rtrancl_into_rtrancl r_into_rtranclp)
  moreover have "inside (lpcs (mutex_lock 1 ?s1) 0)" "lpcs (mutex_lock 1 ?s1) 1 = AtWait"
    by (simp_all add: mutex_lock_def lock_defs lock_start_def)
  ultimately show ?thesis using futex_mutex_counts_exactly[of 2 "mutex_lock 1 ?s1"]
    by (simp add: Let_def COUNT_ITERATION_def)
qed

end
