(* ===== verification/LockMains.thy ===== *)
theory LockMains
  imports LocksProps
begin

section \<open>The programs that count under the locks\<close>

text \<open>
  The \<open>main\<close> functions of \<^verbatim>\<open>2/2.4\<close>: they create a hundred threads, which run from then on, join them in turn and print
  the counter. Any creation and any join may fail, which ends the process with status 1. The two programs are the
  same but for the threads, whose steps are a parameter.
\<close>

definition N_THREADS :: nat where "N_THREADS = 100"

datatype lock_main = L_create nat | L_join nat | L_done int

record lock_program =
  l_sys :: lock_sys
  l_main :: lock_main
  shown :: "int option"

definition created :: "lock_main \<Rightarrow> nat" where
  "created m = (case m of L_create i \<Rightarrow> i | _ \<Rightarrow> N_THREADS)"

definition thread_done :: "lock_sys \<Rightarrow> nat \<Rightarrow> bool" where
  "thread_done s t \<longleftrightarrow> lpcs s t = AtLock \<and> left s t = 0"

inductive lock_main_step :: "(nat \<Rightarrow> lock_sys \<Rightarrow> lock_sys \<Rightarrow> bool) \<Rightarrow> lock_program \<Rightarrow> lock_program \<Rightarrow> bool"
  for threads :: "nat \<Rightarrow> lock_sys \<Rightarrow> lock_sys \<Rightarrow> bool" where
  Create: "l_main p = L_create i \<Longrightarrow> i < N_THREADS \<Longrightarrow> lock_main_step threads p (p\<lparr>l_main := L_create (i + 1)\<rparr>)"
| Create_fails: "l_main p = L_create i \<Longrightarrow> i < N_THREADS \<Longrightarrow> lock_main_step threads p (p\<lparr>l_main := L_done 1\<rparr>)"
| All_created: "l_main p = L_create N_THREADS \<Longrightarrow> lock_main_step threads p (p\<lparr>l_main := L_join 0\<rparr>)"
| Join: "l_main p = L_join i \<Longrightarrow> i < N_THREADS \<Longrightarrow> thread_done (l_sys p) i \<Longrightarrow>
    lock_main_step threads p (p\<lparr>l_main := L_join (i + 1)\<rparr>)"
| Join_fails: "l_main p = L_join i \<Longrightarrow> i < N_THREADS \<Longrightarrow> lock_main_step threads p (p\<lparr>l_main := L_done 1\<rparr>)"
| Print: "l_main p = L_join N_THREADS \<Longrightarrow>
    lock_main_step threads p (p\<lparr>shown := Some (counter (l_sys p)), l_main := L_done 0\<rparr>)"
| Thread: "\<forall>st. l_main p \<noteq> L_done st \<Longrightarrow> threads (created (l_main p)) (l_sys p) s \<Longrightarrow>
    lock_main_step threads p (p\<lparr>l_sys := s\<rparr>)"

definition lock_main_start :: lock_program where
  "lock_main_start = \<lparr>l_sys = lock_start COUNT_ITERATION, l_main = L_create 0, shown = None\<rparr>"

definition spin_counting_main :: "lock_program \<Rightarrow> lock_program \<Rightarrow> bool" where
  "spin_counting_main = lock_main_step spin_thread1"

definition mutex_counting_main :: "lock_program \<Rightarrow> lock_program \<Rightarrow> bool" where
  "mutex_counting_main = lock_main_step mutex_thread1"

subsection \<open>What main relies on\<close>

text \<open>
  The threads below \<open>m\<close> keep the invariant of \<open>N_THREADS\<close> threads, the others stay where they start, and a
  thread that is done stays so.
\<close>

definition idle_above :: "nat \<Rightarrow> lock_sys \<Rightarrow> bool" where
  "idle_above m s \<longleftrightarrow> (\<forall>t \<ge> m. lpcs s t = AtLock)"

locale counting_threads =
  fixes threads :: "nat \<Rightarrow> lock_sys \<Rightarrow> lock_sys \<Rightarrow> bool"
    and inv :: "lock_sys \<Rightarrow> bool"
  assumes inv_start: "inv (lock_start COUNT_ITERATION)"
    and inv_threads: "threads m s s' \<Longrightarrow> m \<le> N_THREADS \<Longrightarrow> idle_above m s \<Longrightarrow> inv s \<Longrightarrow> inv s'"
    and inv_counts: "inv s \<Longrightarrow> \<forall>t < N_THREADS. left s t = 0 \<Longrightarrow> counter s = int (N_THREADS * COUNT_ITERATION)"
    and done_threads: "threads m s s' \<Longrightarrow> thread_done s t \<Longrightarrow> thread_done s' t"
    and idle_threads: "threads m s s' \<Longrightarrow> idle_above m s \<Longrightarrow> idle_above m s'"
begin

definition main_inv :: "lock_program \<Rightarrow> bool" where
  "main_inv p \<longleftrightarrow> inv (l_sys p) \<and> created (l_main p) \<le> N_THREADS \<and> idle_above (created (l_main p)) (l_sys p) \<and>
     (\<forall>i. l_main p = L_join i \<longrightarrow> i \<le> N_THREADS \<and> (\<forall>t < i. thread_done (l_sys p) t)) \<and>
     (l_main p = L_done 0 \<longleftrightarrow> shown p \<noteq> None) \<and> (shown p \<in> {None, Some (int (N_THREADS * COUNT_ITERATION))})"

lemma main_step_inv:
  assumes "lock_main_step threads p q" and i: "main_inv p"
  shows "main_inv q"
  using assms(1)
proof (cases rule: lock_main_step.cases)
  case (Create n)
  then show ?thesis using i by (auto simp: main_inv_def created_def idle_above_def)
next
  case (Create_fails n)
  then show ?thesis using i by (auto simp: main_inv_def created_def idle_above_def)
next
  case All_created
  then show ?thesis using i by (auto simp: main_inv_def created_def idle_above_def)
next
  case (Join n)
  then show ?thesis using i by (auto simp: main_inv_def created_def less_Suc_eq)
next
  case (Join_fails n)
  then show ?thesis using i by (auto simp: main_inv_def created_def)
next
  case Print
  then have "\<forall>t < N_THREADS. left (l_sys p) t = 0" using i by (auto simp: main_inv_def thread_done_def)
  then show ?thesis using Print i inv_counts by (auto simp: main_inv_def created_def)
next
  case (Thread s)
  have "inv s" "idle_above (created (l_main p)) s"
    using inv_threads[OF Thread(3)] idle_threads[OF Thread(3)] i by (simp_all add: main_inv_def)
  moreover have "thread_done (l_sys p) t \<Longrightarrow> thread_done s t" for t by (rule done_threads[OF Thread(3)])
  ultimately show ?thesis using Thread(1,2) i by (auto simp: main_inv_def)
qed

lemma program_shows_total:
  assumes "(lock_main_step threads)\<^sup>*\<^sup>* lock_main_start p"
  shows "(l_main p = L_done 0 \<longleftrightarrow> shown p \<noteq> None) \<and> shown p \<in> {None, Some (int (N_THREADS * COUNT_ITERATION))}"
proof -
  have "main_inv lock_main_start"
    using inv_start by (simp add: main_inv_def lock_main_start_def created_def idle_above_def lock_start_def)
  with assms have "main_inv p" by (induction rule: rtranclp_induct) (auto intro: main_step_inv)
  then show ?thesis by (simp add: main_inv_def)
qed

end

subsection \<open>The two programs\<close>

lemma spin_more: "spin_thread1 m s s' \<Longrightarrow> m \<le> n \<Longrightarrow> spin_thread1 n s s'"
  by (auto elim!: spin_thread1.cases intro: spin_thread1.intros)

lemma mutex_more:
  assumes "mutex_thread1 m s s'" and "m \<le> n" and "idle_above m s"
  shows "mutex_thread1 n s s'"
  using assms(1)
proof (cases rule: mutex_thread1.cases)
  case (Wake_none t)
  then have "\<forall>u < n. lpcs s u \<noteq> Asleep" using assms(3) by (metis idle_above_def lpc.distinct(3) not_less)
  then show ?thesis using Wake_none assms(2) mutex_thread1.Wake_none[of t n s] by simp
qed (use assms(2) in \<open>auto intro: mutex_thread1.intros\<close>)

lemma spin_steps_stay:
  assumes "spin_thread1 m s s'"
  shows "thread_done s t \<Longrightarrow> thread_done s' t" "idle_above m s \<Longrightarrow> idle_above m s'"
  using assms
  by (auto elim!: spin_thread1.cases simp: thread_done_def idle_above_def lock_defs spinlock_lock_def spinlock_unlock_def)

lemma mutex_steps_stay:
  assumes "mutex_thread1 m s s'"
  shows "thread_done s t \<Longrightarrow> thread_done s' t" "idle_above m s \<Longrightarrow> idle_above m s'"
  using assms
  by (auto elim!: mutex_thread1.cases simp: thread_done_def idle_above_def lock_defs mutex_lock_def mutex_unlock_def
      futex_wait_def)

interpretation spin_count: counting_threads spin_thread1 "\<lambda>s. exclusive_inv N_THREADS s \<and> counting_inv N_THREADS COUNT_ITERATION s"
proof unfold_locales
  fix m s s' assume "spin_thread1 m s s'" "m \<le> N_THREADS"
    "exclusive_inv N_THREADS s \<and> counting_inv N_THREADS COUNT_ITERATION s"
  then show "exclusive_inv N_THREADS s' \<and> counting_inv N_THREADS COUNT_ITERATION s'"
    using spin_step_inv[OF spin_more] by blast
qed (use start_exclusive start_counting counter_total(2) spin_steps_stay in blast)+

interpretation mutex_count: counting_threads mutex_thread1
  "\<lambda>s. exclusive_inv N_THREADS s \<and> counting_inv N_THREADS COUNT_ITERATION s \<and> wake_inv N_THREADS s"
proof unfold_locales
  fix m s s' assume "mutex_thread1 m s s'" "m \<le> N_THREADS" "idle_above m s"
    "exclusive_inv N_THREADS s \<and> counting_inv N_THREADS COUNT_ITERATION s \<and> wake_inv N_THREADS s"
  then show "exclusive_inv N_THREADS s' \<and> counting_inv N_THREADS COUNT_ITERATION s' \<and> wake_inv N_THREADS s'"
    using mutex_step_inv[OF mutex_more] by blast
next
  show "exclusive_inv N_THREADS (lock_start COUNT_ITERATION) \<and>
      counting_inv N_THREADS COUNT_ITERATION (lock_start COUNT_ITERATION) \<and> wake_inv N_THREADS (lock_start COUNT_ITERATION)"
    using start_exclusive start_counting by (simp add: wake_inv_def lock_start_def)
qed (use counter_total(2) mutex_steps_stay in blast)+

text \<open>
  What the two programs print is exact: in every execution \<open>main\<close> returns 0 only when it has printed ten million, and it
  prints nothing else. That is below \<open>2 ^ 31\<close>, so the \<open>int\<close> that counts does not overflow.
\<close>

theorem lock_programs_print_total:
  assumes "spin_counting_main\<^sup>*\<^sup>* lock_main_start p \<or> mutex_counting_main\<^sup>*\<^sup>* lock_main_start p"
  shows "(l_main p = L_done 0 \<longleftrightarrow> shown p \<noteq> None) \<and> shown p \<in> {None, Some 10000000}"
  using assms spin_count.program_shows_total[of p] mutex_count.program_shows_total[of p]
  by (auto simp: spin_counting_main_def mutex_counting_main_def N_THREADS_def COUNT_ITERATION_def)

end
