(* ===== verification/Uthread.thy ===== *)
theory Uthread
  imports Prelude
begin

section \<open>User-level threads\<close>

text \<open>
  \<^verbatim>\<open>1/1.7\<close>: the table of threads, their creation, the round-robin choice of the next one, and the program
  that runs them. A context is the place in the code where it resumes; a thread's variables live on its own stack
  and are part of that place.
\<close>

definition MAX_THREADS :: nat where
  "MAX_THREADS = 10"

text \<open>The sizes of a \<open>uthread_struct_t\<close> and of a pointer to it on x86-64 with glibc.\<close>

definition sizeof_uthread_struct :: nat where
  "sizeof_uthread_struct = 1008"

definition sizeof_uthread_t :: nat where
  "sizeof_uthread_t = 8"

record uthread =
  uthread_id :: int
  uarg :: int
  ss_sp :: addr
  is_finished :: bool

text \<open>
  The struct of slot 0 is not allocated by this code: it is whatever the caller of \<open>uthread_manager_init\<close> passes the
  address of. \<open>main_room\<close> are the bytes of that object.
\<close>

record uthread_manager =
  uthreads :: "uthread option list"
  uthread_count :: nat
  uthread_cur :: nat
  main_room :: nat

text \<open>The array is not initialised but for its first element; \<open>rest\<close> is what it holds.\<close>

definition uthread_manager_init :: "nat \<Rightarrow> uthread option \<Rightarrow> uthread option list \<Rightarrow> uthread_manager" where
  "uthread_manager_init room main_thread rest =
     \<lparr>uthreads = main_thread # take (MAX_THREADS - 1) rest, uthread_count = 1, uthread_cur = 0, main_room = room\<rparr>"

text \<open>
  Whether the fields of the struct in a slot lie within the object they belong to. The other slots point to structs
  in the stacks of their threads.
\<close>

definition slot_fits :: "uthread_manager \<Rightarrow> nat \<Rightarrow> bool" where
  "slot_fits m i \<longleftrightarrow> i = 0 \<longrightarrow> sizeof_uthread_struct \<le> main_room m"

text \<open>
  \<open>stack\<close> is what \<open>mmap\<close> returns. The result is the slot of the new thread, and \<open>None\<close> for the -1 of an error.
\<close>

definition uthread_create :: "ptr \<Rightarrow> bool \<Rightarrow> int \<Rightarrow> uthread_manager \<Rightarrow> (nat option \<times> uthread_manager) run" where
  "uthread_create stack getcontext_ok arg m =
     (case stack of None \<Rightarrow> ret (None, m)
      | Some sp \<Rightarrow>
          if \<not> getcontext_ok then ret (None, m)
          else if MAX_THREADS \<le> uthread_count m then crashed OutOfBounds
          else ret (Some (uthread_count m), m\<lparr>uthreads := (uthreads m)[uthread_count m :=
              Some \<lparr>uthread_id = int (uthread_count m) + 1, uarg = arg, ss_sp = sp, is_finished = False\<rparr>],
            uthread_count := uthread_count m + 1\<rparr>))"

definition is_thread_finished :: "uthread \<Rightarrow> bool" where
  "is_thread_finished t = is_finished t"

text \<open>The end of a thread: it marks itself; the scheduler's index still names it.\<close>

definition uthread_startup :: "nat \<Rightarrow> uthread_manager \<Rightarrow> uthread_manager" where
  "uthread_startup i m = m\<lparr>uthreads := (uthreads m)[i := map_option (\<lambda>t. t\<lparr>is_finished := True\<rparr>) (uthreads m ! i)]\<rparr>"

subsection \<open>Scheduling\<close>

definition slot_ready :: "uthread_manager \<Rightarrow> nat \<Rightarrow> bool" where
  "slot_ready m i = (case uthreads m ! i of None \<Rightarrow> False | Some t \<Rightarrow> \<not> is_finished t)"

partial_function (option) schedule_loop :: "uthread_manager \<Rightarrow> nat \<Rightarrow> nat run" where
  "schedule_loop m cur =
     (let nxt = (cur + 1) mod uthread_count m in
      if \<not> slot_fits m nxt then crashed OutOfBounds
      else if slot_ready m nxt then ret nxt else schedule_loop m nxt)"

text \<open>\<open>swapcontext\<close> stores the context of the caller in the struct of its slot.\<close>

definition uschedule :: "bool \<Rightarrow> uthread_manager \<Rightarrow> (uthread_manager \<times> (nat \<times> nat) option) run" where
  "uschedule swapcontext_ok m =
     (if uthread_count m \<le> 1 then ret (m, None)
      else bindR (schedule_loop m (uthread_cur m)) (\<lambda>nxt.
        let m' = m\<lparr>uthread_cur := nxt\<rparr> in
        if nxt = uthread_cur m then ret (m', None)
        else if \<not> slot_fits m (uthread_cur m) then crashed OutOfBounds
        else if swapcontext_ok then ret (m', Some (uthread_cur m, nxt)) else crashed AbortCall))"

subsection \<open>uthread\_manager\_destroy\<close>

text \<open>The addresses unmapped, before the table itself is freed.\<close>

definition uthread_manager_destroy :: "uthread_manager \<Rightarrow> addr list run" where
  "uthread_manager_destroy m =
     forR (\<lambda>i us. case uthreads m ! i of None \<Rightarrow> crashed NullDeref
       | Some t \<Rightarrow> if slot_fits m i then ret (us @ [ss_sp t]) else crashed OutOfBounds)
       [0..<uthread_count m] []"

subsection \<open>main.c\<close>

text \<open>
  \<open>main\<close> creates its threads one after the other, each with its number plus one as argument; where that fails the
  element of \<open>mythreads\<close> stays unset.
\<close>

fun create_threads :: "nat \<Rightarrow> ptr list \<Rightarrow> uthread_manager \<Rightarrow> (nat option list \<times> uthread_manager) run" where
  "create_threads i [] m = ret ([], m)"
| "create_threads i (stack # stacks) m = bindR (uthread_create stack True (int i + 1) m) (\<lambda>(r, m).
     bindR (create_threads (i + 1) stacks m) (\<lambda>(rs, m). ret (r # rs, m)))"

text \<open>
  The places where a context resumes: in the loop of \<open>main\<close>, and at the head of the loop of \<open>threadFunc\<close> in
  the thread of a slot, with its loop variable (at 0 when the thread starts). \<open>printed\<close> are the lines of the
  threads: the argument and the iteration.
\<close>

datatype place = In_main | In_thread nat nat

record uprogram =
  manager :: uthread_manager
  contexts :: "nat \<Rightarrow> place"
  running :: place
  printed :: "(int \<times> nat) list"

text \<open>\<open>swapcontext\<close>: the caller resumes at \<open>after\<close> when its slot is chosen again.\<close>

definition switch_from :: "place \<Rightarrow> uprogram \<Rightarrow> uprogram run" where
  "switch_from after s = bindR (uschedule True (manager s)) (\<lambda>(m, sw).
     case sw of None \<Rightarrow> ret (s\<lparr>manager := m, running := after\<rparr>)
     | Some (from, to) \<Rightarrow> let cs = (contexts s)(from := after) in
         ret (s\<lparr>manager := m, contexts := cs, running := cs to\<rparr>))"

text \<open>The end of a thread: it continues in the context of slot 0, which is its \<open>uc_link\<close>.\<close>

definition finish_thread :: "nat \<Rightarrow> uprogram \<Rightarrow> uprogram" where
  "finish_thread i s = s\<lparr>manager := uthread_startup i (manager s), running := contexts s 0\<rparr>"

definition end_thread_of :: "nat \<Rightarrow> uprogram \<Rightarrow> uprogram run" where
  "end_thread_of i s = (if slot_fits (manager s) 0 then ret (finish_thread i s) else crashed OutOfBounds)"

definition threadFunc :: "nat \<Rightarrow> nat \<Rightarrow> uprogram \<Rightarrow> uprogram run" where
  "threadFunc i n s =
     (case uthreads (manager s) ! i of None \<Rightarrow> crashed NullDeref
      | Some t \<Rightarrow>
          if n < 3 then
            (let s = s\<lparr>printed := printed s @ [(uarg t, n)]\<rparr> in
             if uarg t = 2 then end_thread_of i s else switch_from (In_thread i (n + 1)) s)
          else end_thread_of i s)"

text \<open>One round of the loop of \<open>main\<close>: whether it leaves it, and the state.\<close>

definition count_finished :: "nat option list \<Rightarrow> uthread_manager \<Rightarrow> nat run" where
  "count_finished mythreads m = forR (\<lambda>r c. case r of None \<Rightarrow> crashed UseAfterFree
     | Some i \<Rightarrow> (case uthreads m ! i of None \<Rightarrow> crashed NullDeref
        | Some t \<Rightarrow> ret (if is_thread_finished t then c + 1 else c))) mythreads 0"

definition main_round :: "nat option list \<Rightarrow> uprogram \<Rightarrow> (bool \<times> uprogram) run" where
  "main_round mythreads s = bindR (count_finished mythreads (manager s)) (\<lambda>c.
     if c = length mythreads then ret (True, s)
     else bindR (switch_from In_main s) (\<lambda>s. ret (False, s)))"

partial_function (option) run_threads :: "nat option list \<Rightarrow> uprogram \<Rightarrow> uprogram run" where
  "run_threads mythreads s =
     (case running s of
        In_main \<Rightarrow> bindR (main_round mythreads s) (\<lambda>(stop, s). if stop then ret s else run_threads mythreads s)
      | In_thread i n \<Rightarrow> bindR (threadFunc i n s) (\<lambda>s. run_threads mythreads s))"

text \<open>
  The program, with \<open>room\<close> bytes behind the address that it passes for its own slot: what the threads print and the
  addresses unmapped at the end. \<open>g\<close> is what these bytes hold, \<open>rest\<close> what \<open>malloc\<close> leaves in the table.
\<close>

definition uthread_run :: "nat \<Rightarrow> nat \<Rightarrow> ptr list \<Rightarrow> uthread \<Rightarrow> uthread option list \<Rightarrow> ((int \<times> nat) list \<times> addr list) run" where
  "uthread_run room n stacks g rest =
     (if \<not> n < MAX_THREADS then crashed AssertFail
      else bindR (create_threads 1 (take (n - 1) stacks) (uthread_manager_init room (Some g) rest)) (\<lambda>(mythreads, m).
        bindR (run_threads mythreads \<lparr>manager = m, contexts = (\<lambda>i. In_thread i 0), running = In_main, printed = []\<rparr>) (\<lambda>s.
        bindR (uthread_manager_destroy (manager s)) (\<lambda>us. ret (printed s, us)))))"

text \<open>
  \<open>main\<close> itself passes the address of \<open>main_thread\<close>, a local variable of type \<open>uthread_t\<close>: a pointer, not a struct.
\<close>

definition uthread_main :: "nat \<Rightarrow> ptr list \<Rightarrow> uthread \<Rightarrow> uthread option list \<Rightarrow> ((int \<times> nat) list \<times> addr list) run" where
  "uthread_main = uthread_run sizeof_uthread_t"

end
