(* ===== verification/UthreadProps.thy ===== *)
theory UthreadProps
  imports Uthread
begin

section \<open>Properties of the user-level threads\<close>

text \<open>
  The scheduler is fair to the ready threads, the table of threads has no guard, and the program of
  \<^verbatim>\<open>main.c\<close> runs its threads to their ends.
\<close>

lemma slot_fits_simps [simp]: "slot_fits (m\<lparr>uthread_cur := c\<rparr>) = slot_fits m" "slot_fits m (Suc i)" "0 < i \<Longrightarrow> slot_fits m i"
  by (simp_all add: slot_fits_def fun_eq_iff)

lemma slot_fits_all: "slot_fits m 0 \<Longrightarrow> slot_fits m i"
  by (simp add: slot_fits_def)

lemma schedule_loop_finds:
  assumes "slot_ready m ((cur + k) mod uthread_count m)" and "0 < k" and "\<And>i. slot_fits m i"
    and "\<forall>j. 0 < j \<and> j < k \<longrightarrow> \<not> slot_ready m ((cur + j) mod uthread_count m)"
  shows "schedule_loop m cur = ret ((cur + k) mod uthread_count m)"
  using assms
proof (induction k arbitrary: cur)
  case (Suc k)
  let ?n = "(cur + 1) mod uthread_count m"
  show ?case
  proof (cases "k = 0")
    case True
    then show ?thesis using Suc.prems by (subst schedule_loop.simps) (simp add: Let_def)
  next
    case False
    have e: "(?n + j) mod uthread_count m = (cur + Suc j) mod uthread_count m" for j by (simp add: mod_simps)
    have "schedule_loop m ?n = ret ((?n + k) mod uthread_count m)"
    proof (rule Suc.IH)
      show "slot_ready m ((?n + k) mod uthread_count m)" unfolding e using Suc.prems(1) .
      show "\<forall>j. 0 < j \<and> j < k \<longrightarrow> \<not> slot_ready m ((?n + j) mod uthread_count m)"
        unfolding e using Suc.prems(4) by auto
    qed (use False Suc.prems(3) in simp_all)
    moreover have "\<not> slot_ready m ?n" using Suc.prems(4)[rule_format, of 1] False by simp
    ultimately show ?thesis unfolding e by (subst schedule_loop.simps) (simp add: Let_def Suc.prems(3))
  qed
qed simp

lemma schedule_loop_returns_ready:
  assumes "schedule_loop m cur = Some r" and "slot_fits m 0"
  shows "\<exists>j. slot_ready m ((cur + j) mod uthread_count m)"
proof -
  have "slot_fits m 0 \<longrightarrow> (\<exists>j. slot_ready m ((cur + j) mod uthread_count m))"
  proof (induct rule: schedule_loop.raw_induct[where
        P = "\<lambda>m cur r. slot_fits m 0 \<longrightarrow> (\<exists>j. slot_ready m ((cur + j) mod uthread_count m))"])
    case (1 f m cur r)
    show ?case
    proof (intro impI, cases "slot_ready m ((cur + 1) mod uthread_count m)")
      assume fits: "slot_fits m 0" and no: "\<not> slot_ready m ((cur + 1) mod uthread_count m)"
      then have "f m ((cur + 1) mod uthread_count m) = Some r" using 1(2) slot_fits_all[OF fits] by (simp add: Let_def)
      from 1(1)[OF this] fits obtain j where "slot_ready m (((cur + 1) mod uthread_count m + j) mod uthread_count m)" by blast
      then have "slot_ready m ((cur + Suc j) mod uthread_count m)" by (simp add: mod_simps)
      then show "\<exists>j. slot_ready m ((cur + j) mod uthread_count m)" by blast
    qed blast
  qed (rule assms(1))
  then show ?thesis using assms(2) by blast
qed

text \<open>The first ready slot in the rotation that starts behind \<open>cur\<close>.\<close>

lemma first_ready:
  fixes i n cur :: nat
  assumes "i < n" and "P i"
  shows "\<exists>k. 0 < k \<and> k \<le> n \<and> P ((cur + k) mod n) \<and> (\<forall>j. 0 < j \<and> j < k \<longrightarrow> \<not> P ((cur + j) mod n))"
proof -
  let ?Q = "\<lambda>k. 0 < k \<and> P ((cur + k) mod n)"
  let ?k = "(i + (n - cur mod n) - 1) mod n + 1"
  have c: "cur mod n < n" using assms(1) by simp
  have "(cur + ?k) mod n = (cur mod n + (i + (n - cur mod n) - 1) + 1) mod n"
    by (metis (no_types, lifting) add.assoc mod_add_left_eq mod_add_right_eq)
  also have "cur mod n + (i + (n - cur mod n) - 1) + 1 = i + n" using c by simp
  finally have "(cur + ?k) mod n = i" using assms(1) by simp
  then have q: "?Q ?k" using assms(2) by simp
  let ?l = "LEAST k. ?Q k"
  have "?Q ?l" using q by (rule LeastI)
  moreover have "?l \<le> ?k" using q by (rule Least_le)
  moreover have "?k \<le> n" using assms(1) by (simp add: Suc_le_eq)
  moreover have "\<not> P ((cur + j) mod n)" if "0 < j" "j < ?l" for j using not_less_Least[OF that(2)] that(1) by simp
  ultimately show ?thesis by (meson le_trans)
qed

lemma uschedule_next:
  assumes "1 < uthread_count m" and "uthread_cur m < uthread_count m" and "i < uthread_count m" "slot_ready m i"
    and "slot_fits m 0"
  shows "\<exists>k nxt. 0 < k \<and> k \<le> uthread_count m \<and> nxt = (uthread_cur m + k) mod uthread_count m \<and> slot_ready m nxt \<and>
    (\<forall>j. 0 < j \<and> j < k \<longrightarrow> \<not> slot_ready m ((uthread_cur m + j) mod uthread_count m)) \<and>
    uschedule True m = ret (m\<lparr>uthread_cur := nxt\<rparr>, if nxt = uthread_cur m then None else Some (uthread_cur m, nxt))"
proof -
  let ?n = "uthread_count m" and ?c = "uthread_cur m"
  obtain k where k: "0 < k" "k \<le> ?n" "slot_ready m ((?c + k) mod ?n)"
      "\<forall>j. 0 < j \<and> j < k \<longrightarrow> \<not> slot_ready m ((?c + j) mod ?n)"
    using first_ready[of i ?n "slot_ready m" ?c] assms(3,4) by blast
  have "schedule_loop m ?c = ret ((?c + k) mod ?n)" by (rule schedule_loop_finds) (use k slot_fits_all[OF assms(5)] in auto)
  then have "uschedule True m = ret (m\<lparr>uthread_cur := (?c + k) mod ?n\<rparr>,
      if (?c + k) mod ?n = ?c then None else Some (?c, (?c + k) mod ?n))"
    using assms(1) slot_fits_all[OF assms(5)] by (simp add: uschedule_def Let_def)
  with k show ?thesis by blast
qed

text \<open>
  With a whole struct behind slot 0 \<open>uschedule\<close> is round robin: with more than one thread it switches to the first thread behind the
  current one, cyclically, that is there and not finished (and stays when that is the current one),
  after looking at no more slots than there are threads; when every thread is finished it never
  returns.
\<close>

theorem uschedule_round_robin:
  assumes "1 < uthread_count m" and "uthread_cur m < uthread_count m" and "slot_fits m 0"
  shows "((\<exists>i < uthread_count m. slot_ready m i) \<longrightarrow>
      (\<exists>k nxt. 0 < k \<and> k \<le> uthread_count m \<and> nxt = (uthread_cur m + k) mod uthread_count m \<and> slot_ready m nxt \<and>
        (\<forall>j. 0 < j \<and> j < k \<longrightarrow> \<not> slot_ready m ((uthread_cur m + j) mod uthread_count m)) \<and>
        uschedule True m = ret (m\<lparr>uthread_cur := nxt\<rparr>, if nxt = uthread_cur m then None else Some (uthread_cur m, nxt)))) \<and>
    ((\<forall>i < uthread_count m. \<not> slot_ready m i) \<longrightarrow> uschedule True m = None)"
proof (intro conjI impI)
  assume "\<exists>i < uthread_count m. slot_ready m i"
  then show "\<exists>k nxt. 0 < k \<and> k \<le> uthread_count m \<and> nxt = (uthread_cur m + k) mod uthread_count m \<and> slot_ready m nxt \<and>
        (\<forall>j. 0 < j \<and> j < k \<longrightarrow> \<not> slot_ready m ((uthread_cur m + j) mod uthread_count m)) \<and>
        uschedule True m = ret (m\<lparr>uthread_cur := nxt\<rparr>, if nxt = uthread_cur m then None else Some (uthread_cur m, nxt))"
    using uschedule_next[OF assms(1,2) _ _ assms(3)] by blast
next
  assume n: "\<forall>i < uthread_count m. \<not> slot_ready m i"
  have "schedule_loop m (uthread_cur m) = None"
  proof (cases "schedule_loop m (uthread_cur m)")
    case (Some r)
    then obtain j where "slot_ready m ((uthread_cur m + j) mod uthread_count m)"
      using schedule_loop_returns_ready assms(3) by blast
    then show ?thesis using n assms(1) by simp
  qed
  then show "uschedule True m = None" using assms(1) by (simp add: uschedule_def)
qed

definition two_threads :: uthread_manager where
  "two_threads = \<lparr>uthreads = [Some \<lparr>uthread_id = 1, uarg = 1, ss_sp = 0, is_finished = False\<rparr>, Some \<lparr>uthread_id = 2, uarg = 2, ss_sp = 8, is_finished = True\<rparr>,
     Some \<lparr>uthread_id = 3, uarg = 3, ss_sp = 16, is_finished = False\<rparr>], uthread_count = 3, uthread_cur = 0, main_room = sizeof_uthread_struct\<rparr>"

theorem uschedule_round_robin_witness:
  "uschedule True two_threads = ret (two_threads\<lparr>uthread_cur := 2\<rparr>, Some (0, 2))"
proof -
  have r: "slot_ready two_threads 0" "\<not> slot_ready two_threads 1" "slot_ready two_threads 2"
    by (simp_all add: slot_ready_def two_threads_def)
  have c: "uthread_count two_threads = 3" "uthread_cur two_threads = 0" by (simp_all add: two_threads_def)
  have b: "1 < uthread_count two_threads" "uthread_cur two_threads < uthread_count two_threads" "slot_fits two_threads 0"
    by (simp_all add: c) (simp add: slot_fits_def two_threads_def)
  have ex: "\<exists>i < uthread_count two_threads. slot_ready two_threads i"
    by (rule exI[of _ 0]) (simp add: r(1) c(1))
  obtain k nxt where k: "0 < k" "k \<le> 3" "nxt = k mod 3" "slot_ready two_threads nxt"
      "\<forall>j. 0 < j \<and> j < k \<longrightarrow> \<not> slot_ready two_threads (j mod 3)"
      "uschedule True two_threads = ret (two_threads\<lparr>uthread_cur := nxt\<rparr>, if nxt = 0 then None else Some (0, nxt))"
    using mp[OF conjunct1[OF uschedule_round_robin[OF b]] ex] unfolding c add_0 by blast
  have "k \<noteq> 1" using k(3,4) r(2) by auto
  moreover have "k \<noteq> 3" using k(5)[rule_format, of 2] r(3) by auto
  ultimately have "k = 2" using k(1,2) by simp
  then show ?thesis using k(3,6) by simp
qed

subsection \<open>Creation\<close>

abbreviation new_thread :: "nat \<Rightarrow> addr \<Rightarrow> uthread" where
  "new_thread i sp \<equiv> \<lparr>uthread_id = int i + 1, uarg = int i + 1, ss_sp = sp, is_finished = False\<rparr>"

lemma create_threads_spec:
  "length sps + uthread_count m \<le> MAX_THREADS \<Longrightarrow> length (uthreads m) = MAX_THREADS \<Longrightarrow>
    \<exists>m'. create_threads (uthread_count m) (map Some sps) m = ret (map Some [uthread_count m..<uthread_count m + length sps], m') \<and>
      uthread_count m' = uthread_count m + length sps \<and> length (uthreads m') = MAX_THREADS \<and>
      uthread_cur m' = uthread_cur m \<and> main_room m' = main_room m \<and> (\<forall>i < uthread_count m. uthreads m' ! i = uthreads m ! i) \<and>
      (\<forall>j < length sps. uthreads m' ! (uthread_count m + j) = Some (new_thread (uthread_count m + j) (sps ! j)))"
proof (induction sps arbitrary: m)
  case (Cons sp sps)
  let ?c = "uthread_count m"
  let ?m = "m\<lparr>uthreads := (uthreads m)[?c := Some (new_thread ?c sp)], uthread_count := ?c + 1\<rparr>"
  have st: "uthread_create (Some sp) True (int ?c + 1) m = ret (Some ?c, ?m)"
    using Cons.prems(1) by (simp add: uthread_create_def)
  from Cons.IH[of ?m] Cons.prems obtain m' where m': "create_threads (?c + 1) (map Some sps) ?m = ret (map Some [?c + 1..<?c + 1 + length sps], m')"
      "uthread_count m' = ?c + 1 + length sps" "length (uthreads m') = MAX_THREADS" "uthread_cur m' = uthread_cur m" "main_room m' = main_room m"
      "\<forall>i < ?c + 1. uthreads m' ! i = uthreads ?m ! i"
      "\<forall>j < length sps. uthreads m' ! (?c + 1 + j) = Some (new_thread (?c + 1 + j) (sps ! j))"
    by auto
  have "uthreads m' ! (?c + j) = Some (new_thread (?c + j) ((sp # sps) ! j))" if "j < length (sp # sps)" for j
    using m'(6,7) Cons.prems that by (cases j) auto
  moreover have "uthreads m' ! i = uthreads m ! i" if "i < ?c" for i using m'(6) that by simp
  moreover have "[?c..<?c + length (sp # sps)] = ?c # [?c + 1..<?c + 1 + length sps]"
    using upt_conv_Cons[of ?c "?c + length (sp # sps)"] by simp
  ultimately show ?case using st m'(1-5) by auto
qed auto

lemma bindR_ret [simp]: "bindR m ret = m"
  by (cases m) (auto simp: bindR_def ret_def split: sum.split)

lemma create_threads_append:
  "create_threads i (ss @ ts) m = bindR (create_threads i ss m) (\<lambda>(rs, m).
     bindR (create_threads (i + length ss) ts m) (\<lambda>(rs', m). ret (rs @ rs', m)))"
  by (induction ss arbitrary: m i) (auto simp: bindR_assoc case_prod_unfold)

text \<open>
  Up to nine threads beside the main one can be created. The creation of a tenth writes past the end of
  the table, for nothing compares the count with \<open>MAX_THREADS\<close>.
\<close>

lemma uthread_create_bounds:
  assumes "length rest = MAX_THREADS - 1" "9 < length sps"
  shows "create_threads 1 (map Some sps) (uthread_manager_init room t rest) = crashed OutOfBounds"
proof -
  obtain us v ws where sps: "sps = us @ v # ws" "length us = 9"
    using assms(2) id_take_nth_drop[of 9 sps] by (metis length_take min.absorb4)
  obtain m where "create_threads 1 (map Some us) (uthread_manager_init room t rest) = ret (map Some [1..<10], m)"
      "uthread_count m = 10"
    using create_threads_spec[of us "uthread_manager_init room t rest"] assms(1) sps(2)
    by (auto simp: uthread_manager_init_def MAX_THREADS_def)
  then show ?thesis unfolding sps(1) by (simp add: create_threads_append uthread_create_def MAX_THREADS_def)
qed

end
