(* ===== verification/UthreadRunProps.thy ===== *)
theory UthreadRunProps
  imports UthreadProps
begin

section \<open>The program of the user-level threads\<close>

text \<open>
  Under the scheduler every thread that \<open>main\<close> has created gets to its end, and \<open>main\<close> sees it.
\<close>

subsection \<open>The invariant\<close>

text \<open>The table: slot 0 is \<open>main_thread\<close>, the others are the threads with stacks \<open>sps\<close>.\<close>

definition table_ok :: "uthread \<Rightarrow> addr list \<Rightarrow> uthread_manager \<Rightarrow> bool" where
  "table_ok g sps m \<longleftrightarrow> uthread_count m = length sps + 1 \<and> length sps < length (uthreads m) \<and> uthread_cur m \<le> length sps \<and>
     slot_fits m 0 \<and> uthreads m ! 0 = Some g \<and>
     (\<forall>i \<in> {1..length sps}. \<exists>b. uthreads m ! i = Some ((new_thread i (sps ! (i - 1)))\<lparr>is_finished := b\<rparr>))"






subsection \<open>What is left to do\<close>




subsection \<open>Switching\<close>


subsection \<open>Steps\<close>


lemma slot_ready_cur [simp]: "slot_ready (m\<lparr>uthread_cur := c\<rparr>) = slot_ready m"
  by (simp add: slot_ready_def fun_eq_iff)

lemma table_ok_cur [simp]: "table_ok g sps m \<Longrightarrow> c \<le> length sps \<Longrightarrow> table_ok g sps (m\<lparr>uthread_cur := c\<rparr>)"
  by (simp add: table_ok_def)








subsection \<open>The loop\<close>





subsection \<open>The program\<close>




subsection \<open>A slot without room for the struct\<close>





end
