(* ===== verification/Rand.thy ===== *)
theory Rand
  imports ListStore
begin

section \<open>The random numbers of the list programs\<close>

text \<open>
  \<open>rand\<close> of \<^verbatim>\<open>2/2.3\<close> is a xorshift generator on an \<open>int\<close> of each thread. The compiler's shift of a negative
  number to the left wraps, and its shift to the right copies the sign. All threads start from the same seed.
\<close>

unbundle bit_operations_syntax

definition rng_seed :: "32 word" where
  "rng_seed = 0xDEADBEEF"

definition xorshift :: "32 word \<Rightarrow> 32 word" where
  "xorshift x =
     (let x = x XOR push_bit 13 x;
          x = x XOR signed_drop_bit 17 x;
          x = x XOR push_bit 5 x in x)"

text \<open>The result and the new state of the generator are the same number.\<close>

definition rand :: "32 word \<Rightarrow> int \<times> 32 word" where
  "rand rng_state = (let x = (xorshift ^^ 75) rng_state in (sint x, x))"

text \<open>The numbers of a thread, and whether each makes a swapper swap (\<open>rand() % 3 == 0\<close>).\<close>

fun rands :: "nat \<Rightarrow> 32 word \<Rightarrow> int list" where
  "rands 0 x = []"
| "rands (Suc n) x = (let (r, x') = rand x in r # rands n x')"

text \<open>Where the length of a string is computed, the number is taken as a \<open>size_t\<close>.\<close>

definition rand_size :: "32 word \<Rightarrow> nat" where
  "rand_size x = nat (fst (rand x) mod 2 ^ 64)"

subsection \<open>What it computes\<close>

lemma xorshift_zero: "xorshift 0 = 0"
  by (simp add: xorshift_def)

lemma xor_xor_swap: "(a XOR b) XOR (c XOR d) = (a XOR c) XOR (b XOR d)" for a b c d :: "32 word"
  by (simp add: ac_simps)

lemma signed_drop_bit_xor: "signed_drop_bit n (a XOR b) = signed_drop_bit n a XOR signed_drop_bit n b" for a b :: "32 word"
  by (rule bit_word_eqI) (simp add: bit_signed_drop_bit_iff bit_xor_iff)

text \<open>Each step is linear over the bits.\<close>

lemma xorshift_linear: "xorshift (a XOR b) = xorshift a XOR xorshift b"
  by (simp add: xorshift_def Let_def push_bit_xor signed_drop_bit_xor xor_xor_swap)

lemma xorshifts_zero: "(xorshift ^^ n) 0 = 0"
  by (induction n) (simp_all add: xorshift_zero)

lemma xorshift_kernel: "xorshift 0xFC001FFF = 0"
  by code_simp

text \<open>
  The shift of the sign makes the generator lose a bit: two states that differ in the bits of \<open>0xFC001FFF\<close> give
  the same numbers for ever, and the state 0 gives only zeros, as does \<open>0xFC001FFF\<close>. The numbers of a thread
  depend on nothing but how many it has drawn, so all threads draw the same; and every string is shorter than 100.
\<close>

theorem rand_loses_a_bit:
  shows "rand (x XOR 0xFC001FFF) = rand x" and "rands n 0 = replicate n 0" and "rands n 0xFC001FFF = replicate n 0"
    and "\<exists>len < 100. generate_rand_len_string (rand_size x) 100 = ret (replicate len CHR ''a'')"
proof -
  have same: "rand (y XOR 0xFC001FFF) = rand y" for y
  proof -
    have "(xorshift ^^ 75) y = (xorshift ^^ 74) (xorshift y)" for y
      using funpow_Suc_right[of 74 xorshift] by simp
    then show ?thesis by (simp add: rand_def xorshift_linear xorshift_kernel)
  qed
  show "rand (x XOR 0xFC001FFF) = rand x" by (rule same)
  have zero: "rand 0 = (0, 0)" by (simp add: rand_def xorshifts_zero)
  then show zeros: "rands n 0 = replicate n 0" for n by (induction n) simp_all
  have "rand 0xFC001FFF = (0, 0)" using same[of 0] zero by simp
  then show "rands n 0xFC001FFF = replicate n 0" using zeros by (cases n) simp_all
  show "\<exists>len < 100. generate_rand_len_string (rand_size x) 100 = ret (replicate len CHR ''a'')"
    by (simp add: generate_rand_len_string_def VALUE_SIZE_def)
qed

end
