(* ===== verification/Signals.thy ===== *)
theory Signals
  imports Prelude "HOL-Library.Multiset"
begin

section \<open>Signals and threads\<close>

text \<open>
  \<^verbatim>\<open>1/1.5/a.c\<close>: three threads of which one blocks every signal, one handles \<open>SIGINT\<close> and one is meant to
  wait for \<open>SIGQUIT\<close>, while \<open>main\<close> sends \<open>SIGINT\<close> to the first. The steps are the calls by which threads and
  signals act on each other; the number of a thread is 0 for \<open>main\<close> and its index in \<open>tid\<close> plus 1
  otherwise. The failures of the calls, the signals from outside and who takes them are the schedule's.
\<close>

subsection \<open>Signals\<close>

definition SIGINT :: nat where "SIGINT = 2"
definition SIGQUIT :: nat where "SIGQUIT = 3"
definition SIGKILL :: nat where "SIGKILL = 9"
definition SIGCONT :: nat where "SIGCONT = 18"
definition SIGSTOP :: nat where "SIGSTOP = 19"

text \<open>Sets of signals: the library keeps 32 and 33 for itself. \<open>SIGKILL\<close> and \<open>SIGSTOP\<close> cannot be blocked.\<close>

definition sigfillset :: "nat set" where
  "sigfillset = {1..64} - {32, 33}"

definition sigaddset :: "nat set \<Rightarrow> nat \<Rightarrow> nat set" where
  "sigaddset A n = insert n A"

definition sig_block :: "nat set \<Rightarrow> nat set \<Rightarrow> nat set" where
  "sig_block A old = old \<union> (A - {SIGKILL, SIGSTOP})"

definition sig_unblock :: "nat set \<Rightarrow> nat set \<Rightarrow> nat set" where
  "sig_unblock A old = old - A"

text \<open>
  What a signal without handler does to the process: \<open>SIGSTOP\<close>, \<open>SIGTSTP\<close>, \<open>SIGTTIN\<close> and \<open>SIGTTOU\<close> stop it,
  \<open>SIGCONT\<close> lets it go on, \<open>SIGCHLD\<close>, \<open>SIGURG\<close> and \<open>SIGWINCH\<close> do nothing, all others, the real-time ones
  from 34 included, end it.
\<close>

datatype default_action = Terminate | Stop | Ignore | Continue

definition action_of :: "nat \<Rightarrow> default_action" where
  "action_of n = (if 19 \<le> n \<and> n \<le> 22 then Stop else if n = 18 then Continue
     else if n = 17 \<or> n = 23 \<or> n = 28 then Ignore else Terminate)"

subsection \<open>The state\<close>

text \<open>
  Where a thread is: not created, before its first \<open>pthread_sigmask\<close>, with all signals blocked, listening to
  \<open>SIGINT\<close> without a handler, in \<open>sigwait\<close> for a set, in \<open>sleep\<close>, or returned.
\<close>

datatype sig_pc = Unborn | Born | Masked | Listening | In_sigwait "nat set" | Sleeping | Returned

datatype sig_main = Creating nat | Sending | Spinning

text \<open>
  Pending for a thread or for any thread of the process are multisets: the real-time signals queue. The process may
  be stopped, by the signal that a thread took. A handler may be installed for one signal only (\<open>SA_RESETHAND\<close>).\<close>

datatype disposition = Default | Handler bool

datatype process_end = Exited int | Killed nat nat

record sig_sys =
  mask :: "nat \<Rightarrow> nat set"
  pend :: "nat \<Rightarrow> nat multiset"
  ppend :: "nat multiset"
  sig_main :: sig_main
  spc :: "nat \<Rightarrow> sig_pc"
  int_action :: disposition
  caught :: "nat list"
  received :: "nat option"
  stopped :: "(nat \<times> nat) option"
  over :: "process_end option"

text \<open>
  What the calls of a step give: their error numbers, whether the flags that \<open>action\<close> holds by chance
  contain \<open>SA_RESETHAND\<close>, and the signal that \<open>sigwait\<close> takes.
\<close>

record sig_results =
  create_res :: int
  fill_res :: int
  empty_res :: int
  add_res :: int
  mask_res :: int
  wait_res :: int
  reset_flag :: bool
  taken :: nat

definition EXIT_FAILURE :: int where "EXIT_FAILURE = 1"

definition exit_failure :: "sig_sys \<Rightarrow> sig_sys" where
  "exit_failure s = s\<lparr>over := Some (Exited EXIT_FAILURE)\<rparr>"

definition at_spc :: "nat \<Rightarrow> sig_pc \<Rightarrow> sig_sys \<Rightarrow> sig_sys" where
  "at_spc t pc s = s\<lparr>spc := (spc s)(t := pc)\<rparr>"

definition set_mask :: "nat \<Rightarrow> nat set \<Rightarrow> sig_sys \<Rightarrow> sig_sys" where
  "set_mask t A s = s\<lparr>mask := (mask s)(t := A)\<rparr>"

text \<open>A signal that is pending for the thread, or for any thread, is taken.\<close>

definition is_pending :: "nat \<Rightarrow> nat \<Rightarrow> sig_sys \<Rightarrow> bool" where
  "is_pending t n s \<longleftrightarrow> n \<in># pend s t \<or> n \<in># ppend s"

definition take_signal :: "nat \<Rightarrow> nat \<Rightarrow> sig_sys \<Rightarrow> sig_sys" where
  "take_signal t n s =
     (if n \<in># pend s t then s\<lparr>pend := (pend s)(t := pend s t - {#n#})\<rparr> else s\<lparr>ppend := ppend s - {#n#}\<rparr>)"

definition alive :: "nat \<Rightarrow> sig_sys \<Rightarrow> bool" where
  "alive t s \<longleftrightarrow> t = 0 \<or> spc s t \<noteq> Unborn \<and> spc s t \<noteq> Returned"

text \<open>
  A signal is sent to a thread (\<open>Some t\<close>) or to the process. A standard signal that is pending already is not
  queued again; one that stops discards a pending \<open>SIGCONT\<close>, and \<open>SIGCONT\<close>, blocked or not, discards those
  that stop and lets a stopped process go on.
\<close>

definition enqueue :: "nat \<Rightarrow> nat multiset \<Rightarrow> nat multiset" where
  "enqueue n P = (if n < 32 \<and> n \<in># P then P else add_mset n P)"

definition discard :: "(nat \<Rightarrow> bool) \<Rightarrow> sig_sys \<Rightarrow> sig_sys" where
  "discard p s = s\<lparr>pend := (\<lambda>t. filter_mset (\<lambda>n. \<not> p n) (pend s t)), ppend := filter_mset (\<lambda>n. \<not> p n) (ppend s)\<rparr>"

definition send_signal :: "nat option \<Rightarrow> nat \<Rightarrow> sig_sys \<Rightarrow> sig_sys" where
  "send_signal target n s =
     (let s' = (if action_of n = Stop then discard (\<lambda>m. m = SIGCONT) s
                else if n = SIGCONT then (discard (\<lambda>m. action_of m = Stop) s)\<lparr>stopped := None\<rparr> else s)
      in case target of
           None \<Rightarrow> s'\<lparr>ppend := enqueue n (ppend s')\<rparr>
         | Some t \<Rightarrow> if alive t s then s'\<lparr>pend := (pend s')(t := enqueue n (pend s' t))\<rparr> else s)"

subsection \<open>The threads\<close>

definition block_all_signal :: "sig_results \<Rightarrow> sig_sys \<Rightarrow> sig_sys" where
  "block_all_signal r s =
     (case spc s 1 of
        Born \<Rightarrow> if fill_res r \<noteq> 0 \<or> mask_res r \<noteq> 0 then exit_failure s
               else at_spc 1 Sleeping (set_mask 1 (sig_block sigfillset (mask s 1)) s)
      | Sleeping \<Rightarrow> at_spc 1 Returned s
      | _ \<Rightarrow> s)"

definition non_block_int_sig :: "sig_results \<Rightarrow> sig_sys \<Rightarrow> sig_sys" where
  "non_block_int_sig r s =
     (case spc s 2 of
        Born \<Rightarrow> if fill_res r \<noteq> 0 \<or> empty_res r \<noteq> 0 \<or> mask_res r \<noteq> 0 then exit_failure s
               else at_spc 2 Masked (set_mask 2 (sig_block sigfillset (mask s 2)) s)
      | Masked \<Rightarrow> if add_res r \<noteq> 0 \<or> mask_res r \<noteq> 0 then exit_failure s
               else at_spc 2 Listening (set_mask 2 (sig_unblock (sigaddset {} SIGINT) (mask s 2)) s)
      | Listening \<Rightarrow> at_spc 2 Sleeping (s\<lparr>int_action := Handler (reset_flag r)\<rparr>)
      | Sleeping \<Rightarrow> at_spc 2 Returned s
      | _ \<Rightarrow> s)"

definition non_block_quit_sig :: "sig_results \<Rightarrow> sig_sys \<Rightarrow> sig_sys" where
  "non_block_quit_sig r s =
     (case spc s 3 of
        Born \<Rightarrow> if fill_res r \<noteq> 0 \<or> mask_res r \<noteq> 0 then exit_failure s
               else at_spc 3 (In_sigwait (sigaddset sigfillset SIGQUIT)) (set_mask 3 (sig_block sigfillset (mask s 3)) s)
      | In_sigwait A \<Rightarrow>
          if wait_res r \<noteq> 0 then exit_failure s
          else if taken r \<in> A - {SIGKILL, SIGSTOP} \<and> is_pending 3 (taken r) s
               then at_spc 3 Sleeping ((take_signal 3 (taken r) s)\<lparr>received := Some (taken r)\<rparr>)
               else s
      | Sleeping \<Rightarrow> at_spc 3 Returned s
      | _ \<Rightarrow> s)"

text \<open>
  \<open>main\<close> creates each thread with its own mask and spins after the last; the code after the loop is not
  reached. \<open>pthread_kill\<close> does nothing to a thread that has returned.
\<close>

definition sig_create :: "sig_results \<Rightarrow> nat \<Rightarrow> sig_main \<Rightarrow> sig_sys \<Rightarrow> sig_sys" where
  "sig_create r i next_pc s =
     (if create_res r \<noteq> 0 then s\<lparr>over := Some (Exited 1)\<rparr>
      else at_spc (i + 1) Born (set_mask (i + 1) (mask s 0) (s\<lparr>sig_main := next_pc\<rparr>)))"

definition sig_main_step :: "sig_results \<Rightarrow> sig_sys \<Rightarrow> sig_sys" where
  "sig_main_step r s =
     (case sig_main s of
        Creating i \<Rightarrow> sig_create r i (if i = 0 then Sending else if i = 1 then Creating 2 else Spinning) s
      | Sending \<Rightarrow> (send_signal (Some 1) SIGINT s)\<lparr>sig_main := Creating 1\<rparr>
      | Spinning \<Rightarrow> s)"

subsection \<open>The arrival and the delivery of a signal\<close>

text \<open>\<open>signal_handler\<close> prints the thread it runs in.\<close>

definition signal_handler :: "nat \<Rightarrow> sig_sys \<Rightarrow> sig_sys" where
  "signal_handler t s = s\<lparr>caught := caught s @ [t]\<rparr>"

definition act_by_default :: "nat \<Rightarrow> nat \<Rightarrow> sig_sys \<Rightarrow> sig_sys" where
  "act_by_default t n s =
     (case action_of n of
        Terminate \<Rightarrow> s\<lparr>over := Some (Killed t n)\<rparr>
      | Stop \<Rightarrow> s\<lparr>stopped := Some (t, n)\<rparr>
      | _ \<Rightarrow> s)"

definition deliver :: "nat \<Rightarrow> nat \<Rightarrow> sig_sys \<Rightarrow> sig_sys" where
  "deliver t n s =
     (if alive t s \<and> n \<notin> mask s t \<and> is_pending t n s
      then (case int_action s of
              Handler once \<Rightarrow>
                if n = SIGINT
                then signal_handler t ((take_signal t n s)\<lparr>int_action := if once then Default else Handler False\<rparr>)
                else act_by_default t n (take_signal t n s)
            | Default \<Rightarrow> act_by_default t n (take_signal t n s))
      else s)"

text \<open>
  Any signal of a full set may be sent from outside, to the process or to one of its threads. While the process is
  stopped nothing runs and nothing but \<open>SIGKILL\<close> is delivered.
\<close>

datatype sig_turn =
    By_main sig_results
  | By_blocker sig_results
  | By_int sig_results
  | By_quit sig_results
  | Arrive "nat option" nat
  | Deliver nat nat

fun sig_step :: "sig_turn \<Rightarrow> sig_sys \<Rightarrow> sig_sys" where
  "sig_step turn s =
     (if over s \<noteq> None then s
      else case turn of
        Arrive target n \<Rightarrow> if n \<in> sigfillset then send_signal target n s else s
      | Deliver t n \<Rightarrow> if stopped s = None \<or> n = SIGKILL then deliver t n s else s
      | By_main r \<Rightarrow> if stopped s = None then sig_main_step r s else s
      | By_blocker r \<Rightarrow> if stopped s = None then block_all_signal r s else s
      | By_int r \<Rightarrow> if stopped s = None then non_block_int_sig r s else s
      | By_quit r \<Rightarrow> if stopped s = None then non_block_quit_sig r s else s)"

declare sig_step.simps [simp del]

definition sig_start :: sig_sys where
  "sig_start = \<lparr>mask = (\<lambda>_. {}), pend = (\<lambda>_. {#}), ppend = {#}, sig_main = Creating 0, spc = (\<lambda>_. Unborn),
     int_action = Default, caught = [], received = None, stopped = None, over = None\<rparr>"

definition sig_program :: "sig_turn list \<Rightarrow> sig_sys" where
  "sig_program ts = fold sig_step ts sig_start"

end
