(* ===== verification/SignalsProps.thy ===== *)
theory SignalsProps
  imports Signals
begin

section \<open>Who takes a signal\<close>

lemmas sig_defs = exit_failure_def at_spc_def set_mask_def take_signal_def sig_block_def sig_unblock_def sigaddset_def
  signal_handler_def sig_create_def

lemmas sig_moves = block_all_signal_def non_block_int_sig_def non_block_quit_sig_def sig_main_step_def

lemmas signal_numbers = SIGINT_def SIGQUIT_def SIGKILL_def SIGSTOP_def

text \<open>All signals that may come and can be blocked.\<close>

definition blockable :: "nat set" where
  "blockable = sigfillset - {SIGKILL, SIGSTOP}"

subsection \<open>The invariant\<close>

text \<open>Past its first \<open>pthread_sigmask\<close>.\<close>

definition masked :: "nat \<Rightarrow> sig_sys \<Rightarrow> bool" where
  "masked t s \<longleftrightarrow> spc s t \<noteq> Unborn \<and> spc s t \<noteq> Born"

text \<open>Which signals a thread blocks, and which are about.\<close>

definition blocks :: "sig_sys \<Rightarrow> bool" where
  "blocks s \<longleftrightarrow>
     (\<forall>t \<in> {1, 3}. masked t s \<longrightarrow> blockable \<subseteq> mask s t) \<and>
     (masked 2 s \<longrightarrow> blockable - {SIGINT} \<subseteq> mask s 2) \<and>
     mask s 0 = {} \<and> (\<forall>t n. is_pending t n s \<longrightarrow> n \<in> sigfillset) \<and>
     (\<forall>A. spc s 3 = In_sigwait A \<longrightarrow> A = sigfillset)"

text \<open>\<open>main\<close> creates the threads in turn.\<close>

definition born_to :: "sig_main \<Rightarrow> nat" where
  "born_to m = (case m of Creating i \<Rightarrow> i | Sending \<Rightarrow> 1 | Spinning \<Rightarrow> 3)"

definition births :: "sig_sys \<Rightarrow> bool" where
  "births s \<longleftrightarrow> born_to (sig_main s) \<le> 3 \<and> sig_main s \<noteq> Creating 3 \<and> (\<forall>t. born_to (sig_main s) < t \<longrightarrow> spc s t = Unborn)"

text \<open>Who has ended or stopped the process by what.\<close>

definition deaths :: "sig_sys \<Rightarrow> bool" where
  "deaths s \<longleftrightarrow>
     (\<forall>t n. over s = Some (Killed t n) \<longrightarrow> action_of n = Terminate \<and>
        (n = SIGKILL \<or> t = 0 \<or> spc s t = Born \<or> t = 2 \<and> n = SIGINT) \<and> (n = SIGINT \<longrightarrow> int_action s = Default)) \<and>
     (\<forall>t n. stopped s = Some (t, n) \<longrightarrow> action_of n = Stop \<and> (n = SIGSTOP \<or> t = 0 \<or> spc s t = Born))"

lemma sig_quit_set: "sigaddset sigfillset SIGQUIT = sigfillset"
  by (auto simp: sigaddset_def sigfillset_def signal_numbers)

lemma is_pending_simps [simp]:
  "is_pending t n (s\<lparr>spc := a\<rparr>) = is_pending t n s" "is_pending t n (s\<lparr>mask := b\<rparr>) = is_pending t n s"
  "is_pending t n (s\<lparr>over := c\<rparr>) = is_pending t n s" "is_pending t n (s\<lparr>received := d\<rparr>) = is_pending t n s"
  "is_pending t n (s\<lparr>caught := e\<rparr>) = is_pending t n s" "is_pending t n (s\<lparr>int_action := f\<rparr>) = is_pending t n s"
  "is_pending t n (s\<lparr>sig_main := g\<rparr>) = is_pending t n s" "is_pending t n (s\<lparr>stopped := h\<rparr>) = is_pending t n s"
  by (simp_all add: is_pending_def)

lemma is_pending_taken: "is_pending t n (take_signal u m s) \<Longrightarrow> is_pending t n s"
  by (auto simp: is_pending_def take_signal_def split: if_splits dest: in_diffD)

lemma set_enqueue [simp]: "set_mset (enqueue n P) = insert n (set_mset P)"
  by (auto simp: enqueue_def)

lemma is_pending_sent: "is_pending t n (send_signal u m s) \<Longrightarrow> is_pending t n s \<or> n = m"
  by (auto simp: is_pending_def send_signal_def discard_def Let_def split: if_splits option.splits)

lemma take_signal_simps [simp]:
  "spc (take_signal t n s) = spc s" "mask (take_signal t n s) = mask s" "sig_main (take_signal t n s) = sig_main s"
  "over (take_signal t n s) = over s" "int_action (take_signal t n s) = int_action s"
  "received (take_signal t n s) = received s" "stopped (take_signal t n s) = stopped s"
  by (simp_all add: take_signal_def)

lemma send_signal_simps [simp]:
  "spc (send_signal u n s) = spc s" "mask (send_signal u n s) = mask s" "sig_main (send_signal u n s) = sig_main s"
  "over (send_signal u n s) = over s" "int_action (send_signal u n s) = int_action s"
  "received (send_signal u n s) = received s"
  "stopped (send_signal u n s) = stopped s \<or> stopped (send_signal u n s) = None"
  by (auto simp: send_signal_def discard_def Let_def split: option.split)

lemma stopped_sent: "stopped (send_signal u n s) = Some x \<Longrightarrow> stopped s = Some x"
  using send_signal_simps(7)[of u n s] by auto

lemma act_by_default_simps [simp]:
  "spc (act_by_default t n s) = spc s" "mask (act_by_default t n s) = mask s"
  "sig_main (act_by_default t n s) = sig_main s" "int_action (act_by_default t n s) = int_action s"
  "received (act_by_default t n s) = received s" "pend (act_by_default t n s) = pend s"
  "is_pending u m (act_by_default t n s) = is_pending u m s"
  by (simp_all add: act_by_default_def split: default_action.split)

lemma SIGINT_facts: "SIGINT \<in> sigfillset" "SIGINT \<noteq> SIGKILL" "SIGINT \<in> blockable" "action_of SIGINT = Terminate"
  by (simp_all add: sigfillset_def blockable_def signal_numbers action_of_def)

lemma action_of_SIGKILL: "action_of SIGKILL = Terminate"
  by (simp add: action_of_def signal_numbers)

lemma births_main: "births s \<Longrightarrow> births (sig_main_step r s)"
  by (cases "sig_main s") (auto simp: births_def born_to_def sig_main_step_def sig_defs)

lemma births_others:
  assumes "births s"
  shows "births (block_all_signal r s)" "births (non_block_int_sig r s)" "births (non_block_quit_sig r s)"
    "births (deliver t n s)" "births (send_signal u n s)"
  using assms by (auto simp: births_def block_all_signal_def non_block_int_sig_def non_block_quit_sig_def deliver_def
      signal_handler_def exit_failure_def at_spc_def set_mask_def split: sig_pc.split disposition.split)

lemma blocks_sent: "blocks s \<Longrightarrow> n \<in> sigfillset \<Longrightarrow> blocks (send_signal u n s)"
  by (auto simp: blocks_def masked_def dest: is_pending_sent)

lemma blocks_main: "blocks s \<Longrightarrow> blocks (sig_main_step r s)"
  using blocks_sent[OF _ SIGINT_facts(1), of s "Some 1"]
  by (auto simp: blocks_def masked_def sig_main_step_def sig_create_def at_spc_def set_mask_def split: sig_main.splits if_splits)

lemma blocks_threads:
  assumes "blocks s"
  shows "blocks (block_all_signal r s)" "blocks (non_block_int_sig r s)" "blocks (non_block_quit_sig r s)"
proof -
  show "blocks (block_all_signal r s)"
    using assms by (auto simp: blocks_def blockable_def masked_def block_all_signal_def sig_block_def exit_failure_def
        at_spc_def set_mask_def split: sig_pc.splits)
  show "blocks (non_block_int_sig r s)"
    using assms by (auto simp: blocks_def blockable_def masked_def non_block_int_sig_def sig_block_def sig_unblock_def sigaddset_def
        exit_failure_def at_spc_def set_mask_def split: sig_pc.splits)
  show "blocks (non_block_quit_sig r s)"
    using assms by (auto simp: blocks_def blockable_def masked_def non_block_quit_sig_def sig_block_def sig_quit_set
        exit_failure_def at_spc_def set_mask_def dest: is_pending_taken split: sig_pc.splits)
qed

lemma blocks_deliver: "blocks s \<Longrightarrow> blocks (deliver t n s)"
  by (auto simp: blocks_def masked_def deliver_def signal_handler_def dest: is_pending_taken split: disposition.splits)

lemma blocks_step: "blocks s \<Longrightarrow> blocks (sig_step turn s)"
  by (cases turn) (simp_all add: sig_step.simps blocks_main blocks_threads blocks_deliver blocks_sent)

lemma births_step: "births s \<Longrightarrow> births (sig_step turn s)"
  by (cases turn) (simp_all add: sig_step.simps births_main births_others)

text \<open>What a thread blocks it does not take.\<close>

lemma deliver_blocked: "n \<in> mask s t \<Longrightarrow> deliver t n s = s"
  by (simp add: deliver_def)

lemma masked_ignores:
  assumes "blocks s" and "n \<in> blockable"
  shows "t \<in> {1, 3} \<Longrightarrow> masked t s \<Longrightarrow> deliver t n s = s" "masked 2 s \<Longrightarrow> n \<noteq> SIGINT \<Longrightarrow> deliver 2 n s = s"
  using assms by (auto simp: blocks_def intro!: deliver_blocked)

text \<open>Who is interrupted, and by what.\<close>

lemma delivered_to:
  assumes "blocks s" and "births s" and "deliver t n s \<noteq> s"
  shows "n \<in> {SIGKILL, SIGSTOP} \<or> t = 0 \<or> spc s t = Born \<or> t = 2 \<and> n = SIGINT"
proof -
  from assms(3) have "alive t s" "is_pending t n s" by (simp_all add: deliver_def split: if_splits)
  then have "t = 0 \<or> spc s t \<noteq> Unborn" "is_pending t n s" by (auto simp: alive_def)
  moreover from this have "t \<le> 3" using assms(2) by (cases "t \<le> born_to (sig_main s)") (auto simp: births_def)
  moreover have "n \<in> sigfillset" using assms(1) calculation(2) by (auto simp: blocks_def)
  ultimately have t: "t \<in> {0, 1, 3} \<or> t = 2" "t = 0 \<or> spc s t = Born \<or> masked t s" "n \<in> blockable \<or> n \<in> {SIGKILL, SIGSTOP}"
    by (auto simp: masked_def blockable_def)
  then show ?thesis
    using masked_ignores(1)[OF assms(1), of n t] masked_ignores(2)[OF assms(1), of n] assms(3) by (cases "t = 2") auto
qed

lemma deaths_deliver:
  assumes "blocks s" and "births s" and "over s = None" and "deaths s" and "stopped s = None \<or> n = SIGKILL"
  shows "deaths (deliver t n s)"
proof (cases "deliver t n s = s")
  case False
  note to = delivered_to[OF assms(1,2) False]
  have "action_of SIGSTOP = Stop" "SIGSTOP \<noteq> SIGINT" by (simp_all add: action_of_def signal_numbers)
  moreover have "action_of n = Stop \<Longrightarrow> n \<noteq> SIGINT \<and> n \<noteq> SIGKILL" using SIGINT_facts(4) action_of_SIGKILL by auto
  ultimately show ?thesis using to assms(3-5) SIGINT_facts(4) action_of_SIGKILL
    by (auto simp: deaths_def deliver_def signal_handler_def act_by_default_def split: disposition.splits default_action.splits if_splits)
qed (use assms in simp)

lemma deaths_step:
  assumes "blocks s" and "births s" and "deaths s"
  shows "deaths (sig_step turn s)"
proof (cases "over s")
  case None
  have "deaths (send_signal u n s)" for u n
    using assms(3) None by (auto simp: deaths_def dest!: stopped_sent)
  moreover from None have "deaths (sig_main_step r s)" "deaths (block_all_signal r s)" "deaths (non_block_int_sig r s)"
    "deaths (non_block_quit_sig r s)" if "stopped s = None" for r
    using that send_signal_simps(7)[of "Some 1" SIGINT s]
    by (simp_all add: deaths_def sig_moves sig_create_def exit_failure_def at_spc_def set_mask_def
        split: sig_main.split sig_pc.split)
  ultimately show ?thesis
    using deaths_deliver[OF assms(1,2) None assms(3)] assms(3) by (cases turn) (simp_all add: sig_step.simps)
qed (use assms(3) in \<open>simp add: sig_step.simps\<close>)

text \<open>\<open>SIGKILL\<close> and \<open>SIGSTOP\<close> are in nobody's mask.\<close>

definition unblocked :: "sig_sys \<Rightarrow> bool" where
  "unblocked s \<longleftrightarrow> (\<forall>t. SIGKILL \<notin> mask s t \<and> SIGSTOP \<notin> mask s t)"

lemma unblocked_step: "unblocked s \<Longrightarrow> unblocked (sig_step turn s)"
  by (cases turn) (auto simp: unblocked_def sig_step.simps sig_moves sig_create_def sig_block_def sig_unblock_def
      exit_failure_def at_spc_def set_mask_def deliver_def signal_handler_def
      split: sig_main.split sig_pc.split disposition.split)

lemma kill_and_stop:
  assumes "unblocked s" and "over s = None" and "alive t s"
  shows "over (sig_step (Deliver t SIGKILL) (sig_step (Arrive (Some t) SIGKILL) s)) = Some (Killed t SIGKILL)"
    "stopped s = None \<Longrightarrow>
      stopped (sig_step (Deliver t SIGSTOP) (sig_step (Arrive (Some t) SIGSTOP) s)) = Some (t, SIGSTOP)"
proof -
  have n: "SIGKILL \<in> sigfillset" "SIGSTOP \<in> sigfillset" "SIGKILL \<noteq> SIGINT" "SIGSTOP \<noteq> SIGINT" "action_of SIGSTOP = Stop"
    by (simp_all add: sigfillset_def signal_numbers action_of_def)
  have sent: "is_pending t m (send_signal (Some t) m s)" for m
    using assms(3) by (simp add: is_pending_def send_signal_def Let_def)
  show "over (sig_step (Deliver t SIGKILL) (sig_step (Arrive (Some t) SIGKILL) s)) = Some (Killed t SIGKILL)"
    using assms n sent[of SIGKILL] action_of_SIGKILL
    by (simp add: sig_step.simps deliver_def alive_def unblocked_def act_by_default_def split: disposition.split)
  assume "stopped s = None"
  moreover from this have "stopped (send_signal (Some t) SIGSTOP s) = None"
    using send_signal_simps(7)[of "Some t" SIGSTOP s] by auto
  ultimately show "stopped (sig_step (Deliver t SIGSTOP) (sig_step (Arrive (Some t) SIGSTOP) s)) = Some (t, SIGSTOP)"
    using assms n sent[of SIGSTOP]
    by (simp add: sig_step.simps deliver_def alive_def unblocked_def act_by_default_def split: disposition.split)
qed

definition sig_inv :: "sig_sys \<Rightarrow> bool" where
  "sig_inv s \<longleftrightarrow> blocks s \<and> births s \<and> deaths s \<and> unblocked s"

lemma sig_inv_fold: "sig_inv s \<Longrightarrow> sig_inv (fold sig_step ts s)"
  by (induction ts arbitrary: s) (simp_all add: sig_inv_def blocks_step births_step deaths_step unblocked_step)

lemma sig_program_inv: "sig_inv (sig_program ts)"
  unfolding sig_program_def
  by (rule sig_inv_fold) (simp add: sig_inv_def blocks_def births_def born_to_def deaths_def unblocked_def masked_def sig_start_def is_pending_def)

subsection \<open>What stays pending\<close>

lemma other_stays: "a \<noteq> b \<Longrightarrow> a \<in># P \<Longrightarrow> a \<in># P - {#b#}"
  by (metis insert_DiffM insert_noteq_member diff_single_trivial)

lemma pend_stays:
  assumes "blocks s" and "births s" and "masked 1 s" and "SIGINT \<in># pend s 1"
  shows "masked 1 (sig_step turn s) \<and> SIGINT \<in># pend (sig_step turn s) 1"
proof -
  have kept: "masked 1 (deliver t n s) \<and> SIGINT \<in># pend (deliver t n s) 1" for t n
  proof (cases "t = 1 \<and> n = SIGINT")
    case True
    then have "deliver t n s = s" using masked_ignores(1)[OF assms(1), of n t] assms(3) SIGINT_facts(3) by simp
    then show ?thesis using assms by simp
  next
    case False
    then show ?thesis using assms(3,4)
      by (auto simp: deliver_def masked_def signal_handler_def take_signal_def other_stays split: disposition.split)
  qed
  moreover have sent: "SIGINT \<in># pend (send_signal u n s) 1" for u n
    using assms(4) SIGINT_facts(4)
    by (auto simp: send_signal_def discard_def Let_def signal_numbers action_of_def SIGCONT_def split: option.split)
  moreover have "masked 1 (sig_main_step r s) \<and> SIGINT \<in># pend (sig_main_step r s) 1" for r
    using assms(2-4) sent by (auto simp: births_def born_to_def masked_def sig_main_step_def sig_create_def at_spc_def
        set_mask_def split: sig_main.split)
  ultimately show ?thesis using assms(3,4)
    by (cases turn) (auto simp: sig_step.simps block_all_signal_def non_block_int_sig_def non_block_quit_sig_def masked_def
        exit_failure_def at_spc_def set_mask_def take_signal_def split: sig_pc.split)
qed

lemma pend_stays_fold:
  assumes "blocks s" and "births s" and "masked 1 s" and "SIGINT \<in># pend s 1"
  shows "SIGINT \<in># pend (fold sig_step ts s) 1"
  using assms
proof (induction ts arbitrary: s)
  case (Cons turn ts)
  from Cons.IH[OF blocks_step[OF Cons.prems(1)] births_step[OF Cons.prems(2)]] pend_stays[OF Cons.prems] show ?case by simp
qed simp

subsection \<open>The properties\<close>

text \<open>C37: Whatever signals of a full set arrive, for the process or for one of its threads, and whoever runs: past its
  first \<open>pthread_sigmask\<close> the first thread and the third are not interrupted by any signal but \<open>SIGKILL\<close> and
  \<open>SIGSTOP\<close>, and the second by none but these and \<open>SIGINT\<close>; \<open>SIGKILL\<close> and \<open>SIGSTOP\<close>, which cannot be blocked,
  end or stop the process through any of them. The \<open>SIGINT\<close> that \<open>main\<close> sends to a masked thread stays pending
  in it for ever. So any other signal ends or stops the process only through \<open>main\<close>, through a thread that has
  not yet set its mask, or as a \<open>SIGINT\<close> that the second thread takes before it has the handler, and no
  \<open>SIGINT\<close> ends it while the handler is installed.\<close>

theorem signals_fall_where_unblocked:
  fixes ts
  defines "s \<equiv> sig_program ts"
  shows "(\<forall>t n. over s = Some (Killed t n) \<longrightarrow> action_of n = Terminate \<and>
      (n = SIGKILL \<or> t = 0 \<or> spc s t = Born \<or> t = 2 \<and> n = SIGINT) \<and> (n = SIGINT \<longrightarrow> int_action s = Default)) \<and>
    (\<forall>t n. stopped s = Some (t, n) \<longrightarrow> action_of n = Stop \<and> (n = SIGSTOP \<or> t = 0 \<or> spc s t = Born)) \<and>
    (\<forall>n \<in> sigfillset - {SIGKILL, SIGSTOP}. (\<forall>t \<in> {1, 3}. masked t s \<longrightarrow> sig_step (Deliver t n) s = s) \<and>
      (masked 2 s \<and> n \<noteq> SIGINT \<longrightarrow> sig_step (Deliver 2 n) s = s)) \<and>
    (\<forall>t. over s = None \<and> alive t s \<longrightarrow>
      over (sig_program (ts @ [Arrive (Some t) SIGKILL, Deliver t SIGKILL])) = Some (Killed t SIGKILL) \<and>
      (stopped s = None \<longrightarrow> stopped (sig_program (ts @ [Arrive (Some t) SIGSTOP, Deliver t SIGSTOP])) = Some (t, SIGSTOP))) \<and>
    (masked 1 s \<and> SIGINT \<in># pend s 1 \<longrightarrow> (\<forall>us. SIGINT \<in># pend (fold sig_step us s) 1))"
proof -
  from sig_program_inv[of ts] have i: "blocks s" "births s" "deaths s" "unblocked s" by (simp_all add: sig_inv_def s_def)
  have "sig_step (Deliver t n) s = s" if "deliver t n s = s" for t n using that by (simp add: sig_step.simps)
  with masked_ignores[OF i(1)]
  have "\<forall>n \<in> sigfillset - {SIGKILL, SIGSTOP}. (\<forall>t \<in> {1, 3}. masked t s \<longrightarrow> sig_step (Deliver t n) s = s) \<and>
    (masked 2 s \<and> n \<noteq> SIGINT \<longrightarrow> sig_step (Deliver 2 n) s = s)" by (simp add: blockable_def)
  moreover have "over (sig_program (ts @ [Arrive (Some t) SIGKILL, Deliver t SIGKILL])) = Some (Killed t SIGKILL) \<and>
      (stopped s = None \<longrightarrow> stopped (sig_program (ts @ [Arrive (Some t) SIGSTOP, Deliver t SIGSTOP])) = Some (t, SIGSTOP))"
    if "over s = None" "alive t s" for t
    using kill_and_stop[OF i(4) that] by (simp add: sig_program_def s_def)
  ultimately show ?thesis using i(3) pend_stays_fold[OF i(1,2)] unfolding deaths_def by blast
qed

text \<open>The calls of a step when none fails.\<close>

definition all_well :: "nat \<Rightarrow> sig_results" where
  "all_well n = \<lparr>create_res = 0, fill_res = 0, empty_res = 0, add_res = 0, mask_res = 0, wait_res = 0,
     reset_flag = False, taken = n\<rparr>"

text \<open>The schedule that starts all threads and lets the first and the third run.\<close>

definition three_started :: "sig_turn list" where
  "three_started = [By_main (all_well 0), By_blocker (all_well 0), By_main (all_well 0), By_main (all_well 0),
     By_main (all_well 0), By_quit (all_well 0)]"

lemmas sig_eval = sig_program_def three_started_def sig_start_def sig_step.simps sig_main_step_def sig_create_def
  block_all_signal_def non_block_int_sig_def non_block_quit_sig_def all_well_def at_spc_def set_mask_def masked_def

lemmas signal_simps = send_signal_def discard_def enqueue_def alive_def action_of_def Let_def signal_numbers SIGCONT_def sigfillset_def

theorem signals_fall_where_unblocked_witness:
  "masked 1 (sig_program three_started) \<and> SIGINT \<in># pend (sig_program three_started) 1 \<and>
    SIGINT \<in># pend (fold sig_step [Arrive None SIGINT, Deliver 1 SIGINT] (sig_program three_started)) 1 \<and>
    stopped (sig_program (three_started @ [Arrive (Some 1) SIGSTOP, Deliver 1 SIGSTOP])) = Some (1, SIGSTOP)"
proof -
  have "masked 1 (sig_program three_started) \<and> SIGINT \<in># pend (sig_program three_started) 1"
    "over (sig_program three_started) = None \<and> alive 1 (sig_program three_started)" "stopped (sig_program three_started) = None"
    by (simp_all add: sig_eval signal_simps)
  then show ?thesis using signals_fall_where_unblocked[of three_started] by blast
qed

text \<open>C38: The third thread does not wait for \<open>SIGQUIT\<close>: \<open>sigaddset\<close> adds it to a set that is full already, so
  in a process that is not stopped \<open>sigwait\<close> takes whichever signal but \<open>SIGKILL\<close> and \<open>SIGSTOP\<close> is sent to the
  process, a real-time signal as well, and the thread is over with it. But \<open>main\<close> blocks nothing, so the same
  signal may as well go to it: \<open>SIGINT\<close> then runs the handler, once the second thread has installed it, and any
  other signal whose default is to end or to stop the process, \<open>SIGQUIT\<close> too, does so.\<close>

theorem sigwait_takes_any_signal:
  assumes "over (sig_program ts) = None" and "stopped (sig_program ts) = None" and "spc (sig_program ts) 3 = In_sigwait A"
    and "n \<in> sigfillset - {SIGKILL, SIGSTOP}"
  shows "(let s = sig_program (ts @ [Arrive None n, By_quit (all_well n), By_quit (all_well n)]) in
      received s = Some n \<and> spc s 3 = Returned \<and> over s = None) \<and>
    (let s = sig_program (ts @ [Arrive None n, Deliver 0 n]) in
      if n = SIGINT \<and> int_action (sig_program ts) \<noteq> Default
      then caught s = caught (sig_program ts) @ [0] \<and> over s = None
      else over s = (if action_of n = Terminate then Some (Killed 0 n) else None) \<and>
           stopped s = (if action_of n = Stop then Some (0, n) else None))"
proof -
  let ?s = "sig_program ts"
  from sig_program_inv[of ts] assms(3) have A: "A = sigfillset" and open_main: "mask ?s 0 = {}"
    by (auto simp: sig_inv_def blocks_def)
  define arrived where "arrived = send_signal None n ?s"
  have start: "sig_program (ts @ Arrive None n # us) = fold sig_step us arrived" for us
    using assms(1,4) by (simp add: arrived_def sig_program_def sig_step.simps)
  have arr: "over arrived = None" "spc arrived 3 = In_sigwait A" "mask arrived 0 = {}" "is_pending t n arrived"
    "int_action arrived = int_action ?s" "stopped arrived = None" "caught arrived = caught ?s" for t
    using assms(1-3) open_main
    by (auto simp: arrived_def is_pending_def send_signal_def discard_def Let_def)
  have "let s = fold sig_step [By_quit (all_well n), By_quit (all_well n)] arrived in
      received s = Some n \<and> spc s 3 = Returned \<and> over s = None"
    using arr assms(4) A by (simp add: Let_def sig_step.simps non_block_quit_sig_def all_well_def at_spc_def)
  moreover have "let s = deliver 0 n arrived in
      if n = SIGINT \<and> int_action ?s \<noteq> Default then caught s = caught ?s @ [0] \<and> over s = None
      else over s = (if action_of n = Terminate then Some (Killed 0 n) else None) \<and>
           stopped s = (if action_of n = Stop then Some (0, n) else None)"
    using arr by (auto simp: Let_def deliver_def alive_def act_by_default_def signal_handler_def take_signal_def
        split: disposition.splits default_action.splits)
  ultimately show ?thesis using start arr(1,6) by (simp add: sig_step.simps)
qed

theorem sigwait_takes_any_signal_witness:
  "received (sig_program (three_started @ [Arrive None 34, By_quit (all_well 34), By_quit (all_well 34)])) = Some 34 \<and>
    over (sig_program (three_started @ [Arrive None 34, Deliver 0 34])) = Some (Killed 0 34)"
proof -
  have "over (sig_program three_started) = None" "stopped (sig_program three_started) = None"
    "spc (sig_program three_started) 3 = In_sigwait (sigaddset sigfillset SIGQUIT)"
    "34 \<in> sigfillset - {SIGKILL, SIGSTOP}" "action_of 34 = Terminate" "(34 :: nat) \<noteq> SIGINT"
    by (simp_all add: sig_eval signal_simps sigaddset_def insert_absorb)
  then show ?thesis using sigwait_takes_any_signal[of three_started _ 34] by (simp add: Let_def)
qed

end
