(* ===== verification/ThreadCancel.thy ===== *)
theory ThreadCancel
  imports Prelude
begin

section \<open>Cancelled threads\<close>

text \<open>
  \<^verbatim>\<open>1/1.4\<close>: \<open>main\<close> creates a thread that would run for ever, cancels it and joins it. A cancellation request
  acts only at a cancellation point of the thread; \<open>printf\<close> is one, but it may also go through. A schedule
  says whose turn it is, with the error number of the call of \<open>main\<close>, or whether the allocation of the thread
  succeeds and whether a pending request acts.
\<close>

datatype join_value = Null_value | PTHREAD_CANCELED

text \<open>Where \<open>main\<close> is; at its end its status, and whether it has printed that the thread was cancelled.\<close>

datatype cancel_main = C_create | C_cancel | C_join | C_end int bool

record cancel_sys =
  c_main :: cancel_main
  created :: bool
  requested :: bool
  t_end :: "join_value option"

datatype cancel_turn = Main_call int | Thread_runs bool bool

definition main_over :: "'a cancel_sys_scheme \<Rightarrow> bool" where
  "main_over s = (case c_main s of C_end st b \<Rightarrow> True | _ \<Rightarrow> False)"

text \<open>The return of \<open>main\<close> ends its threads.\<close>

definition thread_alive :: "'a cancel_sys_scheme \<Rightarrow> bool" where
  "thread_alive s \<longleftrightarrow> created s \<and> t_end s = None \<and> \<not> main_over s"

definition cancel_acts :: "bool \<Rightarrow> 'a cancel_sys_scheme \<Rightarrow> bool" where
  "cancel_acts acts s \<longleftrightarrow> acts \<and> requested s"

subsection \<open>main\<close>

definition cancel_main_step :: "int \<Rightarrow> 'a cancel_sys_scheme \<Rightarrow> 'a cancel_sys_scheme" where
  "cancel_main_step err s =
     (case c_main s of
        C_create \<Rightarrow> if err \<noteq> 0 then s\<lparr>c_main := C_end 1 False\<rparr> else s\<lparr>created := True, c_main := C_cancel\<rparr>
      | C_cancel \<Rightarrow> if err \<noteq> 0 then s\<lparr>c_main := C_end 1 False\<rparr> else s\<lparr>requested := True, c_main := C_join\<rparr>
      | C_join \<Rightarrow> if err \<noteq> 0 then s\<lparr>c_main := C_end 1 False\<rparr>
                  else (case t_end s of None \<Rightarrow> s | Some v \<Rightarrow> s\<lparr>c_main := C_end 0 (v = PTHREAD_CANCELED)\<rparr>)
      | C_end st b \<Rightarrow> s)"

subsection \<open>A thread that prints (a.c)\<close>

record print_sys = cancel_sys +
  printed_lines :: nat

definition print_thread :: "bool \<Rightarrow> print_sys \<Rightarrow> print_sys" where
  "print_thread acts s =
     (if \<not> thread_alive s then s
      else if cancel_acts acts s then s\<lparr>t_end := Some PTHREAD_CANCELED\<rparr>
      else s\<lparr>printed_lines := printed_lines s + 1\<rparr>)"

fun print_step :: "cancel_turn \<Rightarrow> print_sys \<Rightarrow> print_sys run" where
  "print_step (Main_call err) s = ret (cancel_main_step err s)"
| "print_step (Thread_runs ok acts) s = ret (print_thread acts s)"

definition print_program :: "cancel_turn list \<Rightarrow> print_sys run" where
  "print_program ts = forR print_step ts
     \<lparr>c_main = C_create, created = False, requested = False, t_end = None, printed_lines = 0\<rparr>"

subsection \<open>A thread that counts (b.c)\<close>

text \<open>The program has a flag of its own to ask a thread to end, which its loop does not look at.\<close>

definition cancel :: "int \<Rightarrow> int" where
  "cancel flag = 1"

definition testcancel :: "int \<Rightarrow> join_value option" where
  "testcancel flag = (if flag \<noteq> 0 then Some Null_value else None)"

text \<open>The only cancellation point is the \<open>printf\<close> before the loop, where \<open>count_inter\<close> is 0.\<close>

definition INT_MAX :: int where
  "INT_MAX = 2 ^ 31 - 1"

record count_sys = cancel_sys +
  in_loop :: bool
  count_inter :: int

definition count_thread :: "bool \<Rightarrow> count_sys \<Rightarrow> count_sys run" where
  "count_thread acts s =
     (if \<not> thread_alive s then ret s
      else if \<not> in_loop s
           then ret (if cancel_acts acts s then s\<lparr>t_end := Some PTHREAD_CANCELED\<rparr> else s\<lparr>in_loop := True\<rparr>)
      else if count_inter s = INT_MAX then crashed SignedOverflow
      else ret (s\<lparr>count_inter := count_inter s + 1\<rparr>))"

fun counting_step :: "cancel_turn \<Rightarrow> count_sys \<Rightarrow> count_sys run" where
  "counting_step (Main_call err) s = ret (cancel_main_step err s)"
| "counting_step (Thread_runs ok acts) s = count_thread acts s"

definition count_start :: count_sys where
  "count_start = \<lparr>c_main = C_create, created = False, requested = False, t_end = None, in_loop = False, count_inter = 0\<rparr>"

definition count_program :: "cancel_turn list \<Rightarrow> count_sys run" where
  "count_program ts = forR counting_step ts count_start"

subsection \<open>A thread with a buffer and a cleanup handler (c.c)\<close>

text \<open>
  The allocation and the push of the handler are one step, for no cancellation point lies between them. \<open>heap\<close> is
  the memory allocated, \<open>fresh\<close> the address \<open>malloc\<close> would give.
\<close>

record buffer_sys = cancel_sys +
  heap :: "addr \<rightharpoonup> string"
  fresh :: addr
  arr_hello_world :: ptr
  pushed :: "addr list"
  frees :: nat

definition str_copy :: "nat \<Rightarrow> string \<Rightarrow> string run" where
  "str_copy room str = (if length str < room then ret str else crashed OutOfBounds)"

definition hello_line :: string where
  "hello_line = ''hello world'' @ [CHR 0x0A]"

definition free_handler :: "addr \<Rightarrow> buffer_sys \<Rightarrow> buffer_sys run" where
  "free_handler a s = bindR (deref (heap s) (Some a)) (\<lambda>_. ret (s\<lparr>heap := (heap s)(a := None), frees := frees s + 1\<rparr>))"

text \<open>A thread that ends runs the handlers pushed, the last first.\<close>

definition end_thread :: "join_value \<Rightarrow> buffer_sys \<Rightarrow> buffer_sys run" where
  "end_thread v s = bindR (forR free_handler (pushed s) s) (\<lambda>s. ret (s\<lparr>pushed := [], t_end := Some v\<rparr>))"

definition buffer_thread :: "bool \<Rightarrow> bool \<Rightarrow> buffer_sys \<Rightarrow> buffer_sys run" where
  "buffer_thread malloc_ok acts s =
     (if \<not> thread_alive s then ret s
      else case arr_hello_world s of
        None \<Rightarrow>
          if malloc_ok
          then bindR (str_copy 13 hello_line) (\<lambda>str. ret (s\<lparr>heap := (heap s)(fresh s \<mapsto> str),
                 arr_hello_world := Some (fresh s), pushed := fresh s # pushed s\<rparr>))
          else end_thread (if cancel_acts acts s then PTHREAD_CANCELED else Null_value) s
      | Some a \<Rightarrow>
          if cancel_acts acts s then end_thread PTHREAD_CANCELED s
          else bindR (deref (heap s) (Some a)) (\<lambda>str. ret s))"

fun buffer_step :: "cancel_turn \<Rightarrow> buffer_sys \<Rightarrow> buffer_sys run" where
  "buffer_step (Main_call err) s = ret (cancel_main_step err s)"
| "buffer_step (Thread_runs ok acts) s = buffer_thread ok acts s"

definition buffer_program :: "cancel_turn list \<Rightarrow> addr \<Rightarrow> buffer_sys run" where
  "buffer_program ts a = forR buffer_step ts
     \<lparr>c_main = C_create, created = False, requested = False, t_end = None,
      heap = Map.empty, fresh = a, arr_hello_world = None, pushed = [], frees = 0\<rparr>"

end
