(* ===== verification/ThreadCancelProps.thy ===== *)
theory ThreadCancelProps
  imports ThreadCancel
begin

section \<open>What cancellation leaves behind\<close>

lemma main_over_iff: "main_over s \<longleftrightarrow> (\<exists>st b. c_main s = C_end st b)"
  by (cases "c_main s") (simp_all add: main_over_def)

text \<open>\<open>main\<close> joins the thread it has created and cancelled; the status 0 means that it has ended, and how is reported.\<close>

definition told :: "'a cancel_sys_scheme \<Rightarrow> bool" where
  "told s \<longleftrightarrow> (\<forall>b. c_main s = C_end 0 b \<longrightarrow> t_end s \<noteq> None \<and> (b \<longleftrightarrow> t_end s = Some PTHREAD_CANCELED)) \<and>
     (c_main s = C_cancel \<longrightarrow> created s) \<and> (c_main s = C_join \<longrightarrow> created s \<and> requested s)"

lemma told_main: "told s \<Longrightarrow> told (cancel_main_step err s)"
  by (auto simp: told_def cancel_main_step_def split: cancel_main.split option.split)

lemma main_keeps [simp]:
  "t_end (cancel_main_step err s) = t_end s" "cancel_sys.more (cancel_main_step err s) = cancel_sys.more s"
  by (simp_all add: cancel_main_step_def split: cancel_main.split option.split)

subsection \<open>The buffer\<close>

lemma buffer_main_keeps [simp]:
  "heap (cancel_main_step err s) = heap s" "arr_hello_world (cancel_main_step err s) = arr_hello_world s"
  "pushed (cancel_main_step err s) = pushed s" "frees (cancel_main_step err s) = frees s"
  by (simp_all add: cancel_main_step_def split: cancel_main.split option.split)

definition buffer_inv :: "buffer_sys \<Rightarrow> bool" where
  "buffer_inv s \<longleftrightarrow> told s \<and>
     (case arr_hello_world s of
        None \<Rightarrow> heap s = Map.empty \<and> pushed s = [] \<and> frees s = 0
      | Some a \<Rightarrow> if t_end s = None then heap s = [a \<mapsto> hello_line] \<and> pushed s = [a] \<and> frees s = 0
                 else heap s = Map.empty \<and> pushed s = [] \<and> frees s = 1)"

lemma thread_alive_told: "thread_alive s \<Longrightarrow> told s \<Longrightarrow> told (s\<lparr>t_end := v\<rparr>)"
  by (auto simp: thread_alive_def told_def main_over_iff)

lemma end_thread_inv:
  assumes "buffer_inv s" and "thread_alive s"
  shows "\<exists>s'. end_thread v s = ret s' \<and> buffer_inv s'"
  using assms thread_alive_told[OF assms(2), of "Some v"]
  by (cases "arr_hello_world s")
    (auto simp: buffer_inv_def end_thread_def free_handler_def thread_alive_def told_def)

lemma buffer_step_inv:
  assumes "buffer_inv s"
  shows "\<exists>s'. buffer_step turn s = ret s' \<and> buffer_inv s'"
proof (cases turn)
  case (Main_call err)
  then show ?thesis using assms told_main[of s err] by (auto simp: buffer_inv_def split: option.splits)
next
  case (Thread_runs ok acts)
  show ?thesis
  proof (cases "thread_alive s")
    case True
    then have "t_end s = None" by (simp add: thread_alive_def)
    then show ?thesis using assms Thread_runs True end_thread_inv[OF assms True]
      by (cases "arr_hello_world s") (auto simp: buffer_thread_def buffer_inv_def str_copy_def hello_line_def told_def)
  qed (use assms Thread_runs in \<open>simp add: buffer_thread_def\<close>)
qed

lemma buffer_program_inv: "\<exists>s. buffer_program ts a = ret s \<and> buffer_inv s"
  unfolding buffer_program_def
  by (rule forR_keeps[where P = buffer_inv], erule buffer_step_inv) (simp add: buffer_inv_def told_def)

text \<open>The two turns in which a thread that is not yet at its loop gets there and is cancelled.\<close>

lemma buffer_thread_cancelled:
  assumes "buffer_inv s" and "c_main s = C_join" and "requested s" "created s" and "t_end s = None"
  shows "\<exists>s'. forR buffer_step [Thread_runs True True, Thread_runs True True, Main_call 0] s = ret s' \<and>
    c_main s' = C_end 0 True \<and> heap s' = Map.empty"
  using assms
  by (cases "arr_hello_world s")
    (auto simp: buffer_inv_def buffer_thread_def thread_alive_def main_over_def cancel_acts_def str_copy_def hello_line_def
      end_thread_def free_handler_def cancel_main_step_def)

text \<open>Whoever runs when and whichever call fails, the thread with the buffer accesses it while it is allocated, and
  the cleanup handler frees it exactly when the thread ends: at most once, and always before \<open>main\<close> returns
  with status 0, which reports a cancellation exactly when there was one. From the join on, the thread need only get
  to a cancellation point for \<open>main\<close> to return.\<close>

theorem cancelled_thread_frees_its_buffer:
  "\<exists>s. buffer_program ts a = ret s \<and> frees s \<le> 1 \<and>
    (\<forall>b. c_main s = C_end 0 b \<longrightarrow> heap s = Map.empty \<and> (b \<longleftrightarrow> t_end s = Some PTHREAD_CANCELED)) \<and>
    (c_main s = C_join \<and> t_end s = None \<longrightarrow>
      (\<exists>s'. buffer_program (ts @ [Thread_runs True True, Thread_runs True True, Main_call 0]) a = ret s' \<and>
        c_main s' = C_end 0 True \<and> heap s' = Map.empty))"
proof -
  from buffer_program_inv[of ts a] obtain s where s: "buffer_program ts a = ret s" "buffer_inv s" by blast
  from s(2) have "frees s \<le> 1" and
    "\<forall>b. c_main s = C_end 0 b \<longrightarrow> heap s = Map.empty \<and> (b \<longleftrightarrow> t_end s = Some PTHREAD_CANCELED)"
    by (auto simp: buffer_inv_def told_def split: option.splits if_splits)
  moreover have "c_main s = C_join \<Longrightarrow> requested s \<and> created s" using s(2) by (simp add: buffer_inv_def told_def)
  moreover have "buffer_program (ts @ us) a = forR buffer_step us s" for us
    using s(1) by (simp add: buffer_program_def forR_append)
  ultimately show ?thesis using s buffer_thread_cancelled[OF s(2)] by metis
qed

theorem cancelled_thread_frees_its_buffer_witness:
  "\<exists>s. buffer_program ([Main_call 0, Thread_runs True False, Main_call 0] @
      [Thread_runs True True, Thread_runs True True, Main_call 0]) 7 = ret s \<and> c_main s = C_end 0 True \<and> heap s = Map.empty"
proof -
  obtain s where "buffer_program [Main_call 0, Thread_runs True False, Main_call 0] 7 = ret s" "c_main s = C_join" "t_end s = None"
    by (simp add: buffer_program_def cancel_main_step_def buffer_thread_def thread_alive_def main_over_def str_copy_def hello_line_def)
  then show ?thesis
    using cancelled_thread_frees_its_buffer[of "[Main_call 0, Thread_runs True False, Main_call 0]" 7] by auto
qed

subsection \<open>The counter\<close>

lemma count_main_keeps [simp]:
  "in_loop (cancel_main_step err s) = in_loop s" "count_inter (cancel_main_step err s) = count_inter s"
  by (simp_all add: cancel_main_step_def split: cancel_main.split option.split)

lemma told_count [simp]: "told (s\<lparr>in_loop := b\<rparr>) = told s" "told (s\<lparr>count_inter := c\<rparr>) = told s"
  by (simp_all add: told_def)

definition looping :: "count_sys \<Rightarrow> bool" where
  "looping s \<longleftrightarrow> told s \<and> in_loop s \<and> t_end s = None"

lemma looping_step:
  assumes "looping s"
  shows "counting_step turn s = crashed SignedOverflow \<or> (\<exists>s'. counting_step turn s = ret s' \<and> looping s')"
proof (cases turn)
  case (Main_call err)
  then show ?thesis using assms told_main[of s err] by (simp add: looping_def)
next
  case (Thread_runs ok acts)
  then show ?thesis using assms by (simp add: looping_def count_thread_def)
qed

lemma looping_run:
  "looping s \<Longrightarrow> forR counting_step ts s = crashed SignedOverflow \<or> (\<exists>s'. forR counting_step ts s = ret s' \<and> looping s')"
proof (induction ts arbitrary: s)
  case (Cons turn ts)
  from looping_step[OF Cons.prems, of turn] show ?case using Cons.IH by (elim disjE exE conjE) simp_all
qed simp

lemma counts_to_overflow:
  assumes "in_loop s" "thread_alive s" "count_inter s \<le> INT_MAX" "nat (INT_MAX - count_inter s) < n"
  shows "forR counting_step (replicate n (Thread_runs ok acts)) s = crashed SignedOverflow"
  using assms
proof (induction n arbitrary: s)
  case (Suc n)
  show ?case
  proof (cases "count_inter s = INT_MAX")
    case False
    have "forR counting_step (replicate n (Thread_runs ok acts)) (s\<lparr>count_inter := count_inter s + 1\<rparr>) = crashed SignedOverflow"
      by (rule Suc.IH) (use Suc.prems False in \<open>simp_all add: thread_alive_def main_over_def\<close>)
    with Suc.prems False show ?thesis by (simp add: count_thread_def)
  qed (use Suc.prems in \<open>simp add: count_thread_def\<close>)
qed simp

definition count_inv :: "count_sys \<Rightarrow> bool" where
  "count_inv s \<longleftrightarrow> told s \<and> 0 \<le> count_inter s \<and> count_inter s \<le> INT_MAX \<and> (in_loop s \<longrightarrow> t_end s = None)"

lemma count_step_inv:
  assumes "count_inv s" and "counting_step turn s = ret s'"
  shows "count_inv s'"
proof (cases turn)
  case (Main_call err)
  then show ?thesis using assms told_main[of s err] by (auto simp: count_inv_def)
next
  case (Thread_runs ok acts)
  then show ?thesis using assms thread_alive_told[of s]
    by (auto simp: count_inv_def count_thread_def split: if_splits) (simp add: thread_alive_def)
qed

lemma count_program_inv:
  assumes "count_program ts = ret s"
  shows "count_inv s"
proof -
  have "forR counting_step ts s0 = ret s \<Longrightarrow> count_inv s0 \<Longrightarrow> count_inv s" for s0
    by (induction ts arbitrary: s0) (auto simp: bindR_eq_ret dest: count_step_inv)
  moreover have "count_inv count_start" by (simp add: count_inv_def count_start_def told_def INT_MAX_def)
  ultimately show ?thesis using assms by (simp add: count_program_def)
qed

text \<open>The counting thread cannot be cancelled once it is in its loop, which has no cancellation point: whatever happens
  after that, the thread does not end and the join does not return, so \<open>main\<close> never ends with status 0; and when
  the thread has its turn \<open>2 ^ 31\<close> times, its signed counter overflows.\<close>

theorem uncancellable_thread_is_never_joined:
  assumes "count_program ts = ret s" and "in_loop s"
  shows "(count_program (ts @ us) = crashed SignedOverflow \<or>
      (\<exists>s'. count_program (ts @ us) = ret s' \<and> t_end s' = None \<and> (\<forall>b. c_main s' \<noteq> C_end 0 b))) \<and>
    (thread_alive s \<longrightarrow> count_program (ts @ replicate (2 ^ 31) (Thread_runs ok acts)) = crashed SignedOverflow)"
proof -
  from count_program_inv[OF assms(1)] have i: "count_inv s" .
  then have l: "looping s" using assms(2) by (simp add: count_inv_def looping_def)
  have later: "count_program (ts @ us) = forR counting_step us s" for us
    using assms(1) by (simp add: count_program_def forR_append)
  have "nat (INT_MAX - count_inter s) < 2 ^ 31" using i by (auto simp: count_inv_def INT_MAX_def)
  then have "thread_alive s \<Longrightarrow> count_program (ts @ replicate (2 ^ 31) (Thread_runs ok acts)) = crashed SignedOverflow"
    unfolding later using i assms(2) by (intro counts_to_overflow) (simp_all add: count_inv_def)
  moreover have "looping s' \<Longrightarrow> t_end s' = None \<and> (\<forall>b. c_main s' \<noteq> C_end 0 b)" for s'
    by (auto simp: looping_def told_def)
  ultimately show ?thesis using looping_run[OF l, of us] later by metis
qed

theorem uncancellable_thread_is_never_joined_witness:
  "count_program ([Main_call 0, Thread_runs True True, Main_call 0] @ replicate (2 ^ 31) (Thread_runs True True)) =
    crashed SignedOverflow"
proof -
  obtain s where "count_program [Main_call 0, Thread_runs True True, Main_call 0] = ret s" "in_loop s" "thread_alive s"
    by (simp add: count_program_def count_start_def cancel_main_step_def count_thread_def thread_alive_def main_over_def
        cancel_acts_def)
  then show ?thesis using uncancellable_thread_is_never_joined[of "[Main_call 0, Thread_runs True True, Main_call 0]" s] by blast
qed

end
