(* ===== verification/ThreadArgs.thy ===== *)
theory ThreadArgs
  imports Prelude
begin

section \<open>Values handed to threads and back\<close>

text \<open>
  \<^verbatim>\<open>1/1.3\<close>: structs handed to threads, on the heap and in the frame of \<open>main\<close>; \<^verbatim>\<open>1/1.2\<close>: values that threads give
  back, and loops that create threads until it fails. Memory is one map from addresses; a step is one access
  to it or one call.
\<close>

subsection \<open>The struct and its readers\<close>

record test =
  value_int :: int
  ptr_char :: string

datatype test_line = Int_line int | Str_line string

text \<open>Where a reader is: not created, before reading a field, before freeing the struct, or returned.\<close>

datatype reader_pc = Not_created | At_int | At_char | At_free | Ended

text \<open>
  Where \<open>main\<close> is: before a creation, before joining, before the \<open>free\<close> of its error path and the return after
  it, at \<open>pthread_exit\<close>, after it, or returned with a status, which ends the process.
\<close>

datatype args_main = A_start | A_create | A_create2 | A_join | A_free | A_return | A_exit | A_exited | A_end int

record args_sys =
  mem :: "addr \<rightharpoonup> test"
  a_main :: args_main
  reader :: "nat \<Rightarrow> reader_pc"
  lines :: "(nat \<times> test_line) list"

definition args_over :: "args_sys \<Rightarrow> bool" where
  "args_over s = (case a_main s of A_end st \<Rightarrow> True | _ \<Rightarrow> False)"

definition at_reader :: "nat \<Rightarrow> reader_pc \<Rightarrow> args_sys \<Rightarrow> args_sys" where
  "at_reader t pc s = s\<lparr>reader := (reader s)(t := pc)\<rparr>"

definition args_free :: "ptr \<Rightarrow> args_sys \<Rightarrow> args_sys run" where
  "args_free p s = (case p of None \<Rightarrow> ret s
     | Some a \<Rightarrow> bindR (deref (mem s) p) (\<lambda>_. ret (s\<lparr>mem := (mem s)(a := None)\<rparr>)))"

definition read_int :: "nat \<Rightarrow> ptr \<Rightarrow> args_sys \<Rightarrow> args_sys run" where
  "read_int t p s = bindR (deref (mem s) p) (\<lambda>r.
     ret (at_reader t At_char (s\<lparr>lines := lines s @ [(t, Int_line (value_int r))]\<rparr>)))"

definition read_char :: "nat \<Rightarrow> ptr \<Rightarrow> reader_pc \<Rightarrow> args_sys \<Rightarrow> args_sys run" where
  "read_char t p pc s = bindR (deref (mem s) p) (\<lambda>r.
     ret (at_reader t pc (s\<lparr>lines := lines s @ [(t, Str_line (ptr_char r))]\<rparr>)))"

definition arg_thread :: "nat \<Rightarrow> ptr \<Rightarrow> args_sys \<Rightarrow> args_sys run" where
  "arg_thread t arg s =
     (if args_over s then ret s
      else case reader s t of
        At_int \<Rightarrow> read_int t arg s
      | At_char \<Rightarrow> read_char t arg Ended s
      | _ \<Rightarrow> ret s)"

definition arg_thread2 :: "nat \<Rightarrow> ptr \<Rightarrow> args_sys \<Rightarrow> args_sys run" where
  "arg_thread2 t arg s =
     (if args_over s then ret s
      else case reader s t of
        At_int \<Rightarrow> read_int t arg s
      | At_char \<Rightarrow> read_char t arg At_free s
      | At_free \<Rightarrow> bindR (args_free arg s) (\<lambda>s. ret (at_reader t Ended s))
      | _ \<Rightarrow> ret s)"

definition args_goto :: "args_main \<Rightarrow> args_sys \<Rightarrow> args_sys" where
  "args_goto pc s = s\<lparr>a_main := pc\<rparr>"

datatype args_turn = Args_main | Args_thread nat

definition args_start :: args_sys where
  "args_start = \<lparr>mem = Map.empty, a_main = A_start, reader = (\<lambda>_. Not_created), lines = []\<rparr>"

subsection \<open>A joined thread (1.3/a.c)\<close>

text \<open>The struct is in the frame of \<open>main\<close>, at the address \<open>f\<close>, which is gone when \<open>main\<close> has
  returned; \<open>create_err\<close> and \<open>join_err\<close> are the error numbers of the calls.\<close>

definition test_a :: test where
  "test_a = \<lparr>value_int = 42, ptr_char = ''hello''\<rparr>"

definition join_main :: "addr \<Rightarrow> int \<Rightarrow> int \<Rightarrow> args_sys \<Rightarrow> args_sys" where
  "join_main f create_err join_err s =
     (case a_main s of
        A_start \<Rightarrow> args_goto A_create (s\<lparr>mem := (mem s)(f \<mapsto> test_a)\<rparr>)
      | A_create \<Rightarrow> if create_err \<noteq> 0 then args_goto (A_end 1) (s\<lparr>mem := (mem s)(f := None)\<rparr>)
                    else args_goto A_join (at_reader 0 At_int s)
      | A_join \<Rightarrow> if join_err \<noteq> 0 then args_goto (A_end 1) (s\<lparr>mem := (mem s)(f := None)\<rparr>)
                  else if reader s 0 = Ended then args_goto (A_end 0) (s\<lparr>mem := (mem s)(f := None)\<rparr>)
                  else s
      | _ \<Rightarrow> s)"

fun join_step :: "addr \<Rightarrow> int \<Rightarrow> int \<Rightarrow> args_turn \<Rightarrow> args_sys \<Rightarrow> args_sys run" where
  "join_step f create_err join_err Args_main s = ret (join_main f create_err join_err s)"
| "join_step f create_err join_err (Args_thread t) s = arg_thread t (Some f) s"

definition join_program :: "addr \<Rightarrow> int \<Rightarrow> int \<Rightarrow> args_turn list \<Rightarrow> args_sys run" where
  "join_program f create_err join_err ts = forR (join_step f create_err join_err) ts args_start"

subsection \<open>Two detached threads (1.3/b.c)\<close>

text \<open>
  \<open>test1\<close> is what \<open>malloc\<close> gives, \<open>test2\<close> the address of the struct in the frame of \<open>main\<close>. Thread 0 is that of
  \<open>my_thread2\<close>, thread 1 that of \<open>my_thread\<close>. After the \<open>pthread_exit\<close> of \<open>main\<close> its frame may be kept
  or not. \<open>attr_err\<close>, \<open>err1\<close> and \<open>err2\<close> are the error numbers of the calls that are checked.
\<close>

record args_env =
  attr_err :: int
  err1 :: int
  err2 :: int
  test1 :: ptr
  test2 :: addr
  frame_kept :: bool

definition detached_main :: "args_env \<Rightarrow> args_sys \<Rightarrow> args_sys run" where
  "detached_main e s =
     (case a_main s of
        A_start \<Rightarrow>
          (case test1 e of
             None \<Rightarrow> crashed NullDeref
           | Some a \<Rightarrow>
               let s = s\<lparr>mem := (mem s)(a \<mapsto> \<lparr>value_int = 42, ptr_char = ''hello''\<rparr>,
                   test2 e \<mapsto> \<lparr>value_int = 142, ptr_char = ''hello from 2''\<rparr>)\<rparr>
               in ret (args_goto (if attr_err e \<noteq> 0 then A_free else A_create) s))
      | A_create \<Rightarrow> ret (if err1 e \<noteq> 0 then args_goto A_free s else args_goto A_create2 (at_reader 0 At_int s))
      | A_create2 \<Rightarrow> ret (if err2 e \<noteq> 0 then args_goto A_free s else args_goto A_exit (at_reader 1 At_int s))
      | A_free \<Rightarrow> bindR (args_free (test1 e) s) (\<lambda>s. ret (args_goto A_return s))
      | A_return \<Rightarrow> ret (args_goto (A_end 1) s)
      | A_exit \<Rightarrow> ret (args_goto A_exited (if frame_kept e then s else s\<lparr>mem := (mem s)(test2 e := None)\<rparr>))
      | _ \<Rightarrow> ret s)"

fun detached_step :: "args_env \<Rightarrow> args_turn \<Rightarrow> args_sys \<Rightarrow> args_sys run" where
  "detached_step e Args_main s = detached_main e s"
| "detached_step e (Args_thread t) s =
     (if t = 0 then arg_thread2 0 (test1 e) s else arg_thread t (Some (test2 e)) s)"

definition detached_program :: "args_env \<Rightarrow> args_turn list \<Rightarrow> args_sys run" where
  "detached_program e ts = forR (detached_step e) ts args_start"

subsection \<open>Values given back (1.2/b.c, 1.2/c.c)\<close>

text \<open>
  What \<open>malloc\<close> gives is an argument, and the thread has ended when the join succeeds. The results are the status
  of \<open>main\<close>, what it has printed, and the memory that is still allocated.
\<close>

definition value_thread :: "'v \<Rightarrow> ptr \<Rightarrow> (addr \<rightharpoonup> 'v) \<Rightarrow> ptr \<times> (addr \<rightharpoonup> 'v)" where
  "value_thread v p h = (case p of None \<Rightarrow> (None, h) | Some a \<Rightarrow> (p, h(a \<mapsto> v)))"

definition int_thread :: "ptr \<Rightarrow> (addr \<rightharpoonup> int) \<Rightarrow> ptr \<times> (addr \<rightharpoonup> int)" where
  "int_thread p h = value_thread 42 p h"

definition free_ptr :: "ptr \<Rightarrow> (addr \<rightharpoonup> 'v) \<Rightarrow> (addr \<rightharpoonup> 'v) run" where
  "free_ptr p h = (case p of None \<Rightarrow> ret h | Some a \<Rightarrow> bindR (deref h p) (\<lambda>_. ret (h(a := None))))"

definition int_main :: "int \<Rightarrow> ptr \<Rightarrow> int \<Rightarrow> (int \<times> int list \<times> (addr \<rightharpoonup> int)) run" where
  "int_main create_err p join_err =
     (if create_err \<noteq> 0 then ret (1, [], Map.empty)
      else let (ret_val, h) = int_thread p Map.empty in
           if join_err \<noteq> 0 then ret (1, [], h)
           else bindR (deref h ret_val) (\<lambda>v. bindR (free_ptr ret_val h) (\<lambda>h. ret (0, [v], h))))"

text \<open>The copy of the string into the memory allocated for it.\<close>

definition string_thread :: "ptr \<Rightarrow> (addr \<rightharpoonup> string) \<Rightarrow> (ptr \<times> (addr \<rightharpoonup> string)) run" where
  "string_thread p h =
     (if p \<noteq> None \<and> 12 \<le> length ''hello world'' then crashed OutOfBounds
      else ret (value_thread ''hello world'' p h))"

text \<open>\<open>garbage\<close> is what the uninitialised \<open>ret_val\<close> holds when the join fails and it is freed.\<close>

definition string_main :: "int \<Rightarrow> ptr \<Rightarrow> int \<Rightarrow> ptr \<Rightarrow> (int \<times> string list \<times> (addr \<rightharpoonup> string)) run" where
  "string_main create_err p join_err garbage =
     (if create_err \<noteq> 0 then ret (1, [], Map.empty)
      else bindR (string_thread p Map.empty) (\<lambda>(ret_val, h).
           if join_err \<noteq> 0 then bindR (free_ptr garbage h) (\<lambda>h. ret (1, [], h))
           else bindR (deref h ret_val) (\<lambda>v. bindR (free_ptr ret_val h) (\<lambda>h. ret (0, [v], h)))))"

subsection \<open>Creation until it fails (1.2/d.c, 1.2/e.c, 1.2/f.c)\<close>

text \<open>
  \<open>errs i\<close> is the error number of the \<open>i\<close>-th creation. The counter of threads created is a \<open>long long\<close> in d.c and an
  \<open>int\<close> in f.c; e.c does not count. The result is the status and the number of threads created.
\<close>

partial_function (option) create_loop :: "int option \<Rightarrow> (nat \<Rightarrow> int) \<Rightarrow> nat \<Rightarrow> (int \<times> nat) run" where
  "create_loop largest errs i =
     (if errs i \<noteq> 0 then ret (1, i)
      else if largest = Some (int i) then crashed SignedOverflow
      else create_loop largest errs (i + 1))"

definition blocked_threads_main :: "(nat \<Rightarrow> int) \<Rightarrow> (int \<times> nat) run" where
  "blocked_threads_main errs = create_loop (Some (2 ^ 63 - 1)) errs 0"

definition detaching_threads_main :: "(nat \<Rightarrow> int) \<Rightarrow> (int \<times> nat) run" where
  "detaching_threads_main errs = create_loop None errs 0"

definition detached_threads_main :: "(nat \<Rightarrow> int) \<Rightarrow> (int \<times> nat) run" where
  "detached_threads_main errs = create_loop (Some (2 ^ 31 - 1)) errs 0"

end
