(* ===== verification/ThreadArgsProps.thy ===== *)
theory ThreadArgsProps
  imports ThreadArgs
begin

section \<open>What threads may do with what they are given\<close>

lemmas args_defs = args_goto_def at_reader_def args_free_def read_int_def read_char_def args_over_def

subsection \<open>A joined thread\<close>

text \<open>What a reader of the struct \<open>r\<close> has printed.\<close>

definition lines_at :: "test \<Rightarrow> reader_pc \<Rightarrow> test_line list" where
  "lines_at r pc = (case pc of Not_created \<Rightarrow> [] | At_int \<Rightarrow> [] | At_char \<Rightarrow> [Int_line (value_int r)]
     | _ \<Rightarrow> [Int_line (value_int r), Str_line (ptr_char r)])"

definition lines_by :: "nat \<Rightarrow> args_sys \<Rightarrow> test_line list" where
  "lines_by t s = map snd (filter (\<lambda>l. fst l = t) (lines s))"

definition joined_ok :: "addr \<Rightarrow> args_sys \<Rightarrow> bool" where
  "joined_ok f s \<longleftrightarrow> (\<forall>t > 0. reader s t = Not_created) \<and> (reader s 0 \<noteq> At_free) \<and> lines s = map (Pair 0) (lines_at test_a (reader s 0)) \<and>
     (a_main s \<in> {A_start, A_create} \<longrightarrow> reader s 0 = Not_created) \<and>
     (a_main s \<noteq> A_start \<and> \<not> args_over s \<longrightarrow> mem s f = Some test_a) \<and>
     (a_main s = A_end 0 \<longrightarrow> reader s 0 = Ended) \<and> (args_over s \<longrightarrow> mem s f = None)"

lemma joined_ok_main: "joined_ok f s \<Longrightarrow> joined_ok f (join_main f ce je s)"
  by (cases "a_main s") (auto simp: joined_ok_def join_main_def args_defs lines_at_def)

lemma joined_ok_thread:
  assumes "joined_ok f s"
  shows "\<exists>s'. arg_thread t (Some f) s = ret s' \<and> joined_ok f s'"
proof (cases "args_over s \<or> t > 0")
  case True
  then have "arg_thread t (Some f) s = ret s" using assms by (auto simp: arg_thread_def joined_ok_def)
  then show ?thesis using assms by simp
next
  case False
  then show ?thesis using assms
    by (cases "reader s 0") (auto simp: joined_ok_def arg_thread_def args_defs lines_at_def)
qed

lemma join_program_ok: "\<exists>s. join_program f ce je ts = ret s \<and> joined_ok f s"
  unfolding join_program_def
proof (rule forR_keeps[where P = "joined_ok f"])
  fix turn s assume "joined_ok f s"
  then show "\<exists>s'. join_step f ce je turn s = ret s' \<and> joined_ok f s'"
    using joined_ok_main joined_ok_thread by (cases turn) auto
qed (simp add: joined_ok_def args_start_def lines_at_def args_over_def)

text \<open>
  The frame of \<open>main\<close> outlives the joined thread: under every schedule and with every failure, the thread reads
  the struct while it is there, and \<open>main\<close> returns 0 only after both fields have been printed.
\<close>

theorem joined_argument_is_alive:
  "\<exists>s. join_program f ce je ts = ret s \<and>
    (a_main s = A_end 0 \<longrightarrow> lines s = [(0, Int_line 42), (0, Str_line ''hello'')])"
  using join_program_ok[of f ce je ts] by (auto simp: joined_ok_def lines_at_def test_a_def)

subsection \<open>Two detached threads\<close>

definition hello1 :: test where "hello1 = \<lparr>value_int = 42, ptr_char = ''hello''\<rparr>"
definition hello2 :: test where "hello2 = \<lparr>value_int = 142, ptr_char = ''hello from 2''\<rparr>"

text \<open>The struct on the heap is there until its reader, or \<open>main\<close> when it has no reader, frees it.\<close>

definition detached_ok :: "args_env \<Rightarrow> addr \<Rightarrow> args_sys \<Rightarrow> bool" where
  "detached_ok e a s \<longleftrightarrow> (\<forall>t > 1. reader s t = Not_created) \<and> reader s 1 \<noteq> At_free \<and>
     lines_by 0 s = lines_at hello1 (reader s 0) \<and> lines_by 1 s = lines_at hello2 (reader s 1) \<and>
     (a_main s \<in> {A_start, A_create, A_free, A_return, A_end 1} \<longrightarrow> reader s 0 = Not_created) \<and>
     (a_main s \<notin> {A_exit, A_exited} \<longrightarrow> reader s 1 = Not_created) \<and>
     (a_main s \<in> {A_create2, A_exit, A_exited} \<longrightarrow> reader s 0 \<noteq> Not_created) \<and>
     a_main s \<noteq> A_join \<and> (\<forall>st. a_main s = A_end st \<longrightarrow> st = 1) \<and>
     (a_main s \<noteq> A_start \<longrightarrow> mem s (test2 e) = Some hello2 \<and>
        mem s a = (if reader s 0 = Ended \<or> a_main s \<in> {A_return, A_end 1} then None else Some hello1))"

lemma detached_ok_main:
  assumes "detached_ok e a s" and "test1 e = Some a" "a \<noteq> test2 e" "frame_kept e" "err2 e = 0"
  shows "\<exists>s'. detached_main e s = ret s' \<and> detached_ok e a s'"
  using assms
  by (cases "a_main s") (auto simp: detached_ok_def detached_main_def args_defs lines_by_def lines_at_def
      hello1_def hello2_def Let_def)

lemma detached_ok_thread2:
  assumes "detached_ok e a s" and "a \<noteq> test2 e"
  shows "\<exists>s'. arg_thread2 0 (Some a) s = ret s' \<and> detached_ok e a s'"
proof (cases "args_over s \<or> reader s 0 = Not_created")
  case True
  then have "arg_thread2 0 (Some a) s = ret s" by (auto simp: arg_thread2_def)
  then show ?thesis using assms by simp
next
  case False
  then have "a_main s \<in> {A_create2, A_exit, A_exited}"
    using assms(1) by (cases "a_main s") (auto simp: detached_ok_def args_over_def)
  moreover from this have "reader s 0 \<noteq> Ended \<Longrightarrow> mem s a = Some hello1" using assms(1) by (auto simp: detached_ok_def)
  moreover have "\<not> args_over s" using False by simp
  ultimately show ?thesis using assms False
    by (cases "reader s 0") (auto simp: detached_ok_def arg_thread2_def at_reader_def args_free_def read_int_def read_char_def
        lines_by_def lines_at_def)
qed

lemma detached_ok_thread:
  assumes "detached_ok e a s" and "0 < t"
  shows "\<exists>s'. arg_thread t (Some (test2 e)) s = ret s' \<and> detached_ok e a s'"
proof (cases "args_over s \<or> t > 1 \<or> reader s 1 = Not_created")
  case True
  then have "arg_thread t (Some (test2 e)) s = ret s"
    using assms by (cases "t = 1") (auto simp: arg_thread_def detached_ok_def)
  then show ?thesis using assms by simp
next
  case False
  then have t: "t = 1" and m: "a_main s \<in> {A_exit, A_exited}" using assms by (auto simp: detached_ok_def)
  show ?thesis unfolding t using False m assms(1)
    by (cases "reader s 1")
      (auto simp: detached_ok_def arg_thread_def args_defs lines_by_def lines_at_def split del: if_split)
qed

lemma detached_program_ok:
  assumes "test1 e = Some a" "a \<noteq> test2 e" "frame_kept e" "err2 e = 0"
  shows "\<exists>s. detached_program e ts = ret s \<and> detached_ok e a s"
  unfolding detached_program_def
proof (rule forR_keeps[where P = "detached_ok e a"])
  fix turn s assume s: "detached_ok e a s"
  show "\<exists>s'. detached_step e turn s = ret s' \<and> detached_ok e a s'"
    using detached_ok_main[OF s assms] detached_ok_thread2[OF s assms(2)] detached_ok_thread[OF s] assms(1)
    by (cases turn) auto
qed (simp add: detached_ok_def args_start_def lines_by_def lines_at_def)

text \<open>C39: The struct handed over on the heap. When the second creation succeeds, or is not reached, and the frame of \<open>main\<close>
  is kept after its \<open>pthread_exit\<close>, every schedule is free of crashes: each thread prints both fields of its struct, and the one on the
  heap is freed once, by its reader or in the error path. When the second creation fails, \<open>main\<close> frees the
  struct the first thread has: there is a schedule in which that thread reads it afterwards, and one in which it is
  freed twice. When the frame is not kept, the second thread can read the struct in it after it is gone.\<close>

theorem detached_arguments:
  assumes "test1 e = Some a" and "a \<noteq> test2 e" and "attr_err e = 0" and "err1 e = 0"
  shows "(err2 e = 0 \<and> frame_kept e \<longrightarrow>
      (\<exists>s. detached_program e ts = ret s \<and> (reader s 0 = Ended \<longrightarrow> mem s a = None) \<and>
        (\<forall>t \<in> {0, 1}. reader s t = Ended \<longrightarrow> lines_by t s = lines_at (if t = 0 then hello1 else hello2) Ended))) \<and>
    (err2 e \<noteq> 0 \<longrightarrow>
      detached_program e [Args_main, Args_main, Args_main, Args_main, Args_thread 0] = crashed UseAfterFree \<and>
      detached_program e [Args_main, Args_main, Args_main, Args_thread 0, Args_thread 0, Args_thread 0, Args_main] =
        crashed UseAfterFree) \<and>
    (err2 e = 0 \<and> \<not> frame_kept e \<longrightarrow>
      detached_program e [Args_main, Args_main, Args_main, Args_main, Args_thread 1] = crashed UseAfterFree)"
proof -
  note run = detached_program_def args_start_def detached_main_def arg_thread_def arg_thread2_def args_defs Let_def
  have "err2 e \<noteq> 0 \<Longrightarrow>
      detached_program e [Args_main, Args_main, Args_main, Args_main, Args_thread 0] = crashed UseAfterFree \<and>
      detached_program e [Args_main, Args_main, Args_main, Args_thread 0, Args_thread 0, Args_thread 0, Args_main] =
        crashed UseAfterFree"
    using assms by (simp add: run)
  moreover have "err2 e = 0 \<Longrightarrow> \<not> frame_kept e \<Longrightarrow>
      detached_program e [Args_main, Args_main, Args_main, Args_main, Args_thread 1] = crashed UseAfterFree"
    using assms by (simp add: run)
  moreover have "\<exists>s. detached_program e ts = ret s \<and> (reader s 0 = Ended \<longrightarrow> mem s a = None) \<and>
      (\<forall>t \<in> {0, 1}. reader s t = Ended \<longrightarrow> lines_by t s = lines_at (if t = 0 then hello1 else hello2) Ended)"
    if "err2 e = 0" "frame_kept e"
    using detached_program_ok[OF assms(1,2) that(2,1), of ts] by (fastforce simp: detached_ok_def)
  ultimately show ?thesis by blast
qed

theorem detached_arguments_witness:
  "detached_program \<lparr>attr_err = 0, err1 = 0, err2 = 11, test1 = Some 5, test2 = 9, frame_kept = True\<rparr>
      [Args_main, Args_main, Args_main, Args_main, Args_thread 0] = crashed UseAfterFree \<and>
    (\<exists>s. detached_program \<lparr>attr_err = 0, err1 = 0, err2 = 0, test1 = Some 5, test2 = 9, frame_kept = True\<rparr>
      [Args_main, Args_main, Args_main, Args_thread 0, Args_main, Args_thread 1] = ret s)"
  using detached_arguments[of "\<lparr>attr_err = 0, err1 = 0, err2 = 11, test1 = Some 5, test2 = 9, frame_kept = True\<rparr>" 5]
    detached_arguments[of "\<lparr>attr_err = 0, err1 = 0, err2 = 0, test1 = Some 5, test2 = 9, frame_kept = True\<rparr>" 5
      "[Args_main, Args_main, Args_main, Args_thread 0, Args_main, Args_thread 1]"]
  by simp blast

subsection \<open>Values given back\<close>

text \<open>
  A value is handed back and its memory freed; without memory for it \<open>main\<close> dereferences a null pointer, and
  when the join fails it is leaked, or \<open>main\<close> frees a pointer that was never set.
\<close>

theorem thread_values_given_back:
  shows "int_main 0 (Some a) 0 = ret (0, [42], Map.empty)"
    and "string_main 0 (Some a) 0 g = ret (0, [''hello world''], Map.empty)"
    and "int_main 0 None 0 = crashed NullDeref" and "string_main 0 None 0 g = crashed NullDeref"
    and "j \<noteq> 0 \<Longrightarrow> int_main 0 (Some a) j = ret (1, [], [a \<mapsto> 42])"
    and "j \<noteq> 0 \<Longrightarrow> b \<noteq> a \<Longrightarrow> string_main 0 (Some a) j (Some b) = crashed UseAfterFree"
  by (simp_all add: int_main_def string_main_def int_thread_def string_thread_def value_thread_def free_ptr_def)

subsection \<open>Creation until it fails\<close>

lemma create_loop_fails:
  assumes "\<And>j. i \<le> j \<Longrightarrow> j < k \<Longrightarrow> errs j = 0 \<and> largest \<noteq> Some (int j)" and "errs k \<noteq> 0" and "i \<le> k"
  shows "create_loop largest errs i = ret (1, k)"
  using assms
proof (induction "k - i" arbitrary: i)
  case 0
  then show ?case by (subst create_loop.simps) simp
next
  case (Suc n)
  then show ?case by (subst create_loop.simps) simp
qed

text \<open>The loop only ends in a creation that fails, or where its counter overflows.\<close>

lemma create_loop_returned:
  assumes "create_loop largest errs i = Some r"
  shows "(\<exists>k \<ge> i. r = Inr (1, k) \<and> errs k \<noteq> 0 \<and> (\<forall>j \<in> {i..<k}. errs j = 0)) \<or> r = Inl SignedOverflow \<and> largest \<noteq> None"
proof (rule create_loop.raw_induct[OF _ assms, where P = "\<lambda>largest errs i r.
    (\<exists>k \<ge> i. r = Inr (1, k) \<and> errs k \<noteq> 0 \<and> (\<forall>j \<in> {i..<k}. errs j = 0)) \<or> r = Inl SignedOverflow \<and> largest \<noteq> None"])
  fix loop largest errs i and r :: "crash + int \<times> nat"
  assume IH: "\<And>largest errs i r. loop largest errs i = Some r \<Longrightarrow>
      (\<exists>k \<ge> i. r = Inr (1, k) \<and> errs k \<noteq> 0 \<and> (\<forall>j \<in> {i..<k}. errs j = 0)) \<or> r = Inl SignedOverflow \<and> largest \<noteq> None"
    and r: "(if errs i \<noteq> 0 then ret (1, i) else if largest = Some (int i) then crashed SignedOverflow
      else loop largest errs (i + 1)) = Some r"
  show "(\<exists>k \<ge> i. r = Inr (1, k) \<and> errs k \<noteq> 0 \<and> (\<forall>j \<in> {i..<k}. errs j = 0)) \<or> r = Inl SignedOverflow \<and> largest \<noteq> None"
  proof (cases "errs i = 0 \<and> largest \<noteq> Some (int i)")
    case True
    then have "loop largest errs (i + 1) = Some r" using r by simp
    from IH[OF this] show ?thesis
    proof (elim disjE exE conjE)
      fix k assume k: "i + 1 \<le> k" "r = Inr (1, k)" "errs k \<noteq> 0" "\<forall>j \<in> {i + 1..<k}. errs j = 0"
      have "errs j = 0" if "j \<in> {i..<k}" for j using bspec[OF k(4), of j] True that by (cases "j = i") simp_all
      then show ?thesis using k by (intro disjI1 exI[of _ k]) simp
    qed simp
  next
    case False
    then show ?thesis using r by (cases "errs i = 0") (auto simp: ret_def crashed_def)
  qed
qed

text \<open>
  The three programs end with status 1 in the first creation that fails, having created as many threads as came
  before it; the one with an \<open>int\<close> counter reaches undefined behaviour when \<open>2 ^ 31\<close> creations succeed, and the
  one without a counter then goes on for ever.
\<close>

theorem creation_until_failure:
  shows "errs k \<noteq> 0 \<Longrightarrow> \<forall>j < k. errs j = 0 \<Longrightarrow> detaching_threads_main errs = ret (1, k) \<and>
      (int k < 2 ^ 31 \<longrightarrow> detached_threads_main errs = ret (1, k)) \<and> (int k < 2 ^ 63 \<longrightarrow> blocked_threads_main errs = ret (1, k))"
    and "\<forall>j. errs j = 0 \<Longrightarrow> detaching_threads_main errs = None"
proof -
  assume k: "errs k \<noteq> 0" "\<forall>j < k. errs j = 0"
  have "create_loop largest errs 0 = ret (1, k)" if "\<forall>j < k. largest \<noteq> Some (int j)" for largest
    using create_loop_fails[of 0 k errs largest] k that by simp
  then show "detaching_threads_main errs = ret (1, k) \<and> (int k < 2 ^ 31 \<longrightarrow> detached_threads_main errs = ret (1, k)) \<and>
      (int k < 2 ^ 63 \<longrightarrow> blocked_threads_main errs = ret (1, k))"
    unfolding detaching_threads_main_def detached_threads_main_def blocked_threads_main_def by simp
next
  assume none: "\<forall>j. errs j = 0"
  show "detaching_threads_main errs = None"
    unfolding detaching_threads_main_def using create_loop_returned[of None errs 0] none by (cases "create_loop None errs 0") auto
qed

end
