(* ===== verification/ThreadCounters.thy ===== *)
theory ThreadCounters
  imports Prelude
begin

section \<open>Threads and variables\<close>

text \<open>
  \<^verbatim>\<open>1/1.1\<close>: threads that look at a local, a static and a global variable. In d.c five threads increment all
  three without a lock; an increment is a read and a write, and each access to a shared variable is a step.
\<close>

definition THREAD_COUNT :: nat where "THREAD_COUNT = 5"

subsection \<open>d.c\<close>

datatype counter_pc = D_none | D_static | D_static_read int | D_global | D_global_read int | D_print | D_over

datatype counter_main = D_create nat | D_join nat | D_end int

text \<open>A printed line has the local, the static, the constant and the global value.\<close>

record counter_sys =
  static_local :: int
  global_value :: int
  d_pc :: "nat \<Rightarrow> counter_pc"
  d_main :: counter_main
  d_lines :: "(int \<times> int \<times> int \<times> int) list"

definition counter_goto :: "nat \<Rightarrow> counter_pc \<Rightarrow> counter_sys \<Rightarrow> counter_sys" where
  "counter_goto t pc s = s\<lparr>d_pc := (d_pc s)(t := pc)\<rparr>"

definition counter_over :: "counter_sys \<Rightarrow> bool" where
  "counter_over s = (case d_main s of D_end st \<Rightarrow> True | _ \<Rightarrow> False)"

definition counter_thread :: "nat \<Rightarrow> counter_sys \<Rightarrow> counter_sys" where
  "counter_thread t s =
     (if counter_over s then s
      else case d_pc s t of
        D_static \<Rightarrow> counter_goto t (D_static_read (static_local s)) s
      | D_static_read v \<Rightarrow> counter_goto t D_global (s\<lparr>static_local := v + 1\<rparr>)
      | D_global \<Rightarrow> counter_goto t (D_global_read (global_value s)) s
      | D_global_read v \<Rightarrow> counter_goto t D_print (s\<lparr>global_value := v + 1\<rparr>)
      | D_print \<Rightarrow> counter_goto t D_over (s\<lparr>d_lines := d_lines s @ [(15 + 1, static_local s, 5, global_value s)]\<rparr>)
      | _ \<Rightarrow> s)"

definition counter_main_step :: "int \<Rightarrow> counter_sys \<Rightarrow> counter_sys" where
  "counter_main_step err s =
     (case d_main s of
        D_create i \<Rightarrow>
          if i < THREAD_COUNT
          then if err \<noteq> 0 then s\<lparr>d_main := D_end 1\<rparr> else counter_goto i D_static (s\<lparr>d_main := D_create (i + 1)\<rparr>)
          else s\<lparr>d_main := D_join 0\<rparr>
      | D_join i \<Rightarrow>
          if i < THREAD_COUNT
          then if err \<noteq> 0 then s\<lparr>d_main := D_end 1\<rparr>
               else if d_pc s i = D_over then s\<lparr>d_main := D_join (i + 1)\<rparr> else s
          else s\<lparr>d_main := D_end 0\<rparr>
      | D_end st \<Rightarrow> s)"

datatype counter_turn = Counter_main int | Counter_thread nat

fun counter_step :: "counter_turn \<Rightarrow> counter_sys \<Rightarrow> counter_sys" where
  "counter_step (Counter_main err) s = counter_main_step err s"
| "counter_step (Counter_thread t) s = counter_thread t s"

definition counter_start :: counter_sys where
  "counter_start = \<lparr>static_local = 10, global_value = 10, d_pc = (\<lambda>_. D_none), d_main = D_create 0, d_lines = []\<rparr>"

definition counter_program :: "counter_turn list \<Rightarrow> counter_sys" where
  "counter_program ts = fold counter_step ts counter_start"

subsection \<open>a.c, b.c, c.c\<close>

text \<open>
  The other programs only print in their threads; what is left is the status of \<open>main\<close> for the errors of the
  creations and joins. a.c does not return an error for a failed join.
\<close>

definition main_a :: "int \<Rightarrow> int \<Rightarrow> int" where
  "main_a create_err join_err = (if create_err \<noteq> 0 then -1 else 0)"

fun each_succeeds :: "(nat \<Rightarrow> int) \<Rightarrow> nat list \<Rightarrow> bool" where
  "each_succeeds errs [] = True"
| "each_succeeds errs (i # is) = (errs i = 0 \<and> each_succeeds errs is)"

definition main_b :: "(nat \<Rightarrow> int) \<Rightarrow> (nat \<Rightarrow> int) \<Rightarrow> int" where
  "main_b create_errs join_errs =
     (if \<not> each_succeeds create_errs [0..<THREAD_COUNT] then 1
      else if \<not> each_succeeds join_errs [0..<THREAD_COUNT] then 1
      else 0)"

definition main_c :: "int \<Rightarrow> int \<Rightarrow> int" where
  "main_c create_err join_err = (if create_err \<noteq> 0 then 1 else if join_err \<noteq> 0 then 1 else 0)"

end
