(* ===== verification/ThreadCountersProps.thy ===== *)
theory ThreadCountersProps
  imports ThreadCounters
begin

section \<open>What unsynchronised increments give\<close>

text \<open>The threads that have written the static and the global variable.\<close>

definition wrote_static :: "counter_sys \<Rightarrow> nat set" where
  "wrote_static s = {t. \<exists>v. d_pc s t \<in> {D_global, D_global_read v, D_print, D_over}}"

definition wrote_global :: "counter_sys \<Rightarrow> nat set" where
  "wrote_global s = {t. d_pc s t \<in> {D_print, D_over}}"

text \<open>A variable that the threads of \<open>W\<close> have incremented, and a value read from it at some time.\<close>

definition counted :: "int \<Rightarrow> nat set \<Rightarrow> bool" where
  "counted v W \<longleftrightarrow> (if W = {} then v = 10 else 11 \<le> v \<and> v \<le> 10 + int (card W))"

definition was_read :: "int \<Rightarrow> nat set \<Rightarrow> bool" where
  "was_read v W \<longleftrightarrow> 10 \<le> v \<and> v \<le> 10 + int (card W)"

lemma counted_read: "counted v W \<Longrightarrow> was_read v W"
  by (auto simp: counted_def was_read_def split: if_splits)

lemma counted_insert:
  assumes "finite W" "t \<notin> W" "was_read v W"
  shows "counted (v + 1) (insert t W)"
  using assms by (simp add: counted_def was_read_def)

lemma counted_bound: "counted v W \<Longrightarrow> t \<in> W \<Longrightarrow> card W \<le> 5 \<Longrightarrow> 11 \<le> v \<and> v \<le> 15"
  by (auto simp: counted_def split: if_splits)

lemma was_read_insert: "finite W \<Longrightarrow> was_read v W \<Longrightarrow> was_read v (insert t W)"
  by (cases "t \<in> W") (simp_all add: was_read_def insert_absorb)

text \<open>Where the threads and \<open>main\<close> are.\<close>

definition places_ok :: "counter_sys \<Rightarrow> bool" where
  "places_ok s \<longleftrightarrow>
     (\<forall>t. (case d_main s of D_create i \<Rightarrow> i \<le> t | _ \<Rightarrow> False) \<or> 5 \<le> t \<longrightarrow> d_pc s t = D_none) \<and>
     (\<forall>i. d_main s = D_join i \<longrightarrow> (\<forall>t < i. d_pc s t = D_over)) \<and>
     (d_main s = D_end 0 \<longrightarrow> (\<forall>t < 5. d_pc s t = D_over)) \<and>
     length (d_lines s) = card {t. d_pc s t = D_over}"

definition counter_inv :: "counter_sys \<Rightarrow> bool" where
  "counter_inv s \<longleftrightarrow> counted (static_local s) (wrote_static s) \<and> counted (global_value s) (wrote_global s) \<and>
     (\<forall>t v. d_pc s t = D_static_read v \<longrightarrow> was_read v (wrote_static s)) \<and>
     (\<forall>t v. d_pc s t = D_global_read v \<longrightarrow> was_read v (wrote_global s)) \<and>
     (\<forall>l \<in> set (d_lines s). \<exists>v w. l = (16, v, 5, w) \<and> 11 \<le> v \<and> v \<le> 15 \<and> 11 \<le> w \<and> w \<le> 15) \<and> places_ok s"

lemma wrote_goto:
  "wrote_static (counter_goto t pc s) =
    (if \<exists>v. pc \<in> {D_global, D_global_read v, D_print, D_over} then insert t (wrote_static s) else wrote_static s - {t})"
  "wrote_global (counter_goto t pc s) = (if pc \<in> {D_print, D_over} then insert t (wrote_global s) else wrote_global s - {t})"
  by (auto simp: wrote_static_def wrote_global_def counter_goto_def)

lemma goto_sel [simp]:
  "d_pc (counter_goto t pc s) = (d_pc s)(t := pc)" "static_local (counter_goto t pc s) = static_local s"
  "global_value (counter_goto t pc s) = global_value s" "d_lines (counter_goto t pc s) = d_lines s"
  "d_main (counter_goto t pc s) = d_main s"
  by (simp_all add: counter_goto_def)

lemma wrote_frame [simp]:
  "wrote_static (s\<lparr>static_local := v\<rparr>) = wrote_static s" "wrote_static (s\<lparr>global_value := v\<rparr>) = wrote_static s"
  "wrote_static (s\<lparr>d_lines := ls\<rparr>) = wrote_static s" "wrote_static (s\<lparr>d_main := m\<rparr>) = wrote_static s"
  "wrote_global (s\<lparr>static_local := v\<rparr>) = wrote_global s" "wrote_global (s\<lparr>global_value := v\<rparr>) = wrote_global s"
  "wrote_global (s\<lparr>d_lines := ls\<rparr>) = wrote_global s" "wrote_global (s\<lparr>d_main := m\<rparr>) = wrote_global s"
  by (simp_all add: wrote_static_def wrote_global_def)

lemma wrote_bounded:
  assumes "\<forall>t \<ge> 5. d_pc s t = D_none"
  shows "wrote_static s \<subseteq> {..<5}" "wrote_global s \<subseteq> wrote_static s" "{t. d_pc s t = D_over} \<subseteq> {..<5}"
proof -
  have "t < 5" if "d_pc s t \<noteq> D_none" for t using assms that by (meson not_less)
  then show "wrote_static s \<subseteq> {..<5}" "{t. d_pc s t = D_over} \<subseteq> {..<5}" by (auto simp: wrote_static_def)
qed (auto simp: wrote_static_def wrote_global_def)

lemma counter_inv_bounds:
  assumes "counter_inv s"
  shows "\<forall>t \<ge> 5. d_pc s t = D_none" "finite (wrote_static s)" "finite (wrote_global s)" "finite {t. d_pc s t = D_over}"
    "card (wrote_static s) \<le> 5" "card (wrote_global s) \<le> 5"
proof -
  show none: "\<forall>t \<ge> 5. d_pc s t = D_none" using assms by (simp add: counter_inv_def places_ok_def)
  note b = wrote_bounded[OF none]
  have fin: "finite {..<5::nat}" by simp
  show "finite (wrote_static s)" using finite_subset[OF b(1) fin] .
  show "finite {t. d_pc s t = D_over}" using finite_subset[OF b(3) fin] .
  show "finite (wrote_global s)" using finite_subset[OF subset_trans[OF b(2,1)] fin] .
  show "card (wrote_static s) \<le> 5" using card_mono[OF fin b(1)] by simp
  show "card (wrote_global s) \<le> 5" using card_mono[OF fin subset_trans[OF b(2,1)]] by simp
qed

lemma not_wrote:
  "d_pc s t \<in> {D_none, D_static, D_static_read v} \<Longrightarrow> t \<notin> wrote_static s"
  "d_pc s t \<in> {D_none, D_static, D_static_read v, D_global, D_global_read v} \<Longrightarrow> t \<notin> wrote_global s"
  by (auto simp: wrote_static_def wrote_global_def)

lemma wrote:
  "d_pc s t \<in> {D_global, D_global_read v, D_print} \<Longrightarrow> insert t (wrote_static s) = wrote_static s"
  "d_pc s t = D_print \<Longrightarrow> insert t (wrote_global s) = wrote_global s"
  by (auto simp: wrote_static_def wrote_global_def)

lemma places_ok_goto:
  assumes "places_ok s" and "d_pc s t \<notin> {D_none, D_over}" and "pc \<notin> {D_none, D_over}"
  shows "places_ok (counter_goto t pc s)"
proof -
  have "{u. u \<noteq> t \<longrightarrow> d_pc s u = D_over} - {t} = {u. d_pc s u = D_over}" using assms(2) by auto
  moreover have "{u. d_pc (counter_goto t pc s) u = D_over} = {u. d_pc s u = D_over}"
    using assms(2,3) by (auto simp: counter_goto_def)
  ultimately show ?thesis using assms unfolding places_ok_def
    by (auto simp: counter_goto_def split: counter_main.splits)
qed

lemma places_ok_frame [simp]:
  "places_ok (s\<lparr>static_local := v\<rparr>) = places_ok s" "places_ok (s\<lparr>global_value := v\<rparr>) = places_ok s"
  "places_ok (counter_goto t pc (s\<lparr>static_local := v\<rparr>)) = places_ok (counter_goto t pc s)"
  "places_ok (counter_goto t pc (s\<lparr>global_value := v\<rparr>)) = places_ok (counter_goto t pc s)"
  by (simp_all add: places_ok_def)

lemma places_ok_print:
  assumes "places_ok s" and "d_pc s t = D_print"
  shows "places_ok (counter_goto t D_over (s\<lparr>d_lines := d_lines s @ [l]\<rparr>))"
proof -
  have "\<forall>u \<ge> 5. d_pc s u = D_none" using assms(1) by (simp add: places_ok_def)
  then have "{u. d_pc s u = D_over} \<subseteq> {..<5}" by (rule wrote_bounded)
  then have "finite {u. d_pc s u = D_over}" by (rule finite_subset) simp
  moreover have "{u. u \<noteq> t \<longrightarrow> d_pc s u = D_over} = insert t {u. d_pc s u = D_over}" by auto
  ultimately show ?thesis using assms unfolding places_ok_def
    by (auto simp: counter_goto_def split: counter_main.splits)
qed

lemma counter_thread_inv:
  assumes "counter_inv s"
  shows "counter_inv (counter_thread t s)"
proof (cases "counter_over s")
  case False
  note i = assms[unfolded counter_inv_def] and fin = counter_inv_bounds[OF assms]
  note nw = not_wrote[of s t] and w = wrote[of s t]
  show ?thesis
  proof (cases "d_pc s t")
    case D_static
    then show ?thesis using False i nw places_ok_goto[of s t] counted_read
      by (auto simp: counter_thread_def counter_inv_def wrote_goto)
  next
    case (D_static_read v)
    then show ?thesis using False i nw places_ok_goto[of s t] counted_insert[of _ t v] was_read_insert fin
      by (auto simp: counter_thread_def counter_inv_def wrote_goto)
  next
    case D_global
    then show ?thesis using False i nw w places_ok_goto[of s t] counted_read
      by (auto simp: counter_thread_def counter_inv_def wrote_goto)
  next
    case (D_global_read v)
    then show ?thesis using False i nw w places_ok_goto[of s t] counted_insert[of _ t v] was_read_insert fin
      by (auto simp: counter_thread_def counter_inv_def wrote_goto)
  next
    case D_print
    then have "t \<in> wrote_static s" "t \<in> wrote_global s" by (auto simp: wrote_static_def wrote_global_def)
    then have "11 \<le> static_local s \<and> static_local s \<le> 15" "11 \<le> global_value s \<and> global_value s \<le> 15"
      using counted_bound i fin(5,6) by blast+
    then show ?thesis using D_print False i w places_ok_print[of s t]
      by (auto simp: counter_thread_def counter_inv_def wrote_goto)
  qed (use False assms in \<open>simp_all add: counter_thread_def\<close>)
qed (use assms in \<open>simp add: counter_thread_def\<close>)

lemma counter_main_inv:
  assumes "counter_inv s"
  shows "counter_inv (counter_main_step err s)"
proof -
  have "places_ok s" using assms by (simp add: counter_inv_def)
  moreover have "{t. t \<noteq> i \<and> (t \<noteq> i \<longrightarrow> d_pc s t = D_over)} = {t. d_pc s t = D_over}" if "d_pc s i = D_none" for i
    using that by auto
  ultimately have "places_ok (counter_main_step err s)"
    unfolding places_ok_def counter_main_step_def THREAD_COUNT_def
    by (cases "d_main s") (auto simp: less_Suc_eq)
  then show ?thesis using assms not_wrote(1)[of s] not_wrote(2)[of s]
    by (cases "d_main s") (auto simp: counter_inv_def counter_main_step_def wrote_goto places_ok_def)
qed

lemma counter_program_inv: "counter_inv (counter_program ts)"
  unfolding counter_program_def
proof (rule fold_invariant[where Q = "\<lambda>_. True"])
  fix turn s assume "counter_inv s"
  then show "counter_inv (counter_step turn s)" using counter_main_inv counter_thread_inv by (cases turn) auto
qed (auto simp: counter_inv_def counter_start_def wrote_static_def wrote_global_def counted_def places_ok_def)

text \<open>A schedule in which the threads run one after the other, and one in which all read before any writes.\<close>

definition all_created :: "counter_turn list" where
  "all_created = replicate 6 (Counter_main 0)"

definition all_joined :: "counter_turn list" where
  "all_joined = replicate 6 (Counter_main 0)"

definition one_by_one :: "counter_turn list" where
  "one_by_one = all_created @ concat (map (\<lambda>t. replicate 5 (Counter_thread t)) [0..<5]) @ all_joined"

definition all_at_once :: "counter_turn list" where
  "all_at_once = all_created @ concat (replicate 5 (map Counter_thread [0..<5])) @ all_joined"

lemmas counter_eval = counter_program_def counter_start_def all_created_def all_joined_def counter_main_step_def THREAD_COUNT_def
  counter_thread_def counter_goto_def counter_over_def upt_rec numeral_eq_Suc

text \<open>
  When \<open>main\<close> of d.c returns 0, all five threads have printed their line, and the static and the global variable have been
  incremented at least once and at most five times: increments can be lost. In every line the local variable is 16. One after the other
  the threads make 15 of each variable, and in another schedule 11.
\<close>

theorem unsynchronised_counters:
  shows "\<forall>l \<in> set (d_lines (counter_program ts)). \<exists>v w. l = (16, v, 5, w) \<and> 11 \<le> v \<and> v \<le> 15 \<and> 11 \<le> w \<and> w \<le> 15"
    and "d_main (counter_program ts) = D_end 0 \<Longrightarrow> length (d_lines (counter_program ts)) = 5 \<and>
      static_local (counter_program ts) \<in> {11..15} \<and> global_value (counter_program ts) \<in> {11..15}"
    and "d_main (counter_program one_by_one) = D_end 0 \<and> static_local (counter_program one_by_one) = 15 \<and>
      global_value (counter_program one_by_one) = 15"
    and "d_main (counter_program all_at_once) = D_end 0 \<and> static_local (counter_program all_at_once) = 11 \<and>
      global_value (counter_program all_at_once) = 11"
proof -
  let ?s = "counter_program ts"
  have i: "counter_inv ?s" by (rule counter_program_inv)
  then show "\<forall>l \<in> set (d_lines ?s). \<exists>v w. l = (16, v, 5, w) \<and> 11 \<le> v \<and> v \<le> 15 \<and> 11 \<le> w \<and> w \<le> 15"
    by (simp add: counter_inv_def)
  note b = counter_inv_bounds[OF i]
  assume end0: "d_main ?s = D_end 0"
  then have over: "\<forall>t < 5. d_pc ?s t = D_over" "length (d_lines ?s) = card {t. d_pc ?s t = D_over}"
    using i by (simp_all add: counter_inv_def places_ok_def)
  have "{t. d_pc ?s t = D_over} = {..<5}" using over(1) wrote_bounded(3)[OF b(1)] by blast
  moreover have "wrote_static ?s \<noteq> {}" "wrote_global ?s \<noteq> {}"
    using over(1) by (auto simp: wrote_static_def wrote_global_def intro!: exI[of _ 0])
  moreover have "counted (static_local ?s) (wrote_static ?s)" "counted (global_value ?s) (wrote_global ?s)"
    using i by (simp_all add: counter_inv_def)
  ultimately show "length (d_lines ?s) = 5 \<and> static_local ?s \<in> {11..15} \<and> global_value ?s \<in> {11..15}"
    using b(5,6) over(2) by (auto simp: counted_def)
qed (code_simp, code_simp)

end
