(* ===== verification/Spec2Isabelle.thy ===== *)
theory Spec2Isabelle
  imports CacheProps ProxyProps ProxyMainProps LoggingProps ChunkedProps ThreadpoolProps ListStoreProps QueueThreadsProps QueueLifeProps MythreadProps LockMains UthreadRunProps Rand
    SignalsProps ThreadCancelProps ThreadArgsProps ThreadCountersProps
begin

text \<open>
  Verification library for the OS2-labs repository: a caching HTTP proxy and the laboratory programs
  on threads and locks it grew out of.

  \<^bold>\<open>The programs.\<close> \<^verbatim>\<open>caching_http_proxy\<close> is a proxy with a pool of eight worker threads
  (\<^verbatim>\<open>threading/threadpool.c\<close>). The acceptor gives each client to the worker of least load; a worker
  polls its clients and runs \<open>process_request\<close> (\<^verbatim>\<open>proxy/proxy.c\<close>) for each that has something to read;
  that looks the request up in a shared cache (\<^verbatim>\<open>caching/httpcache.c\<close>) and otherwise downloads it,
  filling a new entry of the cache. A collector thread sweeps the cache. \<^verbatim>\<open>1/1.1\<close> to \<^verbatim>\<open>1/1.5\<close> are exercises with threads: shared
  variables, values and arguments, cancellation, signals. \<^verbatim>\<open>1/1.6\<close> makes kernel threads
  with \<open>clone\<close>; \<^verbatim>\<open>1/1.7\<close> is a library of user-level threads; \<^verbatim>\<open>2/2.1\<close> and \<^verbatim>\<open>2/2.2\<close> are a bounded queue,
  unsynchronised and with four kinds of synchronisation, with a reader and a writer; \<^verbatim>\<open>2/2.3\<close> is a linked
  list with one lock per node, in three versions; \<^verbatim>\<open>2/2.4\<close> are a spin lock and a futex mutex.

  \<^bold>\<open>How C is modelled.\<close> A piece of code is a function to \<open>'a run\<close> (\<^verbatim>\<open>Prelude\<close>): a value, a crash (with
  its reason: a missing or freed node, an index out of bounds, a failed assertion, \<open>abort\<close>) or no
  return at all. Structs are records, pointers are optional addresses, and each kind of node has its
  own heap, a map from addresses. What a system call, an allocation or another thread contributes is
  an argument: the result of \<open>malloc\<close>, the outcomes of \<open>recv\<close>, \<open>send\<close>, \<open>connect\<close> and \<open>poll\<close>, the
  random numbers, the values of \<open>errno\<close>. Loops over linked lists are \<open>partial_function (option)\<close>, so that their ending is a
  theorem; loops with a bound in the code recurse on it, and no fuel is used anywhere. Concurrent
  programs are step relations whose steps are the code between two synchronisation operations, and
  functions of a schedule, access by access, where they race.

  \<^bold>\<open>The theories.\<close>
  \<^item> \<^verbatim>\<open>Prelude\<close>: runs, heaps, list segments in a heap, the outcome rules.
  \<^item> \<^verbatim>\<open>LockOrder\<close>: the mutexes of the proxy in a linear order, the replay of a trace of lock operations,
    and why threads that respect the order cannot all be blocked.
  \<^item> \<^verbatim>\<open>CacheTypes\<close>, \<^verbatim>\<open>CacheLru\<close>, \<^verbatim>\<open>CacheChunks\<close>, \<^verbatim>\<open>CacheTable\<close>: the structs and operations of
    \<^verbatim>\<open>httpcache.c\<close>: the least-recently-used list, the data chunks of an entry, the hash table with
    lookup, insertion, release, eviction and sweeping. Every operation records the mutexes it takes.
  \<^item> \<^verbatim>\<open>CacheInv\<close>: the invariant of a cache; \<^verbatim>\<open>CacheLookup\<close>, \<^verbatim>\<open>CacheSweep\<close>, \<^verbatim>\<open>CacheLife\<close>, \<^verbatim>\<open>CacheEnd\<close>: each
    operation keeps it, with its result on every branch.
  \<^item> \<^verbatim>\<open>CacheSpec\<close>: the abstract cache (entries with address, bytes, state and references) and the
    refinement of each operation; \<^verbatim>\<open>CacheSystem\<close>: the states the workers and the collector can reach.
  \<^item> \<^verbatim>\<open>Picohttp\<close>: the HTTP parser of \<^verbatim>\<open>third_party/picohttpparser.c\<close>, function by function, with both fast
    paths; \<^verbatim>\<open>PicohttpScan\<close>: how it scans, with the interfaces \<open>scanner\<close> and \<open>message_parser\<close> that the
    exported functions rest on, interpreted on the parsers of requests, responses and header sections;
    \<^verbatim>\<open>PicohttpProps\<close>: printing and the properties; \<^verbatim>\<open>Chunked\<close>: the decoder of chunked bodies, in place in its
    buffer, and in \<^verbatim>\<open>ChunkedProps\<close> the automaton over single bytes that it computes; \<^verbatim>\<open>ProxyRecv\<close>: the loop of the proxy that receives a
    request with it.
  \<^item> \<^verbatim>\<open>ProxyIo\<close>, \<^verbatim>\<open>Proxy\<close>: sending, headers, \<open>process_request\<close> with all its phases; a finished entry is an
    instance of the interface \<open>byte_source\<close> that serving a client rests on. \<^verbatim>\<open>ProxyOutcome\<close>: what each phase
    leaves behind; \<^verbatim>\<open>ProxyReturns\<close>: that each phase returns when the peers end.
  \<^item> \<^verbatim>\<open>ProxyMain\<close>: \<open>proxy_start\<close>, its accept loop, the signal handler and the shutdown; \<^verbatim>\<open>Logging\<close>: the log
    library.
  \<^item> \<^verbatim>\<open>Threadpool\<close>: choice of a worker, adding clients, a worker against the acceptor, start and stop.
  \<^item> \<^verbatim>\<open>ListStore\<close>: the walkers and swappers of \<^verbatim>\<open>2/2.3\<close>; what all three programs keep is proved once in
    the locale \<open>list_program\<close>, with each program an interpretation.
  \<^item> \<^verbatim>\<open>Queue\<close>: the five queues; the interfaces \<open>bounded_fifo\<close> (one caller) and \<open>locked_queue\<close> (many) are
    interpreted on the plain, mutex and spin lock versions. \<^verbatim>\<open>QueueThreads\<close>: the reader and the writer
    on each of them; \<^verbatim>\<open>QueueLife\<close>: locks made and destroyed, the \<open>main\<close> functions, the example.
  \<^item> \<^verbatim>\<open>Locks\<close>: the two locks of \<^verbatim>\<open>2/2.4\<close> with the threads that count under them; \<^verbatim>\<open>LockMains\<close>: their \<open>main\<close>,
    which rests on the interface \<open>counting_threads\<close> that both locks provide. \<^verbatim>\<open>Rand\<close>: the generator of the list programs.
  \<^item> \<^verbatim>\<open>ThreadCounters\<close> (\<^verbatim>\<open>1/1.1\<close>): five threads that increment without a lock; \<^verbatim>\<open>ThreadArgs\<close> (\<^verbatim>\<open>1/1.2\<close>, \<^verbatim>\<open>1/1.3\<close>): what is
    handed to threads and back, and creation until it fails; \<^verbatim>\<open>ThreadCancel\<close> (\<^verbatim>\<open>1/1.4\<close>): threads cancelled while they
    print, count or hold a buffer; \<^verbatim>\<open>Signals\<close> (\<^verbatim>\<open>1/1.5\<close>): masks, pending signals, a handler and \<open>sigwait\<close>.
  \<^item> \<^verbatim>\<open>Mythread\<close>: threads by \<open>clone\<close> with every system call that may fail, their join and \<open>main\<close>.
  \<^item> \<^verbatim>\<open>Uthread\<close>: the table of user-level threads, the scheduler, the contexts and the program.
  \<^item> The theories with names ending in \<^verbatim>\<open>Props\<close> hold the properties, each after a text with its number.

  \<^bold>\<open>What is shown.\<close> For the parser: on any bytes it stays inside its buffer, unless it is told that there were over three bytes more before, and
  gives proper slices, its fast
  paths agree with the plain loops, it decides as soon as a message is there and never takes back what
  it decided, so the pieces in which a request arrives do not matter; what is printed is parsed back,
  and the decoder of chunked bodies computes an automaton and gives back what was chunked.
  For the cache: in every state the workers can bring it to, table, list, sizes and
  references are consistent; every operation refines the abstract cache and returns; the lock order is kept; a
  waiting reader is woken by the broadcast of the writer. For
  a request that names its host, within the sizes the code assumes: whatever the peers do, and whatever the other
  workers do to entries while it waits, the worker does not crash, ends with its sockets closed, its mutexes
  released and no reference kept, and does end when the peers and its waits do; a download of known length reaches the client and the cache byte for
  byte. For the main thread: it places every client with a worker or closes it, and every way out of it gives back what was
  taken, but for the workers of a pool that could not be completed. For the pool: clients are conserved, none lost or
  closed twice; a worker crashes or hangs only in a request; and the two ways in which its shutdown can hang. For the list: it stays a permutation of
  its nodes and its threads never deadlock. For the queues: they are bounded first-in first-out
  queues under any interleaving, lose no wake-up, and their reader never sees a value out of order. For the
  locks: they exclude, so the count is exact. For the threads: scheduling is round robin, and the
  program of user-level threads would run all threads to their ends if the slot of \<open>main\<close> had the size of a context (it
  has 8 bytes, so the first switch writes past it); a cancelled thread frees its buffer; signals interrupt only the threads
  that do not block them, \<open>SIGKILL\<close> and \<open>SIGSTOP\<close> all. Where the code goes wrong, the execution that
  shows it is a theorem as well: the cached copy of a response without length is cut, a request
  without Host header crashes the worker, a socket is closed twice, a wake-up at shutdown is lost, the
  workers run on freed memory when the start of the pool fails, the tenth user-level thread is
  written past its table, the context of \<open>main\<close> past its variable, the unsynchronised queue loses values and crashes, a joined thread runs on after its stack was
  unmapped, a stale \<open>errno\<close> makes thread creation fail, a struct is freed twice when a creation fails, a
  counting thread cannot be cancelled, and \<open>sigwait\<close> takes signals it was not meant for.

  \<^bold>\<open>Bounds.\<close> The constants of the code (table sizes, limits, buffer sizes, thread counts) are definitions
  with its values. Counters that the code keeps in 64 bits and that only count are words where they
  may wrap (\<^verbatim>\<open>ListStore\<close>) and integers where the theorem bounds them.

  \<^bold>\<open>Not modelled.\<close> The lines of the exercises that only print identifiers, addresses and messages, and the code of
  \<^verbatim>\<open>1/1.5\<close> after its endless loop. The formatting and printing of log lines, the monitors and statistics of the
  laboratory programs and their CPU affinity are output and tuning. The machine state inside a user-level context and the
  stacks of threads but for the struct that lies on them are not modelled. In the race of the queue and in the programs of
  \<^verbatim>\<open>1/1.6\<close> an access to memory is one step and steps are seen in order by all threads: a weaker memory model is
  not considered. A cache operation is one step of the shared cache, except that a reader waits. The values of the writers and the statistics are integers: their overflow is not considered.
\<close>

end
